(* ===== verification/Prelude.thy ===== *)
theory Prelude
  imports Complex_Main "HOL-Library.Multiset" "HOL-Library.Signed_Division"
begin

section \<open>Shared prelude\<close>

text \<open>
  What every component of the development uses: the outcome of a Go call (a value, a returned
  error or a panic), the sorting functions of Go's package \<open>sort\<close> with the laws their callers
  rely on, binary search, and the collections of facts the component proofs pass to the
  simplifier.  Go's \<open>/\<close> and \<open>%\<close> on integers truncate towards zero: they are \<open>sdiv\<close> and \<open>smod\<close>
  of \<open>HOL-Library.Signed_Division\<close>.
\<close>

named_theorems go_time_simps \<open>unfolding rules of the time model\<close>
named_theorems go_sort_simps \<open>permutation facts of the sorting functions\<close>

subsection \<open>Outcomes\<close>

text \<open>
  A Go function that may panic returns \<open>Inl (Panic msg)\<close> or \<open>Inr v\<close>.  The message is the
  constant part of the text the code passes to \<open>panic\<close>.
\<close>

datatype go_panic = Panic string

type_synonym 'a outcome = "go_panic + 'a"

definition obind :: "'e + 'a \<Rightarrow> ('a \<Rightarrow> 'e + 'b) \<Rightarrow> 'e + 'b" where
  "obind r f = (case r of Inl e \<Rightarrow> Inl e | Inr v \<Rightarrow> f v)"

lemma obind_simps [simp]:
  "obind (Inl e) f = Inl e"
  "obind (Inr v) f = f v"
  by (simp_all add: obind_def)

lemma obind_Inr_iff: "obind r f = Inr w \<longleftrightarrow> (\<exists>v. r = Inr v \<and> f v = Inr w)"
  by (cases r) auto

lemma obind_InrE [elim!]:
  assumes "obind r f = Inr w"
  obtains v where "r = Inr v" and "f v = Inr w"
  using assms by (auto simp: obind_Inr_iff)

text \<open>A loop over a slice whose body may panic: the first panic stops it.\<close>

fun ofold :: "('a \<Rightarrow> 's \<Rightarrow> 'e + 's) \<Rightarrow> 'a list \<Rightarrow> 's \<Rightarrow> 'e + 's" where
  "ofold f [] s = Inr s"
| "ofold f (x # xs) s = obind (f x s) (ofold f xs)"

lemma ofold_append: "ofold f (xs @ ys) s = obind (ofold f xs s) (ofold f ys)"
proof (induction xs arbitrary: s)
  case Nil
  then show ?case by simp
next
  case (Cons x xs)
  then show ?case by (cases "f x s") auto
qed

lemma ofold_invariant:
  assumes "ofold f xs s = Inr s'" and "P s"
    and "\<And>x s s'. x \<in> set xs \<Longrightarrow> P s \<Longrightarrow> f x s = Inr s' \<Longrightarrow> P s'"
  shows "P s'"
  using assms
proof (induction xs arbitrary: s)
  case Nil
  then show ?case by simp
next
  case (Cons x xs)
  from Cons.prems(1) obtain s1 where s1: "f x s = Inr s1" and rest: "ofold f xs s1 = Inr s'"
    by auto
  from Cons.prems s1 have "P s1" by (meson list.set_intros(1))
  then show ?case using Cons.IH [OF rest] Cons.prems(3) by (meson list.set_intros(2))
qed

subsection \<open>The package sort\<close>

text \<open>
  \<open>sort.SliceStable\<close> and \<open>sort.Slice\<close> sort by a \<open>less\<close> function.  \<open>sort_by\<close> is a stable sort by such a
  function: it models \<open>SliceStable\<close>, and \<open>Slice\<close> where what the caller computes does not depend on the
  order of elements that compare equal.  Where it may (the duplicates of messages), the sort is a
  parameter that returns some sorted permutation.
\<close>

fun insert_by :: "('a \<Rightarrow> 'a \<Rightarrow> bool) \<Rightarrow> 'a \<Rightarrow> 'a list \<Rightarrow> 'a list" where
  "insert_by lt x [] = [x]"
| "insert_by lt x (y # ys) = (if lt y x then y # insert_by lt x ys else x # y # ys)"

definition sort_by :: "('a \<Rightarrow> 'a \<Rightarrow> bool) \<Rightarrow> 'a list \<Rightarrow> 'a list" where
  "sort_by lt xs = foldr (insert_by lt) xs []"

lemma sort_by_simps [simp]:
  "sort_by lt [] = []"
  "sort_by lt (x # xs) = insert_by lt x (sort_by lt xs)"
  by (simp_all add: sort_by_def)

lemma mset_insert_by [simp, go_sort_simps]: "mset (insert_by lt x xs) = add_mset x (mset xs)"
  by (induction xs) auto

lemma mset_sort_by [simp, go_sort_simps]: "mset (sort_by lt xs) = mset xs"
  by (induction xs) auto

lemma set_insert_by [simp, go_sort_simps]: "set (insert_by lt x xs) = insert x (set xs)"
  using mset_insert_by [of lt x xs] by (metis set_mset_mset set_mset_add_mset_insert)

lemma set_sort_by [simp, go_sort_simps]: "set (sort_by lt xs) = set xs"
  using mset_sort_by [of lt xs] by (metis set_mset_mset)

lemma length_sort_by [simp, go_sort_simps]: "length (sort_by lt xs) = length xs"
  using mset_sort_by [of lt xs] by (metis size_mset)

lemma sort_by_eq_Nil [simp]: "sort_by lt xs = [] \<longleftrightarrow> xs = []"
  by (metis length_0_conv length_sort_by)

text \<open>
  The contract of a \<open>less\<close> function: a strict weak order.  Every comparison the code passes
  to \<open>sort\<close> is an instance.
\<close>

locale less_fun =
  fixes lt :: "'a \<Rightarrow> 'a \<Rightarrow> bool"
  assumes less_asym: "lt x y \<Longrightarrow> \<not> lt y x"
    and less_cotrans: "lt x z \<Longrightarrow> lt x y \<or> lt y z"
begin

abbreviation sorted_less :: "'a list \<Rightarrow> bool" where
  "sorted_less xs \<equiv> sorted_wrt (\<lambda>x y. \<not> lt y x) xs"

lemma sorted_insert_by: "sorted_less xs \<Longrightarrow> sorted_less (insert_by lt x xs)"
proof (induction xs)
  case Nil
  then show ?case by simp
next
  case (Cons y ys)
  show ?case
  proof (cases "lt y x")
    case True
    then have "\<not> lt x y" by (rule less_asym)
    with Cons True show ?thesis by simp
  next
    case False
    have "\<not> lt z x" if "z \<in> set ys" for z
    proof
      assume "lt z x"
      from less_cotrans [OF this, of y] False have "lt z y" by blast
      with Cons.prems that show False by simp
    qed
    with Cons.prems False show ?thesis by auto
  qed
qed

lemma sorted_sort_by: "sorted_less (sort_by lt xs)"
  by (induction xs) (simp_all add: sorted_insert_by)

lemma insert_by_front: "(\<forall>y \<in> set xs. \<not> lt y x) \<Longrightarrow> insert_by lt x xs = x # xs"
  by (cases xs) auto

lemma sort_by_sorted: "sorted_less xs \<Longrightarrow> sort_by lt xs = xs"
  by (induction xs) (auto simp: insert_by_front)

end

text \<open>A comparison by a key is such a contract, and \<open>sort_by\<close> is then the library's \<open>sort_key\<close>.\<close>

lemma less_fun_key: "less_fun (\<lambda>x y. (f x :: 'b::linorder) < f y)"
  by unfold_locales auto

interpretation int_less: less_fun "\<lambda>x y. (x :: int) < y"
  by (rule less_fun_key)

lemma sort_by_key: "sort_by (\<lambda>x y. (f x :: 'b::linorder) < f y) xs = sort_key f xs"
proof (induction xs)
  case Nil
  then show ?case by simp
next
  case (Cons x xs)
  have "insert_by (\<lambda>x y. f x < f y) x ys = insort_key f x ys" for ys
    by (induction ys) auto
  with Cons show ?case by simp
qed

subsection \<open>Binary search\<close>

text \<open>\<open>sort.Search\<close>: the loop keeps \<open>f (i-1) = false\<close> and \<open>f j = true\<close>.\<close>

function search_loop :: "(nat \<Rightarrow> bool) \<Rightarrow> nat \<Rightarrow> nat \<Rightarrow> nat" where
  "search_loop f i j =
     (if i < j then
        (let h = (i + j) div 2 in
         if \<not> f h then search_loop f (h + 1) j else search_loop f i h)
      else i)"
  by pat_completeness auto
termination
  by (relation "measure (\<lambda>(f, i, j). j - i)") auto

declare search_loop.simps [simp del]

definition sort_Search :: "nat \<Rightarrow> (nat \<Rightarrow> bool) \<Rightarrow> nat" where
  "sort_Search n f = search_loop f 0 n"

lemma search_loop_least:
  assumes mono: "\<And>k l. k \<le> l \<Longrightarrow> l < n \<Longrightarrow> f k \<Longrightarrow> f l"
    and "i \<le> j" "j \<le> n" "\<And>k. k < i \<Longrightarrow> \<not> f k" "\<And>k. j \<le> k \<Longrightarrow> k < n \<Longrightarrow> f k"
  shows "(\<forall>k < search_loop f i j. \<not> f k)
    \<and> (\<forall>k. search_loop f i j \<le> k \<longrightarrow> k < n \<longrightarrow> f k) \<and> search_loop f i j \<le> j"
  using assms(2-)
proof (induction "j - i" arbitrary: i j rule: less_induct)
  case less
  let ?h = "(i + j) div 2"
  consider "\<not> i < j" | "i < j" "f ?h" | "i < j" "\<not> f ?h" by blast
  then show ?case
  proof cases
    case 1
    then have "search_loop f i j = i" by (simp add: search_loop.simps [of f i j])
    with 1 less.prems show ?thesis by auto
  next
    case 2
    then have h: "i \<le> ?h" "?h < j" by auto
    have up: "f k" if "?h \<le> k" "k < n" for k
      using mono [OF that] 2(2) by simp
    have "(\<forall>k < search_loop f i ?h. \<not> f k)
        \<and> (\<forall>k. search_loop f i ?h \<le> k \<longrightarrow> k < n \<longrightarrow> f k) \<and> search_loop f i ?h \<le> ?h"
      using h less.prems(2,3) up by (intro less.hyps) auto
    moreover have "search_loop f i j = search_loop f i ?h"
      using 2 by (simp add: search_loop.simps [of f i j] Let_def)
    ultimately show ?thesis using h by auto
  next
    case 3
    then have h: "i \<le> ?h" "?h < j" by auto
    have low: "\<not> f k" if "k < ?h + 1" for k
      using mono [of k ?h] that 3(2) h less.prems(2) by auto
    have "(\<forall>k < search_loop f (?h + 1) j. \<not> f k)
        \<and> (\<forall>k. search_loop f (?h + 1) j \<le> k \<longrightarrow> k < n \<longrightarrow> f k) \<and> search_loop f (?h + 1) j \<le> j"
      using h less.prems(2,4) low by (intro less.hyps) auto
    moreover have "search_loop f i j = search_loop f (?h + 1) j"
      using 3 by (simp add: search_loop.simps [of f i j] Let_def)
    ultimately show ?thesis by auto
  qed
qed

text \<open>On a monotone predicate the result is the first index that satisfies it, or \<open>n\<close>.\<close>

lemma sort_Search_unique:
  assumes mono: "\<And>k l. k \<le> l \<Longrightarrow> l < n \<Longrightarrow> f k \<Longrightarrow> f l"
    and "m \<le> n" "\<And>k. k < m \<Longrightarrow> \<not> f k" "m < n \<Longrightarrow> f m"
  shows "sort_Search n f = m"
proof -
  have r: "(\<forall>k < sort_Search n f. \<not> f k)
      \<and> (\<forall>k. sort_Search n f \<le> k \<longrightarrow> k < n \<longrightarrow> f k) \<and> sort_Search n f \<le> n"
    unfolding sort_Search_def by (rule search_loop_least) (use mono in auto)
  show ?thesis
  proof (rule linorder_cases [of "sort_Search n f" m])
    assume "sort_Search n f < m"
    with r assms(2,3) show ?thesis by (metis order.refl order.strict_trans2)
  next
    assume "m < sort_Search n f"
    with r assms(4) show ?thesis by (metis order.strict_trans2)
  qed
qed

end
