(* ===== verification/GoTime.thy ===== *)
theory GoTime
  imports Prelude
begin

section \<open>The part of Go's package time the program uses\<close>

text \<open>
  An instant is the number of nanoseconds since the Unix epoch and a \<open>time.Duration\<close> a number
  of nanoseconds.  A \<open>time.Location\<close> is the UTC offset before its first transition and the list
  of its transitions (Unix second, new offset in seconds); \<open>lookup\<close>, \<open>Date\<close> and \<open>AddDate\<close> follow
  the package's own algorithms, including the rule by which \<open>time.Date\<close> picks an offset near a
  transition.  A Go \<open>time.Time\<close> carries its location; the operations that read it take the
  location as their first argument.  Instants are unbounded integers: the program's times are
  far inside the range of \<open>int64\<close>, and \<open>Sub\<close>, which saturates, is modelled with its bounds.
\<close>

type_synonym instant = int
type_synonym duration = int

abbreviation Second :: int where "Second \<equiv> 1000000000"
abbreviation Minute :: int where "Minute \<equiv> 60000000000"
abbreviation Hour :: int where "Hour \<equiv> 3600000000000"
abbreviation Day :: int where "Day \<equiv> 86400000000000"

subsection \<open>Instants and durations\<close>

text \<open>The zero \<open>time.Time\<close> is 1 January of year 1; \<open>Truncate\<close> counts from it.\<close>

definition time_zero :: instant where
  "time_zero = -62135596800000000000"

definition IsZero :: "instant \<Rightarrow> bool" where
  "IsZero t \<longleftrightarrow> t = time_zero"

definition Truncate :: "instant \<Rightarrow> duration \<Rightarrow> instant" where
  "Truncate t d = (if d \<le> 0 then t else t - (t - time_zero) mod d)"

definition Duration_Truncate :: "duration \<Rightarrow> duration \<Rightarrow> duration" where
  "Duration_Truncate d m = (if m \<le> 0 then d else d - d smod m)"

definition Unix :: "instant \<Rightarrow> int" where
  "Unix t = t div Second"

definition Sub :: "instant \<Rightarrow> instant \<Rightarrow> duration" where
  "Sub t u = max (- (2 ^ 63)) (min (2 ^ 63 - 1) (t - u))"

lemma Truncate_bounds:
  assumes "0 < d"
  shows "Truncate t d \<le> t" and "t < Truncate t d + d"
  using assms pos_mod_bound [of d "t - time_zero"] pos_mod_sign [of d "t - time_zero"]
  by (simp_all add: Truncate_def)

lemma Truncate_mono: "0 < d \<Longrightarrow> s \<le> t \<Longrightarrow> Truncate s d \<le> Truncate t d"
proof -
  assume d: "0 < d" and st: "s \<le> t"
  let ?s = "s - time_zero" and ?t = "t - time_zero"
  have "?s - ?s mod d = d * (?s div d)" "?t - ?t mod d = d * (?t div d)"
    by (simp_all add: minus_mod_eq_mult_div)
  moreover have "d * (?s div d) \<le> d * (?t div d)"
    using d st by (intro mult_left_mono zdiv_mono1) auto
  ultimately have "?s - ?s mod d \<le> ?t - ?t mod d" by linarith
  then show ?thesis using d by (simp add: Truncate_def)
qed

lemma Truncate_Minute [go_time_simps]: "Truncate t Minute = t - t mod Minute"
proof -
  have "t - time_zero = t + 1035593280 * Minute" by (simp add: time_zero_def)
  then have "(t - time_zero) mod Minute = t mod Minute"
    by (simp only: mod_mult_self1)
  then show ?thesis by (simp add: Truncate_def)
qed

lemma Truncate_idem [simp]: "Truncate (Truncate t d) d = Truncate t d"
proof (cases "d \<le> 0")
  case False
  have "(t - (t - time_zero) mod d - time_zero) mod d = ((t - time_zero) - (t - time_zero) mod d) mod d"
    by (simp add: algebra_simps)
  also have "\<dots> = 0" by simp
  finally show ?thesis using False by (simp add: Truncate_def)
qed (simp add: Truncate_def)

lemma Sub_small [go_time_simps]:
  "\<bar>t - u\<bar> < 2 ^ 63 \<Longrightarrow> Sub t u = t - u"
  by (auto simp: Sub_def)

subsection \<open>Locations\<close>

record location =
  loc_base :: int
  loc_tx :: "(int \<times> int) list"

definition alpha :: int where "alpha = - (2 ^ 63)"
definition omega :: int where "omega = 2 ^ 63 - 1"

text \<open>\<open>Location.lookup\<close>: the offset at a Unix second and the span in which it is in force.\<close>

fun lookup_tx :: "int \<Rightarrow> int \<Rightarrow> (int \<times> int) list \<Rightarrow> int \<Rightarrow> int \<times> int \<times> int" where
  "lookup_tx off st [] sec = (off, st, omega)"
| "lookup_tx off st ((w, off') # tx) sec =
     (if sec < w then (off, st, w) else lookup_tx off' w tx sec)"

definition lookup :: "location \<Rightarrow> int \<Rightarrow> int \<times> int \<times> int" where
  "lookup l sec = lookup_tx (loc_base l) alpha (loc_tx l) sec"

definition zone_offset :: "location \<Rightarrow> instant \<Rightarrow> int" where
  "zone_offset l t = fst (lookup l (Unix t))"

text \<open>The wall clock of an instant, in nanoseconds since the local epoch.\<close>

definition wall :: "location \<Rightarrow> instant \<Rightarrow> int" where
  "wall l t = t + zone_offset l t * Second"

definition local_day :: "location \<Rightarrow> instant \<Rightarrow> int" where
  "local_day l t = wall l t div Day"

definition time_of_day :: "location \<Rightarrow> instant \<Rightarrow> int" where
  "time_of_day l t = wall l t mod Day"

definition Weekday :: "location \<Rightarrow> instant \<Rightarrow> int" where
  "Weekday l t = (local_day l t + 4) mod 7"

definition clock_hour :: "location \<Rightarrow> instant \<Rightarrow> int" where
  "clock_hour l t = time_of_day l t div Hour"

definition clock_minute :: "location \<Rightarrow> instant \<Rightarrow> int" where
  "clock_minute l t = time_of_day l t mod Hour div Minute"

text \<open>
  \<open>time.Date\<close> for a date and time of day already added up to nanoseconds of wall clock: the
  offset is looked up as if the wall clock were UTC, and once more if that offset does not
  cover the resulting instant.
\<close>

definition Date :: "location \<Rightarrow> int \<Rightarrow> instant" where
  "Date l w =
     (let unix = w div Second;
          (off, st, en) = lookup l unix
      in if off = 0 then w
         else let utc = unix - off;
                  off' = (if utc < st \<or> en \<le> utc then fst (lookup l utc) else off)
              in w - off' * Second)"

subsection \<open>The calendar\<close>

text \<open>
  A civil date is an absolute month (12 times the year plus the month from 0) and a day of the
  month; \<open>time.Date\<close> normalises an overflowing month and day by adding them up, as
  \<open>month_start am + d - 1\<close> does.  Years begin in March here, so that the leap day is the last
  of the year.
\<close>

definition march_year :: "int \<Rightarrow> int" where
  "march_year y = 365 * y + y div 4 - y div 100 + y div 400 - 719468"

definition month_start :: "int \<Rightarrow> int" where
  "month_start am = march_year ((am - 2) div 12) + (153 * ((am - 2) mod 12) + 2) div 5"

definition year_of_day :: "int \<Rightarrow> int" where
  "year_of_day n =
     (let y = (400 * (n + 719468)) div 146097
      in if march_year (y + 1) \<le> n then y + 1 else y)"

text \<open>The civil date of a day number: (absolute month, day of month from 1).\<close>

definition civil :: "int \<Rightarrow> int \<times> int" where
  "civil n =
     (let y = year_of_day n; doy = n - march_year y; mp = (5 * doy + 2) div 153
      in (12 * y + mp + 2, doy - (153 * mp + 2) div 5 + 1))"

text \<open>\<open>Time.AddDate\<close>: the same time of day on the normalised date.\<close>

definition AddDate :: "location \<Rightarrow> instant \<Rightarrow> int \<Rightarrow> int \<Rightarrow> int \<Rightarrow> instant" where
  "AddDate l t years months days =
     (let (am, d) = civil (local_day l t)
      in Date l ((month_start (am + 12 * years + months) + (d + days) - 1) * Day + time_of_day l t))"

subsection \<open>Facts about locations\<close>

definition fixed_loc :: "int \<Rightarrow> location" where
  "fixed_loc off = \<lparr>loc_base = off, loc_tx = []\<rparr>"

lemma lookup_fixed [simp]: "lookup (fixed_loc off) sec = (off, alpha, omega)"
  by (simp add: lookup_def fixed_loc_def)

lemma zone_offset_fixed [simp]: "zone_offset (fixed_loc off) t = off"
  by (simp add: zone_offset_def)

lemma wall_fixed [go_time_simps]: "wall (fixed_loc off) t = t + off * Second"
  by (simp add: wall_def)

lemma Date_fixed [go_time_simps]: "Date (fixed_loc off) w = w - off * Second"
  by (simp add: Date_def Let_def)

lemma wall_split: "wall l t = local_day l t * Day + time_of_day l t"
  by (simp add: local_day_def time_of_day_def)

lemma time_of_day_bounds: "0 \<le> time_of_day l t" "time_of_day l t < Day"
  by (simp_all add: time_of_day_def)

lemma Weekday_bounds: "0 \<le> Weekday l t" "Weekday l t < 7"
  by (simp_all add: Weekday_def)

lemma local_day_unique:
  assumes "wall l t = d * Day + c" "0 \<le> c" "c < Day"
  shows "local_day l t = d" and "time_of_day l t = c"
  using assms by (simp_all add: local_day_def time_of_day_def)

subsection \<open>Facts about the calendar\<close>

lemma div_bounds:
  assumes "0 < (k :: int)"
  shows "k * (a div k) \<le> a" and "a < k * (a div k) + k"
proof -
  have "k * (a div k) + a mod k = a" by simp
  with pos_mod_sign [OF assms, of a] pos_mod_bound [OF assms, of a]
  show "k * (a div k) \<le> a" and "a < k * (a div k) + k" by linarith+
qed

lemma div_bounds_num:
  "numeral k * (a div numeral k) \<le> (a :: int)" "a < numeral k * (a div numeral k) + numeral k"
  by (rule div_bounds; simp)+

lemma div_unique_bounds:
  assumes "0 < (k :: int)" "k * q \<le> a" "a < k * q + k"
  shows "a div k = q"
  using assms by (intro int_div_pos_eq [where r = "a - k * q"]) auto

lemma div_succ:
  assumes "0 < (k :: int)"
  shows "(y + 1) div k = y div k + (if k dvd y + 1 then 1 else 0)"
proof (cases "k dvd y + 1")
  case True
  then obtain q where q: "y + 1 = k * q" by blast
  have "y div k = q - 1"
    using assms q by (intro div_unique_bounds) (auto simp: algebra_simps)
  with True q assms show ?thesis by simp
next
  case False
  have "y + 1 \<noteq> k * (y div k) + k"
    using False by (metis dvd_add_triv_right_iff dvd_triv_left)
  with div_bounds [OF assms, of y] have "(y + 1) div k = y div k"
    using assms by (intro div_unique_bounds) auto
  with False show ?thesis by simp
qed

lemma march_year_step: "365 \<le> march_year (y + 1) - march_year y"
  "march_year (y + 1) - march_year y \<le> 366"
proof -
  have 1: "(4::int) dvd y + 1" if "(100::int) dvd y + 1"
    using that dvd_trans [of "4::int" 100 "y + 1"] by simp
  have 2: "(100::int) dvd y + 1" if "(400::int) dvd y + 1"
    using that dvd_trans [of "100::int" 400 "y + 1"] by simp
  define b :: "int \<Rightarrow> int" where "b k = (if k dvd y + 1 then 1 else 0)" for k
  have d: "(y + 1) div k = y div k + b k" if "0 < k" for k
    unfolding b_def using that by (rule div_succ)
  have b: "0 \<le> b 400" "b 400 \<le> b 100" "b 100 \<le> b 4" "b 4 \<le> 1"
    using 1 2 by (simp_all add: b_def)
  have "march_year (y + 1) - march_year y = 365 + b 4 - b 100 + b 400"
    by (simp add: march_year_def d)
  with b show "365 \<le> march_year (y + 1) - march_year y" "march_year (y + 1) - march_year y \<le> 366"
    by simp_all
qed

lemma march_year_average:
  "400 * march_year y + 287787200 < 146097 * y + 400"
  "146097 * y - 800 < 400 * march_year y + 287787200"
proof -
  define a b c where "a = y div 4" and "b = y div 100" and "c = y div 400"
  have "4 * a \<le> y" "y < 4 * a + 4" "100 * b \<le> y" "y < 100 * b + 100"
    "400 * c \<le> y" "y < 400 * c + 400"
    unfolding a_def b_def c_def by (rule div_bounds_num)+
  moreover have "march_year y = 365 * y + a - b + c - 719468"
    by (simp add: march_year_def a_def b_def c_def)
  ultimately show "400 * march_year y + 287787200 < 146097 * y + 400"
    "146097 * y - 800 < 400 * march_year y + 287787200" by linarith+
qed

lemma year_of_day_bounds: "march_year (year_of_day n) \<le> n" "n < march_year (year_of_day n + 1)"
proof -
  define m where "m = 400 * n + 287787200"
  define y where "y = m div 146097"
  have y: "146097 * y \<le> m" "m < 146097 * y + 146097"
    unfolding y_def by (rule div_bounds_num)+
  have lo: "march_year y \<le> n" using y march_year_average(1) [of y] unfolding m_def by linarith
  have hi: "n < march_year (y + 2)"
    using y march_year_average(2) [of "y + 2"] unfolding m_def by (simp add: distrib_left)
  have eq: "year_of_day n = (if march_year (y + 1) \<le> n then y + 1 else y)"
    by (simp add: year_of_day_def y_def m_def Let_def distrib_left)
  show "march_year (year_of_day n) \<le> n" using lo eq by simp
  show "n < march_year (year_of_day n + 1)" using hi eq by (simp add: add.assoc)
qed

text \<open>The civil date of a day gives the day back, and its month index is in range.\<close>

lemma civil_month_start: "civil n = (am, d) \<Longrightarrow> month_start am + d - 1 = n"
proof -
  assume c: "civil n = (am, d)"
  define y where "y = year_of_day n"
  define doy where "doy = n - march_year y"
  define mp where "mp = (5 * doy + 2) div 153"
  have doy: "0 \<le> doy" "doy \<le> 365"
    using year_of_day_bounds [of n] march_year_step(2) [of y] unfolding doy_def y_def by linarith+
  have "153 * mp \<le> 5 * doy + 2" "5 * doy + 2 < 153 * mp + 153"
    unfolding mp_def by (rule div_bounds_num)+
  with doy have mp: "0 \<le> mp" "mp < 12" by linarith+
  from c have am: "am = 12 * y + mp + 2" and d: "d = doy - (153 * mp + 2) div 5 + 1"
    by (simp_all add: civil_def y_def doy_def mp_def Let_def)
  have y12: "(am - 2) div 12 = y" using am mp by (intro div_unique_bounds) auto
  moreover have "(am - 2) mod 12 = mp"
    using am y12 minus_mult_div_eq_mod [of "am - 2" 12] by simp
  ultimately have "(am - 2) div 12 = y" "(am - 2) mod 12 = mp" by simp_all
  then show ?thesis by (simp add: month_start_def d doy_def)
qed

lemma civil_day_pos: "civil n = (am, d) \<Longrightarrow> 1 \<le> d"
proof -
  assume c: "civil n = (am, d)"
  define doy where "doy = n - march_year (year_of_day n)"
  define mp where "mp = (5 * doy + 2) div 153"
  define r where "r = (153 * mp + 2) div 5"
  have "0 \<le> doy" using year_of_day_bounds [of n] unfolding doy_def by linarith
  moreover have "153 * mp \<le> 5 * doy + 2" unfolding mp_def by (rule div_bounds_num)
  moreover have "5 * r \<le> 153 * mp + 2" unfolding r_def by (rule div_bounds_num)
  ultimately have "r \<le> doy" by linarith
  with c show ?thesis by (simp add: civil_def doy_def mp_def r_def Let_def)
qed

lemma month_start_step: "28 \<le> month_start (am + 1) - month_start am"
  "month_start (am + 1) - month_start am \<le> 31"
proof -
  define y where "y = (am - 2) div 12"
  define mp where "mp = (am - 2) mod 12"
  have mp: "0 \<le> mp" "mp < 12" by (simp_all add: mp_def)
  have am: "am = 12 * y + mp + 2"
    using mult_div_mod_eq [of 12 "am - 2"] unfolding y_def mp_def by linarith
  have "28 \<le> month_start (am + 1) - month_start am \<and> month_start (am + 1) - month_start am \<le> 31"
  proof (cases "mp < 11")
    case True
    have "am + 1 - 2 = mp + 1 + y * 12" using am by simp
    with True mp have 1: "(am + 1 - 2) div 12 = y" "(am + 1 - 2) mod 12 = mp + 1"
      by (simp_all only: div_mult_self1 mod_mult_self1) simp_all
    have 0: "(am - 2) div 12 = y" "(am - 2) mod 12 = mp" by (simp_all add: y_def mp_def)
    define q r where "q = (153 * mp + 155) div 5" and "r = (153 * mp + 2) div 5"
    have "5 * q \<le> 153 * mp + 155" "153 * mp + 155 < 5 * q + 5"
      "5 * r \<le> 153 * mp + 2" "153 * mp + 2 < 5 * r + 5"
      unfolding q_def r_def by (rule div_bounds_num)+
    then have "30 \<le> q - r" "q - r \<le> 31" by linarith+
    then show ?thesis unfolding month_start_def 0 1 by (simp add: q_def r_def distrib_left add.commute)
  next
    case False
    have "am + 1 - 2 = 0 + (y + 1) * 12" using am mp False by simp
    then have 1: "(am + 1 - 2) div 12 = y + 1" "(am + 1 - 2) mod 12 = 0"
      by (simp_all only: div_mult_self1 mod_mult_self1) simp_all
    have 0: "(am - 2) div 12 = y" "(am - 2) mod 12 = 11"
      using False mp by (simp_all add: y_def mp_def)
    show ?thesis unfolding month_start_def 0 1 using march_year_step [of y] by simp
  qed
  then show "28 \<le> month_start (am + 1) - month_start am"
    "month_start (am + 1) - month_start am \<le> 31" by simp_all
qed

lemma month_start_nat: "month_start am + 28 * int k \<le> month_start (am + int k)"
proof (induction k)
  case (Suc k)
  have "month_start (am + int k) + 28 \<le> month_start (am + int k + 1)"
    using month_start_step(1) [of "am + int k"] by linarith
  with Suc show ?case by (simp add: algebra_simps)
qed simp

lemma month_start_mono: "0 \<le> k \<Longrightarrow> month_start am + 28 * k \<le> month_start (am + k)"
  using month_start_nat [of am "nat k"] by simp

text \<open>\<open>AddDate (0, 0, n)\<close> moves by days of the local calendar.\<close>

lemma AddDate_days [go_time_simps]:
  "AddDate l t 0 0 n = Date l ((local_day l t + n) * Day + time_of_day l t)"
proof -
  obtain am d where c: "civil (local_day l t) = (am, d)" by (cases "civil (local_day l t)")
  have "month_start am + (d + n) - 1 = local_day l t + n" using civil_month_start [OF c] by simp
  then show ?thesis by (simp only: AddDate_def c Let_def prod.case mult_zero_right add_0_right)
qed

end
