(* ===== verification/Validate.thy ===== *)
theory Validate
  imports Clock
begin

section \<open>Field validation: validation and validation/validate\<close>

text \<open>
  The errors of package \<open>validation\<close> and the validators of \<open>validation/validate\<close>.  A validator
  returns \<open>None\<close> (Go's nil) or the error.  Text is a list of runes; a validator of the code
  that looks at bytes works on a \<open>string\<close> of bytes.  \<open>IsPrint\<close> is Go's table for Latin-1 and,
  above it, the parameter \<open>uprint\<close> (the tables of package \<open>unicode\<close>).
\<close>

type_synonym rune = int
type_synonym runes = "int list"

datatype go_error =
    FieldError string string
  | MultiFieldError "(string \<times> string) list"
  | OtherError string

type_synonym error_result = "go_error option"

definition NewFieldError :: "string \<Rightarrow> string \<Rightarrow> error_result" where
  "NewFieldError fieldName reason = Some (FieldError fieldName reason)"

definition AddPrefix :: "string \<Rightarrow> error_result \<Rightarrow> error_result" where
  "AddPrefix p err =
     (case err of
        Some (FieldError f r) \<Rightarrow> Some (FieldError (p @ f) r)
      | Some (MultiFieldError es) \<Rightarrow> Some (MultiFieldError (map (\<lambda>(f, r). (p @ f, r)) es))
      | e \<Rightarrow> e)"

definition IsValidationError :: "error_result \<Rightarrow> bool" where
  "IsValidationError err =
     (case err of Some (FieldError _ _) \<Rightarrow> True | Some (MultiFieldError _) \<Rightarrow> True | _ \<Rightarrow> False)"

subsection \<open>Combining errors\<close>

fun many_loop :: "(string \<times> string) list \<Rightarrow> error_result list \<Rightarrow> go_error + (string \<times> string) list" where
  "many_loop flat [] = Inr flat"
| "many_loop flat (e # errs) =
     (case e of
        Some (MultiFieldError es) \<Rightarrow> many_loop (flat @ es) errs
      | Some (FieldError f r) \<Rightarrow> many_loop (flat @ [(f, r)]) errs
      | Some (OtherError m) \<Rightarrow> Inl (OtherError m)
      | None \<Rightarrow> many_loop flat errs)"

definition Many :: "error_result list \<Rightarrow> error_result" where
  "Many errs =
     (case many_loop [] errs of
        Inl e \<Rightarrow> Some e
      | Inr [] \<Rightarrow> None
      | Inr [(f, r)] \<Rightarrow> Some (FieldError f r)
      | Inr flat \<Rightarrow> Some (MultiFieldError flat))"

subsection \<open>Runes\<close>

definition IsSpace :: "rune \<Rightarrow> bool" where
  "IsSpace r \<longleftrightarrow> (9 \<le> r \<and> r \<le> 13) \<or> r = 32 \<or> r = 0x85 \<or> r = 0xA0 \<or> r = 0x1680
     \<or> (0x2000 \<le> r \<and> r \<le> 0x200A) \<or> r = 0x2028 \<or> r = 0x2029 \<or> r = 0x202F \<or> r = 0x205F \<or> r = 0x3000"

definition IsPrint :: "(rune \<Rightarrow> bool) \<Rightarrow> rune \<Rightarrow> bool" where
  "IsPrint uprint r =
     (if r \<le> 0xFF then (32 \<le> r \<and> r \<le> 126) \<or> (0xA1 \<le> r \<and> r \<noteq> 0xAD) else uprint r)"

definition TrimSpace :: "runes \<Rightarrow> runes" where
  "TrimSpace s = rev (dropWhile IsSpace (rev (dropWhile IsSpace s)))"

definition TrimRight :: "rune list \<Rightarrow> runes \<Rightarrow> runes" where
  "TrimRight cutset s = rev (dropWhile (\<lambda>r. r \<in> set cutset) (rev s))"

text \<open>\<open>strings.Split\<close> at a one-rune separator and \<open>strings.Join\<close>.\<close>

fun Split :: "'a \<Rightarrow> 'a list \<Rightarrow> 'a list list" where
  "Split sep [] = [[]]"
| "Split sep (x # xs) =
     (if x = sep then [] # Split sep xs
      else (case Split sep xs of [] \<Rightarrow> [[x]] | y # ys \<Rightarrow> (x # y) # ys))"

fun Join :: "'a list \<Rightarrow> 'a list list \<Rightarrow> 'a list" where
  "Join sep [] = []"
| "Join sep [x] = x"
| "Join sep (x # y # ys) = x @ sep @ Join sep (y # ys)"

text \<open>\<open>strings.ReplaceAll\<close> for a non-empty pattern: one pass, left to right, without overlap.\<close>

function ReplaceAll :: "'a list \<Rightarrow> 'a list \<Rightarrow> 'a list \<Rightarrow> 'a list" where
  "ReplaceAll old new s =
     (if s = [] \<or> old = [] then s
      else if take (length old) s = old then new @ ReplaceAll old new (drop (length old) s)
      else hd s # ReplaceAll old new (tl s))"
  by pat_completeness auto
termination
  by (relation "measure (\<lambda>(old, new, s). length s)") (auto simp: length_greater_0_conv)

declare ReplaceAll.simps [simp del]

definition Contains :: "'a list \<Rightarrow> 'a list \<Rightarrow> bool" where
  "Contains s sub = list_ex (\<lambda>i. take (length sub) (drop i s) = sub) [0..<length s + 1]"

subsection \<open>Validators\<close>

definition Len :: "string \<Rightarrow> 'a list \<Rightarrow> int \<Rightarrow> int \<Rightarrow> error_result" where
  "Len fname val lo hi =
     (if int (length val) < lo
        then NewFieldError fname (''must have at least '' @ show_int lo @ '' items'')
      else if hi < int (length val)
        then NewFieldError fname (''must have at most '' @ show_int hi @ '' items'')
      else None)"

definition Range :: "string \<Rightarrow> int \<Rightarrow> int \<Rightarrow> int \<Rightarrow> error_result" where
  "Range fname val lo hi =
     (if lo = 0 \<and> val < 0 then NewFieldError fname ''must not be negative''
      else if val < lo then NewFieldError fname (''must not be below '' @ show_int lo)
      else if hi < val then NewFieldError fname (''must not be over '' @ show_int hi)
      else None)"

definition OneOf :: "('a \<Rightarrow> string) \<Rightarrow> string \<Rightarrow> 'a \<Rightarrow> 'a list \<Rightarrow> error_result" where
  "OneOf show fname value options =
     (if value \<in> set options then None
      else NewFieldError fname (''must be one of: '' @ Join '', '' (map show options)))"

definition is_lower :: "char \<Rightarrow> bool" where
  "is_lower c \<longleftrightarrow> 97 \<le> (of_char c :: nat) \<and> (of_char c :: nat) \<le> 122"
definition is_upper :: "char \<Rightarrow> bool" where
  "is_upper c \<longleftrightarrow> 65 \<le> (of_char c :: nat) \<and> (of_char c :: nat) \<le> 90"
definition is_digit :: "char \<Rightarrow> bool" where
  "is_digit c \<longleftrightarrow> 48 \<le> (of_char c :: nat) \<and> (of_char c :: nat) \<le> 57"

text \<open>
  \<open>strconv.ParseInt\<close> in base 10 with a bit size (\<open>strconv.Atoi\<close> is that with 64 bits): a sign, at
  least one digit, and the range of the size.
\<close>

definition digit_value :: "char \<Rightarrow> nat" where
  "digit_value c = of_char c - 48"

definition parse_digits :: "string \<Rightarrow> nat" where
  "parse_digits s = foldl (\<lambda>n c. 10 * n + digit_value c) 0 s"

definition ParseInt :: "nat \<Rightarrow> string \<Rightarrow> int option" where
  "ParseInt bits s =
     (let (neg, ds) = (case s of
            [] \<Rightarrow> (False, [])
          | c # cs \<Rightarrow> if c = CHR ''-'' then (True, cs) else if c = CHR ''+'' then (False, cs) else (False, s));
          v = (if neg then - int (parse_digits ds) else int (parse_digits ds))
      in if ds = [] \<or> \<not> list_all is_digit ds then None
         else if v < - (2 ^ (bits - 1)) \<or> 2 ^ (bits - 1) - 1 < v then None
         else Some v)"

text \<open>The character class of \<open>idRx\<close>.\<close>

definition id_char :: "char \<Rightarrow> bool" where
  "id_char c \<longleftrightarrow> is_lower c \<or> is_upper c \<or> is_digit c
     \<or> c = CHR '' '' \<or> c = CHR ''-'' \<or> c = CHR ''_'' \<or> c = CHR 0x27"

definition IDName :: "string \<Rightarrow> string \<Rightarrow> error_result" where
  "IDName fname name =
     (let l = length name
      in if l < 2 then NewFieldError fname ''must be at least 2 characters''
         else if 64 < l then NewFieldError fname ''cannot be more than 64 characters''
         else if \<not> is_lower (name ! 0) \<and> \<not> is_upper (name ! 0)
           then NewFieldError fname ''must begin with a letter''
         else if \<not> list_all id_char name
           then NewFieldError fname ''can only contain letters, digits, hyphens, underscores, apostrophe and space''
         else if name ! (l - 1) = CHR '' '' then NewFieldError fname ''must not end with space''
         else None)"

definition RequiredText :: "(rune \<Rightarrow> bool) \<Rightarrow> string \<Rightarrow> runes \<Rightarrow> int \<Rightarrow> int \<Rightarrow> error_result outcome" where
  "RequiredText uprint fname r lo hi =
     (let l = int (length r)
      in if l = 0 \<and> lo = 0 then Inr None
         else if 1 < lo \<and> l < lo
           then Inr (NewFieldError fname (''must be at least '' @ show_int lo @ '' characters''))
         else if lo = 1 \<and> l < lo then Inr (NewFieldError fname ''must not be empty'')
         else if hi < l
           then Inr (NewFieldError fname (''cannot exceed '' @ show_int hi @ '' characters''))
         else if \<exists>c \<in> set r. \<not> IsPrint uprint c \<and> c \<noteq> 9 \<and> c \<noteq> 10
           then Inr (NewFieldError fname ''only printable characters allowed'')
         else if r = [] then Inl (Panic ''index out of range'')
         else if IsSpace (hd r) then Inr (NewFieldError fname ''cannot begin with a space'')
         else if IsSpace (last r) then Inr (NewFieldError fname ''cannot end with a space'')
         else Inr None)"

definition Text :: "(rune \<Rightarrow> bool) \<Rightarrow> string \<Rightarrow> runes \<Rightarrow> int \<Rightarrow> int \<Rightarrow> error_result outcome" where
  "Text uprint fname body lo hi =
     (if body = [] then Inr None else RequiredText uprint fname body lo hi)"

text \<open>\<open>SanitizeText\<close>; the ellipsis is U+2026.\<close>

definition sanitize_rune :: "(rune \<Rightarrow> bool) \<Rightarrow> rune \<Rightarrow> rune option" where
  "sanitize_rune uprint r =
     (if IsPrint uprint r \<or> r = 9 \<or> r = 10 then Some r
      else if IsSpace r then Some 32 else None)"

definition SanitizeText :: "(rune \<Rightarrow> bool) \<Rightarrow> runes \<Rightarrow> int \<Rightarrow> runes" where
  "SanitizeText uprint body maxLen =
     (let body = List.map_filter (sanitize_rune uprint) body;
          lines = map (TrimRight [32, 9]) (Split 10 body);
          body = Join [10] lines;
          body = ReplaceAll [10, 10, 10] [10, 10] body;
          body = TrimSpace body
      in if 0 < maxLen \<and> maxLen < int (length body)
           then take (nat (maxLen - 1)) body @ [0x2026]
         else body)"

definition upperLimit :: nat where "upperLimit = 256"

definition SanitizeName :: "(rune \<Rightarrow> bool) \<Rightarrow> runes \<Rightarrow> runes" where
  "SanitizeName uprint name =
     (let name = List.map_filter
                   (\<lambda>r. if IsSpace r then Some 32 else if IsPrint uprint r then Some r else None) name;
          name = TrimSpace name;
          name = ReplaceAll [32, 32] [32] name
      in if length name < 1 then []
         else if upperLimit < length name then TrimSpace (take upperLimit name)
         else name)"

definition Name :: "(rune \<Rightarrow> bool) \<Rightarrow> string \<Rightarrow> runes \<Rightarrow> error_result" where
  "Name uprint fname name =
     (let l = length name
      in if l < 1 then NewFieldError fname ''must not be empty''
         else if upperLimit < l then NewFieldError fname ''cannot be more than 256 characters''
         else if \<exists>r \<in> set name. (IsSpace r \<and> r \<noteq> 32) \<or> \<not> IsPrint uprint r
           then NewFieldError fname ''can only contain printable characters''
         else if TrimSpace name \<noteq> name then NewFieldError fname ''must not begin or end with space''
         else None)"

definition Search :: "(rune \<Rightarrow> bool) \<Rightarrow> string \<Rightarrow> runes \<Rightarrow> error_result" where
  "Search uprint fname body =
     (if body = [] then None
      else if 255 < length body then NewFieldError fname ''cannot exceed 255 characters''
      else if \<exists>c \<in> set body. \<not> IsPrint uprint c \<and> c \<noteq> 9 \<and> c \<noteq> 10
        then NewFieldError fname ''only printable characters allowed''
      else None)"

definition SubjectID :: "string \<Rightarrow> runes \<Rightarrow> error_result" where
  "SubjectID fname body =
     (if \<exists>r \<in> set body. r < 32 \<or> 126 < r
        then NewFieldError fname ''must not contain non-ASCII characters''
      else if length body < 1 then NewFieldError fname ''must not be empty''
      else if 255 < length body then NewFieldError fname ''cannot exceed 255 characters''
      else None)"

definition LabelValue :: "(rune \<Rightarrow> bool) \<Rightarrow> string \<Rightarrow> runes \<Rightarrow> error_result" where
  "LabelValue uprint fname body =
     (let l = length body
      in if l = 0 then None
         else if l < 3 then NewFieldError fname ''must be at least 3 characters''
         else if 255 < l then NewFieldError fname ''cannot exceed 255 characters''
         else if TrimSpace body \<noteq> body then NewFieldError fname ''must not begin or end with a space''
         else if Contains body [32, 32] then NewFieldError fname ''must not contain double spaces''
         else if \<exists>i \<in> set body. \<not> IsPrint uprint i
           then NewFieldError fname ''must only contain printable characters''
         else None)"

text \<open>
  \<open>LabelKey\<close>: the key is cut at the first \<open>/\<close>; a prefix that passes the character test is ASCII,
  so its length in bytes is its length in runes whenever the length tests let it through to there.
\<close>

definition rune_bytes :: "rune \<Rightarrow> nat" where
  "rune_bytes r = (if r < 0x80 then 1 else if r < 0x800 then 2 else if r < 0x10000 then 3 else 4)"

definition byte_len :: "runes \<Rightarrow> nat" where
  "byte_len s = sum_list (map rune_bytes s)"

definition key_rune :: "rune \<Rightarrow> bool" where
  "key_rune r \<longleftrightarrow> (48 \<le> r \<and> r \<le> 57) \<or> (97 \<le> r \<and> r \<le> 122)"

text \<open>One segment of \<open>labelKeyPrefixRx\<close>: a letter or digit and 2 to 63 letters, digits or hyphens.\<close>

definition prefix_segment :: "runes \<Rightarrow> bool" where
  "prefix_segment s \<longleftrightarrow> s \<noteq> [] \<and> key_rune (hd s) \<and> 2 \<le> length (tl s) \<and> length (tl s) \<le> 63
     \<and> list_all (\<lambda>r. key_rune r \<or> r = 45) (tl s)"

definition LabelKey :: "(rune \<Rightarrow> bool) \<Rightarrow> string \<Rightarrow> runes \<Rightarrow> error_result" where
  "LabelKey uprint fname body =
     (if length body < 1 then NewFieldError fname ''must not be empty''
      else if 255 < length body then NewFieldError fname ''cannot exceed 255 characters''
      else if 47 \<notin> set body then NewFieldError fname ''prefix and suffix must be separated by `/`''
      else
        (let prefix = takeWhile (\<lambda>r. r \<noteq> 47) body; suffix = tl (dropWhile (\<lambda>r. r \<noteq> 47) body)
         in if byte_len prefix < 3 then NewFieldError fname ''prefix: must be at least 3 characters''
            else if suffix = [] then NewFieldError fname ''suffix: must not be empty''
            else if \<not> key_rune (hd prefix)
              then NewFieldError fname ''prefix: must begin with a lower-case letter or number''
            else if \<exists>r \<in> set prefix. \<not> (r = 46 \<or> r = 45 \<or> key_rune r)
              then NewFieldError fname ''prefix: may only contain lowercase letters, numbers, hyphens, or periods''
            else if \<not> list_all prefix_segment (Split 46 prefix)
              then NewFieldError fname ''prefix: must follow domain name formatting''
            else (case LabelValue uprint fname suffix of
                    Some (FieldError _ reason) \<Rightarrow> NewFieldError fname (''suffix: '' @ reason)
                  | _ \<Rightarrow> None)))"

text \<open>\<open>OAuthScope\<close>: the loop over the scopes stops at the first empty or repeated one.\<close>

fun scope_loop :: "string \<Rightarrow> string list \<Rightarrow> string list \<Rightarrow> error_result" where
  "scope_loop fname m [] = None"
| "scope_loop fname m (scope # scopes) =
     (if scope = '''' then NewFieldError fname ''must not contain empty scopes''
      else if scope \<in> set m then NewFieldError fname (''duplicate scope '' @ [CHR 0x27] @ scope @ [CHR 0x27])
      else scope_loop fname (scope # m) scopes)"

definition scope_char :: "char \<Rightarrow> bool" where
  "scope_char c =
     (let r = (of_char c :: nat)
      in r = 32 \<or> r = 0x21 \<or> (0x23 \<le> r \<and> r \<le> 0x5b) \<or> (0x5d \<le> r \<and> r \<le> 0x7e))"

definition OAuthScope :: "string \<Rightarrow> string \<Rightarrow> string list \<Rightarrow> error_result" where
  "OAuthScope fname val required =
     (if val = '''' then NewFieldError fname ''must not be empty''
      else if \<not> list_all scope_char val then NewFieldError fname ''invalid character''
      else (let scopes = Split (CHR '' '') val
            in case scope_loop fname [] scopes of
                 Some e \<Rightarrow> Some e
               | None \<Rightarrow>
                   (case find (\<lambda>req. req \<notin> set scopes) required of
                      Some req \<Rightarrow> NewFieldError fname (''missing required scope '' @ [CHR 0x27] @ req @ [CHR 0x27])
                    | None \<Rightarrow> None)))"

text \<open>UUIDs; \<open>uuid_parse\<close> is \<open>uuid.Parse\<close> of the package google/uuid: the value, or the text of its error.\<close>

definition ParseUUID :: "(string \<Rightarrow> string + 'u) \<Rightarrow> string \<Rightarrow> string \<Rightarrow> go_error + 'u" where
  "ParseUUID uuid_parse fname u =
     (if length u \<noteq> 36
        then Inl (FieldError fname ''must be valid UUID: format must be xxxxxxxx-xxxx-xxxx-xxxx-xxxxxxxxxxxx'')
      else case uuid_parse u of
             Inl e \<Rightarrow> Inl (FieldError fname (''must be a valid UUID: '' @ e))
           | Inr v \<Rightarrow> Inr v)"

definition validate_UUID :: "(string \<Rightarrow> string + 'u) \<Rightarrow> string \<Rightarrow> string \<Rightarrow> error_result" where
  "validate_UUID uuid_parse fname u =
     (case ParseUUID uuid_parse fname u of Inl e \<Rightarrow> Some e | Inr _ \<Rightarrow> None)"

definition NullUUID :: "(string \<Rightarrow> string + 'u) \<Rightarrow> string \<Rightarrow> string option \<Rightarrow> error_result" where
  "NullUUID uuid_parse fname u =
     (case u of None \<Rightarrow> None | Some s \<Rightarrow> validate_UUID uuid_parse fname s)"

definition ParseManyUUID ::
  "(string \<Rightarrow> string + 'u) \<Rightarrow> string \<Rightarrow> string list \<Rightarrow> int \<Rightarrow> error_result + 'u list" where
  "ParseManyUUID uuid_parse fname ids hi =
     (if hi \<noteq> -1 \<and> hi < int (length ids)
        then Inl (NewFieldError fname (''must not have more than '' @ show_int hi))
      else if ids = [] then Inr []
      else
        (let rs = map (\<lambda>(i, s). ParseUUID uuid_parse (fname @ ''['' @ show_nat i @ '']'') s)
                    (enumerate 0 ids);
             errs = [Some e. Inl e \<leftarrow> rs]
         in if errs \<noteq> [] then Inl (Many errs) else Inr [v. Inr v \<leftarrow> rs]))"

definition ManyUUID :: "(string \<Rightarrow> string + 'u) \<Rightarrow> string \<Rightarrow> string list \<Rightarrow> int \<Rightarrow> error_result" where
  "ManyUUID uuid_parse fname ids hi =
     (case ParseManyUUID uuid_parse fname ids hi of Inl e \<Rightarrow> e | Inr _ \<Rightarrow> None)"

subsection \<open>What the string operations keep\<close>

named_theorems rune_sets \<open>where the runes of a transformed text come from\<close>

lemma set_dropWhile_subset: "set (dropWhile P xs) \<subseteq> set xs"
  by (auto dest: set_dropWhileD)

lemma set_TrimSpace [rune_sets]: "set (TrimSpace s) \<subseteq> set s"
  unfolding TrimSpace_def using set_dropWhile_subset by (metis set_rev subset_trans)

lemma set_TrimRight [rune_sets]: "set (TrimRight c s) \<subseteq> set s"
  unfolding TrimRight_def using set_dropWhile_subset by (metis set_rev)

lemma set_Join [rune_sets]: "set (Join sep xs) \<subseteq> set sep \<union> \<Union> (set (map set xs))"
  by (induction sep xs rule: Join.induct) auto

lemma set_Split [rune_sets]: "ys \<in> set (Split c s) \<Longrightarrow> set ys \<subseteq> set s"
proof (induction s arbitrary: ys)
  case (Cons x s)
  show ?case
  proof (cases "x = c")
    case True
    with Cons show ?thesis by auto
  next
    case False
    with Cons.prems show ?thesis
      by (cases "Split c s") (use Cons.IH in \<open>auto, blast\<close>)
  qed
qed simp

lemma set_ReplaceAll [rune_sets]: "set (ReplaceAll old new s) \<subseteq> set new \<union> set s"
proof (induction old new s rule: ReplaceAll.induct)
  case (1 old new s)
  consider "s = [] \<or> old = []" | "s \<noteq> []" "old \<noteq> []" "take (length old) s = old"
    | "s \<noteq> []" "old \<noteq> []" "take (length old) s \<noteq> old" by blast
  then show ?case
  proof cases
    case 2
    then show ?thesis
      using "1.IH"(1) ReplaceAll.simps [of old new s] set_drop_subset [of "length old" s] by auto
  next
    case 3
    then show ?thesis
      using "1.IH"(2) ReplaceAll.simps [of old new s] by (cases s) auto
  qed (auto simp: ReplaceAll.simps [of old new s])
qed

lemma TrimSpace_ends:
  assumes "TrimSpace s \<noteq> []"
  shows "\<not> IsSpace (hd (TrimSpace s))" "\<not> IsSpace (last (TrimSpace s))"
proof -
  let ?t = "dropWhile IsSpace s"
  have ne: "dropWhile IsSpace (rev ?t) \<noteq> []" using assms by (simp add: TrimSpace_def)
  from hd_dropWhile [OF ne] show "\<not> IsSpace (last (TrimSpace s))"
    by (simp add: TrimSpace_def last_rev)
  have t: "?t \<noteq> []" using ne by (metis dropWhile.simps(1) rev.simps(1))
  obtain k where k: "dropWhile IsSpace (rev ?t) = drop k (rev ?t)" by (metis dropWhile_eq_drop)
  then have "TrimSpace s = take (length ?t - k) ?t" by (simp add: TrimSpace_def rev_drop)
  with assms have "hd (TrimSpace s) = hd ?t" by (simp add: hd_take)
  with hd_dropWhile [OF t] show "\<not> IsSpace (hd (TrimSpace s))" by simp
qed

lemma TrimSpace_id:
  assumes "s = [] \<or> (\<not> IsSpace (hd s) \<and> \<not> IsSpace (last s))"
  shows "TrimSpace s = s"
proof (cases "s = []")
  case False
  with assms have "dropWhile IsSpace s = s" by (cases s) auto
  moreover have "dropWhile IsSpace (rev s) = rev s"
    using assms False by (cases s rule: rev_cases) auto
  ultimately show ?thesis by (simp add: TrimSpace_def)
qed (simp add: TrimSpace_def)

lemma TrimSpace_idem [simp]: "TrimSpace (TrimSpace s) = TrimSpace s"
  using TrimSpace_id TrimSpace_ends by blast

lemma ReplaceAll_hd:
  assumes "s \<noteq> []" "hd new = hd old" "new \<noteq> []" "old \<noteq> []"
  shows "ReplaceAll old new s \<noteq> [] \<and> hd (ReplaceAll old new s) = hd s"
proof (cases "take (length old) s = old")
  case True
  then have "hd old = hd s" using assms by (metis hd_take length_greater_0_conv)
  with True assms show ?thesis by (simp add: ReplaceAll.simps [of old new s])
next
  case False
  with assms show ?thesis by (simp add: ReplaceAll.simps [of old new s])
qed

lemma ReplaceAll_last:
  assumes "s \<noteq> []" "last new = last old" "new \<noteq> []" "old \<noteq> []"
  shows "last (ReplaceAll old new s) = last s"
  using assms
proof (induction old new s rule: ReplaceAll.induct)
  case (1 old new s)
  show ?case
  proof (cases "take (length old) s = old")
    case True
    have eq: "ReplaceAll old new s = new @ ReplaceAll old new (drop (length old) s)"
      using True "1.prems" by (simp add: ReplaceAll.simps [of old new s])
    show ?thesis
    proof (cases "drop (length old) s = []")
      case True: True
      then have "s = old" using \<open>take (length old) s = old\<close> by (metis append_take_drop_id append_Nil2)
      moreover have "ReplaceAll old new [] = []" by (simp add: ReplaceAll.simps [of old new "[]"])
      ultimately show ?thesis using eq True "1.prems" by simp
    next
      case False
      have "last (ReplaceAll old new (drop (length old) s)) = last (drop (length old) s)"
        using "1.IH"(1) "1.prems" True False by simp
      moreover have "ReplaceAll old new (drop (length old) s) \<noteq> []"
        using False "1.prems" by (subst ReplaceAll.simps) auto
      ultimately show ?thesis using eq False by (simp add: last_drop)
    qed
  next
    case False
    have eq: "ReplaceAll old new s = hd s # ReplaceAll old new (tl s)"
      using False "1.prems" by (simp add: ReplaceAll.simps [of old new s])
    show ?thesis
    proof (cases "tl s = []")
      case True
      then show ?thesis using eq "1.prems"(1) by (cases s) (auto simp: ReplaceAll.simps [of old new "[]"])
    next
      case ne: False
      have "ReplaceAll old new (tl s) \<noteq> []"
        using ne "1.prems" by (subst ReplaceAll.simps) auto
      then show ?thesis using eq "1.IH"(2) "1.prems" False ne by (cases s) auto
    qed
  qed
qed

subsection \<open>Properties\<close>

definition text_rune :: "(rune \<Rightarrow> bool) \<Rightarrow> rune \<Rightarrow> bool" where
  "text_rune uprint r \<longleftrightarrow> IsPrint uprint r \<or> r = 9 \<or> r = 10"

lemma map_filter_runes:
  "r \<in> set (List.map_filter f xs) \<Longrightarrow> \<exists>x \<in> set xs. f x = Some r"
  by (auto simp: List.map_filter_def)

lemma IsPrint_space: "IsPrint uprint 32"
  by (simp add: IsPrint_def)

lemma sanitized_body_runes:
  assumes "r \<in> set (TrimSpace (ReplaceAll [10, 10, 10] [10, 10]
      (Join [10] (map (TrimRight [32, 9]) (Split 10 (List.map_filter (sanitize_rune uprint) body))))))"
  shows "text_rune uprint r"
proof -
  let ?b = "List.map_filter (sanitize_rune uprint) body"
  let ?lines = "map (TrimRight [32, 9]) (Split 10 ?b)"
  have "set (Join [10] ?lines) \<subseteq> {10} \<union> set ?b"
    using set_Join [of "[10]" ?lines] set_TrimRight set_Split [of _ 10 ?b] by fastforce
  then have "r = 10 \<or> r \<in> set ?b"
    using assms set_TrimSpace set_ReplaceAll [of "[10, 10, 10]" "[10, 10]" "Join [10] ?lines"] by fastforce
  then show ?thesis
    by (auto dest!: map_filter_runes simp: text_rune_def sanitize_rune_def IsPrint_space split: if_splits)
qed

text \<open>whatever \<open>SanitizeText\<close> returns passes the \<open>Text\<close> validator with the same length limit:
  its runes are printable, it neither begins nor ends with space and it is not too long.\<close>

theorem SanitizeText_valid:
  assumes "0 < maxLen" "uprint 0x2026"
  shows "Text uprint fname (SanitizeText uprint body maxLen) 1 maxLen = Inr None"
proof -
  define b where "b = TrimSpace (ReplaceAll [10, 10, 10] [10, 10]
      (Join [10] (map (TrimRight [32, 9]) (Split 10 (List.map_filter (sanitize_rune uprint) body)))))"
  define s where "s = SanitizeText uprint body maxLen"
  have s: "s = (if maxLen < int (length b) then take (nat (maxLen - 1)) b @ [0x2026] else b)"
    using assms(1) by (simp add: s_def SanitizeText_def b_def Let_def)
  have runes: "text_rune uprint r" if "r \<in> set b" for r
    using that unfolding b_def by (rule sanitized_body_runes)
  have ends: "\<not> IsSpace (hd b)" "\<not> IsSpace (last b)" if "b \<noteq> []"
    using that TrimSpace_ends unfolding b_def by blast+
  have ell: "text_rune uprint 0x2026" "\<not> IsSpace 0x2026"
    using assms(2) by (simp_all add: text_rune_def IsPrint_def IsSpace_def)
  have "\<forall>r \<in> set s. text_rune uprint r" using runes ell(1) by (auto simp: s dest: in_set_takeD)
  then have 1: "\<not> (\<exists>c \<in> set s. \<not> IsPrint uprint c \<and> c \<noteq> 9 \<and> c \<noteq> 10)" by (auto simp: text_rune_def)
  have 2: "int (length s) \<le> maxLen" using assms(1) by (auto simp: s)
  have 3: "s \<noteq> [] \<longrightarrow> \<not> IsSpace (last s)" using ends ell by (auto simp: s)
  have 4: "s \<noteq> [] \<longrightarrow> \<not> IsSpace (hd s)"
  proof (cases "maxLen < int (length b)")
    case True
    show ?thesis
    proof (cases "nat (maxLen - 1) = 0")
      case False
      with True ends assms(1) show ?thesis by (auto simp: s hd_append hd_take)
    qed (use True ell in \<open>auto simp: s\<close>)
  qed (use ends in \<open>auto simp: s\<close>)
  have "s = [] \<or> RequiredText uprint fname s 1 maxLen = Inr None"
    using 1 2 3 4 by (auto simp: RequiredText_def Let_def Suc_le_eq)
  then show ?thesis by (auto simp: Text_def s_def)
qed

theorem SanitizeText_valid_witness:
  "SanitizeText (\<lambda>r. True) [32, 65, 32, 10, 10, 10, 66, 7, 67] 4 = [65, 10, 10, 0x2026]
   \<and> Text (\<lambda>r. True) ''f'' [65, 10, 10, 0x2026] 1 4 = Inr None"
proof -
  have "SanitizeText (\<lambda>r. True) [32, 65, 32, 10, 10, 10, 66, 7, 67] 4 = [65, 10, 10, 0x2026]"
    by code_simp
  with SanitizeText_valid [of 4 "\<lambda>r. True" "''f''" "[32, 65, 32, 10, 10, 10, 66, 7, 67]"]
  show ?thesis by simp
qed

text \<open>\<open>SanitizeName\<close> returns the empty text or a name that passes the \<open>Name\<close> validator.\<close>

theorem SanitizeName_valid:
  "SanitizeName uprint name = [] \<or> Name uprint fname (SanitizeName uprint name) = None"
proof -
  define m where "m = TrimSpace (List.map_filter
     (\<lambda>r. if IsSpace r then Some 32 else if IsPrint uprint r then Some r else None) name)"
  define b where "b = ReplaceAll [32, 32] [32] m"
  define s where "s = SanitizeName uprint name"
  have s: "s = (if b = [] then [] else if upperLimit < length b then TrimSpace (take upperLimit b) else b)"
    by (simp add: s_def SanitizeName_def b_def m_def Let_def Suc_le_eq)
  have m: "\<not> (IsSpace r \<and> r \<noteq> 32) \<and> IsPrint uprint r" if "r \<in> set m" for r
  proof -
    from that set_TrimSpace have "r \<in> set (List.map_filter
        (\<lambda>r. if IsSpace r then Some 32 else if IsPrint uprint r then Some r else None) name)"
      unfolding m_def by blast
    then show ?thesis by (auto dest!: map_filter_runes simp: IsPrint_space split: if_splits)
  qed
  have b: "\<not> (IsSpace r \<and> r \<noteq> 32) \<and> IsPrint uprint r" if "r \<in> set b" for r
    using that m set_ReplaceAll [of "[32, 32]" "[32]" m] by (auto simp: b_def IsPrint_space)
  have bends: "b = [] \<or> (\<not> IsSpace (hd b) \<and> \<not> IsSpace (last b))"
  proof (cases "m = []")
    case False
    with TrimSpace_ends have "\<not> IsSpace (hd m)" "\<not> IsSpace (last m)" unfolding m_def by blast+
    then show ?thesis
      using ReplaceAll_hd [OF False, of "[32]" "[32, 32]"] ReplaceAll_last [OF False, of "[32]" "[32, 32]"]
      by (simp add: b_def)
  qed (simp add: b_def ReplaceAll.simps [of _ _ "[]"])
  have sub: "set s \<subseteq> set b" using set_TrimSpace [of "take upperLimit b"] set_take_subset [of upperLimit b] by (auto simp: s)
  have len: "length s \<le> upperLimit"
    by (auto simp: s TrimSpace_def intro!: order.trans [OF length_dropWhile_le])
  have "TrimSpace s = s"
    using bends TrimSpace_ends [of "take upperLimit b"] by (auto simp: s TrimSpace_id TrimSpace_idem)
  moreover have "\<not> (\<exists>r \<in> set s. (IsSpace r \<and> r \<noteq> 32) \<or> \<not> IsPrint uprint r)" using sub b by blast
  ultimately have "s = [] \<or> Name uprint fname s = None"
    using len by (auto simp: Name_def Let_def Suc_le_eq)
  then show ?thesis by (simp add: s_def)
qed

lemma Many_None: "Many errs = None \<Longrightarrow> (\<forall>e \<in> set errs. e = None \<or> e = Some (MultiFieldError []))"
proof -
  have "many_loop flat errs = Inr [] \<Longrightarrow> flat = [] \<and> (\<forall>e \<in> set errs. e = None \<or> e = Some (MultiFieldError []))"
    for flat
    by (induction flat errs rule: many_loop.induct) (auto split: option.splits go_error.splits)
  then show "Many errs = None \<Longrightarrow> ?thesis" by (auto simp: Many_def split: sum.splits list.splits)
qed

lemma Many_not_empty: "Many errs \<noteq> Some (MultiFieldError [])"
proof -
  have "many_loop flat errs = Inl e \<Longrightarrow> e \<noteq> MultiFieldError []" for flat e
    by (induction flat errs rule: many_loop.induct) (auto split: option.splits go_error.splits)
  then show ?thesis by (auto simp: Many_def split: sum.splits list.splits)
qed

lemma Many_None_all:
  "Many errs = None \<Longrightarrow> Some (MultiFieldError []) \<notin> set errs \<Longrightarrow> e \<in> set errs \<Longrightarrow> e = None"
  using Many_None by blast

text \<open>The field errors an error carries.\<close>

fun field_errors :: "error_result \<Rightarrow> (string \<times> string) list" where
  "field_errors (Some (FieldError f r)) = [(f, r)]"
| "field_errors (Some (MultiFieldError es)) = es"
| "field_errors _ = []"

lemma many_loop_fields:
  assumes "\<And>m. Some (OtherError m) \<notin> set errs"
  shows "many_loop flat errs = Inr (flat @ concat (map field_errors errs))"
  using assms
proof (induction flat errs rule: many_loop.induct)
  case (2 flat e errs)
  then show ?case by (cases "the e"; cases e) auto
qed simp

text \<open>When every given error is nil or made of field errors, \<open>Many\<close> keeps all of them in
  order, and it is nil exactly when there is none.\<close>

theorem Many_flattens:
  assumes "\<forall>e \<in> set errs. \<forall>m. e \<noteq> Some (OtherError m)"
  shows "field_errors (Many errs) = concat (map field_errors errs)
    \<and> (Many errs = None \<longleftrightarrow> concat (map field_errors errs) = [])"
proof -
  define es where "es = concat (map field_errors errs)"
  have "many_loop [] errs = Inr es"
    using many_loop_fields [of errs "[]"] assms by (auto simp: es_def)
  then show ?thesis unfolding es_def [symmetric] by (auto simp: Many_def split: list.splits)
qed

theorem Many_flattens_witness:
  "Many [None, Some (FieldError ''a'' ''x''), Some (MultiFieldError [(''b'', ''y''), (''c'', ''z'')])]
     = Some (MultiFieldError [(''a'', ''x''), (''b'', ''y''), (''c'', ''z'')])
   \<and> field_errors (Many [None, Some (FieldError ''a'' ''x''), Some (MultiFieldError [(''b'', ''y''), (''c'', ''z'')])])
     = [(''a'', ''x''), (''b'', ''y''), (''c'', ''z'')]"
  using Many_flattens [of "[None, Some (FieldError ''a'' ''x''), Some (MultiFieldError [(''b'', ''y''), (''c'', ''z'')])]"]
  by (simp add: Many_def)

end
