(* ===== verification/IsoDuration.thy ===== *)
theory IsoDuration
  imports Validate
begin

section \<open>ISO durations and intervals: util/timeutil/isoduration.go, isorinterval.go\<close>

text \<open>
  The duration with its text form, the parser with its regular expression, and recurring intervals.
  \<open>SecondPart\<close> is a \<open>float64\<close>: the type \<open>'f\<close> and the operations on it that the code uses are a parameter, a
  record of functions.  A \<open>time.Time\<close> is a location and an instant; its RFC 3339 text form is a parameter too.
  Products that can leave the range of \<open>int64\<close> or \<open>int32\<close> wrap.
\<close>

subsection \<open>Durations\<close>

text \<open>
  \<open>fl_pos\<close> is the comparison with zero, \<open>fl_micro\<close> is \<open>math.Round(x*1e6) / 1e6\<close>, \<open>fl_format\<close> and \<open>fl_parse\<close> are
  \<open>strconv.FormatFloat\<close> and \<open>strconv.ParseFloat\<close>, \<open>fl_nanos\<close> is \<open>time.Duration(x * float64(time.Second))\<close>, \<open>fl_rest\<close> is
  \<open>d.Seconds() - float64(n)\<close>, and \<open>fl_hours\<close> and \<open>fl_minutes\<close> are \<open>int(d.Hours())\<close> and \<open>int(d.Minutes())\<close>.
\<close>

record 'f float_ops =
  fl_zero :: 'f
  fl_pos :: "'f \<Rightarrow> bool"
  fl_micro :: "'f \<Rightarrow> 'f"
  fl_format :: "'f \<Rightarrow> string"
  fl_parse :: "string \<Rightarrow> 'f option"
  fl_nanos :: "'f \<Rightarrow> int"
  fl_rest :: "int \<Rightarrow> int \<Rightarrow> 'f"
  fl_hours :: "int \<Rightarrow> int"
  fl_minutes :: "int \<Rightarrow> int"

record 'f ISODuration =
  YearPart :: int
  MonthPart :: int
  WeekPart :: int
  DayPart :: int
  HourPart :: int
  MinutePart :: int
  SecondPart :: 'f

definition int64 :: "int \<Rightarrow> int" where
  "int64 i = signed_take_bit 63 i"

definition int32 :: "int \<Rightarrow> int" where
  "int32 i = signed_take_bit 31 i"

definition zeroDur :: "'f float_ops \<Rightarrow> 'f ISODuration" where
  "zeroDur F = \<lparr>YearPart = 0, MonthPart = 0, WeekPart = 0, DayPart = 0, HourPart = 0, MinutePart = 0, SecondPart = fl_zero F\<rparr>"

definition Dur_IsZero :: "'f float_ops \<Rightarrow> 'f ISODuration \<Rightarrow> bool" where
  "Dur_IsZero F dur \<longleftrightarrow> dur = zeroDur F"

definition Dur_Days :: "'f ISODuration \<Rightarrow> int" where
  "Dur_Days dur = int64 (DayPart dur + WeekPart dur * 7)"

definition TimePart :: "'f float_ops \<Rightarrow> 'f ISODuration \<Rightarrow> duration" where
  "TimePart F dur = int64 (HourPart dur * Hour + MinutePart dur * Minute + fl_nanos F (SecondPart dur))"

definition SetTimePart :: "'f float_ops \<Rightarrow> duration \<Rightarrow> 'f ISODuration \<Rightarrow> 'f ISODuration" where
  "SetTimePart F timeDur dur =
     (let h = fl_hours F timeDur; m = fl_minutes F timeDur smod 60
      in dur\<lparr>HourPart := h, MinutePart := m, SecondPart := fl_rest F timeDur (h * 60 * 60 + m * 60)\<rparr>)"

definition ISODurationFromTime :: "'f float_ops \<Rightarrow> duration \<Rightarrow> 'f ISODuration" where
  "ISODurationFromTime F t = SetTimePart F t (zeroDur F)"

record Interval =
  iv_Microseconds :: int
  iv_Days :: int
  iv_Months :: int

definition PGXInterval :: "'f float_ops \<Rightarrow> 'f ISODuration \<Rightarrow> Interval" where
  "PGXInterval F dur = \<lparr>iv_Microseconds = TimePart F dur sdiv 1000, iv_Days = int32 (Dur_Days dur),
     iv_Months = int32 (MonthPart dur + YearPart dur * 12)\<rparr>"

definition Dur_AddTo :: "'f float_ops \<Rightarrow> 'f ISODuration \<Rightarrow> location \<Rightarrow> instant \<Rightarrow> instant" where
  "Dur_AddTo F dur l t = AddDate l t (YearPart dur) (MonthPart dur) (Dur_Days dur) + TimePart F dur"

definition Dur_LessThan :: "'f float_ops \<Rightarrow> 'f ISODuration \<Rightarrow> location \<Rightarrow> instant \<Rightarrow> 'f ISODuration \<Rightarrow> bool" where
  "Dur_LessThan F dur l t other \<longleftrightarrow> Dur_AddTo F dur l t < Dur_AddTo F other l t"

definition Dur_Equal :: "'f float_ops \<Rightarrow> 'f ISODuration \<Rightarrow> location \<Rightarrow> instant \<Rightarrow> 'f ISODuration \<Rightarrow> bool" where
  "Dur_Equal F dur l t other \<longleftrightarrow> Dur_AddTo F dur l t = Dur_AddTo F other l t"

text \<open>A part of the text form, left out when it is not positive.\<close>

definition part :: "int \<Rightarrow> char \<Rightarrow> string" where
  "part n c = (if 0 < n then show_int n @ [c] else [])"

definition Dur_String :: "'f float_ops \<Rightarrow> 'f ISODuration \<Rightarrow> string" where
  "Dur_String F dur =
     (if Dur_IsZero F dur then ''P0D''
      else
        (let b = ''P'' @ part (YearPart dur) CHR ''Y'' @ part (MonthPart dur) CHR ''M'' @ part (WeekPart dur) CHR ''W''
               @ part (DayPart dur) CHR ''D''
         in if \<not> fl_pos F (SecondPart dur) \<and> MinutePart dur \<le> 0 \<and> HourPart dur \<le> 0 then b
            else b @ ''T'' @ part (HourPart dur) CHR ''H'' @ part (MinutePart dur) CHR ''M''
               @ (if fl_pos F (SecondPart dur) then fl_format F (fl_micro F (SecondPart dur)) @ ''S'' else [])))"

subsection \<open>The regular expression\<close>

text \<open>
  The groups of the expression are optional numbers that end in different letters, so that matching from left to
  right needs no backtracking; a group that is left out gives the empty string.  \<open>\B\<close> after \<open>P\<close> and after \<open>T\<close>
  demands that a word character follows.
\<close>

definition is_word :: "char \<Rightarrow> bool" where
  "is_word c \<longleftrightarrow> is_digit c \<or> is_lower c \<or> is_upper c \<or> c = CHR ''_''"

definition no_boundary :: "string \<Rightarrow> bool" where
  "no_boundary s \<longleftrightarrow> (case s of [] \<Rightarrow> False | c # _ \<Rightarrow> is_word c)"

definition opt_num :: "char \<Rightarrow> string \<Rightarrow> string \<times> string" where
  "opt_num c s =
     (let ds = takeWhile is_digit s; r = dropWhile is_digit s
      in if ds \<noteq> [] \<and> r \<noteq> [] \<and> hd r = c then (ds, tl r) else ([], s))"

text \<open>The second's number: digits, or digits after a point or comma, which may have digits before it.\<close>

definition sec_num :: "string \<Rightarrow> string \<times> string" where
  "sec_num s =
     (let ds = takeWhile is_digit s; r = dropWhile is_digit s
      in case r of
           c # r' \<Rightarrow> if c = CHR ''.'' \<or> c = CHR '',''
                      then (if takeWhile is_digit r' \<noteq> [] then (ds @ c # takeWhile is_digit r', dropWhile is_digit r') else ([], s))
                      else (ds, r)
         | [] \<Rightarrow> (ds, r))"

definition opt_sec :: "string \<Rightarrow> string \<times> string" where
  "opt_sec s = (let (ds, r) = sec_num s in if ds \<noteq> [] \<and> r \<noteq> [] \<and> hd r = CHR ''S'' then (ds, tl r) else ([], s))"

record iso_match =
  im_year :: string
  im_month :: string
  im_week :: string
  im_day :: string
  im_hour :: string
  im_minute :: string
  im_second :: string

definition match_time :: "string \<Rightarrow> (string \<times> string \<times> string) option" where
  "match_time s =
     (if \<not> no_boundary s then None
      else
        (let (h, s) = opt_num CHR ''H'' s; (m, s) = opt_num CHR ''M'' s; (sec, s) = opt_sec s
         in if s = [] then Some (h, m, sec) else None))"

definition iso_re :: "string \<Rightarrow> iso_match option" where
  "iso_re s = (case s of
     [] \<Rightarrow> None
   | p # s \<Rightarrow>
       if p \<noteq> CHR ''P'' \<or> \<not> no_boundary s then None
       else
         (let (y, s) = opt_num CHR ''Y'' s; (mo, s) = opt_num CHR ''M'' s; (w, s) = opt_num CHR ''W'' s; (d, s) = opt_num CHR ''D'' s
          in case s of
               [] \<Rightarrow> Some \<lparr>im_year = y, im_month = mo, im_week = w, im_day = d, im_hour = [], im_minute = [], im_second = []\<rparr>
             | c # s \<Rightarrow>
                 if c \<noteq> CHR ''T'' then None
                 else map_option (\<lambda>(h, m, sec). \<lparr>im_year = y, im_month = mo, im_week = w, im_day = d, im_hour = h, im_minute = m,
                        im_second = sec\<rparr>) (match_time s)))"

datatype iso_error =
    IsoFormat string | IsoNumber | IsoInterval string | IsoNotString | IsoValidation iso_error

definition set_part :: "string \<Rightarrow> (int \<Rightarrow> 'f ISODuration \<Rightarrow> 'f ISODuration) \<Rightarrow> 'f ISODuration \<Rightarrow> iso_error + 'f ISODuration" where
  "set_part m upd d = (if m = [] then Inr d else case ParseInt 64 m of None \<Rightarrow> Inl IsoNumber | Some v \<Rightarrow> Inr (upd v d))"

definition set_seconds :: "'f float_ops \<Rightarrow> string \<Rightarrow> 'f ISODuration \<Rightarrow> iso_error + 'f ISODuration" where
  "set_seconds F m d =
     (if m = [] then Inr d
      else case fl_parse F (map (\<lambda>c. if c = CHR '','' then CHR ''.'' else c) m) of None \<Rightarrow> Inl IsoNumber | Some v \<Rightarrow> Inr (d\<lparr>SecondPart := v\<rparr>))"

definition ParseISODuration :: "'f float_ops \<Rightarrow> string \<Rightarrow> iso_error + 'f ISODuration" where
  "ParseISODuration F s = (case iso_re s of
     None \<Rightarrow> Inl (IsoFormat s)
   | Some m \<Rightarrow>
       obind (set_part (im_year m) (\<lambda>v. YearPart_update (\<lambda>_. v)) (zeroDur F)) (\<lambda>d.
       obind (set_part (im_month m) (\<lambda>v. MonthPart_update (\<lambda>_. v)) d) (\<lambda>d.
       obind (set_part (im_week m) (\<lambda>v. WeekPart_update (\<lambda>_. v)) d) (\<lambda>d.
       obind (set_part (im_day m) (\<lambda>v. DayPart_update (\<lambda>_. v)) d) (\<lambda>d.
       obind (set_part (im_hour m) (\<lambda>v. HourPart_update (\<lambda>_. v)) d) (\<lambda>d.
       obind (set_part (im_minute m) (\<lambda>v. MinutePart_update (\<lambda>_. v)) d) (set_seconds F (im_second m))))))))"

definition Dur_MarshalGQL :: "'f float_ops \<Rightarrow> 'f ISODuration \<Rightarrow> string" where
  "Dur_MarshalGQL F dur = (if Dur_IsZero F dur then ''null'' else ''\"'' @ Dur_String F dur @ ''\"'')"

text \<open>The dynamic value is \<open>None\<close> when it is not a string; \<open>strings.Trim\<close> removes quotes at both ends.\<close>

definition trim_quotes :: "string \<Rightarrow> string" where
  "trim_quotes s = rev (dropWhile (\<lambda>c. c = CHR 0x22) (rev (dropWhile (\<lambda>c. c = CHR 0x22) s)))"

definition Dur_UnmarshalGQL :: "'f float_ops \<Rightarrow> string option \<Rightarrow> iso_error + 'f ISODuration" where
  "Dur_UnmarshalGQL F v = (case v of
     None \<Rightarrow> Inl IsoNotString
   | Some str \<Rightarrow> (case ParseISODuration F (trim_quotes str) of Inl e \<Rightarrow> Inl (IsoValidation e) | Inr t \<Rightarrow> Inr t))"

subsection \<open>Recurring intervals\<close>

type_synonym go_time = "location \<times> instant"

text \<open>The RFC 3339 form of a time: what \<open>Time.Format\<close> writes and \<open>time.Parse\<close> reads.\<close>

record time_text =
  tt_Format :: "go_time \<Rightarrow> string"
  tt_Parse :: "string \<Rightarrow> go_time option"

record 'f ISORInterval =
  Repeat :: int
  Ivl_Start :: go_time
  Period :: "'f ISODuration"

definition UTC :: location where
  "UTC = fixed_loc 0"

definition zeroInterval :: "'f float_ops \<Rightarrow> 'f ISORInterval" where
  "zeroInterval F = \<lparr>Repeat = 0, Ivl_Start = (UTC, time_zero), Period = zeroDur F\<rparr>"

definition calcStart :: "'f float_ops \<Rightarrow> go_time \<Rightarrow> 'f ISORInterval \<Rightarrow> iso_error + 'f ISORInterval" where
  "calcStart F end r =
     (if Dur_IsZero F (Period r) then Inl (IsoInterval ''duration must be non-zero'')
      else
        (let n = int64 (Repeat r + 1); p = Period r; l = fst end
         in Inr (r\<lparr>Ivl_Start := (l, AddDate l (snd end) (int64 (- YearPart p * n)) (int64 (- MonthPart p * n)) (int64 (- Dur_Days p * n))
              + int64 (- TimePart F p * n))\<rparr>)))"

definition calcPeriod :: "'f float_ops \<Rightarrow> go_time \<Rightarrow> 'f ISORInterval \<Rightarrow> iso_error + 'f ISORInterval" where
  "calcPeriod F end r =
     (if \<not> snd (Ivl_Start r) < snd end then Inl (IsoInterval ''end time must be after start time'')
      else Inr (r\<lparr>Period := SetTimePart F (Sub (snd end) (snd (Ivl_Start r)) sdiv int64 (Repeat r + 1)) (Period r)\<rparr>))"

definition Ivl_End :: "'f float_ops \<Rightarrow> 'f ISORInterval \<Rightarrow> go_time outcome" where
  "Ivl_End F r =
     (if Repeat r < 0 then Inl (Panic ''cannot calculate end time for infinite interval'')
      else
        (let n = int64 (Repeat r + 1); p = Period r
         in Inr (UTC, AddDate UTC (snd (Ivl_Start r)) (int64 (YearPart p * n)) (int64 (MonthPart p * n)) (int64 (Dur_Days p * n))
              + int64 (TimePart F p * n))))"

definition Ivl_String :: "'f float_ops \<Rightarrow> time_text \<Rightarrow> 'f ISORInterval \<Rightarrow> string outcome" where
  "Ivl_String F T r =
     (let pre = ''R'' @ show_int (Repeat r) @ ''/'' @ tt_Format T (Ivl_Start r) @ ''/''
      in if YearPart (Period r) = 0 \<and> MonthPart (Period r) = 0 \<and> Dur_Days (Period r) = 0
         then obind (Ivl_End F r) (\<lambda>end. Inr (pre @ tt_Format T end))
         else Inr (pre @ Dur_String F (Period r)))"

text \<open>\<open>strings.SplitN\<close>, and the first byte of a part, which panics when the part is empty.\<close>

fun SplitN :: "nat \<Rightarrow> char \<Rightarrow> string \<Rightarrow> string list" where
  "SplitN (Suc (Suc n)) c s =
     (case dropWhile (\<lambda>x. x \<noteq> c) s of [] \<Rightarrow> [s] | _ # r \<Rightarrow> takeWhile (\<lambda>x. x \<noteq> c) s # SplitN (Suc n) c r)"
| "SplitN _ c s = [s]"

definition first_byte :: "string \<Rightarrow> char outcome" where
  "first_byte s = (case s of [] \<Rightarrow> Inl (Panic ''index out of range'') | c # _ \<Rightarrow> Inr c)"

text \<open>The second part: a duration, or the start time.\<close>

definition parse_second :: "'f float_ops \<Rightarrow> time_text \<Rightarrow> char \<Rightarrow> string \<Rightarrow> 'f ISORInterval \<Rightarrow> iso_error + (bool \<times> 'f ISORInterval)" where
  "parse_second F T c s ivl =
     (if c = CHR ''P''
      then (case ParseISODuration F s of Inl _ \<Rightarrow> Inl (IsoInterval s) | Inr p \<Rightarrow> Inr (False, ivl\<lparr>Period := p\<rparr>))
      else (case tt_Parse T s of None \<Rightarrow> Inl (IsoInterval s) | Some x \<Rightarrow> Inr (True, ivl\<lparr>Ivl_Start := x\<rparr>)))"

definition parse_third :: "'f float_ops \<Rightarrow> time_text \<Rightarrow> bool \<Rightarrow> char \<Rightarrow> string \<Rightarrow> 'f ISORInterval \<Rightarrow> iso_error + 'f ISORInterval" where
  "parse_third F T hasStart c s ivl =
     (if c = CHR ''P'' \<and> \<not> hasStart then Inl (IsoInterval s)
      else if c = CHR ''P''
      then (case ParseISODuration F s of Inl _ \<Rightarrow> Inl (IsoInterval s) | Inr p \<Rightarrow> Inr (ivl\<lparr>Period := p\<rparr>))
      else (case tt_Parse T s of None \<Rightarrow> Inl (IsoInterval s)
            | Some end \<Rightarrow> if hasStart then calcPeriod F end ivl else calcStart F end ivl))"

definition ParseISORIntervalFrom :: "'f float_ops \<Rightarrow> time_text \<Rightarrow> go_time \<Rightarrow> string \<Rightarrow> (iso_error + 'f ISORInterval) outcome" where
  "ParseISORIntervalFrom F T t s =
     (let parts = SplitN 3 CHR ''/'' s
      in if length parts < 2 then Inr (Inl (IsoInterval s))
         else obind (first_byte (parts ! 0)) (\<lambda>c.
           if c \<noteq> CHR ''R'' then Inr (Inl (IsoInterval s))
           else case ParseInt 64 (tl (parts ! 0)) of
             None \<Rightarrow> Inr (Inl (IsoInterval (tl (parts ! 0))))
           | Some rep \<Rightarrow>
               if rep < 0 then Inr (Inl (IsoInterval (tl (parts ! 0))))
               else obind (first_byte (parts ! 1)) (\<lambda>c1.
                 case parse_second F T c1 (parts ! 1) ((zeroInterval F)\<lparr>Repeat := rep\<rparr>) of
                   Inl e \<Rightarrow> Inr (Inl e)
                 | Inr (hasStart, ivl) \<Rightarrow>
                     if length parts = 2 then Inr (Inr (if hasStart then ivl else ivl\<lparr>Ivl_Start := t\<rparr>))
                     else obind (first_byte (parts ! 2)) (\<lambda>c2. Inr (parse_third F T hasStart c2 (parts ! 2) ivl)))))"

definition Ivl_MarshalGQL :: "'f float_ops \<Rightarrow> time_text \<Rightarrow> 'f ISORInterval \<Rightarrow> string outcome" where
  "Ivl_MarshalGQL F T r =
     (if r = zeroInterval F then Inr ''null'' else obind (Ivl_String F T r) (\<lambda>s. Inr (''\"'' @ s @ ''\"'')))"

definition Ivl_UnmarshalGQL :: "'f float_ops \<Rightarrow> time_text \<Rightarrow> go_time \<Rightarrow> string option \<Rightarrow> (iso_error + 'f ISORInterval) outcome" where
  "Ivl_UnmarshalGQL F T now v = (case v of
     None \<Rightarrow> Inr (Inl IsoNotString)
   | Some str \<Rightarrow> obind (ParseISORIntervalFrom F T now (trim_quotes str))
       (\<lambda>x. Inr (case x of Inl e \<Rightarrow> Inl (IsoValidation e) | Inr r \<Rightarrow> Inr r)))"

subsection \<open>The text form reads back\<close>

lemma is_digit_char_of [simp]: "n < 10 \<Longrightarrow> is_digit (char_of (48 + n))" "n < 10 \<Longrightarrow> digit_value (char_of (48 + n)) = n"
  by (simp_all add: is_digit_def digit_value_def of_char_of)

lemma show_nat_digits: "show_nat n \<noteq> [] \<and> list_all is_digit (show_nat n) \<and> parse_digits (show_nat n) = n"
proof (induction n rule: show_nat.induct)
  case (1 n)
  show ?case
  proof (cases "n < 10")
    case True
    then show ?thesis by (simp add: show_nat.simps [of n] parse_digits_def)
  next
    case False
    then show ?thesis using 1 [OF False] by (simp add: show_nat.simps [of n] parse_digits_def)
  qed
qed

lemma digit_not_sign: "is_digit c \<Longrightarrow> c \<noteq> CHR ''-'' \<and> c \<noteq> CHR ''+''"
  by (auto simp: is_digit_def)

lemma ParseInt_show_nat: "n < 2 ^ 63 \<Longrightarrow> ParseInt 64 (show_nat n) = Some (int n)"
proof -
  assume n: "n < 2 ^ 63"
  obtain c cs where s: "show_nat n = c # cs" using show_nat_digits [of n] by (cases "show_nat n") auto
  have "is_digit c" using show_nat_digits [of n] s by simp
  then have "ParseInt 64 (show_nat n) = (if 2 ^ 63 - 1 < int n then None else Some (int n))"
    using show_nat_digits [of n] digit_not_sign [of c] s by (simp add: ParseInt_def)
  then show ?thesis using n by simp
qed

text \<open>The first character after the leading digits decides which group matches.\<close>

definition after :: "string \<Rightarrow> char option" where
  "after s = (case dropWhile is_digit s of [] \<Rightarrow> None | c # _ \<Rightarrow> Some c)"

lemma digits_app:
  assumes "list_all is_digit ds"
  shows "takeWhile is_digit (ds @ s) = ds @ takeWhile is_digit s" "dropWhile is_digit (ds @ s) = dropWhile is_digit s"
  using assms by (simp_all add: list_all_iff)

lemma part_pos: "0 < n \<Longrightarrow> part n c = show_nat (nat n) @ [c]" "n \<le> 0 \<Longrightarrow> part n c = []"
  by (simp_all add: part_def show_int_def)

lemma after_part: "\<not> is_digit c \<Longrightarrow> after (part n c @ s) = (if 0 < n then Some c else after s)"
  using show_nat_digits [of "nat n"] by (cases "0 < n") (simp_all add: part_pos after_def digits_app)

lemma after_char: "\<not> is_digit c \<Longrightarrow> after (c # s) = Some c" "after [] = None"
  by (simp_all add: after_def)

lemma opt_num_none: "after s \<noteq> Some c \<Longrightarrow> opt_num c s = ([], s)"
  by (auto simp: opt_num_def after_def Let_def split: list.splits)

lemma opt_num_part:
  assumes "\<not> is_digit c" "0 < n \<or> after s \<noteq> Some c"
  shows "opt_num c (part n c @ s) = (if 0 < n then show_nat (nat n) else [], s)"
proof (cases "0 < n")
  case True
  then show ?thesis using show_nat_digits [of "nat n"] assms(1) by (simp add: part_pos opt_num_def digits_app Let_def)
next
  case False
  then show ?thesis using opt_num_none [of s c] assms(2) by (simp add: part_pos)
qed

text \<open>What \<open>FormatFloat\<close> writes for a positive number: digits, and perhaps a point with digits after it.\<close>

definition plain_float :: "string \<Rightarrow> bool" where
  "plain_float s \<longleftrightarrow> (\<exists>ds fs. s = ds @ (if fs = [] then [] else CHR ''.'' # fs) \<and> ds \<noteq> [] \<and> list_all is_digit ds \<and> list_all is_digit fs)"

lemma plain_float_sec:
  assumes "plain_float s"
  shows "opt_sec (s @ ''S'') = (s, [])" "s \<noteq> []" "is_digit (hd s)" "after (s @ ''S'') \<in> {Some CHR ''S'', Some CHR ''.''}"
    "map (\<lambda>c. if c = CHR '','' then CHR ''.'' else c) s = s"
proof -
  from assms obtain ds fs where s: "s = ds @ (if fs = [] then [] else CHR ''.'' # fs)" "ds \<noteq> []" "list_all is_digit ds" "list_all is_digit fs"
    by (auto simp: plain_float_def)
  have S: "\<not> is_digit CHR ''S''" "\<not> is_digit CHR ''.''" by (simp_all add: is_digit_def)
  show "opt_sec (s @ ''S'') = (s, [])" using s S by (simp add: opt_sec_def sec_num_def digits_app Let_def)
  show "s \<noteq> []" using s by simp
  show "is_digit (hd s)" using s by (cases ds) auto
  show "after (s @ ''S'') \<in> {Some CHR ''S'', Some CHR ''.''}" using s S by (simp add: after_def digits_app)
  have "c \<noteq> CHR '',''" if "is_digit c" for c using that by (auto simp: is_digit_def)
  then show "map (\<lambda>c. if c = CHR '','' then CHR ''.'' else c) s = s" using s by (auto simp: list_all_iff intro!: map_idI)
qed

definition num_text :: "int \<Rightarrow> string" where
  "num_text n = (if 0 < n then show_nat (nat n) else [])"

lemma letters [simp]: "\<not> is_digit CHR ''Y''" "\<not> is_digit CHR ''M''" "\<not> is_digit CHR ''W''" "\<not> is_digit CHR ''D''" "\<not> is_digit CHR ''T''"
    "\<not> is_digit CHR ''H''" "\<not> is_digit CHR ''S''" "is_word CHR ''T''"
  by (simp_all add: is_digit_def is_word_def is_upper_def)

lemma no_boundary_char: "no_boundary (c # s) = is_word c" "\<not> no_boundary []"
  by (simp_all add: no_boundary_def)

lemma no_boundary_part: "no_boundary (part n c @ s) \<longleftrightarrow> 0 < n \<or> no_boundary s"
proof (cases "0 < n")
  case True
  then show ?thesis using show_nat_digits [of "nat n"] by (cases "show_nat (nat n)") (auto simp: part_pos no_boundary_def is_word_def)
qed (simp add: part_pos)

lemma no_boundary_part_only: "no_boundary (part n c) \<longleftrightarrow> 0 < n"
  using no_boundary_part [of n c "[]"] by (simp add: no_boundary_char)

lemmas no_boundary_simps = no_boundary_part no_boundary_part_only no_boundary_char

lemma match_time_text:
  assumes "x = [] \<or> plain_float x" "0 < h \<or> 0 < m \<or> x \<noteq> []"
  shows "match_time (part h CHR ''H'' @ part m CHR ''M'' @ (if x = [] then [] else x @ ''S'')) = Some (num_text h, num_text m, x)"
proof -
  let ?s = "if x = [] then [] else x @ ''S''"
  have a: "after ?s \<noteq> Some CHR ''H''" "after ?s \<noteq> Some CHR ''M''" "opt_sec ?s = (x, [])"
    using assms(1) plain_float_sec [of x] by (auto simp: after_char opt_sec_def sec_num_def)
  have "no_boundary (part h CHR ''H'' @ part m CHR ''M'' @ ?s)"
    using assms plain_float_sec(3) [of x] by (cases x) (auto simp: no_boundary_simps is_word_def)
  moreover have "opt_num CHR ''H'' (part h CHR ''H'' @ part m CHR ''M'' @ ?s) = (num_text h, part m CHR ''M'' @ ?s)"
    using a by (simp add: opt_num_part after_part num_text_def)
  moreover have "opt_num CHR ''M'' (part m CHR ''M'' @ ?s) = (num_text m, ?s)"
    using a by (simp add: opt_num_part after_part num_text_def)
  ultimately show ?thesis using a(3) by (simp only: match_time_def Let_def prod.case if_False if_True not_True_eq_False refl)
qed

lemma iso_re_text:
  assumes "x = [] \<or> plain_float x" "0 < y \<or> 0 < mo \<or> 0 < w \<or> 0 < d \<or> t"
    and "t \<longleftrightarrow> 0 < h \<or> 0 < m \<or> x \<noteq> []"
  shows "iso_re (''P'' @ part y CHR ''Y'' @ part mo CHR ''M'' @ part w CHR ''W'' @ part d CHR ''D''
      @ (if t then ''T'' @ part h CHR ''H'' @ part m CHR ''M'' @ (if x = [] then [] else x @ ''S'') else []))
    = Some \<lparr>im_year = num_text y, im_month = num_text mo, im_week = num_text w, im_day = num_text d,
        im_hour = num_text h, im_minute = num_text m, im_second = x\<rparr>"
proof -
  define tt where "tt = (if t then ''T'' @ part h CHR ''H'' @ part m CHR ''M'' @ (if x = [] then [] else x @ ''S'') else [])"
  have a: "after tt = (if t then Some CHR ''T'' else None)" by (simp add: after_char tt_def)
  have o: "opt_num CHR ''Y'' (part y CHR ''Y'' @ part mo CHR ''M'' @ part w CHR ''W'' @ part d CHR ''D'' @ tt)
      = (num_text y, part mo CHR ''M'' @ part w CHR ''W'' @ part d CHR ''D'' @ tt)"
    "opt_num CHR ''M'' (part mo CHR ''M'' @ part w CHR ''W'' @ part d CHR ''D'' @ tt) = (num_text mo, part w CHR ''W'' @ part d CHR ''D'' @ tt)"
    "opt_num CHR ''W'' (part w CHR ''W'' @ part d CHR ''D'' @ tt) = (num_text w, part d CHR ''D'' @ tt)"
    "opt_num CHR ''D'' (part d CHR ''D'' @ tt) = (num_text d, tt)"
    using a by (simp_all add: opt_num_part after_part num_text_def del: append.simps)
  have nb: "no_boundary (part y CHR ''Y'' @ part mo CHR ''M'' @ part w CHR ''W'' @ part d CHR ''D'' @ tt)"
    using assms(2) by (auto simp: no_boundary_simps tt_def)
  have "iso_re (''P'' @ part y CHR ''Y'' @ part mo CHR ''M'' @ part w CHR ''W'' @ part d CHR ''D'' @ tt)
    = (case tt of [] \<Rightarrow> Some \<lparr>im_year = num_text y, im_month = num_text mo, im_week = num_text w, im_day = num_text d, im_hour = [], im_minute = [], im_second = []\<rparr>
      | c # s \<Rightarrow> if c \<noteq> CHR ''T'' then None
          else map_option (\<lambda>(h, m, sec). \<lparr>im_year = num_text y, im_month = num_text mo, im_week = num_text w, im_day = num_text d, im_hour = h, im_minute = m,
                        im_second = sec\<rparr>) (match_time s))"
    using nb by (simp add: iso_re_def Let_def o)
  also have "\<dots> = Some \<lparr>im_year = num_text y, im_month = num_text mo, im_week = num_text w, im_day = num_text d,
        im_hour = num_text h, im_minute = num_text m, im_second = x\<rparr>"
  proof (cases t)
    case True
    then show ?thesis using match_time_text [OF assms(1), of h m] assms(3) by (simp add: tt_def)
  next
    case False
    then show ?thesis using assms(3) by (simp add: num_text_def tt_def)
  qed
  finally show ?thesis unfolding tt_def .
qed

lemma set_part_text: "0 \<le> n \<Longrightarrow> n < 2 ^ 63 \<Longrightarrow> set_part (num_text n) upd d = Inr (if n = 0 then d else upd n d)"
  using show_nat_digits [of "nat n"] ParseInt_show_nat [of "nat n"] by (auto simp: set_part_def num_text_def)

text \<open>The durations that can be written: no part is negative, and the integers are those of \<open>int64\<close>.\<close>

definition dur_ok :: "'f float_ops \<Rightarrow> 'f ISODuration \<Rightarrow> bool" where
  "dur_ok F d \<longleftrightarrow> (\<forall>n\<in>{YearPart d, MonthPart d, WeekPart d, DayPart d, HourPart d, MinutePart d}. 0 \<le> n \<and> n < 2 ^ 63)
     \<and> (SecondPart d = fl_zero F \<or> fl_pos F (SecondPart d))"

text \<open>The documented behaviour of \<open>strconv\<close>: a positive number is written in plain decimal and reads back.\<close>

definition float_law :: "'f float_ops \<Rightarrow> bool" where
  "float_law F \<longleftrightarrow> \<not> fl_pos F (fl_zero F) \<and> (\<forall>x. fl_pos F x \<longrightarrow>
     plain_float (fl_format F (fl_micro F x)) \<and> fl_parse F (fl_format F (fl_micro F x)) = Some (fl_micro F x))"

definition to_micro :: "'f float_ops \<Rightarrow> 'f ISODuration \<Rightarrow> 'f ISODuration" where
  "to_micro F d = (if fl_pos F (SecondPart d) then d\<lparr>SecondPart := fl_micro F (SecondPart d)\<rparr> else d)"

lemma Parse_String:
  assumes "float_law F" "dur_ok F d"
  shows "ParseISODuration F (Dur_String F d) = Inr (to_micro F d)"
proof (cases "Dur_IsZero F d")
  case True
  have "ParseInt 64 ''0'' = Some 0" by (simp add: ParseInt_def is_digit_def parse_digits_def digit_value_def)
  moreover have "iso_re ''P0D'' = Some \<lparr>im_year = [], im_month = [], im_week = [], im_day = ''0'', im_hour = [], im_minute = [], im_second = []\<rparr>"
    by (simp add: iso_re_def opt_num_def no_boundary_def is_word_def is_digit_def Let_def)
  ultimately show ?thesis using True assms(1)
    by (simp add: Dur_String_def ParseISODuration_def set_part_def set_seconds_def Dur_IsZero_def to_micro_def float_law_def zeroDur_def)
next
  case False
  let ?x = "if fl_pos F (SecondPart d) then fl_format F (fl_micro F (SecondPart d)) else []"
  let ?t = "0 < HourPart d \<or> 0 < MinutePart d \<or> ?x \<noteq> []"
  have x: "?x = [] \<or> plain_float ?x" "?x \<noteq> [] \<longleftrightarrow> fl_pos F (SecondPart d)"
    using assms(1) plain_float_sec(2) by (auto simp: float_law_def)
  have nz: "0 < YearPart d \<or> 0 < MonthPart d \<or> 0 < WeekPart d \<or> 0 < DayPart d \<or> ?t"
  proof (rule ccontr)
    assume "\<not> ?thesis"
    then have "YearPart d = 0" "MonthPart d = 0" "WeekPart d = 0" "DayPart d = 0" "HourPart d = 0" "MinutePart d = 0" "SecondPart d = fl_zero F"
      using assms(2) x(2) by (auto simp: dur_ok_def)
    then show False using False by (simp add: Dur_IsZero_def zeroDur_def)
  qed
  have "Dur_String F d = ''P'' @ part (YearPart d) CHR ''Y'' @ part (MonthPart d) CHR ''M'' @ part (WeekPart d) CHR ''W'' @ part (DayPart d) CHR ''D''
      @ (if ?t then ''T'' @ part (HourPart d) CHR ''H'' @ part (MinutePart d) CHR ''M'' @ (if ?x = [] then [] else ?x @ ''S'') else [])"
    using False x(2) by (auto simp: Dur_String_def Let_def)
  then have "iso_re (Dur_String F d) = Some \<lparr>im_year = num_text (YearPart d), im_month = num_text (MonthPart d), im_week = num_text (WeekPart d),
      im_day = num_text (DayPart d), im_hour = num_text (HourPart d), im_minute = num_text (MinutePart d), im_second = ?x\<rparr>"
    using iso_re_text [OF x(1) nz refl] by simp
  then show ?thesis using assms x(2) plain_float_sec(2,5) [of ?x]
    by (cases d) (auto simp: ParseISODuration_def set_part_text set_seconds_def dur_ok_def zeroDur_def to_micro_def float_law_def)
qed

subsection \<open>Intervals read back, and panic on empty parts\<close>

lemma SplitN_3:
  assumes "CHR ''/'' \<notin> set a" "CHR ''/'' \<notin> set b"
  shows "SplitN 3 CHR ''/'' (a @ CHR ''/'' # b @ CHR ''/'' # c) = [a, b, c]"
proof -
  have "takeWhile (\<lambda>x. x \<noteq> CHR ''/'') (w @ CHR ''/'' # r) = w \<and> dropWhile (\<lambda>x. x \<noteq> CHR ''/'') (w @ CHR ''/'' # r) = CHR ''/'' # r"
    if "CHR ''/'' \<notin> set w" for w r using that by (induction w) auto
  then show ?thesis using assms by (simp add: numeral_3_eq_3)
qed

text \<open>The documented behaviour of the time package at one time: its text reads back, has no slash and is no duration.\<close>

definition time_law :: "time_text \<Rightarrow> go_time \<Rightarrow> bool" where
  "time_law T x \<longleftrightarrow> tt_Parse T (tt_Format T x) = Some x \<and> CHR ''/'' \<notin> set (tt_Format T x) \<and> tt_Format T x \<noteq> [] \<and> hd (tt_Format T x) \<noteq> CHR ''P''"

lemma Dur_String_P: "\<exists>s. Dur_String F d = CHR ''P'' # s"
  by (auto simp: Dur_String_def Let_def)

lemma Parse_interval_String:
  assumes "float_law F" "dur_ok F (Period r)" "0 \<le> Repeat r" "Repeat r < 2 ^ 63" "time_law T (Ivl_Start r)"
    and "YearPart (Period r) \<noteq> 0 \<or> MonthPart (Period r) \<noteq> 0 \<or> Dur_Days (Period r) \<noteq> 0"
  shows "obind (Ivl_String F T r) (ParseISORIntervalFrom F T t) = Inr (Inr (r\<lparr>Period := to_micro F (Period r)\<rparr>))"
proof -
  let ?a = "''R'' @ show_nat (nat (Repeat r))" and ?b = "tt_Format T (Ivl_Start r)" and ?c = "Dur_String F (Period r)"
  have "CHR ''/'' \<notin> set ?a" using show_nat_digits [of "nat (Repeat r)"] by (auto simp: list_all_iff is_digit_def)
  then have s: "SplitN 3 CHR ''/'' (?a @ CHR ''/'' # ?b @ CHR ''/'' # ?c) = [?a, ?b, ?c]" using assms(5) by (intro SplitN_3) (auto simp: time_law_def)
  obtain s2 where c: "?c = CHR ''P'' # s2" using Dur_String_P by blast
  have i: "ParseInt 64 (show_nat (nat (Repeat r))) = Some (Repeat r)" using ParseInt_show_nat [of "nat (Repeat r)"] assms(3,4) by simp
  obtain b1 bs where b: "?b = b1 # bs" "b1 \<noteq> CHR ''P''" "tt_Parse T (b1 # bs) = Some (Ivl_Start r)"
    using assms(5) by (cases ?b) (auto simp: time_law_def)
  have "Ivl_String F T r = Inr (?a @ CHR ''/'' # ?b @ CHR ''/'' # ?c)" using assms(3,6) by (auto simp: Ivl_String_def show_int_def Let_def)
  moreover have "ParseISORIntervalFrom F T t (?a @ CHR ''/'' # ?b @ CHR ''/'' # ?c) = Inr (parse_third F T True CHR ''P'' ?c
      ((zeroInterval F)\<lparr>Repeat := Repeat r, Ivl_Start := Ivl_Start r\<rparr>))"
    unfolding ParseISORIntervalFrom_def s using i assms(3) b c by (simp add: first_byte_def parse_second_def)
  ultimately show ?thesis using Parse_String [OF assms(1,2)] by (simp add: parse_third_def zeroInterval_def)
qed

lemma first_byte_ok: "s \<noteq> [] \<Longrightarrow> first_byte s = Inr (hd s)"
  by (cases s) (simp_all add: first_byte_def)

text \<open>The parser of intervals panics only on empty parts, and it does: a text that ends after a slash.\<close>

lemma ParseISORInterval_no_panic:
  assumes "[] \<notin> set (SplitN 3 CHR ''/'' s)"
  shows "\<exists>r. ParseISORIntervalFrom F T t s = Inr r"
proof -
  let ?p = "SplitN 3 CHR ''/'' s"
  have ne: "i < length ?p \<Longrightarrow> first_byte (?p ! i) = Inr (hd (?p ! i))" for i using assms nth_mem [of i ?p] by (metis first_byte_ok)
  show ?thesis
  proof (cases "length ?p < 2")
    case False
    then have "0 < length ?p" "1 < length ?p" "length ?p \<noteq> 2 \<Longrightarrow> 2 < length ?p" by linarith+
    then have "first_byte (?p ! 0) = Inr (hd (?p ! 0))" "first_byte (?p ! 1) = Inr (hd (?p ! 1))"
      "length ?p \<noteq> 2 \<Longrightarrow> first_byte (?p ! 2) = Inr (hd (?p ! 2))" by (blast intro: ne)+
    then show ?thesis using False
      by (auto simp: ParseISORIntervalFrom_def Let_def split: option.splits sum.splits prod.splits)
  qed (simp add: ParseISORIntervalFrom_def Let_def)
qed

lemma ParseISORInterval_panics:
  "ParseISORIntervalFrom F T t ''R1/'' = Inl (Panic ''index out of range'')"
  "ParseISORIntervalFrom F T t ''/P1D'' = Inl (Panic ''index out of range'')"
  by (simp_all add: ParseISORIntervalFrom_def first_byte_def ParseInt_def is_digit_def parse_digits_def digit_value_def numeral_3_eq_3)


text \<open>Whole seconds as the float type, and one time with its text.\<close>

definition whole_seconds :: "int float_ops" where
  "whole_seconds = \<lparr>fl_zero = 0, fl_pos = (\<lambda>x. 0 < x), fl_micro = (\<lambda>x. x), fl_format = show_int, fl_parse = (\<lambda>s. Some (int (parse_digits s))),
     fl_nanos = (\<lambda>x. x * Second), fl_rest = (\<lambda>d n. d div Second - n), fl_hours = (\<lambda>d. d div Hour), fl_minutes = (\<lambda>d. d div Minute)\<rparr>"

definition epoch_text :: time_text where
  "epoch_text = \<lparr>tt_Format = (\<lambda>x. ''1970-01-01T00:00:00Z''), tt_Parse = (\<lambda>s. Some (UTC, 0))\<rparr>"

definition sample_interval :: "int ISORInterval" where
  "sample_interval = \<lparr>Repeat = 3, Ivl_Start = (UTC, 0), Period = \<lparr>YearPart = 0, MonthPart = 1, WeekPart = 0, DayPart = 12,
     HourPart = 0, MinutePart = 90, SecondPart = 5\<rparr>\<rparr>"

lemma whole_seconds_law: "float_law whole_seconds"
  using show_nat_digits by (auto simp: float_law_def whole_seconds_def plain_float_def show_int_def)


end
