(* ===== verification/Rotation.thy ===== *)
theory Rotation
  imports Clock Validate
begin

section \<open>Rotations: schedule/rotation\<close>

text \<open>
  A rotation of \<open>schedule/rotation/rotation.go\<close> hands over between its participants every
  \<open>ShiftLength\<close> hours, days, weeks or months from \<open>Start\<close>.  The record has the fields of the Go
  struct; the location \<open>Start\<close> carries is the field \<open>rot_Location\<close>.
  \<open>Type\<close> is a string type in the code and any string can be stored in it.
\<close>

type_synonym rotation_type = string

definition TypeMonthly :: rotation_type where "TypeMonthly = ''monthly''"
definition TypeWeekly :: rotation_type where "TypeWeekly = ''weekly''"
definition TypeDaily :: rotation_type where "TypeDaily = ''daily''"
definition TypeHourly :: rotation_type where "TypeHourly = ''hourly''"

lemmas rotation_types = TypeMonthly_def TypeWeekly_def TypeDaily_def TypeHourly_def

record Rotation =
  rot_ID :: string
  rot_OrganizationID :: string
  rot_Name :: string
  rot_Description :: runes
  rot_Type :: rotation_type
  rot_Start :: instant
  rot_Location :: location
  rot_ShiftLength :: int
  rot_isUserFavorite :: bool

definition shiftClock :: "Rotation \<Rightarrow> Clock outcome" where
  "shiftClock r =
     (if rot_Type r = TypeHourly then Inr (NewClock (rot_ShiftLength r) 0)
      else if rot_Type r = TypeDaily then Inr (NewClock (rot_ShiftLength r * 24) 0)
      else if rot_Type r = TypeWeekly then Inr (NewClock (rot_ShiftLength r * 24 * 7) 0)
      else Inl (Panic ''unexpected rotation type''))"

text \<open>
  The recursive search for a monthly handoff.  It panics past 10000 shifts, which bounds it.
\<close>

function monthStartTime :: "Rotation \<Rightarrow> instant \<Rightarrow> int \<Rightarrow> instant outcome" where
  "monthStartTime r t n =
     (if 10000 < n then Inl (Panic ''too many iterations'')
      else if \<not> t < rot_Start r then
        (let next = AddDate (rot_Location r) (rot_Start r) 0 (rot_ShiftLength r * n) 0
         in if t < next then Inr (AddDate (rot_Location r) (rot_Start r) 0 (rot_ShiftLength r * (n - 1)) 0)
            else monthStartTime r t (n + 1))
      else
        (let prev = AddDate (rot_Location r) (rot_Start r) 0 (- rot_ShiftLength r * n) 0
         in if prev < t then Inr prev else monthStartTime r t (n + 1)))"
  by pat_completeness auto
termination
  by (relation "measure (\<lambda>(r, t, n). nat (10001 - n))") auto

function monthEndTime :: "Rotation \<Rightarrow> instant \<Rightarrow> int \<Rightarrow> instant outcome" where
  "monthEndTime r t n =
     (if 10000 < n then Inl (Panic ''too many iterations'')
      else if \<not> t < rot_Start r then
        (let next = AddDate (rot_Location r) (rot_Start r) 0 (rot_ShiftLength r * n) 0
         in if t < next then Inr next else monthEndTime r t (n + 1))
      else
        (let prev = AddDate (rot_Location r) (rot_Start r) 0 (- rot_ShiftLength r * n) 0
         in if prev < t \<or> prev = t
              then Inr (AddDate (rot_Location r) (rot_Start r) 0 (- rot_ShiftLength r * (n - 1)) 0)
            else monthEndTime r t (n + 1)))"
  by pat_completeness auto
termination
  by (relation "measure (\<lambda>(r, t, n). nat (10001 - n))") auto

declare monthStartTime.simps [simp del] monthEndTime.simps [simp del]

text \<open>What \<open>StartTime\<close> and \<open>EndTime\<close> do first: a default length, and times cut to the minute.\<close>

definition prepare :: "Rotation \<Rightarrow> Rotation" where
  "prepare r = r\<lparr>rot_ShiftLength := (if rot_ShiftLength r \<le> 0 then 1 else rot_ShiftLength r),
                 rot_Start := Truncate (rot_Start r) Minute\<rparr>"

definition shift_rem :: "location \<Rightarrow> instant \<Rightarrow> instant \<Rightarrow> Clock \<Rightarrow> Clock" where
  "shift_rem l start t shiftClockLen =
     (let rem = ClockDiff l start t smod shiftClockLen
      in if rem < 0 then rem + shiftClockLen else rem)"

definition Rotation_StartTime :: "Rotation \<Rightarrow> instant \<Rightarrow> instant outcome" where
  "Rotation_StartTime r0 t0 =
     (let r = prepare r0; t = Truncate t0 Minute; l = rot_Location r
      in if rot_Type r = TypeMonthly then monthStartTime r t 1
         else obind (shiftClock r) (\<lambda>len. Inr (AddClock l t (- shift_rem l (rot_Start r) t len))))"

definition Rotation_EndTime :: "Rotation \<Rightarrow> instant \<Rightarrow> instant outcome" where
  "Rotation_EndTime r0 t0 =
     (let r = prepare r0; t = Truncate t0 Minute; l = rot_Location r
      in if rot_Type r = TypeMonthly then monthEndTime r t 1
         else obind (shiftClock r) (\<lambda>len. Inr (AddClock l t (len - shift_rem l (rot_Start r) t len))))"

text \<open>
  \<open>Normalize\<close>.  A \<open>time.Time\<close> never returns a nil location, so the test for one is left out.
\<close>

definition Rotation_Normalize :: "(rune \<Rightarrow> bool) \<Rightarrow> Rotation \<Rightarrow> (go_error + Rotation) outcome" where
  "Rotation_Normalize uprint r0 =
     (let r = r0\<lparr>rot_ShiftLength := (if rot_ShiftLength r0 = 0 then 1 else rot_ShiftLength r0),
                 rot_Start := Truncate (rot_Start r0) Minute\<rparr>
      in obind (Text uprint ''Description'' (rot_Description r) 1 255)
           (\<lambda>text_err.
              Inr (case Many [IDName ''Name'' (rot_Name r),
                              Range ''ShiftLength'' (rot_ShiftLength r) 1 9000,
                              OneOf (\<lambda>t. t) ''Type'' (rot_Type r)
                                [TypeMonthly, TypeWeekly, TypeDaily, TypeHourly],
                              text_err] of
                     Some e \<Rightarrow> Inl e
                   | None \<Rightarrow> Inr r)))"

subsection \<open>The type's encodings\<close>

definition Type_Scan :: "db_value \<Rightarrow> rotation_type \<Rightarrow> rotation_type \<times> error_result" where
  "Type_Scan v old =
     (case v of
        DbBytes t \<Rightarrow> (t, None)
      | DbString t \<Rightarrow> (t, None)
      | _ \<Rightarrow> (old, Some (OtherError ''could not process unknown type for rotation type'')))"

definition Type_Value :: "rotation_type \<Rightarrow> go_error + db_value" where
  "Type_Value r =
     (if r \<in> {TypeMonthly, TypeWeekly, TypeDaily, TypeHourly} then Inr (DbString r)
      else Inl (OtherError ''unknown rotation type specified''))"

definition Type_UnmarshalGQL :: "string \<Rightarrow> go_error + rotation_type" where
  "Type_UnmarshalGQL str =
     (if str = ''monthly'' then Inr TypeMonthly
      else if str = ''weekly'' then Inr TypeWeekly
      else if str = ''daily'' then Inr TypeDaily
      else if str = ''hourly'' then Inr TypeHourly
      else Inl (FieldError ''Type'' (''unknown rotation type '' @ str)))"

text \<open>\<open>MarshalGQL\<close> writes nothing for an unknown type.\<close>

definition Type_MarshalGQL :: "rotation_type \<Rightarrow> string option" where
  "Type_MarshalGQL t =
     (if t = TypeMonthly then Some ''monthly''
      else if t = TypeWeekly then Some ''weekly''
      else if t = TypeHourly then Some ''hourly''
      else if t = TypeDaily then Some ''daily''
      else None)"

subsection \<open>Hourly, daily and weekly shifts\<close>

text \<open>The length of a shift that is not monthly, in nanoseconds.\<close>

definition shift_len :: "Rotation \<Rightarrow> int" where
  "shift_len r =
     (let n = (if rot_ShiftLength r \<le> 0 then 1 else rot_ShiftLength r)
      in if rot_Type r = TypeHourly then n * Hour
         else if rot_Type r = TypeDaily then n * Day
         else n * 7 * Day)"

definition clock_type :: "rotation_type \<Rightarrow> bool" where
  "clock_type ty \<longleftrightarrow> ty = TypeHourly \<or> ty = TypeDaily \<or> ty = TypeWeekly"

lemma shiftClock_prepare: "clock_type (rot_Type r) \<Longrightarrow> shiftClock (prepare r) = Inr (shift_len r)"
  by (auto simp: shiftClock_def prepare_def shift_len_def clock_type_def NewClock_def rotation_types)

lemma shift_len_pos: "0 < shift_len r" and shift_len_minutes: "shift_len r mod Minute = 0"
proof -
  define n where "n = (if rot_ShiftLength r \<le> 0 then 1 else rot_ShiftLength r)"
  have "0 < n" by (simp add: n_def)
  then show "0 < shift_len r" by (simp add: shift_len_def n_def [symmetric])
  have "\<exists>k. shift_len r = k * Minute"
    by (cases "rot_Type r = TypeHourly"; cases "rot_Type r = TypeDaily";
        intro exI [of _ "shift_len r div Minute"]) (simp_all add: shift_len_def n_def [symmetric] mult.assoc)
  then show "shift_len r mod Minute = 0" by auto
qed

lemma shift_rem_fixed:
  assumes "\<bar>t - s\<bar> < 2 ^ 63" "0 < len"
  shows "shift_rem (fixed_loc off) s t len = (t - s) mod len"
  using smod_wrap [OF assms(2), of "t - s"] Sub_small [OF assms(1)]
  by (simp add: shift_rem_def ClockDiff_def Let_def)

lemma Rotation_times_fixed:
  assumes ty: "clock_type (rot_Type r)" and loc: "rot_Location r = fixed_loc off" "off mod 60 = 0"
    and near: "\<bar>Truncate t Minute - Truncate (rot_Start r) Minute\<bar> < 2 ^ 63"
  defines "S \<equiv> Truncate (rot_Start r) Minute" and "T \<equiv> Truncate t Minute"
  shows "Rotation_StartTime r t = Inr (T - (T - S) mod shift_len r)"
    and "Rotation_EndTime r t = Inr (T - (T - S) mod shift_len r + shift_len r)"
proof -
  have nm: "rot_Type (prepare r) \<noteq> TypeMonthly"
    using ty by (auto simp: prepare_def clock_type_def rotation_types)
  have p: "rot_Location (prepare r) = fixed_loc off" "rot_Start (prepare r) = S"
    using loc by (simp_all add: prepare_def S_def)
  have rem: "shift_rem (fixed_loc off) S T (shift_len r) = (T - S) mod shift_len r"
    using near shift_len_pos unfolding S_def T_def by (rule shift_rem_fixed)
  show "Rotation_StartTime r t = Inr (T - (T - S) mod shift_len r)"
    and "Rotation_EndTime r t = Inr (T - (T - S) mod shift_len r + shift_len r)"
    using nm unfolding Rotation_StartTime_def Rotation_EndTime_def Let_def T_def [symmetric]
    by (simp_all add: p shiftClock_prepare [OF ty] rem [unfolded T_def] AddClock_fixed [OF loc(2)] T_def)
qed

subsection \<open>Monthly shifts\<close>

text \<open>The \<open>n\<close>-th handoff of a monthly rotation.\<close>

definition handoff :: "Rotation \<Rightarrow> int \<Rightarrow> instant" where
  "handoff r n = AddDate (rot_Location r) (rot_Start r) 0 (rot_ShiftLength r * n) 0"

lemma month_search_forward:
  assumes "rot_Start r \<le> t"
  shows "(\<exists>k. n \<le> k \<and> k \<le> 10000 \<and> t < handoff r k \<and> (\<forall>m. n \<le> m \<longrightarrow> m < k \<longrightarrow> handoff r m \<le> t)
        \<and> monthEndTime r t n = Inr (handoff r k) \<and> monthStartTime r t n = Inr (handoff r (k - 1)))
    \<or> ((\<forall>m. n \<le> m \<longrightarrow> m \<le> 10000 \<longrightarrow> handoff r m \<le> t)
        \<and> monthEndTime r t n = Inl (Panic ''too many iterations'')
        \<and> monthStartTime r t n = Inl (Panic ''too many iterations''))"
    (is "?P n")
proof (induction "nat (10001 - n)" arbitrary: n rule: less_induct)
  case less
  note eqs = monthEndTime.simps [of r t n] monthStartTime.simps [of r t n] handoff_def [symmetric]
  have nb: "\<not> t < rot_Start r" using assms by simp
  consider (over) "10000 < n" | (found) "n \<le> 10000" "t < handoff r n" | (on) "n \<le> 10000" "handoff r n \<le> t"
    by linarith
  then show ?case
  proof cases
    case over
    then show ?thesis by (auto simp: eqs)
  next
    case found
    then show ?thesis
      by (intro disjI1 exI [of _ n]) (use nb in \<open>simp add: eqs Let_def\<close>)
  next
    case on
    have step: "monthEndTime r t n = monthEndTime r t (n + 1)" "monthStartTime r t n = monthStartTime r t (n + 1)"
      using on nb by (simp_all add: eqs Let_def)
    have IH: "?P (n + 1)" by (rule less.hyps) (use on in simp)
    have low: "handoff r m \<le> t" if "n \<le> m" "m < n + 1" for m
      using that on(2) by (cases "m = n") auto
    from IH show ?thesis
    proof (elim disjE exE conjE, goal_cases)
      case (1 k)
      have "handoff r m \<le> t" if "n \<le> m" "m < k" for m
        using 1(4) low [of m] that by (cases "m < n + 1") auto
      with 1 step show ?thesis by (intro disjI1 exI [of _ k]) auto
    next
      case 2
      have "handoff r m \<le> t" if "n \<le> m" "m \<le> 10000" for m
        using 2(1) low [of m] that by (cases "m < n + 1") auto
      with 2 step show ?thesis by auto
    qed
  qed
qed

lemma moment_mod_Minute:
  assumes "off mod 60 = 0"
  shows "moment off d c mod Minute = c mod Minute"
proof -
  obtain q where "off = 60 * q" using assms by (auto elim!: dvdE simp: mod_eq_0_iff_dvd)
  then have "moment off d c = c + (1440 * d - q) * Minute" by (simp add: moment_def algebra_simps)
  then show ?thesis by (simp only: mod_mult_self1)
qed

text \<open>In a fixed offset the handoffs keep the time of day and lie at least 28 days apart.\<close>

lemma handoff_fixed:
  assumes "rot_Location r = fixed_loc off" "civil (local_day (fixed_loc off) (rot_Start r)) = (am, d)"
  shows "handoff r n = moment off (month_start (am + rot_ShiftLength r * n) + d - 1)
    (time_of_day (fixed_loc off) (rot_Start r))"
  using assms by (simp add: handoff_def AddDate_def Let_def Date_fixed moment_def)

lemma handoff_0:
  assumes "rot_Location r = fixed_loc off"
  shows "handoff r 0 = rot_Start r"
proof -
  obtain am d where c: "civil (local_day (fixed_loc off) (rot_Start r)) = (am, d)" by fastforce
  have "handoff r 0 = moment off (local_day (fixed_loc off) (rot_Start r)) (time_of_day (fixed_loc off) (rot_Start r))"
    using handoff_fixed [OF assms c, of 0] civil_month_start [OF c] by simp
  then show ?thesis using instant_moment [of "rot_Start r" off] by simp
qed

lemma handoff_ahead:
  assumes "rot_Location r = fixed_loc off" "1 \<le> rot_ShiftLength r" "0 \<le> n"
  shows "rot_Start r + 28 * n * Day \<le> handoff r n"
proof -
  obtain am d where c: "civil (local_day (fixed_loc off) (rot_Start r)) = (am, d)" by fastforce
  have "n \<le> rot_ShiftLength r * n" using assms(2,3) by (simp add: mult_le_cancel_right1)
  then have "month_start am + 28 * n \<le> month_start (am + rot_ShiftLength r * n)"
    using month_start_mono [of "rot_ShiftLength r * n" am] assms(3) by linarith
  then have "(month_start am + 28 * n) * Day \<le> month_start (am + rot_ShiftLength r * n) * Day"
    by (rule mult_right_mono) simp
  then have "handoff r 0 + 28 * n * Day \<le> handoff r n"
    unfolding handoff_fixed [OF assms(1) c] by (simp add: moment_def algebra_simps)
  then show ?thesis using handoff_0 [OF assms(1)] by simp
qed

lemma handoff_minute:
  assumes "rot_Location r = fixed_loc off" "off mod 60 = 0" "rot_Start r mod Minute = 0"
  shows "handoff r n mod Minute = 0"
proof -
  obtain am d where c: "civil (local_day (fixed_loc off) (rot_Start r)) = (am, d)" by fastforce
  have "time_of_day (fixed_loc off) (rot_Start r) mod Minute = rot_Start r mod Minute"
    using moment_mod_Minute [OF assms(2)] instant_moment [of "rot_Start r" off] by metis
  then show ?thesis unfolding handoff_fixed [OF assms(1) c] moment_mod_Minute [OF assms(2)] using assms(3) by simp
qed

lemma Truncate_Minute_mod: "Truncate t Minute mod Minute = 0"
  unfolding Truncate_Minute by (simp add: minus_mod_eq_mult_div)

lemma Truncate_less_iff: "e mod Minute = 0 \<Longrightarrow> Truncate t Minute < e \<longleftrightarrow> t < e"
  unfolding Truncate_Minute by (rule minute_less_iff)

lemma Rotation_month_shift:
  assumes ty: "rot_Type r = TypeMonthly" and loc: "rot_Location r = fixed_loc off" "off mod 60 = 0"
    and t: "Truncate (rot_Start r) Minute \<le> t" "t < Truncate (rot_Start r) Minute + 280000 * Day"
  obtains k where "1 \<le> k" "k \<le> 10000"
    "Rotation_StartTime r t = Inr (handoff (prepare r) (k - 1))"
    "Rotation_EndTime r t = Inr (handoff (prepare r) k)"
    "handoff (prepare r) (k - 1) \<le> t" "t < handoff (prepare r) k"
proof -
  define p where "p = prepare r"
  define T where "T = Truncate t Minute"
  have p: "rot_Location p = fixed_loc off" "rot_Start p = Truncate (rot_Start r) Minute"
    "1 \<le> rot_ShiftLength p" "rot_Type p = TypeMonthly"
    using loc ty by (simp_all add: p_def prepare_def)
  have min: "handoff p n mod Minute = 0" for n
    using p loc(2) Truncate_Minute_mod by (intro handoff_minute) auto
  have lt: "T < handoff p n \<longleftrightarrow> t < handoff p n" for n
    unfolding T_def by (rule Truncate_less_iff) (rule min)
  have S: "rot_Start p \<le> T"
    using Truncate_mono [of Minute "Truncate (rot_Start r) Minute" t] t(1) p(2) by (simp add: T_def)
  have eqs: "Rotation_StartTime r t = monthStartTime p T 1" "Rotation_EndTime r t = monthEndTime p T 1"
    using p(4) by (simp_all add: Rotation_StartTime_def Rotation_EndTime_def p_def T_def Let_def)
  have "t < handoff p 10000" using handoff_ahead [OF p(1,3), of 10000] t(2) p(2) by simp
  then have "\<not> (\<forall>m. 1 \<le> m \<longrightarrow> m \<le> 10000 \<longrightarrow> handoff p m \<le> T)"
    using lt [of 10000] by (auto intro!: exI [of _ 10000])
  with month_search_forward [OF S, of 1] obtain k where k: "1 \<le> k" "k \<le> 10000" "T < handoff p k"
    "\<forall>m. 1 \<le> m \<longrightarrow> m < k \<longrightarrow> handoff p m \<le> T" "monthEndTime p T 1 = Inr (handoff p k)"
    "monthStartTime p T 1 = Inr (handoff p (k - 1))" by blast
  have "handoff p (k - 1) \<le> t"
  proof (cases "k = 1")
    case True
    then show ?thesis using handoff_0 [OF p(1)] p(2) t(1) by simp
  next
    case False
    with k(1,4) have "\<not> T < handoff p (k - 1)" by (simp add: not_less)
    then show ?thesis using lt [of "k - 1"] by simp
  qed
  with k lt [of k] show ?thesis unfolding eqs p_def by (intro that [of k]) (auto simp: p_def [symmetric] eqs)
qed

subsection \<open>Properties\<close>

definition sample_rotation :: Rotation where
  "sample_rotation = \<lparr>rot_ID = ''r'', rot_OrganizationID = ''o'', rot_Name = ''Rotation'', rot_Description = [],
     rot_Type = TypeWeekly, rot_Start = 1700000000 * Second, rot_Location = fixed_loc 3600,
     rot_ShiftLength = 2, rot_isUserFavorite = False\<rparr>"





definition hourly_rotation :: Rotation where
  "hourly_rotation = sample_rotation\<lparr>rot_Type := TypeHourly, rot_ShiftLength := 1,
     rot_Start := 1730436000 * Second, rot_Location := new_york\<rparr>"

text \<open>the comment on \<open>EndTime\<close> guarantees a result after \<open>t\<close>.  In the hour a clock repeats
  when daylight saving ends it is not: on 3 November 2024 in New York, at the second 01:10,
  a rotation that hands off hourly at minute 40 is said to end at the first 01:40, half an hour
  before.\<close>

theorem Rotation_EndTime_fallback:
  "Rotation_EndTime hourly_rotation (1730614200 * Second) = Inr (1730612400 * Second)
   \<and> 1730612400 * Second < 1730614200 * Second"
  by code_simp

definition monthly_rotation :: Rotation where
  "monthly_rotation = sample_rotation\<lparr>rot_Type := TypeMonthly, rot_ShiftLength := 1,
     rot_Start := 1709251200 * Second, rot_Location := fixed_loc 0\<rparr>"

text \<open>Before the start of a monthly rotation, at the very instant of a handoff, \<open>StartTime\<close>
  is one shift too early (its comparison is strict where the one of \<open>EndTime\<close> is not): at
  1 February a rotation that starts on 1 March is given the shift from 1 January to 1 March.\<close>

theorem Rotation_month_before_start:
  "Rotation_StartTime monthly_rotation (1706745600 * Second) = Inr (1704067200 * Second)
   \<and> Rotation_EndTime monthly_rotation (1706745600 * Second) = Inr (1709251200 * Second)
   \<and> AddDate (fixed_loc 0) (rot_Start monthly_rotation) 0 (-1) 0 = 1706745600 * Second"
  by code_simp

lemma obind_errors_Inr:
  "obind x (\<lambda>e. Inr (case m e of Some e \<Rightarrow> Inl e | None \<Rightarrow> Inr r)) = Inr (Inr r') \<Longrightarrow> \<exists>e. m e = None \<and> r' = r"
  by (auto split: option.splits)

text \<open>C34: a rotation that \<open>Normalize\<close> accepts has a shift length from 1 to 9000, one of the four
  types and a start on a whole minute, and is changed in nothing else.\<close>

theorem Rotation_Normalize_ok:
  assumes "Rotation_Normalize uprint r = Inr (Inr r')"
  shows "1 \<le> rot_ShiftLength r' \<and> rot_ShiftLength r' \<le> 9000
    \<and> rot_Type r' \<in> {TypeMonthly, TypeWeekly, TypeDaily, TypeHourly} \<and> rot_Start r' mod Minute = 0
    \<and> r' = r\<lparr>rot_ShiftLength := rot_ShiftLength r', rot_Start := Truncate (rot_Start r) Minute\<rparr>"
proof -
  let ?r = "r\<lparr>rot_ShiftLength := (if rot_ShiftLength r = 0 then 1 else rot_ShiftLength r),
    rot_Start := Truncate (rot_Start r) Minute\<rparr>"
  from obind_errors_Inr [OF assms [unfolded Rotation_Normalize_def Let_def]] obtain e where m: "Many [IDName ''Name'' (rot_Name ?r), Range ''ShiftLength'' (rot_ShiftLength ?r) 1 9000,
      OneOf (\<lambda>t. t) ''Type'' (rot_Type ?r) [TypeMonthly, TypeWeekly, TypeDaily, TypeHourly], e] = None"
    and r': "r' = ?r"
    by blast
  from Many_None [OF m] show ?thesis
    unfolding r' by (auto simp: Range_def OneOf_def NewFieldError_def Truncate_Minute_mod split: if_splits)
qed

theorem Rotation_Normalize_ok_witness:
  "\<exists>r'. Rotation_Normalize (\<lambda>r. True) (sample_rotation\<lparr>rot_ShiftLength := 0\<rparr>) = Inr (Inr r')
    \<and> 1 \<le> rot_ShiftLength r' \<and> rot_Start r' mod Minute = 0"
proof -
  let ?r' = "sample_rotation\<lparr>rot_ShiftLength := 1, rot_Start := Truncate (1700000000 * Second) Minute\<rparr>"
  have name: "IDName ''Name'' ''Rotation'' = None" by code_simp
  have "Rotation_Normalize (\<lambda>r. True) (sample_rotation\<lparr>rot_ShiftLength := 0\<rparr>) = Inr (Inr ?r')"
    unfolding Rotation_Normalize_def sample_rotation_def Let_def
    by (simp add: Many_def name Text_def Range_def OneOf_def)
  then show ?thesis
    using Rotation_Normalize_ok [of "\<lambda>r. True" "sample_rotation\<lparr>rot_ShiftLength := 0\<rparr>" ?r'] by metis
qed

end
