(* ===== verification/RotationManager.thy ===== *)
theory RotationManager
  imports Rotation
begin

section \<open>Advancing rotations: engine/rotationmanager\<close>

text \<open>
  The job of \<open>engine/rotationmanager\<close> that moves a rotation to its next participant.  The loops of
  \<open>legacyadvance.go\<close> have no bound in the code: they are partial functions into \<open>option\<close>, where
  \<open>None\<close> is a loop that does not end; a panic is a value of \<open>outcome\<close> inside.  The database is the
  row the job loads, the result \<open>exec\<close> gives to each statement, and the list of statements the
  transaction commits.
\<close>

record advance =
  adv_id :: string
  adv_newPosition :: int

record rotState =
  st_ShiftStart :: instant
  st_Position :: int
  st_Version :: int

subsection \<open>Version 1 states: legacyadvance.go\<close>

definition legacyAddHours :: "location \<Rightarrow> instant \<Rightarrow> int \<Rightarrow> instant" where
  "legacyAddHours l t n = Date l (local_day l t * Day + time_of_day l t + n * Hour)"

partial_function (option) dec_loop :: "location \<Rightarrow> instant \<Rightarrow> int \<Rightarrow> instant option" where
  [code]: "dec_loop l t n =
     (let res = legacyAddHours l t n in if res < t then Some res else dec_loop l t (n - 1))"

partial_function (option) inc_loop :: "location \<Rightarrow> instant \<Rightarrow> int \<Rightarrow> instant option" where
  [code]: "inc_loop l t n =
     (let res = legacyAddHours l t n in if t < res then Some res else inc_loop l t (n + 1))"

definition legacyAddHoursAlwaysInc :: "location \<Rightarrow> instant \<Rightarrow> int \<Rightarrow> instant option" where
  "legacyAddHoursAlwaysInc l t n = (if n < 0 then dec_loop l t n else inc_loop l t n)"

partial_function (option) v1_reverse :: "location \<Rightarrow> int \<Rightarrow> instant \<Rightarrow> instant \<Rightarrow> instant \<Rightarrow> instant option" where
  [code]: "v1_reverse l len t prev cTime =
     (if t < cTime
        then Option.bind (legacyAddHoursAlwaysInc l cTime (- len)) (\<lambda>c. v1_reverse l len t cTime c)
      else Some prev)"

partial_function (option) v1_forward :: "location \<Rightarrow> int \<Rightarrow> instant \<Rightarrow> instant \<Rightarrow> instant option" where
  [code]: "v1_forward l len t cTime =
     (if \<not> t < cTime
        then Option.bind (legacyAddHoursAlwaysInc l cTime len) (\<lambda>c. v1_forward l len t c)
      else Some cTime)"

definition calcVersion1EndTime :: "Rotation \<Rightarrow> instant \<Rightarrow> instant outcome option" where
  "calcVersion1EndTime rot shiftStart =
     (if rot_Type rot \<noteq> TypeHourly then Some (Rotation_EndTime rot shiftStart)
      else let cTime = Truncate (rot_Start rot) Minute; l = rot_Location rot; t = shiftStart
           in map_option Inr
                (if t < cTime then v1_reverse l (rot_ShiftLength rot) t cTime cTime
                 else v1_forward l (rot_ShiftLength rot) t cTime))"

subsection \<open>Calculating the advance: advance.go\<close>

text \<open>A step of a calculation that may not end or may panic.\<close>

definition pbind :: "'a outcome option \<Rightarrow> ('a \<Rightarrow> 'b outcome option) \<Rightarrow> 'b outcome option" where
  "pbind x f = (case x of None \<Rightarrow> None | Some (Inl p) \<Rightarrow> Some (Inl p) | Some (Inr v) \<Rightarrow> f v)"

function advance_loop ::
  "(instant \<Rightarrow> instant outcome option) \<Rightarrow> instant \<Rightarrow> int \<Rightarrow> int \<Rightarrow> instant \<Rightarrow> int \<Rightarrow> int outcome option" where
  "advance_loop endTimeFunc t partCount position shiftStart c0 =
     (let c = c0 + 1
      in if 10000 < c then Some (Inl (Panic ''too many rotation advances''))
         else if partCount = 0 then Some (Inl (Panic ''integer divide by zero''))
         else let position = (position + 1) smod partCount
              in pbind (endTimeFunc shiftStart)
                   (\<lambda>end. if t < end then Some (Inr position)
                          else advance_loop endTimeFunc t partCount position end c))"
  by pat_completeness auto
termination
  by (relation "measure (\<lambda>(f, t, p, pos, s, c). nat (10001 - c))") auto

declare advance_loop.simps [simp del]

datatype advance_result = NoAdvance | Advance advance | UnknownVersion int

definition calcAdvance ::
  "instant \<Rightarrow> Rotation \<Rightarrow> rotState \<Rightarrow> int \<Rightarrow> advance_result outcome option" where
  "calcAdvance t rot state partCount =
     (let mustUpdate = (partCount \<le> st_Position state);
          position = (if partCount \<le> st_Position state then 0 else st_Position state)
      in if st_Version state \<noteq> 1 \<and> st_Version state \<noteq> 2
           then Some (Inr (UnknownVersion (st_Version state)))
         else
           (let endTimeFunc = (if st_Version state = 1 then calcVersion1EndTime rot
                               else (\<lambda>u. Some (Rotation_EndTime rot u)));
                mustUpdate = (mustUpdate \<or> st_Version state = 1)
            in pbind (endTimeFunc (st_ShiftStart state))
                 (\<lambda>newStart.
                    if t < newStart then
                      Some (Inr (if mustUpdate
                                 then Advance \<lparr>adv_id = rot_ID rot, adv_newPosition = position\<rparr>
                                 else NoAdvance))
                    else
                      pbind (advance_loop endTimeFunc t partCount position newStart 0)
                        (\<lambda>p. Some (Inr (Advance \<lparr>adv_id = rot_ID rot, adv_newPosition = p\<rparr>))))))"

subsection \<open>The job: updaterotation.go\<close>

record rotation_row =
  rr_Now :: instant
  rr_Type :: rotation_type
  rr_StartTime :: instant
  rr_ShiftLength :: int
  rr_TimeZone :: string
  rr_StateVersion :: int
  rr_StatePosition :: int
  rr_StateShiftStart :: instant
  rr_Participants :: "string list"

datatype load_result = NoRows | LoadError string | Row rotation_row

datatype rot_write =
    ScheduleJob instant
  | RotMgrEnd
  | RotMgrStart
  | RotMgrUpdate int string

text \<open>
  \<open>run_writes\<close> executes statements in order; the first that fails aborts the transaction and its
  error is returned, otherwise all are committed.
\<close>

fun run_writes :: "(rot_write \<Rightarrow> string option) \<Rightarrow> rot_write list \<Rightarrow> string + rot_write list" where
  "run_writes exec [] = Inr []"
| "run_writes exec (w # ws) =
     (case exec w of
        Some e \<Rightarrow> Inl e
      | None \<Rightarrow> (case run_writes exec ws of Inl e \<Rightarrow> Inl e | Inr ws' \<Rightarrow> Inr (w # ws')))"

definition rotation_of_row :: "location \<Rightarrow> rotation_row \<Rightarrow> Rotation" where
  "rotation_of_row loc row =
     \<lparr>rot_ID = '''', rot_OrganizationID = '''', rot_Name = '''', rot_Description = [],
      rot_Type = rr_Type row, rot_Start = rr_StartTime row, rot_Location = loc,
      rot_ShiftLength = rr_ShiftLength row, rot_isUserFavorite = False\<rparr>"

definition updateRotation ::
  "(string \<Rightarrow> string + location) \<Rightarrow> (rot_write \<Rightarrow> string option) \<Rightarrow> load_result
     \<Rightarrow> (string + rot_write list) outcome option" where
  "updateRotation LoadLocation exec res =
     (case res of
        NoRows \<Rightarrow> Some (Inr (Inr []))
      | LoadError e \<Rightarrow> Some (Inr (Inl e))
      | Row row \<Rightarrow>
          if rr_Participants row = [] then
            Some (Inr (run_writes exec (if rr_StateVersion row \<noteq> 0 then [RotMgrEnd] else [])))
          else case LoadLocation (rr_TimeZone row) of
            Inl e \<Rightarrow> Some (Inr (Inl e))
          | Inr loc \<Rightarrow>
              (let r = rotation_of_row loc row
               in pbind (Some (Rotation_EndTime r (rr_Now row)))
                    (\<lambda>end.
                       case exec (ScheduleJob end) of
                         Some e \<Rightarrow> Some (Inr (Inl e))
                       | None \<Rightarrow>
                           if rr_StateVersion row = 0 then
                             Some (Inr (run_writes exec [ScheduleJob end, RotMgrStart]))
                           else
                             (let s = \<lparr>st_ShiftStart = rr_StateShiftStart row,
                                       st_Position = rr_StatePosition row,
                                       st_Version = rr_StateVersion row\<rparr>
                              in pbind (calcAdvance (rr_Now row) r s (int (length (rr_Participants row))))
                                   (\<lambda>adv. case adv of
                                      UnknownVersion v \<Rightarrow> Some (Inr (Inl ''calc advance''))
                                    | NoAdvance \<Rightarrow> Some (Inr (run_writes exec [ScheduleJob end]))
                                    | Advance a \<Rightarrow>
                                        if 0 \<le> adv_newPosition a
                                           \<and> adv_newPosition a < int (length (rr_Participants row))
                                        then Some (Inr (run_writes exec [ScheduleJob end,
                                               RotMgrUpdate (adv_newPosition a)
                                                 (rr_Participants row ! nat (adv_newPosition a))]))
                                        else Some (Inl (Panic ''index out of range'')))))))"

subsection \<open>How far a rotation advances\<close>

lemma pbind_simps [simp]:
  "pbind None f = None" "pbind (Some (Inl p)) f = Some (Inl p)" "pbind (Some (Inr v)) f = f v"
  by (simp_all add: pbind_def)

lemma pbind_InrE:
  assumes "pbind x f = Some (Inr w)"
  obtains v where "x = Some (Inr v)" "f v = Some (Inr w)"
  using assms by (auto simp: pbind_def split: option.splits sum.splits)

lemma smod_pos: "0 \<le> a \<Longrightarrow> 0 < b \<Longrightarrow> a smod b = a mod (b :: int)"
  by (simp add: smod_mod_positive)

lemma advance_loop_range:
  assumes "advance_loop f t partCount position s c = Some (Inr p)" "0 < partCount" "0 \<le> position"
  shows "0 \<le> p \<and> p < partCount"
  using assms
proof (induction f t partCount position s c rule: advance_loop.induct)
  case (1 f t partCount position s c)
  define pos where "pos = (position + 1) smod partCount"
  have pos: "0 \<le> pos" "pos < partCount"
    using 1(3,4) by (simp_all add: pos_def smod_pos)
  from "1.prems"(1) have c: "c + 1 \<le> 10000"
    by (auto simp: advance_loop.simps [of f t partCount position s c] split: if_splits)
  with "1.prems" have "pbind (f s) (\<lambda>end. if t < end then Some (Inr pos)
      else advance_loop f t partCount pos end (c + 1)) = Some (Inr p)"
    unfolding pos_def by (simp add: advance_loop.simps [of f t partCount position s c] Let_def)
  then obtain e where e: "f s = Some (Inr e)"
    and r: "(if t < e then Some (Inr pos) else advance_loop f t partCount pos e (c + 1)) = Some (Inr p)"
    by (rule pbind_InrE)
  show ?case
  proof (cases "t < e")
    case True
    with r pos show ?thesis by simp
  next
    case False
    with r have "advance_loop f t partCount pos e (c + 1) = Some (Inr p)" by simp
    with "1.IH" [OF refl _ _ refl, of e] c "1.prems"(2) pos False show ?thesis
      unfolding pos_def by simp
  qed
qed

text \<open>The end of a shift, as the end of the multiple of the shift length that holds \<open>u\<close>.\<close>

lemma shift_div_Truncate:
  assumes "(S :: int) mod Minute = 0" "0 < len" "len mod Minute = 0"
  shows "(Truncate u Minute - S) div len = (u - S) div len"
proof -
  define q where "q = (Truncate u Minute - S) div len"
  have b: "len * q \<le> Truncate u Minute - S" "Truncate u Minute - S < len * q + len"
    unfolding q_def by (rule div_bounds [OF assms(2)])+
  have "(S + (len * q + len)) mod Minute = 0"
    using assms(1,3) by (simp add: mod_eq_0_iff_dvd)
  then have "u - S < len * q + len" using b(2) Truncate_less_iff [of "S + (len * q + len)" u] by simp
  moreover have "len * q \<le> u - S" using b(1) Truncate_bounds(1) [of Minute u] by simp
  ultimately have "(u - S) div len = q" using assms(2) by (intro div_unique_bounds)
  then show ?thesis by (simp add: q_def)
qed

lemma Rotation_EndTime_div:
  assumes "clock_type (rot_Type r)" "rot_Location r = fixed_loc off" "off mod 60 = 0"
    and "\<bar>Truncate u Minute - Truncate (rot_Start r) Minute\<bar> < 2 ^ 63"
  defines "S \<equiv> Truncate (rot_Start r) Minute" and "len \<equiv> shift_len r"
  shows "Rotation_EndTime r u = Inr (S + ((u - S) div len + 1) * len)"
proof -
  define T where "T = Truncate u Minute"
  have "T - (T - S) mod len + len = S + ((T - S) div len + 1) * len"
    using mult_div_mod_eq [of len "T - S"] by (simp add: algebra_simps)
  also have "(T - S) div len = (u - S) div len"
    unfolding T_def S_def len_def
    by (rule shift_div_Truncate) (simp_all add: Truncate_Minute_mod shift_len_pos shift_len_minutes)
  finally show ?thesis
    using Rotation_times_fixed(2) [OF assms(1-4)] by (simp add: T_def S_def len_def)
qed

lemma advance_loop_count:
  assumes f: "\<And>u. S + a * len \<le> u \<Longrightarrow> u \<le> t \<Longrightarrow> f u = Some (Inr (S + ((u - S) div len + 1) * len))"
    and len: "0 < len" and a: "a \<le> (t - S) div len" and c: "c + ((t - S) div len - a) < 10000" "0 \<le> c"
    and pc: "0 < partCount" "0 \<le> position"
  shows "advance_loop f t partCount position (S + a * len) c
    = Some (Inr ((position + ((t - S) div len - a + 1)) mod partCount))"
  using f a c pc
proof (induction "nat ((t - S) div len - a)" arbitrary: a c position rule: less_induct)
  case less
  define q where "q = (t - S) div len"
  have q: "len * q \<le> t - S" "t - S < len * q + len"
    unfolding q_def by (rule div_bounds [OF len])+
  have aq: "a \<le> q" using less.prems(2) by (simp add: q_def)
  have "len * a \<le> len * q" using aq len by simp
  then have in_range: "S + a * len \<le> t" using q(1) by (simp add: mult.commute)
  have fa: "f (S + a * len) = Some (Inr (S + (a + 1) * len))"
    using less.prems(1) [OF order.refl in_range] len by simp
  have lt: "t < S + (a + 1) * len \<longleftrightarrow> a = q"
  proof
    assume "t < S + (a + 1) * len"
    then have "len * q < len * (a + 1)" using q(1) by (simp add: mult.commute)
    then show "a = q" using aq len by simp
  qed (use q(2) in \<open>simp add: algebra_simps\<close>)
  have step: "advance_loop f t partCount position (S + a * len) c =
      (if a = q then Some (Inr ((position + 1) mod partCount))
       else advance_loop f t partCount ((position + 1) mod partCount) (S + (a + 1) * len) (c + 1))"
    using less.prems(3,5,6) aq fa lt
    by (simp add: advance_loop.simps [of f t partCount position] q_def smod_pos)
  show ?case
  proof (cases "a = q")
    case True
    then show ?thesis using step by (simp add: q_def [symmetric])
  next
    case False
    have "advance_loop f t partCount ((position + 1) mod partCount) (S + (a + 1) * len) (c + 1)
        = Some (Inr (((position + 1) mod partCount + ((t - S) div len - (a + 1) + 1)) mod partCount))"
    proof (rule less.hyps)
      show "f u = Some (Inr (S + ((u - S) div len + 1) * len))" if "S + (a + 1) * len \<le> u" "u \<le> t" for u
        using less.prems(1) [of u] that len by (simp add: distrib_right)
    qed (use False aq less.prems in \<open>simp_all add: q_def\<close>)
    also have "((position + 1) mod partCount + ((t - S) div len - (a + 1) + 1)) mod partCount
        = (position + 1 + (q - (a + 1) + 1)) mod partCount"
      unfolding q_def by (rule mod_add_left_eq)
    also have "position + 1 + (q - (a + 1) + 1) = position + (q - a + 1)" by simp
    finally show ?thesis using step False by (simp add: q_def [symmetric])
  qed
qed

subsection \<open>Properties\<close>

text \<open>the position a rotation advances to is the index of a participant, so the lookup of the
  participant in \<open>updateRotation\<close> stays in range.\<close>

theorem calcAdvance_position:
  assumes "calcAdvance t rot state partCount = Some (Inr (Advance a))"
    and "0 < partCount" "0 \<le> st_Position state"
  shows "0 \<le> adv_newPosition a \<and> adv_newPosition a < partCount"
proof -
  define position where "position = (if partCount \<le> st_Position state then 0 else st_Position state)"
  have pos: "0 \<le> position" "position < partCount" using assms(2,3) by (auto simp: position_def)
  define f where "f = (if st_Version state = 1 then calcVersion1EndTime rot else (\<lambda>u. Some (Rotation_EndTime rot u)))"
  from assms(1) have "\<exists>must. pbind (f (st_ShiftStart state)) (\<lambda>newStart. if t < newStart
      then Some (Inr (if must then Advance \<lparr>adv_id = rot_ID rot, adv_newPosition = position\<rparr> else NoAdvance))
      else pbind (advance_loop f t partCount position newStart 0)
             (\<lambda>p. Some (Inr (Advance \<lparr>adv_id = rot_ID rot, adv_newPosition = p\<rparr>)))) = Some (Inr (Advance a))"
    unfolding calcAdvance_def Let_def position_def [symmetric] f_def [symmetric]
    by (metis advance_result.distinct(5) option.inject sum.inject(2))
  then obtain must e where "(if t < e
      then Some (Inr (if must then Advance \<lparr>adv_id = rot_ID rot, adv_newPosition = position\<rparr> else NoAdvance))
      else pbind (advance_loop f t partCount position e 0)
             (\<lambda>p. Some (Inr (Advance \<lparr>adv_id = rot_ID rot, adv_newPosition = p\<rparr>)))) = Some (Inr (Advance a))"
    by (auto elim: pbind_InrE)
  then consider "adv_newPosition a = position"
    | p where "advance_loop f t partCount position e 0 = Some (Inr p)" "adv_newPosition a = p"
    by (auto split: if_splits elim!: pbind_InrE)
  then show ?thesis
    by cases (use pos advance_loop_range [OF _ assms(2) pos(1)] in auto)
qed


theorem calcAdvance_position_witness:
  "calcAdvance 1700000100000000000 sample_rotation
     \<lparr>st_ShiftStart = 1700000000000000000, st_Position = 5, st_Version = 2\<rparr> 3
     = Some (Inr (Advance \<lparr>adv_id = ''r'', adv_newPosition = 0\<rparr>)) \<and> (0 :: int) < 3"
proof -
  let ?s = "\<lparr>st_ShiftStart = 1700000000000000000, st_Position = 5, st_Version = 2\<rparr>"
  have "Rotation_EndTime sample_rotation 1700000000000000000 = Inr 1701209580000000000"
    and "rot_ID sample_rotation = ''r''" by code_simp+
  then have "calcAdvance 1700000100000000000 sample_rotation ?s 3
      = Some (Inr (Advance \<lparr>adv_id = ''r'', adv_newPosition = 0\<rparr>))" by (simp add: calcAdvance_def)
  with calcAdvance_position [OF this] show ?thesis by simp
qed


lemma run_writes_Inr: "run_writes exec ws = Inr ws' \<Longrightarrow> ws' = ws"
  by (induction ws arbitrary: ws') (auto split: option.splits sum.splits)

text \<open>C10: a job that commits for a rotation with participants first schedules the next job for the
  end of the running shift, and then at most starts a rotation without state, or writes the
  position of a participant together with that participant.\<close>

theorem updateRotation_effect:
  assumes "updateRotation LoadLocation exec (Row row) = Some (Inr (Inr ws))"
    and "rr_Participants row \<noteq> []"
  shows "\<exists>loc end. LoadLocation (rr_TimeZone row) = Inr loc
    \<and> Rotation_EndTime (rotation_of_row loc row) (rr_Now row) = Inr end
    \<and> (ws = [ScheduleJob end] \<or> (rr_StateVersion row = 0 \<and> ws = [ScheduleJob end, RotMgrStart])
      \<or> (\<exists>p < length (rr_Participants row). rr_StateVersion row \<noteq> 0
            \<and> ws = [ScheduleJob end, RotMgrUpdate (int p) (rr_Participants row ! p)]))"
proof -
  from assms obtain loc where loc: "LoadLocation (rr_TimeZone row) = Inr loc"
    by (auto simp: updateRotation_def split: sum.splits)
  define r where "r = rotation_of_row loc row"
  define s where "s = \<lparr>st_ShiftStart = rr_StateShiftStart row, st_Position = rr_StatePosition row,
    st_Version = rr_StateVersion row\<rparr>"
  from assms(1) obtain e where e: "Rotation_EndTime r (rr_Now row) = Inr e"
    by (auto simp: updateRotation_def assms(2) loc r_def [symmetric] elim!: pbind_InrE)
  note upd = assms(1) [unfolded updateRotation_def load_result.case, unfolded loc sum.case Let_def,
      folded r_def, unfolded e pbind_simps, folded s_def]
  show ?thesis
  proof (cases "rr_StateVersion row = 0")
    case True
    with upd assms(2) have "run_writes exec [ScheduleJob e, RotMgrStart] = Inr ws"
      by (simp split: option.splits)
    from run_writes_Inr [OF this] show ?thesis using loc e True unfolding r_def by blast
  next
    case False
    with upd assms(2) obtain adv where adv: "(case adv of
          UnknownVersion v \<Rightarrow> Some (Inr (Inl ''calc advance''))
        | NoAdvance \<Rightarrow> Some (Inr (run_writes exec [ScheduleJob e]))
        | Advance a \<Rightarrow> if 0 \<le> adv_newPosition a \<and> adv_newPosition a < int (length (rr_Participants row))
            then Some (Inr (run_writes exec [ScheduleJob e,
              RotMgrUpdate (adv_newPosition a) (rr_Participants row ! nat (adv_newPosition a))]))
            else Some (Inl (Panic ''index out of range''))) = Some (Inr (Inr ws))"
      by (auto split: option.splits elim!: pbind_InrE simp del: run_writes.simps)
    show ?thesis
    proof (cases adv)
      case (Advance a)
      with adv have a: "0 \<le> adv_newPosition a" "adv_newPosition a < int (length (rr_Participants row))"
        "run_writes exec [ScheduleJob e, RotMgrUpdate (adv_newPosition a)
          (rr_Participants row ! nat (adv_newPosition a))] = Inr ws"
        by (auto split: if_splits)
      define p where "p = nat (adv_newPosition a)"
      have "p < length (rr_Participants row)" "ws = [ScheduleJob e, RotMgrUpdate (int p) (rr_Participants row ! p)]"
        using a(1,2) run_writes_Inr [OF a(3)] by (auto simp: p_def)
      with False loc e show ?thesis unfolding r_def by blast
    next
      case NoAdvance
      with adv have "run_writes exec [ScheduleJob e] = Inr ws" by simp
      from run_writes_Inr [OF this] show ?thesis using loc e unfolding r_def by blast
    qed (use adv in simp)
  qed
qed

theorem updateRotation_effect_witness:
  "\<exists>end. Rotation_EndTime (sample_rotation\<lparr>rot_ID := '''', rot_OrganizationID := '''', rot_Name := ''''\<rparr>)
       1710000000000000000 = Inr end
    \<and> updateRotation (\<lambda>z. Inr (fixed_loc 3600)) (\<lambda>w. None)
        (Row \<lparr>rr_Now = 1710000000000000000, rr_Type = TypeWeekly, rr_StartTime = 1700000000000000000,
              rr_ShiftLength = 2, rr_TimeZone = ''z'', rr_StateVersion = 0, rr_StatePosition = 0,
              rr_StateShiftStart = 0, rr_Participants = [''p'']\<rparr>)
      = Some (Inr (Inr [ScheduleJob end, RotMgrStart]))"
proof -
  let ?row = "\<lparr>rr_Now = 1710000000000000000, rr_Type = TypeWeekly, rr_StartTime = 1700000000000000000,
              rr_ShiftLength = 2, rr_TimeZone = ''z'', rr_StateVersion = 0, rr_StatePosition = 0,
              rr_StateShiftStart = 0, rr_Participants = [''p'']\<rparr>"
  let ?r = "sample_rotation\<lparr>rot_ID := '''', rot_OrganizationID := '''', rot_Name := ''''\<rparr>"
  have r: "rotation_of_row (fixed_loc 3600) ?row = ?r"
    by (simp add: rotation_of_row_def sample_rotation_def)
  have e: "Rotation_EndTime ?r 1710000000000000000 = Inr 1710886380000000000" by code_simp
  have u: "updateRotation (\<lambda>z. Inr (fixed_loc 3600)) (\<lambda>w. None) (Row ?row)
      = Some (Inr (Inr [ScheduleJob 1710886380000000000, RotMgrStart]))"
    using e by (simp add: updateRotation_def r [simplified])
  have "rr_Participants ?row \<noteq> []" by simp
  from updateRotation_effect [OF u this] show ?thesis using e u by blast
qed

subsection \<open>The version 1 calculation ends and agrees with version 2\<close>

lemma legacyAddHours_fixed: "legacyAddHours (fixed_loc off) t n = t + n * Hour"
proof -
  have "local_day (fixed_loc off) t * Day + time_of_day (fixed_loc off) t = t + off * Second"
    using wall_split [of "fixed_loc off" t] by (simp add: wall_fixed)
  then show ?thesis by (simp add: legacyAddHours_def Date_fixed)
qed

lemma legacyAddHoursAlwaysInc_fixed:
  "n \<noteq> 0 \<Longrightarrow> legacyAddHoursAlwaysInc (fixed_loc off) t n = Some (t + n * Hour)"
  by (simp add: legacyAddHoursAlwaysInc_def dec_loop.simps [of _ t n] inc_loop.simps [of _ t n]
      legacyAddHours_fixed)

lemma div_add_len: "0 < len \<Longrightarrow> (a + len) div len = a div len + (1 :: int)"
  by simp

lemma v1_forward_fixed:
  assumes "1 \<le> n"
  shows "v1_forward (fixed_loc off) n t c
    = Some (if c \<le> t then c + ((t - c) div (n * Hour) + 1) * (n * Hour) else c)"
proof (induction "nat (t - c + 1)" arbitrary: c rule: less_induct)
  case less
  define len where "len = n * Hour"
  have len: "0 < len" using assms by (simp add: len_def)
  have step: "v1_forward (fixed_loc off) n t c
      = (if c \<le> t then v1_forward (fixed_loc off) n t (c + len) else Some c)"
    using assms by (simp add: v1_forward.simps [of _ n t c] legacyAddHoursAlwaysInc_fixed len_def not_less)
  show ?case
  proof (cases "c \<le> t")
    case True
    then have IH: "v1_forward (fixed_loc off) n t (c + len)
        = Some (if c + len \<le> t then c + len + ((t - (c + len)) div len + 1) * len else c + len)"
      using less.hyps [of "c + len"] len by (simp add: len_def)
    show ?thesis
    proof (cases "c + len \<le> t")
      case le: True
      have "(t - (c + len)) div len + 1 = (t - c) div len"
        using div_add_len [OF len, of "t - (c + len)"] by simp
      then show ?thesis using True le step IH by (simp add: len_def [symmetric] distrib_right)
    next
      case gt: False
      have "(t - c) div len = 0" using gt True by (intro div_pos_pos_trivial) auto
      then show ?thesis using True gt step IH by (simp add: len_def [symmetric])
    qed
  next
    case False
    with step show ?thesis by simp
  qed
qed

lemma v1_reverse_fixed:
  assumes "1 \<le> n"
  shows "v1_reverse (fixed_loc off) n t prev c
    = Some (if t < c then c + ((t - c) div (n * Hour) + 1) * (n * Hour) else prev)"
proof (induction "nat (c - t)" arbitrary: c prev rule: less_induct)
  case less
  define len where "len = n * Hour"
  have len: "0 < len" using assms by (simp add: len_def)
  have step: "v1_reverse (fixed_loc off) n t prev c
      = (if t < c then v1_reverse (fixed_loc off) n t c (c - len) else Some prev)"
    using assms by (simp add: v1_reverse.simps [of _ n t prev c] legacyAddHoursAlwaysInc_fixed len_def)
  show ?case
  proof (cases "t < c")
    case True
    then have IH: "v1_reverse (fixed_loc off) n t c (c - len)
        = Some (if t < c - len then c - len + ((t - (c - len)) div len + 1) * len else c)"
      using less.hyps [of "c - len" c] len by (simp add: len_def)
    have 1: "(t - (c - len)) div len = (t - c) div len + 1"
      using div_add_len [OF len, of "t - c"] by (simp add: algebra_simps)
    have "(t - c) div len = - 1" if "\<not> t < c - len"
      using that True len by (intro div_unique_bounds) auto
    with 1 show ?thesis using True step IH by (auto simp: len_def [symmetric] algebra_simps)
  next
    case False
    with step show ?thesis by simp
  qed
qed

text \<open>C9: where the offset is fixed, the loops of the version 1 calculation end, and give the
  same shift end as the version 2 calculation for every hourly rotation of at least one hour.\<close>

theorem calcVersion1EndTime_agrees:
  assumes "rot_Type r = TypeHourly" "rot_Location r = fixed_loc off" "off mod 60 = 0" "1 \<le> rot_ShiftLength r"
    and "\<bar>Truncate u Minute - Truncate (rot_Start r) Minute\<bar> < 2 ^ 63"
  shows "calcVersion1EndTime r u = Some (Rotation_EndTime r u)"
proof -
  define S where "S = Truncate (rot_Start r) Minute"
  have len: "shift_len r = rot_ShiftLength r * Hour" using assms(1,4) by (simp add: shift_len_def)
  have "calcVersion1EndTime r u
      = Some (Inr (S + ((u - S) div (rot_ShiftLength r * Hour) + 1) * (rot_ShiftLength r * Hour)))"
    using assms(1,2) v1_forward_fixed [OF assms(4), of off u S] v1_reverse_fixed [OF assms(4), of off u S S]
    by (simp add: calcVersion1EndTime_def S_def Let_def)
  then show ?thesis
    using Rotation_EndTime_div [OF _ assms(2,3,5)] assms(1) by (simp add: clock_type_def S_def len)
qed

theorem calcVersion1EndTime_agrees_witness:
  "calcVersion1EndTime (sample_rotation\<lparr>rot_Type := TypeHourly\<rparr>) 1699990000000000000
     = Some (Rotation_EndTime (sample_rotation\<lparr>rot_Type := TypeHourly\<rparr>) 1699990000000000000)"
  by (rule calcVersion1EndTime_agrees [where off = 3600])
    (simp_all add: sample_rotation_def Truncate_Minute)

end
