(* ===== verification/WeekdayFilter.thy ===== *)
theory WeekdayFilter
  imports Clock
begin

section \<open>Weekday filters: util/timeutil/weekdayfilter.go\<close>

text \<open>
  \<open>WeekdayFilter\<close> is an array of seven bytes, Sunday first, each 0 or 1: a list of length 7
  with the invariant \<open>wf_filter\<close>, which every constructor and every successful decoder
  establishes.  The weekday arguments of \<open>Day\<close> lie between -1 and 6 in every call of the program.
\<close>

type_synonym WeekdayFilter = "int list"

definition wf_filter :: "WeekdayFilter \<Rightarrow> bool" where
  "wf_filter f \<longleftrightarrow> length f = 7 \<and> set f \<subseteq> {0, 1}"

definition neverDays :: WeekdayFilter where "neverDays = [0, 0, 0, 0, 0, 0, 0]"
definition everyDay :: WeekdayFilter where "everyDay = [1, 1, 1, 1, 1, 1, 1]"

definition IsNever :: "WeekdayFilter \<Rightarrow> bool" where "IsNever f \<longleftrightarrow> f = neverDays"
definition IsAlways :: "WeekdayFilter \<Rightarrow> bool" where "IsAlways f \<longleftrightarrow> f = everyDay"

subsection \<open>Searching for days\<close>

definition NextActive :: "location \<Rightarrow> WeekdayFilter \<Rightarrow> instant \<Rightarrow> instant" where
  "NextActive l f t =
     (let w = Weekday l t
      in case find (\<lambda>i. f ! nat ((w + (int i + 1)) mod 7) = 1) [0..<7] of
           Some i \<Rightarrow> NextWeekday l t ((w + (int i + 1)) mod 7)
         | None \<Rightarrow> time_zero)"

definition NextInactive :: "location \<Rightarrow> WeekdayFilter \<Rightarrow> instant \<Rightarrow> instant" where
  "NextInactive l f t =
     (let w = Weekday l t
      in case find (\<lambda>i. f ! nat ((w + (int i + 1)) mod 7) = 0) [0..<7] of
           Some i \<Rightarrow> NextWeekday l t ((w + (int i + 1)) mod 7)
         | None \<Rightarrow> time_zero)"

text \<open>\<open>StartTime\<close> counts back over the active days and falls through to \<open>NextActive\<close> on an inactive one.\<close>

definition active_run :: "WeekdayFilter \<Rightarrow> int \<Rightarrow> nat" where
  "active_run f w = length (takeWhile (\<lambda>i. f ! nat ((7 + (w - int i)) mod 7) \<noteq> 0) [0..<7])"

definition Filter_StartTime :: "location \<Rightarrow> WeekdayFilter \<Rightarrow> instant \<Rightarrow> instant" where
  "Filter_StartTime l f t =
     (let days = active_run f (Weekday l t)
      in if days = 0 then NextActive l f t
         else Date l ((local_day l t - int days + 1) * Day))"

definition Filter_Day :: "WeekdayFilter \<Rightarrow> int \<Rightarrow> bool" where
  "Filter_Day f d = (let d' = (if d < 0 then d + 7 else d) in f ! nat (d' smod 7) = 1)"

definition SetDay :: "WeekdayFilter \<Rightarrow> int \<Rightarrow> bool \<Rightarrow> WeekdayFilter outcome" where
  "SetDay f d enabled =
     (if 0 \<le> d \<and> d < int (length f) then Inr (f[nat d := (if enabled then 1 else 0)])
      else Inl (Panic ''index out of range''))"

text \<open>\<open>bytes.IndexByte\<close> and \<open>bytes.LastIndexByte\<close>: -1 when the byte does not occur.\<close>

fun index_byte :: "int list \<Rightarrow> int \<Rightarrow> int" where
  "index_byte [] v = -1"
| "index_byte (x # xs) v =
     (if x = v then 0 else let i = index_byte xs v in if i = -1 then -1 else i + 1)"

definition last_index_byte :: "int list \<Rightarrow> int \<Rightarrow> int" where
  "last_index_byte xs v =
     (let i = index_byte (rev xs) v in if i = -1 then -1 else int (length xs) - 1 - i)"

definition DaysUntil :: "WeekdayFilter \<Rightarrow> nat \<Rightarrow> bool \<Rightarrow> int" where
  "DaysUntil f d enabled =
     (if enabled \<and> f = neverDays then -1
      else if \<not> enabled \<and> f = everyDay then -1
      else let val = (if enabled then 1 else 0);
               idx = index_byte (drop d f) val
           in if -1 < idx then idx else 7 - int d + index_byte f val)"

definition DaysSince :: "WeekdayFilter \<Rightarrow> nat \<Rightarrow> bool \<Rightarrow> int" where
  "DaysSince f d enabled =
     (if enabled \<and> f = neverDays then -1
      else if \<not> enabled \<and> f = everyDay then -1
      else let val = (if enabled then 1 else 0);
               idx = last_index_byte (take (d + 1) f) val
           in if -1 < idx then int d - idx else 6 - last_index_byte (drop (d + 1) f) val)"

subsection \<open>Encodings\<close>

definition MarshalText :: "WeekdayFilter \<Rightarrow> string" where
  "MarshalText f = map (\<lambda>v. if v = 0 then CHR ''0'' else CHR ''1'') f"

datatype filter_error =
    ErrLength nat
  | ErrChar nat char
  | ErrNotArray
  | ErrItems nat
  | ErrNotBool nat

text \<open>
  \<open>UnmarshalText\<close> writes into the receiver as it goes: on a bad character the days before it
  have already been replaced.  The result is the receiver afterwards and the error, if any.
\<close>

fun unmarshal_chars :: "nat \<Rightarrow> string \<Rightarrow> WeekdayFilter \<Rightarrow> WeekdayFilter \<times> filter_error option" where
  "unmarshal_chars i [] f = (f, None)"
| "unmarshal_chars i (r # rs) f =
     (if r = CHR ''0'' then unmarshal_chars (i + 1) rs (f[i := 0])
      else if r = CHR ''1'' then unmarshal_chars (i + 1) rs (f[i := 1])
      else (f, Some (ErrChar i r)))"

definition UnmarshalText :: "string \<Rightarrow> WeekdayFilter \<Rightarrow> WeekdayFilter \<times> filter_error option" where
  "UnmarshalText s f =
     (if s = '''' then (neverDays, None)
      else if length s \<noteq> 7 then (f, Some (ErrLength (length s)))
      else unmarshal_chars 0 s f)"

text \<open>\<open>UnmarshalGQL\<close> takes a decoded GraphQL value: a slice of values, or something else.\<close>

datatype gql_value = GqlBool bool | GqlArray "gql_value list" | GqlOther

fun unmarshal_items :: "nat \<Rightarrow> gql_value list \<Rightarrow> WeekdayFilter \<Rightarrow> WeekdayFilter \<times> filter_error option" where
  "unmarshal_items i [] f = (f, None)"
| "unmarshal_items i (v # vs) f =
     (case v of
        GqlBool b \<Rightarrow> unmarshal_items (i + 1) vs (f[i := (if b then 1 else 0)])
      | _ \<Rightarrow> (f, Some (ErrNotBool i)))"

definition Filter_UnmarshalGQL :: "gql_value \<Rightarrow> WeekdayFilter \<Rightarrow> WeekdayFilter \<times> filter_error option" where
  "Filter_UnmarshalGQL v f =
     (case v of
        GqlArray slice \<Rightarrow>
          if length slice \<noteq> 7 then (f, Some (ErrItems (length slice)))
          else unmarshal_items 0 slice f
      | _ \<Rightarrow> (f, Some ErrNotArray))"

definition Filter_MarshalGQL :: "WeekdayFilter \<Rightarrow> gql_value" where
  "Filter_MarshalGQL f = GqlArray (map (\<lambda>v. GqlBool (v = 1)) f)"

text \<open>\<open>Value\<close> and \<open>Scan\<close> exchange the array of booleans of the database column.\<close>

definition Filter_Value :: "WeekdayFilter \<Rightarrow> bool list" where
  "Filter_Value f = map (\<lambda>v. v \<noteq> 0) f"

definition Filter_Scan :: "bool list \<Rightarrow> WeekdayFilter" where
  "Filter_Scan b = map (\<lambda>i. if i < length b \<and> b ! i then 1 else 0) [0..<7]"

text \<open>\<open>String\<close>: runs of three or more days are shown as a range.\<close>

definition day_name :: "nat \<Rightarrow> string" where
  "day_name d = [''Sun'', ''Mon'', ''Tue'', ''Wed'', ''Thu'', ''Fri'', ''Sat''] ! d"

definition flushChain :: "string list \<times> nat list \<Rightarrow> string list \<times> nat list" where
  "flushChain s =
     (case s of (days, chain) \<Rightarrow>
        if length chain < 3 then (days @ map day_name chain, [])
        else (days @ [day_name (hd chain) @ ''-'' @ day_name (last chain)], []))"

fun join_comma :: "string list \<Rightarrow> string" where
  "join_comma [] = ''''"
| "join_comma [x] = x"
| "join_comma (x # y # ys) = x @ '','' @ join_comma (y # ys)"

definition Filter_String :: "WeekdayFilter \<Rightarrow> string" where
  "Filter_String f =
     (if f = [1, 0, 0, 0, 0, 0, 1] then ''weekends''
      else if f = neverDays then ''never''
      else if f = everyDay then ''every day''
      else if f = [0, 1, 1, 1, 1, 1, 0] then ''M-F''
      else if f = [0, 1, 1, 1, 1, 1, 1] then ''M-F and Sat''
      else if f = [1, 1, 1, 1, 1, 1, 0] then ''M-F and Sun''
      else let s = fold (\<lambda>(d, act) s.
                       if act = 1 then (fst s, snd s @ [d]) else flushChain s)
                     (zip [0..<length f] f) ([], [])
           in join_comma (fst (flushChain s)))"

subsection \<open>What the searches find\<close>

text \<open>Whether the filter is on for a day number of the local calendar.\<close>

definition day_on :: "WeekdayFilter \<Rightarrow> int \<Rightarrow> bool" where
  "day_on f d \<longleftrightarrow> f ! nat ((d + 4) mod 7) = 1"

lemma wf_filter_nth:
  assumes "wf_filter f"
  shows "f ! nat (k mod 7) \<noteq> 1 \<longleftrightarrow> f ! nat (k mod 7) = 0"
proof -
  have "nat (k mod 7) < 7" by (simp add: nat_less_iff)
  with assms have "f ! nat (k mod 7) \<in> {0, 1}"
    unfolding wf_filter_def by (metis nth_mem subsetD)
  then show ?thesis by auto
qed

lemma day_off_iff: "wf_filter f \<Longrightarrow> \<not> day_on f d \<longleftrightarrow> f ! nat ((d + 4) mod 7) = 0"
  using wf_filter_nth [of f "d + 4"] by (simp add: day_on_def)

lemma Filter_Day_on: "Filter_Day f (Weekday l t) = day_on f (local_day l t)"
proof -
  have "Weekday l t smod 7 = Weekday l t"
    using Weekday_bounds [of l t] by (simp add: smod_mod_positive)
  then show ?thesis
    using Weekday_bounds [of l t] by (simp add: Filter_Day_def day_on_def Weekday_def)
qed

lemma Filter_Day_prev: "Filter_Day f (Weekday l t - 1) = day_on f (local_day l t - 1)"
proof -
  define w where "w = Weekday l t"
  have w: "0 \<le> w" "w < 7" by (simp_all add: w_def Weekday_bounds)
  have "(local_day l t - 1 + 4) mod 7 = (w - 1) mod 7"
    unfolding w_def Weekday_def mod_diff_left_eq by (simp add: algebra_simps)
  moreover have "(w - 1) mod 7 = (if w = 0 then 6 else w - 1)" using w by auto
  moreover have "(w - 1) smod 7 = w - 1" if "w \<noteq> 0"
    using w that by (simp add: smod_mod_positive)
  ultimately show ?thesis
    using w unfolding Filter_Day_def day_on_def w_def [symmetric]
    by (auto simp: Let_def smod_mod_positive)
qed

lemma NextWeekday_ahead:
  assumes "0 \<le> i" "i < 7"
  shows "NextWeekday l t ((Weekday l t + (i + 1)) mod 7) = Date l ((local_day l t + (i + 1)) * Day)"
proof -
  define w where "w = Weekday l t"
  have w: "0 \<le> w" "w < 7" by (simp_all add: w_def Weekday_bounds)
  have "(w + (i + 1)) mod 7 = (if w + (i + 1) < 7 then w + (i + 1)
      else w + (i + 1) - 7)"
    using w assms by presburger
  with w assms show ?thesis
    by (auto simp: NextWeekday_def w_def [symmetric] Let_def algebra_simps)
qed

lemma weekday_shift: "(Weekday l t + k) mod 7 = (local_day l t + k + 4) mod 7"
  unfolding Weekday_def mod_add_left_eq by (simp add: ac_simps)

lemma find_upt_Some:
  "find P [0..<n] = Some i \<longleftrightarrow> i < n \<and> P i \<and> (\<forall>j<i. \<not> P j)"
  by (auto simp: find_Some_iff)

lemma find_upt_None: "find P [0..<n] = None \<longleftrightarrow> (\<forall>i<n. \<not> P i)"
  by (auto simp: find_None_iff)

text \<open>Every weekday index is met within a week.\<close>

lemma week_covers:
  assumes "k < 7" obtains i where "i < 7" "nat ((w + (int i + 1)) mod 7) = k"
proof -
  define i where "i = nat ((int k - w - 1) mod 7)"
  have "int i = (int k - w - 1) mod 7" by (simp add: i_def)
  then have "(w + (int i + 1)) mod 7 = (w + ((int k - w - 1) + 1)) mod 7"
    by (metis mod_add_left_eq mod_add_right_eq)
  also have "\<dots> = int k" using assms by simp
  finally have "nat ((w + (int i + 1)) mod 7) = k" by simp
  moreover have "i < 7" by (simp add: i_def nat_less_iff)
  ultimately show ?thesis by (rule that [rotated])
qed

lemma week_covers_back:
  assumes "k < 7" obtains i where "i < 7" "nat ((d - int i + 4) mod 7) = k"
proof -
  define i where "i = nat ((d + 4 - int k) mod 7)"
  have "int i = (d + 4 - int k) mod 7" by (simp add: i_def)
  then have "(d + 4 - int i) mod 7 = (d + 4 - (d + 4 - int k)) mod 7"
    by (simp add: mod_diff_right_eq)
  then have "nat ((d - int i + 4) mod 7) = k" using assms by (simp add: algebra_simps)
  moreover have "i < 7" by (simp add: i_def nat_less_iff)
  ultimately show ?thesis by (rule that [rotated])
qed

lemma filter_eq_replicate:
  assumes "length f = 7" "\<forall>i<7. f ! i = v"
  shows "f = [v, v, v, v, v, v, v]"
  by (rule nth_equalityI) (use assms in \<open>auto simp: nth_Cons less_Suc_eq_0_disj eval_nat_numeral\<close>)

lemma NextActive_spec:
  assumes "wf_filter f" "f \<noteq> neverDays"
  obtains k where "1 \<le> k" "k \<le> 7" "NextActive l f t = Date l ((local_day l t + k) * Day)"
    "day_on f (local_day l t + k)" "\<And>j. 1 \<le> j \<Longrightarrow> j < k \<Longrightarrow> \<not> day_on f (local_day l t + j)"
proof -
  let ?P = "\<lambda>i. f ! nat ((Weekday l t + (int i + 1)) mod 7) = 1"
  have P: "?P i \<longleftrightarrow> day_on f (local_day l t + (int i + 1))" for i
    by (simp only: weekday_shift day_on_def)
  obtain i where i: "find ?P [0..<7] = Some i"
  proof (cases "find ?P [0..<7]")
    case None
    have "f ! k = 0" if k: "k < 7" for k
    proof -
      obtain i where "i < 7" "nat ((Weekday l t + (int i + 1)) mod 7) = k"
        using week_covers [OF k, of "Weekday l t"] by blast
      moreover from this None have "f ! k \<noteq> 1" by (auto simp: find_upt_None)
      ultimately show ?thesis using wf_filter_nth [OF assms(1)] by metis
    qed
    with assms have "f = neverDays"
      unfolding neverDays_def wf_filter_def by (intro filter_eq_replicate) auto
    with assms show ?thesis by simp
  qed
  then have i7: "i < 7" and Pi: "?P i" and low: "\<forall>j<i. \<not> ?P j" by (auto simp: find_upt_Some)
  show ?thesis
  proof (rule that [of "int i + 1"])
    show "NextActive l f t = Date l ((local_day l t + (int i + 1)) * Day)"
      using i i7 NextWeekday_ahead [of "int i" l t] by (simp add: NextActive_def Let_def)
    show "day_on f (local_day l t + (int i + 1))" using Pi P by blast
    show "\<not> day_on f (local_day l t + j)" if "1 \<le> j" "j < int i + 1" for j
    proof -
      have "nat (j - 1) < i" "int (nat (j - 1)) + 1 = j" using that by auto
      then show ?thesis using low P [of "nat (j - 1)"] by metis
    qed
  qed (use i7 in auto)
qed

lemma NextInactive_spec:
  assumes "wf_filter f" "f \<noteq> everyDay"
  obtains k where "1 \<le> k" "k \<le> 7" "NextInactive l f t = Date l ((local_day l t + k) * Day)"
    "\<not> day_on f (local_day l t + k)" "\<And>j. 1 \<le> j \<Longrightarrow> j < k \<Longrightarrow> day_on f (local_day l t + j)"
proof -
  let ?P = "\<lambda>i. f ! nat ((Weekday l t + (int i + 1)) mod 7) = 0"
  have P: "?P i \<longleftrightarrow> \<not> day_on f (local_day l t + (int i + 1))" for i
    using day_off_iff [OF assms(1)] by (simp only: weekday_shift)
  obtain i where i: "find ?P [0..<7] = Some i"
  proof (cases "find ?P [0..<7]")
    case None
    have "f ! k = 1" if k: "k < 7" for k
    proof -
      obtain i where "i < 7" "nat ((Weekday l t + (int i + 1)) mod 7) = k"
        using week_covers [OF k, of "Weekday l t"] by blast
      moreover from this None have "f ! k \<noteq> 0" by (auto simp: find_upt_None)
      ultimately show ?thesis using wf_filter_nth [OF assms(1)] by metis
    qed
    with assms have "f = everyDay"
      unfolding everyDay_def wf_filter_def by (intro filter_eq_replicate) auto
    with assms show ?thesis by simp
  qed
  then have i7: "i < 7" and Pi: "?P i" and low: "\<forall>j<i. \<not> ?P j" by (auto simp: find_upt_Some)
  show ?thesis
  proof (rule that [of "int i + 1"])
    show "NextInactive l f t = Date l ((local_day l t + (int i + 1)) * Day)"
      using i i7 NextWeekday_ahead [of "int i" l t] by (simp add: NextInactive_def Let_def)
    show "\<not> day_on f (local_day l t + (int i + 1))" using Pi P by blast
    show "day_on f (local_day l t + j)" if "1 \<le> j" "j < int i + 1" for j
    proof -
      have "nat (j - 1) < i" "int (nat (j - 1)) + 1 = j" using that by auto
      then show ?thesis using low P [of "nat (j - 1)"] by metis
    qed
  qed (use i7 in auto)
qed

lemma takeWhile_upt_nth:
  assumes "length (takeWhile P [0..<n]) = k"
  shows "k \<le> n" "\<And>i. i < k \<Longrightarrow> P i" "k < n \<Longrightarrow> \<not> P k"
proof -
  show "k \<le> n" using assms length_takeWhile_le [of P "[0..<n]"] by simp
  show "P i" if "i < k" for i
  proof -
    have "[0..<n] ! i = i" using that \<open>k \<le> n\<close> by simp
    moreover have "takeWhile P [0..<n] ! i \<in> set (takeWhile P [0..<n])" using that assms by simp
    moreover have "takeWhile P [0..<n] ! i = [0..<n] ! i" using that assms by (simp add: takeWhile_nth)
    ultimately show ?thesis by (metis set_takeWhileD)
  qed
  show "\<not> P k" if "k < n"
    using nth_length_takeWhile [of P "[0..<n]"] that assms by simp
qed

text \<open>On an active day \<open>StartTime\<close> is midnight of the first day of the current run.\<close>

lemma Filter_StartTime_spec:
  assumes "wf_filter f" "f \<noteq> everyDay" "day_on f (local_day l t)"
  obtains n where "1 \<le> n" "n \<le> 6" "Filter_StartTime l f t = Date l ((local_day l t - n + 1) * Day)"
    "\<And>j. 0 \<le> j \<Longrightarrow> j < n \<Longrightarrow> day_on f (local_day l t - j)" "\<not> day_on f (local_day l t - n)"
proof -
  let ?w = "Weekday l t"
  let ?P = "\<lambda>i. f ! nat ((7 + (?w - int i)) mod 7) \<noteq> 0"
  define n where "n = active_run f ?w"
  have idx: "(7 + (?w - int i)) mod 7 = (local_day l t - int i + 4) mod 7" for i
  proof -
    have "(7 + (?w - int i)) mod 7 = (?w - int i) mod 7" by (simp add: mod_add_self1)
    also have "\<dots> = (local_day l t + 4 - int i) mod 7" unfolding Weekday_def mod_diff_left_eq ..
    finally show ?thesis by (simp add: algebra_simps)
  qed
  have P: "?P i \<longleftrightarrow> day_on f (local_day l t - int i)" for i
    using day_off_iff [OF assms(1), of "local_day l t - int i"] unfolding idx by blast
  note tw = takeWhile_upt_nth [of ?P 7 n, OF n_def [symmetric, unfolded active_run_def]]
  have "0 < n" using tw(3) P [of 0] assms(3) by (cases n) auto
  moreover have "n \<noteq> 7"
  proof
    assume "n = 7"
    have "f ! k = 1" if k: "k < 7" for k
    proof -
      obtain i where i: "i < 7" "nat ((local_day l t - int i + 4) mod 7) = k"
        using week_covers_back [OF k, of "local_day l t"] by blast
      from tw(2) [of i] \<open>n = 7\<close> i have "f ! k \<noteq> 0" unfolding idx by auto
      moreover have "f ! k \<in> set f" using k assms(1) by (simp add: wf_filter_def)
      ultimately show ?thesis using assms(1) by (auto simp: wf_filter_def)
    qed
    with assms have "f = everyDay"
      unfolding everyDay_def wf_filter_def by (intro filter_eq_replicate) auto
    with assms show False by simp
  qed
  ultimately have n: "0 < n" "n < 7" using tw(1) by auto
  show ?thesis
  proof (rule that [of "int n"])
    show "Filter_StartTime l f t = Date l ((local_day l t - int n + 1) * Day)"
      using n by (simp add: Filter_StartTime_def n_def Let_def)
    show "day_on f (local_day l t - j)" if "0 \<le> j" "j < int n" for j
      using tw(2) [of "nat j"] P [of "nat j"] that by auto
    show "\<not> day_on f (local_day l t - int n)" using tw(3) n P by blast
  qed (use n in auto)
qed

lemma index_byte_cases:
  obtains "index_byte xs v = -1" "v \<notin> set xs"
  | i where "index_byte xs v = int i" "i < length xs" "xs ! i = v" "\<And>j. j < i \<Longrightarrow> xs ! j \<noteq> v"
proof (induction xs arbitrary: thesis)
  case Nil
  then show ?case by simp
next
  case (Cons x xs)
  show ?case
  proof (cases "x = v")
    case True
    then show ?thesis by (intro Cons.prems(2) [of 0]) auto
  next
    case False
    show ?thesis
    proof (rule Cons.IH)
      assume "index_byte xs v = -1" "v \<notin> set xs"
      with False show ?thesis by (intro Cons.prems(1)) auto
    next
      fix i assume i: "index_byte xs v = int i" "i < length xs" "xs ! i = v" "\<And>j. j < i \<Longrightarrow> xs ! j \<noteq> v"
      show ?thesis
      proof (rule Cons.prems(2) [of "Suc i"])
        show "(x # xs) ! j \<noteq> v" if "j < Suc i" for j
          using that i(4) False by (cases j) auto
      qed (use i False in auto)
    qed
  qed
qed

lemma last_index_byte_cases:
  obtains "last_index_byte xs v = -1" "v \<notin> set xs"
  | i where "last_index_byte xs v = int i" "i < length xs" "xs ! i = v"
      "\<And>j. i < j \<Longrightarrow> j < length xs \<Longrightarrow> xs ! j \<noteq> v"
proof (rule index_byte_cases [of "rev xs" v])
  assume "index_byte (rev xs) v = -1" "v \<notin> set (rev xs)"
  then show ?thesis by (intro that(1)) (auto simp: last_index_byte_def)
next
  fix i assume i: "index_byte (rev xs) v = int i" "i < length (rev xs)" "rev xs ! i = v"
    "\<And>j. j < i \<Longrightarrow> rev xs ! j \<noteq> v"
  show ?thesis
  proof (rule that(2) [of "length xs - 1 - i"])
    show "xs ! j \<noteq> v" if "length xs - 1 - i < j" "j < length xs" for j
      using i(4) [of "length xs - 1 - j"] that i(2) by (simp add: rev_nth)
  qed (use i in \<open>auto simp: last_index_byte_def rev_nth Let_def\<close>)
qed

lemma filter_value_exists:
  assumes "wf_filter f" "\<not> (enabled \<and> f = neverDays)" "\<not> (\<not> enabled \<and> f = everyDay)"
  shows "(if enabled then 1 else 0) \<in> set f"
proof (rule ccontr)
  assume no: "(if enabled then 1 else 0) \<notin> set f"
  have "f ! i = (if enabled then 0 else 1)" if "i < 7" for i
  proof -
    have "f ! i \<in> set f" using that assms(1) by (simp add: wf_filter_def)
    with no assms(1) show ?thesis by (auto simp: wf_filter_def subset_iff split: if_splits)
  qed
  with assms show False
    using filter_eq_replicate [of f "if enabled then 0 else 1"]
    by (auto simp: wf_filter_def neverDays_def everyDay_def split: if_splits)
qed

lemma DaysUntil_least:
  assumes "wf_filter f" "d < 7" "\<not> (enabled \<and> f = neverDays)" "\<not> (\<not> enabled \<and> f = everyDay)"
  obtains n where "DaysUntil f d enabled = int n" "n < 7"
    "f ! ((d + n) mod 7) = (if enabled then 1 else 0)"
    "\<And>j. j < n \<Longrightarrow> f ! ((d + j) mod 7) \<noteq> (if enabled then 1 else 0)"
proof -
  let ?v = "if enabled then 1 else 0 :: int"
  have len: "length f = 7" using assms(1) by (simp add: wf_filter_def)
  have D: "DaysUntil f d enabled =
      (let idx = index_byte (drop d f) ?v in if -1 < idx then idx else 7 - int d + index_byte f ?v)"
    using assms(3,4) by (auto simp: DaysUntil_def Let_def)
  show ?thesis
  proof (rule index_byte_cases [of "drop d f" ?v])
    fix i assume i: "index_byte (drop d f) ?v = int i" "i < length (drop d f)" "drop d f ! i = ?v"
      "\<And>j. j < i \<Longrightarrow> drop d f ! j \<noteq> ?v"
    show ?thesis
    proof (rule that [of i])
      show "f ! ((d + j) mod 7) \<noteq> ?v" if "j < i" for j
        using i(2) i(4) [OF that] that len by (simp add: nth_drop)
    qed (use i len D in \<open>auto simp: nth_drop\<close>)
  next
    assume no: "index_byte (drop d f) ?v = -1" "?v \<notin> set (drop d f)"
    have ex: "?v \<in> set f" by (rule filter_value_exists [OF assms(1,3,4)])
    have late: "f ! k \<noteq> ?v" if "d \<le> k" "k < 7" for k
    proof -
      have "drop d f ! (k - d) \<in> set (drop d f)" using that len by (intro nth_mem) simp
      then show ?thesis using no(2) that len by (auto simp: nth_drop)
    qed
    show ?thesis
    proof (rule index_byte_cases [of f ?v])
      assume "?v \<notin> set f" with ex show ?thesis by blast
    next
      fix i assume i: "index_byte f ?v = int i" "i < length f" "f ! i = ?v" "\<And>j. j < i \<Longrightarrow> f ! j \<noteq> ?v"
      have "i < d" using late [of i] i len by (metis leI)
      show ?thesis
      proof (rule that [of "7 - d + i"])
        show "f ! ((d + j) mod 7) \<noteq> ?v" if "j < 7 - d + i" for j
        proof (cases "d + j < 7")
          case True
          then show ?thesis using late [of "d + j"] by simp
        next
          case False
          then have "(d + j) mod 7 = d + j - 7" using that assms(2) \<open>i < d\<close> by (simp add: mod_if)
          then show ?thesis using i(4) [of "d + j - 7"] that False assms(2) by simp
        qed
      qed (use i \<open>i < d\<close> assms(2) D no in \<open>auto simp: mod_if\<close>)
    qed
  qed
qed

lemma DaysSince_least:
  assumes "wf_filter f" "d < 7" "\<not> (enabled \<and> f = neverDays)" "\<not> (\<not> enabled \<and> f = everyDay)"
  obtains n where "DaysSince f d enabled = int n" "n < 7"
    "f ! ((d + 7 - n) mod 7) = (if enabled then 1 else 0)"
    "\<And>j. j < n \<Longrightarrow> f ! ((d + 7 - j) mod 7) \<noteq> (if enabled then 1 else 0)"
proof -
  let ?v = "if enabled then 1 else 0 :: int"
  have len: "length f = 7" using assms(1) by (simp add: wf_filter_def)
  have D: "DaysSince f d enabled =
      (let idx = last_index_byte (take (d + 1) f) ?v
       in if -1 < idx then int d - idx else 6 - last_index_byte (drop (d + 1) f) ?v)"
    using assms(3,4) by (auto simp: DaysSince_def Let_def)
  show ?thesis
  proof (rule last_index_byte_cases [of "take (d + 1) f" ?v])
    fix i assume i: "last_index_byte (take (d + 1) f) ?v = int i" "i < length (take (d + 1) f)"
      "take (d + 1) f ! i = ?v"
      "\<And>j. i < j \<Longrightarrow> j < length (take (d + 1) f) \<Longrightarrow> take (d + 1) f ! j \<noteq> ?v"
    show ?thesis
    proof (rule that [of "d - i"])
      show "f ! ((d + 7 - j) mod 7) \<noteq> ?v" if "j < d - i" for j
      proof -
        have "(d + 7 - j) mod 7 = d - j" using that assms(2) by (simp add: mod_if)
        then show ?thesis using i(4) [of "d - j"] that len assms(2) by simp
      qed
    qed (use i len D assms(2) in \<open>auto simp: mod_if\<close>)
  next
    assume no: "last_index_byte (take (d + 1) f) ?v = -1" "?v \<notin> set (take (d + 1) f)"
    have ex: "?v \<in> set f" by (rule filter_value_exists [OF assms(1,3,4)])
    have early: "f ! k \<noteq> ?v" if "k \<le> d" for k
    proof -
      have "take (d + 1) f ! k \<in> set (take (d + 1) f)" using that len assms(2) by (intro nth_mem) simp
      then show ?thesis using no(2) that by auto
    qed
    show ?thesis
    proof (rule last_index_byte_cases [of "drop (d + 1) f" ?v])
      assume "?v \<notin> set (drop (d + 1) f)"
      with no(2) have "?v \<notin> set (take (d + 1) f) \<union> set (drop (d + 1) f)" by blast
      also have "set (take (d + 1) f) \<union> set (drop (d + 1) f) = set f"
        by (metis append_take_drop_id set_append)
      finally show ?thesis using ex by blast
    next
      fix i assume i: "last_index_byte (drop (d + 1) f) ?v = int i" "i < length (drop (d + 1) f)"
        "drop (d + 1) f ! i = ?v"
        "\<And>j. i < j \<Longrightarrow> j < length (drop (d + 1) f) \<Longrightarrow> drop (d + 1) f ! j \<noteq> ?v"
      show ?thesis
      proof (rule that [of "6 - i"])
        show "f ! ((d + 7 - j) mod 7) \<noteq> ?v" if "j < 6 - i" for j
        proof (cases "j \<le> d")
          case True
          then have "(d + 7 - j) mod 7 = d - j" using assms(2) by (simp add: mod_if)
          then show ?thesis using early by simp
        next
          case False
          then have "(d + 7 - j) mod 7 = d + 7 - j" using assms(2) by simp
          moreover have "drop (d + 1) f ! (6 - j) \<noteq> ?v"
            using that False len assms(2) by (intro i(4)) auto
          moreover have "drop (d + 1) f ! (6 - j) = f ! (d + 7 - j)"
          proof -
            have "d + 1 + (6 - j) = d + 7 - j" using that by simp
            then show ?thesis using len assms(2) by (simp only: nth_drop)
          qed
          ultimately show ?thesis by simp
        qed
      qed (use i len assms(2) D no in \<open>auto simp: mod_if\<close>)
    qed
  qed
qed

subsection \<open>Round trips of the encodings\<close>

lemma unmarshal_chars_append:
  assumes "length f = 7" "i + length vs = 7" "set vs \<subseteq> {0, 1}"
  shows "unmarshal_chars i (map (\<lambda>v. if v = 0 then CHR ''0'' else CHR ''1'') vs) f = (take i f @ vs, None)"
  using assms
proof (induction vs arbitrary: i f)
  case Nil
  then show ?case by simp
next
  case (Cons v vs)
  then show ?case by (auto simp: take_Suc_conv_app_nth upd_conv_take_nth_drop)
qed

lemma unmarshal_items_append:
  assumes "length f = 7" "i + length vs = 7" "set vs \<subseteq> {0, 1}"
  shows "unmarshal_items i (map (\<lambda>v. GqlBool (v = 1)) vs) f = (take i f @ vs, None)"
  using assms
proof (induction vs arbitrary: i f)
  case Nil
  then show ?case by simp
next
  case (Cons v vs)
  then show ?case by (auto simp: take_Suc_conv_app_nth upd_conv_take_nth_drop)
qed

lemma filter_text_roundtrip:
  assumes "wf_filter f" "length g = 7"
  shows "UnmarshalText (MarshalText f) g = (f, None)"
  using assms unmarshal_chars_append [of g 0 f]
  by (auto simp: UnmarshalText_def MarshalText_def wf_filter_def)

lemma filter_gql_roundtrip:
  assumes "wf_filter f" "length g = 7"
  shows "Filter_UnmarshalGQL (Filter_MarshalGQL f) g = (f, None)"
  using assms unmarshal_items_append [of g 0 f]
  by (simp add: Filter_UnmarshalGQL_def Filter_MarshalGQL_def wf_filter_def)

lemma filter_sql_roundtrip:
  assumes "wf_filter f"
  shows "Filter_Scan (Filter_Value f) = f"
proof (rule nth_equalityI)
  show "length (Filter_Scan (Filter_Value f)) = length f"
    using assms by (simp add: Filter_Scan_def wf_filter_def)
  fix i assume "i < length (Filter_Scan (Filter_Value f))"
  then have i: "i < 7" by (simp add: Filter_Scan_def)
  then have "f ! i \<in> {0, 1}" using assms by (metis nth_mem subsetD wf_filter_def)
  with i assms show "Filter_Scan (Filter_Value f) ! i = f ! i"
    by (auto simp: Filter_Scan_def Filter_Value_def wf_filter_def)
qed

text \<open>A decoded text is well formed, or an error is reported.\<close>

lemma unmarshal_chars_wf:
  assumes "length f = 7" "i + length cs = 7" "set (take i f) \<subseteq> {0, 1}"
    "unmarshal_chars i cs f = (g, None)"
  shows "wf_filter g"
  using assms
proof (induction cs arbitrary: i f)
  case Nil
  then show ?case by (simp add: wf_filter_def)
next
  case (Cons c cs)
  have "i < length f" using Cons.prems by simp
  then have bits: "set (take (i + 1) (f[i := v])) \<subseteq> {0, 1}" if "v \<in> {0, 1}" for v
    using Cons.prems(3) that by (auto simp: take_Suc_conv_app_nth)
  from Cons.prems(4) consider "unmarshal_chars (i + 1) cs (f[i := 0]) = (g, None)"
    | "unmarshal_chars (i + 1) cs (f[i := 1]) = (g, None)" by (auto split: if_splits)
  then show ?case
    using Cons.IH [of "f[i := _]" "i + 1"] Cons.prems(1,2) bits by cases auto
qed

end
