(* ===== verification/OnCallRules.thy ===== *)
theory OnCallRules
  imports WeekdayFilter Validate
begin

section \<open>On-call notification rules: schedule/oncallnotificationrule.go, storeoncallnotifications.go\<close>

text \<open>
  The rules that say when the users on call of a schedule are announced, and the preparation of a
  set of rules before it is stored: validation, and a number for every rule that has none.  UUIDs
  are values of a type \<open>'u\<close>; \<open>uuid_string\<close> and \<open>uuid_parse\<close> are the functions of google/uuid.
\<close>

record 'u RuleID =
  rid_scheduleID :: 'u
  rid_id :: int
  rid_valid :: bool

record 'u OnCallNotificationRule =
  ocr_ID :: "'u RuleID"
  ocr_ChannelID :: 'u
  ocr_Time :: "Clock option"
  ocr_WeekdayFilter :: "WeekdayFilter option"
  ocr_NextNotification :: "instant option"

subsection \<open>The text form of a rule ID\<close>

definition RuleID_String :: "('u \<Rightarrow> string) \<Rightarrow> 'u RuleID \<Rightarrow> string" where
  "RuleID_String uuid_string r =
     (if \<not> rid_valid r then '''' else uuid_string (rid_scheduleID r) @ '':'' @ show_int (rid_id r))"

definition RuleID_MarshalText :: "('u \<Rightarrow> string) \<Rightarrow> 'u RuleID \<Rightarrow> string" where
  "RuleID_MarshalText uuid_string r =
     (if \<not> rid_valid r then '''' else RuleID_String uuid_string r)"

text \<open>\<open>UnmarshalText\<close> skips the byte at index 36 without looking at it; \<open>zero\<close> is the zero UUID.\<close>

definition RuleID_UnmarshalText ::
  "'u \<Rightarrow> (string \<Rightarrow> string + 'u) \<Rightarrow> string \<Rightarrow> string + 'u RuleID" where
  "RuleID_UnmarshalText zero uuid_parse s =
     (if s = '''' then Inr \<lparr>rid_scheduleID = zero, rid_id = 0, rid_valid = False\<rparr>
      else if length s < 38 then Inl ''input too short''
      else case uuid_parse (take 36 s) of
             Inl e \<Rightarrow> Inl e
           | Inr u \<Rightarrow>
               (case ParseInt 32 (drop 37 s) of
                  None \<Rightarrow> Inl ''invalid syntax''
                | Some i \<Rightarrow> Inr \<lparr>rid_scheduleID = u, rid_id = i, rid_valid = True\<rparr>))"

subsection \<open>Preparing a set of rules\<close>

definition onCallNotificationRuleLimit :: int where
  "onCallNotificationRuleLimit = 50"

text \<open>The key under which two rules are duplicates: whether there is a time, which one, the channel.\<close>

definition dupkey :: "'u OnCallNotificationRule \<Rightarrow> bool \<times> Clock \<times> 'u" where
  "dupkey r = (case ocr_Time r of
                 None \<Rightarrow> (False, 0, ocr_ChannelID r)
               | Some c \<Rightarrow> (True, c, ocr_ChannelID r))"

fun check_dups :: "nat \<Rightarrow> (bool \<times> Clock \<times> 'u) list \<Rightarrow> 'u OnCallNotificationRule list \<Rightarrow> error_result" where
  "check_dups i m [] = None"
| "check_dups i m (r # rs) =
     (if (case ocr_WeekdayFilter r of Some f \<Rightarrow> IsNever f | None \<Rightarrow> False)
        then NewFieldError ''Rules[%d].WeekdayFilter''
               ''At least one day must be enabled when specifying a weekday filter.''
      else if ocr_WeekdayFilter r \<noteq> None \<and> ocr_Time r = None
        then NewFieldError ''Rules[%d].WeekdayFilter'' ''Weekday filter may only be used with Time.''
      else if ocr_WeekdayFilter r = None \<and> ocr_Time r \<noteq> None
        then NewFieldError ''Rules[%d].WeekdayFilter'' ''Weekday filter is required with Time.''
      else if dupkey r \<in> set m
        then NewFieldError (''Rules['' @ show_nat i @ '']'')
               (if fst (dupkey r) then ''Rule already exists for that channel and time-of-day.''
                else ''On-change rule already exists for that channel.'')
      else check_dups (i + 1) (dupkey r # m) rs)"

text \<open>The loop over the IDs that are already set; \<open>ids\<close> is the slice of booleans of the code.\<close>

fun check_ids ::
  "'u \<Rightarrow> nat \<Rightarrow> bool list \<Rightarrow> 'u OnCallNotificationRule list \<Rightarrow> (go_error + bool list) outcome" where
  "check_ids scheduleID i ids [] = Inr (Inr ids)"
| "check_ids scheduleID i ids (r # rs) =
     (if \<not> rid_valid (ocr_ID r) then check_ids scheduleID (i + 1) ids rs
      else
        (let fieldName = ''Rules['' @ show_nat i @ ''].ID''; n = rid_id (ocr_ID r)
         in case Range fieldName n 0 onCallNotificationRuleLimit of
              Some e \<Rightarrow> Inr (Inl e)
            | None \<Rightarrow>
                if rid_scheduleID (ocr_ID r) \<noteq> scheduleID
                  then Inr (Inl (FieldError fieldName ''wrong schedule ID''))
                else if n < 0 \<or> int (length ids) \<le> n then Inl (Panic ''index out of range'')
                else if ids ! nat n
                  then Inr (Inl (FieldError fieldName ''duplicate ID value not allowed''))
                else check_ids scheduleID (i + 1) (ids[nat n := True]) rs))"

definition nextID :: "bool list \<Rightarrow> (nat \<times> bool list) outcome" where
  "nextID ids =
     (case find (\<lambda>i. \<not> ids ! i) [0..<length ids] of
        None \<Rightarrow> Inl (Panic ''could not find unused ID'')
      | Some i \<Rightarrow> Inr (i, ids[i := True]))"

fun assign_ids ::
  "'u \<Rightarrow> bool list \<Rightarrow> 'u OnCallNotificationRule list \<Rightarrow> 'u OnCallNotificationRule list outcome" where
  "assign_ids scheduleID ids [] = Inr []"
| "assign_ids scheduleID ids (r # rs) =
     (if rid_valid (ocr_ID r) then obind (assign_ids scheduleID ids rs) (\<lambda>rs'. Inr (r # rs'))
      else obind (nextID ids) (\<lambda>(n, ids').
             obind (assign_ids scheduleID ids' rs) (\<lambda>rs'.
               Inr (r\<lparr>ocr_ID := \<lparr>rid_scheduleID = scheduleID, rid_id = int n, rid_valid = True\<rparr>\<rparr> # rs'))))"

definition PrepareOnCallNotificationRules ::
  "'u \<Rightarrow> 'u OnCallNotificationRule list \<Rightarrow> (go_error + 'u OnCallNotificationRule list) outcome" where
  "PrepareOnCallNotificationRules scheduleID rules =
     (case Range ''Rules'' (int (length rules)) 0 onCallNotificationRuleLimit of
        Some e \<Rightarrow> Inr (Inl e)
      | None \<Rightarrow>
          (case check_dups 0 [] rules of
             Some e \<Rightarrow> Inr (Inl e)
           | None \<Rightarrow>
               obind (check_ids scheduleID 0 (replicate (nat onCallNotificationRuleLimit) False) rules)
                 (\<lambda>r. case r of
                        Inl e \<Rightarrow> Inr (Inl e)
                      | Inr ids \<Rightarrow>
                          obind (assign_ids scheduleID ids rules) (\<lambda>rules'. Inr (Inr rules')))))"

subsection \<open>Which numbers are given out\<close>

text \<open>The numbers in use are those of the rules checked, one for each.\<close>

definition used :: "bool list \<Rightarrow> nat set" where
  "used ids = {i. i < length ids \<and> ids ! i}"

lemma used_update: "n < length ids \<Longrightarrow> used (ids[n := True]) = insert n (used ids)"
  by (auto simp: used_def nth_list_update split: if_splits)

lemma finite_used [simp]: "finite (used ids)"
  by (simp add: used_def)

lemma used_le: "card (used ids) \<le> length ids"
  using card_mono [of "{..<length ids}" "used ids"] by (auto simp: used_def)

definition valid_ids :: "'u OnCallNotificationRule list \<Rightarrow> int list" where
  "valid_ids rules = map (\<lambda>r. rid_id (ocr_ID r)) (filter (\<lambda>r. rid_valid (ocr_ID r)) rules)"

lemma check_ids_used:
  "check_ids sid i ids rules = Inr (Inr ids') \<Longrightarrow>
     length ids' = length ids \<and> used ids \<union> nat ` set (valid_ids rules) = used ids'
     \<and> card (used ids') = card (used ids) + length (valid_ids rules)
     \<and> (\<forall>n \<in> set (valid_ids rules). 0 \<le> n \<and> n < int (length ids) \<and> nat n \<notin> used ids)
     \<and> distinct (valid_ids rules)
     \<and> (\<forall>r \<in> set rules. rid_valid (ocr_ID r) \<longrightarrow> rid_scheduleID (ocr_ID r) = sid)"
proof (induction rules arbitrary: i ids)
  case Nil
  then show ?case by (simp add: valid_ids_def)
next
  case (Cons r rs)
  show ?case
  proof (cases "rid_valid (ocr_ID r)")
    case False
    then have v: "valid_ids (r # rs) = valid_ids rs" by (simp add: valid_ids_def)
    have rest: "check_ids sid (i + 1) ids rs = Inr (Inr ids')" using Cons.prems False by simp
    from Cons.IH [OF rest] False show ?thesis unfolding v by simp
  next
    case True
    define n where "n = rid_id (ocr_ID r)"
    from Cons.prems True have n: "0 \<le> n" "n < int (length ids)" "\<not> ids ! nat n"
      and sid: "rid_scheduleID (ocr_ID r) = sid"
      and rest: "check_ids sid (i + 1) (ids[nat n := True]) rs = Inr (Inr ids')"
      unfolding check_ids.simps Let_def n_def [symmetric]
      by (auto split: option.splits if_splits simp: not_le not_less)
    have nn: "nat n < length ids" "nat n \<notin> used ids" using n by (auto simp: used_def)
    note up = used_update [OF nn(1)]
    have v: "valid_ids (r # rs) = n # valid_ids rs" using True by (simp add: valid_ids_def n_def)
    have "card (insert (nat n) (used ids)) = card (used ids) + 1" using nn(2) by simp
    moreover have "n \<notin> set (valid_ids rs)" using Cons.IH [OF rest] unfolding up by blast
    ultimately show ?thesis
      using Cons.IH [OF rest] n nn sid unfolding v up by simp
  qed
qed

lemma nextID_cases:
  assumes "card (used ids) < length ids"
  obtains n where "nextID ids = Inr (n, ids[n := True])" "n < length ids" "n \<notin> used ids"
proof (cases "find (\<lambda>i. \<not> ids ! i) [0..<length ids]")
  case None
  then have "used ids = {..<length ids}" by (auto simp: used_def find_None_iff)
  with assms show ?thesis by simp
next
  case (Some n)
  then have "n < length ids" "\<not> ids ! n" by (auto simp: find_Some_iff)
  with Some show ?thesis by (intro that [of n]) (auto simp: nextID_def used_def)
qed

text \<open>A rule keeps a number it has and is given a free one otherwise; nothing else of it changes.\<close>

definition rule_num :: "'u OnCallNotificationRule \<Rightarrow> int" where
  "rule_num r = rid_id (ocr_ID r)"

definition numbered :: "'u \<Rightarrow> nat set \<Rightarrow> 'u OnCallNotificationRule \<Rightarrow> 'u OnCallNotificationRule \<Rightarrow> bool" where
  "numbered sid free r r' \<longleftrightarrow>
     (if rid_valid (ocr_ID r) then r' = r
      else \<exists>n \<in> free. r' = r\<lparr>ocr_ID := \<lparr>rid_scheduleID = sid, rid_id = int n, rid_valid = True\<rparr>\<rparr>)"

definition free_ids :: "bool list \<Rightarrow> nat set" where
  "free_ids ids = {..<length ids} - used ids"

lemma numbered_mono: "numbered sid A r r' \<Longrightarrow> A \<subseteq> B \<Longrightarrow> numbered sid B r r'"
  by (auto simp: numbered_def split: if_splits)

lemma numbered_nums:
  assumes "list_all2 (numbered sid free) rules rules'" "n \<in> set (map rule_num rules')"
  shows "n \<in> set (valid_ids rules) \<or> n \<in> int ` free"
  using assms
proof (induction rule: list_all2_induct)
  case (Cons r rs r' rs')
  then show ?case by (auto simp: numbered_def valid_ids_def rule_num_def split: if_splits)
qed simp

lemma valid_ids_Cons:
  "valid_ids (r # rs) = (if rid_valid (ocr_ID r) then rule_num r # valid_ids rs else valid_ids rs)"
  by (simp add: valid_ids_def rule_num_def)

lemma assign_ids_ok:
  assumes "card (used ids) + length (filter (\<lambda>r. \<not> rid_valid (ocr_ID r)) rules) \<le> length ids"
    and "distinct (valid_ids rules)" "set (valid_ids rules) \<subseteq> int ` used ids"
  shows "\<exists>rules'. assign_ids sid ids rules = Inr rules'
    \<and> list_all2 (numbered sid (free_ids ids)) rules rules' \<and> distinct (map rule_num rules')"
  using assms
proof (induction rules arbitrary: ids)
  case (Cons r rs)
  show ?case
  proof (cases "rid_valid (ocr_ID r)")
    case True
    then obtain rs' where rs': "assign_ids sid ids rs = Inr rs'" "list_all2 (numbered sid (free_ids ids)) rs rs'"
      "distinct (map rule_num rs')"
      using Cons.IH [of ids] Cons.prems by (auto simp: valid_ids_Cons)
    have r: "rule_num r \<notin> set (valid_ids rs)" "rule_num r \<in> int ` used ids"
      using Cons.prems(2,3) True by (auto simp: valid_ids_Cons)
    have "rule_num r \<notin> set (map rule_num rs')"
    proof
      assume "rule_num r \<in> set (map rule_num rs')"
      from numbered_nums [OF rs'(2) this] r(1) have "rule_num r \<in> int ` free_ids ids" by blast
      with r(2) show False by (auto simp: free_ids_def)
    qed
    moreover have "numbered sid (free_ids ids) r r" using True by (simp add: numbered_def)
    ultimately show ?thesis using True rs' by (intro exI [of _ "r # rs'"]) simp
  next
    case False
    then have "card (used ids) < length ids" using Cons.prems by simp
    then obtain n where n: "nextID ids = Inr (n, ids[n := True])" "n < length ids" "n \<notin> used ids"
      by (rule nextID_cases)
    note up = used_update [OF n(2)]
    have "card (used (ids[n := True])) + length (filter (\<lambda>r. \<not> rid_valid (ocr_ID r)) rs) \<le> length (ids[n := True])"
      using Cons.prems False n(3) by (simp add: up)
    then obtain rs' where rs': "assign_ids sid (ids[n := True]) rs = Inr rs'"
      "list_all2 (numbered sid (free_ids (ids[n := True]))) rs rs'" "distinct (map rule_num rs')"
      using Cons.IH [of "ids[n := True]"] Cons.prems(2,3) False by (auto simp: valid_ids_Cons up)
    let ?r' = "r\<lparr>ocr_ID := \<lparr>rid_scheduleID = sid, rid_id = int n, rid_valid = True\<rparr>\<rparr>"
    have free: "free_ids (ids[n := True]) \<subseteq> free_ids ids" by (auto simp: free_ids_def up)
    have nv: "int n \<notin> set (valid_ids rs)" using Cons.prems(3) False n(3) by (auto simp: valid_ids_Cons)
    have "int n \<notin> set (map rule_num rs')"
    proof
      assume "int n \<in> set (map rule_num rs')"
      from numbered_nums [OF rs'(2) this] nv show False by (auto simp: free_ids_def up)
    qed
    moreover have "list_all2 (numbered sid (free_ids ids)) rs rs'"
      using rs'(2) numbered_mono [OF _ free] by (rule list_all2_mono)
    moreover have "numbered sid (free_ids ids) r ?r'" using False n by (auto simp: numbered_def free_ids_def)
    moreover have "assign_ids sid ids (r # rs) = Inr (?r' # rs')" using n(1) rs'(1) False by simp
    moreover have "rule_num ?r' = int n" by (simp add: rule_num_def)
    ultimately show ?thesis using rs'(3) by (intro exI [of _ "?r' # rs'"]) simp
  qed
qed simp

subsection \<open>Properties\<close>

lemma used_replicate [simp]: "used (replicate n False) = {}"
  by (auto simp: used_def)

lemma Range_None: "Range f v lo hi = None \<longleftrightarrow> lo \<le> v \<and> v \<le> hi"
  by (auto simp: Range_def NewFieldError_def)

lemma Prepare_cases:
  assumes "Range ''Rules'' (int (length rules)) 0 onCallNotificationRuleLimit = None"
    and ids: "check_ids sid 0 (replicate (nat onCallNotificationRuleLimit) False) rules = Inr (Inr ids)"
  shows "\<exists>rules'. assign_ids sid ids rules = Inr rules'
    \<and> list_all2 (numbered sid {..<50}) rules rules' \<and> distinct (map rule_num rules')
    \<and> (\<forall>n \<in> set (map rule_num rules'). 0 \<le> n \<and> n < 50)
    \<and> (\<forall>r \<in> set rules'. rid_valid (ocr_ID r) \<and> rid_scheduleID (ocr_ID r) = sid)"
proof -
  have lim: "nat onCallNotificationRuleLimit = 50" by (simp add: onCallNotificationRuleLimit_def)
  have len: "length rules \<le> 50" using assms(1) by (simp add: Range_None onCallNotificationRuleLimit_def)
  note c = check_ids_used [OF ids, unfolded lim used_replicate]
  have lids: "length ids = 50" using c by simp
  have vl: "length (valid_ids rules) + length (filter (\<lambda>r. \<not> rid_valid (ocr_ID r)) rules) = length rules"
    using sum_length_filter_compl [of "\<lambda>r. rid_valid (ocr_ID r)" rules] by (simp add: valid_ids_def)
  have sub: "set (valid_ids rules) \<subseteq> int ` used ids"
  proof
    fix n assume n: "n \<in> set (valid_ids rules)"
    then have "nat n \<in> used ids" "n = int (nat n)" using c by auto
    then show "n \<in> int ` used ids" by blast
  qed
  obtain rules' where r: "assign_ids sid ids rules = Inr rules'"
    "list_all2 (numbered sid (free_ids ids)) rules rules'" "distinct (map rule_num rules')"
    using assign_ids_ok [of ids rules sid] c len vl lids sub by auto
  have free: "free_ids ids \<subseteq> {..<50}" by (auto simp: free_ids_def lids)
  have "0 \<le> n \<and> n < 50" if "n \<in> set (map rule_num rules')" for n
    using numbered_nums [OF r(2) that] c free by auto
  moreover have "rid_valid (ocr_ID r') \<and> rid_scheduleID (ocr_ID r') = sid" if "r' \<in> set rules'" for r'
  proof -
    from r(2) that obtain x where "x \<in> set rules" "numbered sid (free_ids ids) x r'"
      by (metis list_all2_conv_all_nth in_set_conv_nth)
    then show ?thesis using c by (auto simp: numbered_def split: if_splits)
  qed
  moreover have "list_all2 (numbered sid {..<50}) rules rules'"
    using r(2) numbered_mono [OF _ free] by (rule list_all2_mono)
  ultimately show ?thesis using r by blast
qed

text \<open>C30: a set of rules that is accepted keeps every rule and the number of each numbered rule;
  afterwards all have a valid ID of this schedule, with different numbers below 50.\<close>

theorem PrepareOnCallNotificationRules_ok:
  assumes "PrepareOnCallNotificationRules sid rules = Inr (Inr rules')"
  shows "list_all2 (numbered sid {..<50}) rules rules' \<and> distinct (map rule_num rules')
    \<and> (\<forall>r \<in> set rules'. rid_valid (ocr_ID r) \<and> rid_scheduleID (ocr_ID r) = sid
          \<and> 0 \<le> rule_num r \<and> rule_num r < 50)"
proof -
  from assms have rg: "Range ''Rules'' (int (length rules)) 0 onCallNotificationRuleLimit = None"
    by (auto simp: PrepareOnCallNotificationRules_def split: option.splits)
  from assms obtain ids where ids: "check_ids sid 0 (replicate (nat onCallNotificationRuleLimit) False) rules = Inr (Inr ids)"
    and a: "assign_ids sid ids rules = Inr rules'"
    by (auto simp: PrepareOnCallNotificationRules_def split: option.splits sum.splits)
  from Prepare_cases [OF rg ids] a show ?thesis by auto
qed

theorem PrepareOnCallNotificationRules_ok_witness:
  "\<exists>rules'. PrepareOnCallNotificationRules (7 :: nat)
     [\<lparr>ocr_ID = \<lparr>rid_scheduleID = 0, rid_id = 0, rid_valid = False\<rparr>, ocr_ChannelID = 1, ocr_Time = None,
       ocr_WeekdayFilter = None, ocr_NextNotification = None\<rparr>,
      \<lparr>ocr_ID = \<lparr>rid_scheduleID = 7, rid_id = 0, rid_valid = True\<rparr>, ocr_ChannelID = 2, ocr_Time = None,
       ocr_WeekdayFilter = None, ocr_NextNotification = None\<rparr>] = Inr (Inr rules')
    \<and> map rule_num rules' = [1, 0] \<and> distinct (map rule_num rules')"
proof -
  let ?r = "\<lambda>s n v c. \<lparr>ocr_ID = \<lparr>rid_scheduleID = (s :: nat), rid_id = n, rid_valid = v\<rparr>, ocr_ChannelID = c,
      ocr_Time = None, ocr_WeekdayFilter = None, ocr_NextNotification = None\<rparr>"
  have p: "PrepareOnCallNotificationRules 7 [?r 0 0 False 1, ?r 7 0 True 2] = Inr (Inr [?r 7 1 True 1, ?r 7 0 True 2])"
    by code_simp
  from PrepareOnCallNotificationRules_ok [OF this] p show ?thesis by (auto simp: rule_num_def)
qed

text \<open>The search for an unused number never fails: the panic \<open>could not find unused ID\<close> of
  \<open>nextID\<close> is unreachable.\<close>

theorem PrepareOnCallNotificationRules_no_exhaustion:
  "PrepareOnCallNotificationRules sid rules \<noteq> Inl (Panic ''could not find unused ID'')"
proof
  assume p: "PrepareOnCallNotificationRules sid rules = Inl (Panic ''could not find unused ID'')"
  then have rg: "Range ''Rules'' (int (length rules)) 0 onCallNotificationRuleLimit = None"
    by (auto simp: PrepareOnCallNotificationRules_def split: option.splits)
  have ci: "check_ids sid i ids rs \<noteq> Inl (Panic ''could not find unused ID'')" for i ids rs
    by (induction rs arbitrary: i ids) (auto simp: Let_def split: option.splits)
  from p ci obtain ids where
    ids: "check_ids sid 0 (replicate (nat onCallNotificationRuleLimit) False) rules = Inr (Inr ids)"
    by (cases "check_ids sid 0 (replicate (nat onCallNotificationRuleLimit) False) rules")
      (auto simp: PrepareOnCallNotificationRules_def split: option.splits sum.splits)
  from Prepare_cases [OF rg ids] p ids show False
    by (auto simp: PrepareOnCallNotificationRules_def split: option.splits)
qed

definition limit_rule :: "nat OnCallNotificationRule" where
  "limit_rule = \<lparr>ocr_ID = \<lparr>rid_scheduleID = 7, rid_id = 50, rid_valid = True\<rparr>, ocr_ChannelID = 1, ocr_Time = None,
     ocr_WeekdayFilter = None, ocr_NextNotification = None\<rparr>"

text \<open>the range check on a rule's number admits 50, one past the end of the slice it indexes:
  one well-formed rule with that number makes the preparation panic.\<close>

theorem PrepareOnCallNotificationRules_panics:
  "PrepareOnCallNotificationRules 7 [limit_rule] = Inl (Panic ''index out of range'')"
  by code_simp

end
