(* ===== verification/Assignment.thy ===== *)
theory Assignment
  imports Prelude
begin

section \<open>Assignment targets: assignment\<close>

text \<open>
  The interface \<open>Target\<close> of \<open>assignment/target.go\<close> with its implementations (one string type per
  kind of object, and \<open>RawTarget\<close>), and the enumeration \<open>TargetType\<close> of \<open>assignment/targettype.go\<close>
  with its text form.
\<close>

datatype TargetType =
    TargetTypeUnspecified
  | TargetTypeEscalationPolicy
  | TargetTypeNotificationPolicy
  | TargetTypeRotation
  | TargetTypeService
  | TargetTypeSchedule
  | TargetTypeCalendarSubscription
  | TargetTypeUser
  | TargetTypeNotificationChannel
  | TargetTypeSlackChannel
  | TargetTypeSlackUserGroup
  | TargetTypeChanWebhook
  | TargetTypeIntegrationKey
  | TargetTypeUserOverride
  | TargetTypeNotificationRule
  | TargetTypeContactMethod
  | TargetTypeHeartbeatMonitor
  | TargetTypeUserSession

record RawTarget =
  raw_Type :: TargetType
  raw_ID :: string
  raw_Name :: string

text \<open>A value of the interface \<open>Target\<close>, tagged with the Go type that implements it.\<close>

datatype Target =
    Raw RawTarget
  | EscalationPolicyTarget string
  | NotificationPolicyTarget string
  | RotationTarget string
  | ServiceTarget string
  | ScheduleTarget string
  | UserTarget string
  | NotificationChannelTarget string
  | IntegrationKeyTarget string
  | UserOverrideTarget string
  | ContactMethodTarget string
  | NotificationRuleTarget string
  | HeartbeatMonitorTarget string
  | CalendarSubscriptionTarget string
  | UserSessionTarget string

fun Target_TargetType :: "Target \<Rightarrow> TargetType" where
  "Target_TargetType (Raw rt) = raw_Type rt"
| "Target_TargetType (EscalationPolicyTarget _) = TargetTypeEscalationPolicy"
| "Target_TargetType (NotificationPolicyTarget _) = TargetTypeNotificationPolicy"
| "Target_TargetType (RotationTarget _) = TargetTypeRotation"
| "Target_TargetType (ServiceTarget _) = TargetTypeService"
| "Target_TargetType (ScheduleTarget _) = TargetTypeSchedule"
| "Target_TargetType (UserTarget _) = TargetTypeUser"
| "Target_TargetType (NotificationChannelTarget _) = TargetTypeNotificationChannel"
| "Target_TargetType (IntegrationKeyTarget _) = TargetTypeIntegrationKey"
| "Target_TargetType (UserOverrideTarget _) = TargetTypeUserOverride"
| "Target_TargetType (ContactMethodTarget _) = TargetTypeContactMethod"
| "Target_TargetType (NotificationRuleTarget _) = TargetTypeNotificationRule"
| "Target_TargetType (HeartbeatMonitorTarget _) = TargetTypeHeartbeatMonitor"
| "Target_TargetType (CalendarSubscriptionTarget _) = TargetTypeCalendarSubscription"
| "Target_TargetType (UserSessionTarget _) = TargetTypeUserSession"

fun Target_TargetID :: "Target \<Rightarrow> string" where
  "Target_TargetID (Raw rt) = raw_ID rt"
| "Target_TargetID (EscalationPolicyTarget s) = s"
| "Target_TargetID (NotificationPolicyTarget s) = s"
| "Target_TargetID (RotationTarget s) = s"
| "Target_TargetID (ServiceTarget s) = s"
| "Target_TargetID (ScheduleTarget s) = s"
| "Target_TargetID (UserTarget s) = s"
| "Target_TargetID (NotificationChannelTarget s) = s"
| "Target_TargetID (IntegrationKeyTarget s) = s"
| "Target_TargetID (UserOverrideTarget s) = s"
| "Target_TargetID (ContactMethodTarget s) = s"
| "Target_TargetID (NotificationRuleTarget s) = s"
| "Target_TargetID (HeartbeatMonitorTarget s) = s"
| "Target_TargetID (CalendarSubscriptionTarget s) = s"
| "Target_TargetID (UserSessionTarget s) = s"

definition NewRawTarget :: "Target \<Rightarrow> RawTarget" where
  "NewRawTarget t = \<lparr>raw_Type = Target_TargetType t, raw_ID = Target_TargetID t, raw_Name = []\<rparr>"

definition RawTarget_TargetName :: "RawTarget \<Rightarrow> string" where
  "RawTarget_TargetName rt = raw_Name rt"

subsection \<open>The text form of a target type\<close>

datatype target_error = ErrUnknownTargetType

definition TargetType_UnmarshalText :: "string \<Rightarrow> target_error + TargetType" where
  "TargetType_UnmarshalText str =
     (if str = ''escalationPolicy'' then Inr TargetTypeEscalationPolicy
      else if str = ''notificationPolicy'' then Inr TargetTypeNotificationPolicy
      else if str = ''rotation'' then Inr TargetTypeRotation
      else if str = ''service'' then Inr TargetTypeService
      else if str = ''schedule'' then Inr TargetTypeSchedule
      else if str = ''calendarSubscription'' then Inr TargetTypeCalendarSubscription
      else if str = ''user'' then Inr TargetTypeUser
      else if str = ''integrationKey'' then Inr TargetTypeIntegrationKey
      else if str = ''notificationChannel'' then Inr TargetTypeNotificationChannel
      else if str = ''slackChannel'' then Inr TargetTypeSlackChannel
      else if str = ''slackUserGroup'' then Inr TargetTypeSlackUserGroup
      else if str = ''chanWebhook'' then Inr TargetTypeChanWebhook
      else if str = ''userOverride'' then Inr TargetTypeUserOverride
      else if str = ''contactMethod'' then Inr TargetTypeContactMethod
      else if str = ''notificationRule'' then Inr TargetTypeNotificationRule
      else if str = ''heartbeatMonitor'' then Inr TargetTypeHeartbeatMonitor
      else if str = ''userSession'' then Inr TargetTypeUserSession
      else Inl ErrUnknownTargetType)"

fun TargetType_MarshalText :: "TargetType \<Rightarrow> target_error + string" where
  "TargetType_MarshalText TargetTypeUnspecified = Inl ErrUnknownTargetType"
| "TargetType_MarshalText TargetTypeEscalationPolicy = Inr ''escalationPolicy''"
| "TargetType_MarshalText TargetTypeNotificationPolicy = Inr ''notificationPolicy''"
| "TargetType_MarshalText TargetTypeRotation = Inr ''rotation''"
| "TargetType_MarshalText TargetTypeService = Inr ''service''"
| "TargetType_MarshalText TargetTypeSchedule = Inr ''schedule''"
| "TargetType_MarshalText TargetTypeCalendarSubscription = Inr ''calendarSubscription''"
| "TargetType_MarshalText TargetTypeUser = Inr ''user''"
| "TargetType_MarshalText TargetTypeIntegrationKey = Inr ''integrationKey''"
| "TargetType_MarshalText TargetTypeUserOverride = Inr ''userOverride''"
| "TargetType_MarshalText TargetTypeNotificationChannel = Inr ''notificationChannel''"
| "TargetType_MarshalText TargetTypeSlackChannel = Inr ''slackChannel''"
| "TargetType_MarshalText TargetTypeSlackUserGroup = Inr ''slackUserGroup''"
| "TargetType_MarshalText TargetTypeChanWebhook = Inr ''chanWebhook''"
| "TargetType_MarshalText TargetTypeContactMethod = Inr ''contactMethod''"
| "TargetType_MarshalText TargetTypeNotificationRule = Inr ''notificationRule''"
| "TargetType_MarshalText TargetTypeHeartbeatMonitor = Inr ''heartbeatMonitor''"
| "TargetType_MarshalText TargetTypeUserSession = Inr ''userSession''"

text \<open>\<open>MarshalGQL\<close> panics on the type the text form has no name for.\<close>

definition TargetType_MarshalGQL :: "TargetType \<Rightarrow> string outcome" where
  "TargetType_MarshalGQL tt =
     (case TargetType_MarshalText tt of
        Inl _ \<Rightarrow> Inl (Panic ''unknown target type'')
      | Inr s \<Rightarrow> Inr s)"

subsection \<open>Facts\<close>

lemma TargetType_marshal_fails_iff:
  "(\<exists>e. TargetType_MarshalText tt = Inl e) \<longleftrightarrow> tt = TargetTypeUnspecified"
  by (cases tt) auto

lemma TargetType_unmarshal_marshal_case:
  "case TargetType_MarshalText tt of Inl e \<Rightarrow> True | Inr s \<Rightarrow> TargetType_UnmarshalText s = Inr tt"
  by (cases tt) (simp_all add: TargetType_UnmarshalText_def)

lemma TargetType_unmarshal_marshal:
  "TargetType_MarshalText tt = Inr s \<Longrightarrow> TargetType_UnmarshalText s = Inr tt"
  using TargetType_unmarshal_marshal_case [of tt] by (simp only: sum.case)

lemma if_InrE:
  assumes "(if s = a then Inr x else r) = Inr t"
  obtains "s = a" "t = x" | "r = Inr t"
  using assms by (cases "s = a") simp_all

lemma TargetType_marshal_unmarshal:
  "TargetType_UnmarshalText s = Inr tt \<Longrightarrow> TargetType_MarshalText tt = Inr s"
  unfolding TargetType_UnmarshalText_def
  by (elim if_InrE) (simp_all only: TargetType_MarshalText.simps sum.distinct)

end
