(* ===== verification/Rule.thy ===== *)
theory Rule
  imports WeekdayFilter Assignment Validate
begin

section \<open>Schedule rules: schedule/rule\<close>

text \<open>
  A rule of \<open>schedule/rule/rule.go\<close> names the target that is on call on some weekdays from
  one wall-clock time to another.  The record has the fields of the Go struct; every method is
  a definition that takes the location of its time argument first.  The lemmas compare the
  code's way of deciding whether a rule is active (by searching for the start of a shift) with
  the meaning of the rule on the wall clock, \<open>active_at\<close>, where the offset does not change.
\<close>

record Rule =
  rule_ID :: string
  rule_ScheduleID :: string
  rule_WeekdayFilter :: WeekdayFilter
  rule_Start :: Clock
  rule_End :: Clock
  rule_CreatedAt :: instant
  rule_Target :: "Target option"

definition NewAlwaysActive :: "string \<Rightarrow> Target \<Rightarrow> Rule" where
  "NewAlwaysActive scheduleID tgt =
     \<lparr>rule_ID = '''', rule_ScheduleID = scheduleID, rule_WeekdayFilter = everyDay,
      rule_Start = 0, rule_End = 0, rule_CreatedAt = time_zero, rule_Target = Some tgt\<rparr>"

datatype rule_error = ErrScanRow | ErrNoKnownTarget

text \<open>\<open>Normalize\<close>; \<open>uuid_parse\<close> is the function of the package google/uuid.\<close>

definition Rule_Normalize :: "(string \<Rightarrow> string + 'u) \<Rightarrow> Rule \<Rightarrow> go_error + Rule" where
  "Rule_Normalize uuid_parse r =
     (case validate_UUID uuid_parse ''ScheduleID'' (rule_ScheduleID r) of
        Some e \<Rightarrow> Inl e
      | None \<Rightarrow> Inr (r\<lparr>rule_Start := Duration_Truncate (rule_Start r) Minute,
                       rule_End := Duration_Truncate (rule_End r) Minute\<rparr>))"

text \<open>
  A row of the rules table as \<open>Scan\<close> delivers it: the five columns and the two nullable
  target columns.  \<open>scanFrom\<close> fills the receiver before it looks for a target, so the receiver
  keeps the columns of a row that has none.
\<close>

record rule_row =
  row_ID :: string
  row_ScheduleID :: string
  row_WeekdayFilter :: WeekdayFilter
  row_Start :: Clock
  row_End :: Clock
  row_usr :: "string option"
  row_rot :: "string option"

definition scanFrom :: "(rule_error + rule_row) \<Rightarrow> Rule \<Rightarrow> Rule \<times> rule_error option" where
  "scanFrom s r =
     (case s of
        Inl e \<Rightarrow> (r, Some e)
      | Inr row \<Rightarrow>
          (let r = r\<lparr>rule_ID := row_ID row, rule_ScheduleID := row_ScheduleID row,
                     rule_WeekdayFilter := row_WeekdayFilter row,
                     rule_Start := row_Start row, rule_End := row_End row\<rparr>
           in case row_usr row of
                Some u \<Rightarrow> (r\<lparr>rule_Target := Some (UserTarget u)\<rparr>, None)
              | None \<Rightarrow>
                  (case row_rot row of
                     Some ro \<Rightarrow> (r\<lparr>rule_Target := Some (RotationTarget ro)\<rparr>, None)
                   | None \<Rightarrow> (r, Some ErrNoKnownTarget))))"

text \<open>\<open>readFields\<close> calls a method of the target, so a rule with a nil target panics.\<close>

definition readFields :: "Rule \<Rightarrow> rule_row outcome" where
  "readFields r =
     (case rule_Target r of
        None \<Rightarrow> Inl (Panic ''nil pointer dereference'')
      | Some tgt \<Rightarrow>
          Inr \<lparr>row_ID = rule_ID r, row_ScheduleID = rule_ScheduleID r,
               row_WeekdayFilter = rule_WeekdayFilter r,
               row_Start = rule_Start r, row_End = rule_End r,
               row_usr = (if Target_TargetType tgt = TargetTypeUser
                          then Some (Target_TargetID tgt) else None),
               row_rot = (if Target_TargetType tgt = TargetTypeRotation
                          then Some (Target_TargetID tgt) else None)\<rparr>)"

definition NeverActive :: "Rule \<Rightarrow> bool" where
  "NeverActive r \<longleftrightarrow> IsNever (rule_WeekdayFilter r)"

definition AlwaysActive :: "Rule \<Rightarrow> bool" where
  "AlwaysActive r \<longleftrightarrow> IsAlways (rule_WeekdayFilter r) \<and> rule_Start r = rule_End r"

definition Rule_StartTime :: "location \<Rightarrow> Rule \<Rightarrow> instant \<Rightarrow> instant" where
  "Rule_StartTime l r t0 =
     (if NeverActive r then time_zero
      else if AlwaysActive r then time_zero
      else
        (let t = Truncate t0 Minute;
             f = rule_WeekdayFilter r;
             w = Weekday l t;
             isTodayEnabled = Filter_Day f w
         in if isTodayEnabled \<and> rule_Start r = rule_End r
              then FirstOfDay l (rule_Start r) (Filter_StartTime l f t)
            else if rule_Start r < rule_End r then
              (if \<not> isTodayEnabled then FirstOfDay l (rule_Start r) (NextActive l f t)
               else let end = LastOfDay l (rule_End r) t
                    in if t < end then FirstOfDay l (rule_Start r) t
                       else FirstOfDay l (rule_Start r) (NextActive l f t))
            else
              (let end = LastOfDay l (rule_End r) t
               in if Filter_Day f (w - 1) \<and> t < end
                    then FirstOfDay l (rule_Start r) (AddDate l t 0 0 (-1))
                  else if isTodayEnabled then FirstOfDay l (rule_Start r) t
                  else FirstOfDay l (rule_Start r) (NextActive l f t))))"

definition Rule_EndTime :: "location \<Rightarrow> Rule \<Rightarrow> instant \<Rightarrow> instant" where
  "Rule_EndTime l r t =
     (let start = Rule_StartTime l r t
      in if IsZero start then start
         else if rule_Start r < rule_End r then LastOfDay l (rule_End r) start
         else if rule_End r < rule_Start r
           then LastOfDay l (rule_End r) (AddDate l start 0 0 1)
         else LastOfDay l (rule_End r) (NextInactive l (rule_WeekdayFilter r) start))"

definition IsActive :: "location \<Rightarrow> Rule \<Rightarrow> instant \<Rightarrow> bool" where
  "IsActive l r t =
     (if NeverActive r then False
      else if AlwaysActive r then True
      else \<not> (t < Rule_StartTime l r t))"

definition Rule_String :: "Rule \<Rightarrow> string" where
  "Rule_String r =
     (if AlwaysActive r then ''Always''
      else if NeverActive r then ''Never''
      else
        (let startStr = (if Clock_Minute (rule_Start r) = 0 then Format_3pm (rule_Start r)
                         else Format_3_04pm (rule_Start r));
             endStr = (if Clock_Minute (rule_End r) = 0 then Format_3pm (rule_End r)
                       else Format_3_04pm (rule_End r))
         in startStr @ ''-'' @ endStr @ '' '' @ Filter_String (rule_WeekdayFilter r)))"

subsection \<open>The meaning of a rule on the wall clock\<close>

text \<open>
  Whether the rule covers the time of day \<open>c\<close> of day number \<open>d\<close>: a shift from \<open>Start\<close> to \<open>End\<close> of
  the same day, or, when \<open>End\<close> is not after \<open>Start\<close>, to \<open>End\<close> of the next day.
\<close>

definition active_at :: "Rule \<Rightarrow> int \<Rightarrow> Clock \<Rightarrow> bool" where
  "active_at r d c =
     (let on = day_on (rule_WeekdayFilter r)
      in if rule_Start r < rule_End r then on d \<and> rule_Start r \<le> c \<and> c < rule_End r
         else (on d \<and> rule_Start r \<le> c) \<or> (on (d - 1) \<and> c < rule_End r))"

text \<open>What \<open>Normalize\<close> and the database keep of a rule.\<close>

definition wf_rule :: "Rule \<Rightarrow> bool" where
  "wf_rule r \<longleftrightarrow> wf_filter (rule_WeekdayFilter r)
     \<and> 0 \<le> rule_Start r \<and> rule_Start r < Day \<and> rule_Start r mod Minute = 0
     \<and> 0 \<le> rule_End r \<and> rule_End r < Day \<and> rule_End r mod Minute = 0"

lemma day_on_neverDays [simp]: "\<not> day_on neverDays d"
proof -
  have "neverDays ! n = 0" if "n < 7" for n
    using that by (auto simp: neverDays_def nth_Cons less_Suc_eq_0_disj eval_nat_numeral)
  from this [of "nat ((d + 4) mod 7)"] show ?thesis by (simp add: day_on_def nat_less_iff)
qed

lemma day_on_everyDay [simp]: "day_on everyDay d"
proof -
  have "everyDay ! n = 1" if "n < 7" for n
    using that by (auto simp: everyDay_def nth_Cons less_Suc_eq_0_disj eval_nat_numeral)
  from this [of "nat ((d + 4) mod 7)"] show ?thesis by (simp add: day_on_def nat_less_iff)
qed

text \<open>The two searches of a rule, on a day number \<open>d\<close> and a time of day \<open>c\<close> of a fixed offset.\<close>

lemma FirstOfDay_Date:
  "FirstOfDay (fixed_loc off) c (Date (fixed_loc off) (d * Day)) = moment off d c"
  by (simp add: FirstOfDay_fixed Date_moment local_day_moment)

lemma LastOfDay_Date:
  "LastOfDay (fixed_loc off) c (Date (fixed_loc off) (d * Day)) = moment off d c"
  by (simp add: LastOfDay_fixed Date_moment local_day_moment)

lemma Rule_StartTime_fixed:
  fixes off t
  defines "l \<equiv> fixed_loc off"
  defines "d \<equiv> local_day l t" and "c \<equiv> time_of_day l t" and "t' \<equiv> Truncate t Minute"
  assumes wf: "wf_rule r" and off: "off mod 60 = 0" and "\<not> NeverActive r" "\<not> AlwaysActive r"
  shows "Rule_StartTime l r t =
    (let on = day_on (rule_WeekdayFilter r); S = rule_Start r; E = rule_End r;
         next_start = FirstOfDay l S (NextActive l (rule_WeekdayFilter r) t')
     in if on d \<and> S = E then FirstOfDay l S (Filter_StartTime l (rule_WeekdayFilter r) t')
        else if S < E then (if on d \<and> c < E then moment off d S else next_start)
        else if on (d - 1) \<and> c < E then moment off (d - 1) S
        else if on d then moment off d S
        else next_start)"
proof -
  have tr: "local_day l t' = d" "time_of_day l t' = c - c mod Minute" "t' = moment off d (c - c mod Minute)"
    using truncated_moment [OF off, of t] by (simp_all add: l_def d_def c_def t'_def)
  have E: "LastOfDay l (rule_End r) t' = moment off d (rule_End r)"
    using tr(1) by (simp add: l_def LastOfDay_fixed)
  have lt: "t' < moment off d (rule_End r) \<longleftrightarrow> c < rule_End r"
    using wf minute_less_iff [of "rule_End r" c] unfolding tr(3) by (simp add: wf_rule_def moment_def)
  have F: "FirstOfDay l (rule_Start r) t' = moment off d (rule_Start r)"
    using tr(1) by (simp add: l_def FirstOfDay_fixed)
  have cb: "0 \<le> c - c mod Minute" "c - c mod Minute < Day"
    using time_of_day_bounds [of l t'] tr(2) by simp_all
  have Y: "FirstOfDay l (rule_Start r) (AddDate l t' 0 0 (-1)) = moment off (d - 1) (rule_Start r)"
    using tr(1,2) cb by (simp add: l_def AddDate_days_fixed FirstOfDay_fixed local_day_moment)
  show ?thesis
    using assms(7,8) unfolding Rule_StartTime_def t'_def [symmetric] Let_def
    by (simp add: Filter_Day_on Filter_Day_prev tr(1) E lt F Y)
qed

text \<open>
  What day \<open>ds\<close> the search stops at, from \<open>d\<close> and \<open>c\<close>: the day a shift in progress began
  (the middle ones), or the day of the next shift (the last two cases).
\<close>

definition in_progress :: "Rule \<Rightarrow> int \<Rightarrow> Clock \<Rightarrow> int \<Rightarrow> bool" where
  "in_progress r d c ds =
     (let on = day_on (rule_WeekdayFilter r); S = rule_Start r; E = rule_End r
      in (ds = d \<and> S < E \<and> S \<le> c \<and> c < E)
         \<or> (ds = d - 1 \<and> E \<le> S \<and> c < E \<and> (S = E \<longrightarrow> \<not> on d))
         \<or> (ds = d \<and> E < S \<and> S \<le> c)
         \<or> (ds \<le> d \<and> S = E \<and> (\<forall>j. ds \<le> j \<longrightarrow> j \<le> d \<longrightarrow> on j) \<and> (ds < d \<or> S \<le> c)))"

definition upcoming :: "Rule \<Rightarrow> int \<Rightarrow> Clock \<Rightarrow> int \<Rightarrow> bool" where
  "upcoming r d c ds =
     (let on = day_on (rule_WeekdayFilter r); S = rule_Start r; E = rule_End r
      in (\<forall>j. d < j \<longrightarrow> j < ds \<longrightarrow> \<not> on j) \<and> (E \<le> S \<longrightarrow> \<not> (on (d - 1) \<and> c < E))
         \<and> ((ds = d \<and> c < S) \<or> (d < ds \<and> (\<not> on d \<or> (S < E \<and> E \<le> c)))))"

lemma Rule_StartTime_cases:
  fixes off t
  defines "l \<equiv> fixed_loc off"
  defines "d \<equiv> local_day l t" and "c \<equiv> time_of_day l t"
  assumes wf: "wf_rule r" and off: "off mod 60 = 0" and act: "\<not> NeverActive r" "\<not> AlwaysActive r"
  obtains ds where "Rule_StartTime l r t = moment off ds (rule_Start r)"
    "day_on (rule_WeekdayFilter r) ds" "in_progress r d c ds \<or> upcoming r d c ds"
proof -
  let ?f = "rule_WeekdayFilter r" and ?S = "rule_Start r" and ?E = "rule_End r"
  let ?t = "Truncate t Minute"
  have wff: "wf_filter ?f" using wf by (simp add: wf_rule_def)
  have ld: "local_day l ?t = d" using truncated_moment(1) [OF off, of t] by (simp add: l_def d_def)
  have nn: "?f \<noteq> neverDays" using act(1) by (simp add: NeverActive_def IsNever_def)
  obtain k where k: "1 \<le> k" "NextActive l ?f ?t = Date l ((d + k) * Day)"
    "day_on ?f (d + k)" "\<And>j. 1 \<le> j \<Longrightarrow> j < k \<Longrightarrow> \<not> day_on ?f (d + j)"
    by (rule NextActive_spec [OF wff nn, of l ?t]) (unfold ld, blast)
  have nxt: "FirstOfDay l ?S (NextActive l ?f ?t) = moment off (d + k) ?S"
    unfolding k(2) by (simp only: l_def FirstOfDay_Date)
  have gap: "\<not> day_on ?f j" if "d < j" "j < d + k" for j
    using k(4) [of "j - d"] that by simp
  note eq = Rule_StartTime_fixed [OF wf off act, of t, folded l_def, folded d_def c_def, unfolded Let_def]
  consider (run) "day_on ?f d" "?S = ?E"
    | (same) "?S < ?E" "day_on ?f d" "c < ?E"
    | (later) "?S < ?E" "\<not> (day_on ?f d \<and> c < ?E)"
    | (yest) "?E \<le> ?S" "\<not> (day_on ?f d \<and> ?S = ?E)" "day_on ?f (d - 1)" "c < ?E"
    | (today) "?E < ?S" "\<not> (day_on ?f (d - 1) \<and> c < ?E)" "day_on ?f d"
    | (later2) "?E \<le> ?S" "\<not> (day_on ?f (d - 1) \<and> c < ?E)" "\<not> day_on ?f d"
    using less_linear [of ?S ?E] order.strict_implies_order [of ?E ?S] order.refl [of ?E] by metis
  then show ?thesis
  proof cases
    case run
    have "?f \<noteq> everyDay" using act(2) run(2) by (simp add: AlwaysActive_def IsAlways_def)
    with run(1) obtain n where n: "1 \<le> n" "Filter_StartTime l ?f ?t = Date l ((d - n + 1) * Day)"
      "\<And>j. 0 \<le> j \<Longrightarrow> j < n \<Longrightarrow> day_on ?f (d - j)" "\<not> day_on ?f (d - n)"
      using Filter_StartTime_spec [OF wff, of l ?t] ld by metis
    have on: "day_on ?f j" if "d - n + 1 \<le> j" "j \<le> d" for j using n(3) [of "d - j"] that by simp
    show ?thesis
    proof (rule that [of "d - n + 1"])
      show "Rule_StartTime l r t = moment off (d - n + 1) ?S"
        using run eq n(2) unfolding l_def by (simp only: FirstOfDay_Date simp_thms if_True)
      show "day_on ?f (d - n + 1)" using on [of "d - n + 1"] n(1) by simp
      show "in_progress r d c (d - n + 1) \<or> upcoming r d c (d - n + 1)"
      proof (cases "n = 1 \<and> c < ?S")
        case True
        with n(4) run show ?thesis by (simp add: upcoming_def)
      next
        case False
        with n(1) on run show ?thesis by (auto simp: in_progress_def Let_def)
      qed
    qed
  next
    case same
    show ?thesis
    proof (rule that [of d])
      show "in_progress r d c d \<or> upcoming r d c d"
        using same by (cases "c < ?S") (simp_all add: in_progress_def upcoming_def)
    qed (use same eq in simp_all)
  next
    case later
    show ?thesis
    proof (rule that [of "d + k"])
      show "in_progress r d c (d + k) \<or> upcoming r d c (d + k)"
        using later k(1) gap by (auto simp: upcoming_def)
    qed (use later eq nxt k(3) in auto)
  next
    case yest
    show ?thesis
      by (rule that [of "d - 1"]) (use yest eq in \<open>auto simp: in_progress_def Let_def\<close>)
  next
    case today
    show ?thesis
    proof (rule that [of d])
      show "in_progress r d c d \<or> upcoming r d c d"
        using today by (cases "c < ?S") (simp_all add: in_progress_def upcoming_def)
    qed (use today eq in auto)
  next
    case later2
    show ?thesis
    proof (rule that [of "d + k"])
      show "in_progress r d c (d + k) \<or> upcoming r d c (d + k)"
        using later2 k(1) gap by (simp add: upcoming_def)
    qed (use later2 eq nxt k(3) in auto)
  qed
qed

lemma in_progress_active:
  assumes "in_progress r d c ds" "day_on (rule_WeekdayFilter r) ds"
  shows "active_at r d c" "ds < d \<or> (ds = d \<and> rule_Start r \<le> c)"
proof -
  let ?on = "day_on (rule_WeekdayFilter r)" and ?S = "rule_Start r" and ?E = "rule_End r"
  from assms consider (a) "ds = d" "?S < ?E" "?S \<le> c" "c < ?E"
    | (b) "ds = d - 1" "?E \<le> ?S" "c < ?E" | (c) "ds = d" "?E < ?S" "?S \<le> c"
    | (d) "?S = ?E" "ds \<le> d" "\<forall>j. ds \<le> j \<longrightarrow> j \<le> d \<longrightarrow> ?on j" "ds < d \<or> ?S \<le> c"
    by (auto simp: in_progress_def Let_def)
  then have "active_at r d c \<and> (ds < d \<or> (ds = d \<and> ?S \<le> c))"
  proof cases
    case d
    then have "?on d" by simp
    moreover have "?on (d - 1)" if "c < ?S" using d that by simp
    ultimately show ?thesis using d by (cases "c < ?S") (auto simp: active_at_def)
  qed (use assms(2) in \<open>simp_all add: active_at_def\<close>)
  then show "active_at r d c" "ds < d \<or> (ds = d \<and> ?S \<le> c)" by simp_all
qed

lemma upcoming_inactive:
  assumes "upcoming r d c ds" "wf_rule r"
    and "d < d' \<or> (d = d' \<and> c \<le> c')" "d' < ds \<or> (d' = ds \<and> c' < rule_Start r)"
  shows "\<not> active_at r d' c'"
proof -
  let ?on = "day_on (rule_WeekdayFilter r)" and ?S = "rule_Start r" and ?E = "rule_End r"
  have gap: "\<not> ?on j" if "d < j" "j < ds" for j using assms(1) that by (simp add: upcoming_def Let_def)
  have prev: "\<not> (?on (d - 1) \<and> c < ?E)" if "?E \<le> ?S" using assms(1) that by (simp add: upcoming_def Let_def)
  have now: "(ds = d \<and> c < ?S) \<or> (d < ds \<and> (\<not> ?on d \<or> (?S < ?E \<and> ?E \<le> c)))"
    using assms(1) by (simp add: upcoming_def Let_def)
  have today: "\<not> (?on d' \<and> ?S \<le> c' \<and> (?S < ?E \<longrightarrow> c' < ?E))"
    using gap [of d'] now assms(3,4) by auto
  have yest: "\<not> (?on (d' - 1) \<and> c' < ?E)" if "?E \<le> ?S"
  proof -
    consider "d' = d" | "d' = d + 1" | "d + 1 < d'" using assms(3) by linarith
    then show ?thesis using gap [of "d' - 1"] prev [OF that] now assms(3,4) that by cases auto
  qed
  show ?thesis using today yest by (auto simp: active_at_def not_less)
qed

lemma active_at_never: "NeverActive r \<Longrightarrow> \<not> active_at r d c"
  by (auto simp: NeverActive_def IsNever_def active_at_def)

lemma active_at_always: "AlwaysActive r \<Longrightarrow> active_at r d c"
  by (auto simp: AlwaysActive_def IsAlways_def active_at_def)

lemma moment_Start_le:
  assumes "wf_rule r"
  shows "moment off ds (rule_Start r) \<le> t \<longleftrightarrow>
    ds < local_day (fixed_loc off) t \<or> (ds = local_day (fixed_loc off) t \<and> rule_Start r \<le> time_of_day (fixed_loc off) t)"
proof -
  define d c where "d = local_day (fixed_loc off) t" and "c = time_of_day (fixed_loc off) t"
  have "t = moment off d c" unfolding d_def c_def by (rule instant_moment)
  moreover have "0 \<le> c" "c < Day" by (simp_all add: c_def time_of_day_bounds)
  ultimately show ?thesis
    using assms moment_le_iff [of "rule_Start r" c off ds d]
    unfolding d_def [symmetric] c_def [symmetric] by (simp add: wf_rule_def)
qed

lemma less_moment_End:
  assumes "wf_rule r"
  shows "t < moment off de (rule_End r) \<longleftrightarrow>
    local_day (fixed_loc off) t < de \<or> (local_day (fixed_loc off) t = de \<and> time_of_day (fixed_loc off) t < rule_End r)"
proof -
  define d c where "d = local_day (fixed_loc off) t" and "c = time_of_day (fixed_loc off) t"
  have "t = moment off d c" unfolding d_def c_def by (rule instant_moment)
  moreover have "0 \<le> c" "c < Day" by (simp_all add: c_def time_of_day_bounds)
  ultimately show ?thesis
    using assms moment_less_iff [of c "rule_End r" off d de]
    unfolding d_def [symmetric] c_def [symmetric] by (simp add: wf_rule_def)
qed

lemma IsActive_iff:
  assumes wf: "wf_rule r" and off: "off mod 60 = 0"
  shows "IsActive (fixed_loc off) r t
    \<longleftrightarrow> active_at r (local_day (fixed_loc off) t) (time_of_day (fixed_loc off) t)"
proof -
  define d c where "d = local_day (fixed_loc off) t" and "c = time_of_day (fixed_loc off) t"
  have "IsActive (fixed_loc off) r t \<longleftrightarrow> active_at r d c"
  proof (cases "NeverActive r \<or> AlwaysActive r")
    case True
    then show ?thesis by (auto simp: IsActive_def active_at_never active_at_always)
  next
    case False
    then have act: "\<not> NeverActive r" "\<not> AlwaysActive r" by simp_all
    obtain ds where ds: "Rule_StartTime (fixed_loc off) r t = moment off ds (rule_Start r)"
      "day_on (rule_WeekdayFilter r) ds" "in_progress r d c ds \<or> upcoming r d c ds"
      using Rule_StartTime_cases [OF wf off act, of t] unfolding d_def c_def by metis
    have eq: "IsActive (fixed_loc off) r t \<longleftrightarrow> ds < d \<or> (ds = d \<and> rule_Start r \<le> c)"
      using act moment_Start_le [OF wf, of off ds t] by (auto simp: IsActive_def ds(1) d_def c_def)
    from ds(3) show ?thesis
    proof
      assume "in_progress r d c ds"
      from in_progress_active [OF this ds(2)] eq show ?thesis by simp
    next
      assume up: "upcoming r d c ds"
      then have no: "\<not> (ds < d \<or> (ds = d \<and> rule_Start r \<le> c))" by (auto simp: upcoming_def Let_def)
      then have "d < ds \<or> d = ds \<and> c < rule_Start r" by linarith
      from upcoming_inactive [OF up wf _ this] eq no show ?thesis by simp
    qed
  qed
  then show ?thesis by (simp add: d_def c_def)
qed

text \<open>The day a shift that starts on day \<open>ds\<close> ends.\<close>

definition shift_days :: "Rule \<Rightarrow> int \<Rightarrow> int \<Rightarrow> bool" where
  "shift_days r ds de =
     (let on = day_on (rule_WeekdayFilter r); S = rule_Start r; E = rule_End r
      in on ds \<and> (S < E \<longrightarrow> de = ds) \<and> (E < S \<longrightarrow> de = ds + 1)
         \<and> (S = E \<longrightarrow> ds < de \<and> (\<forall>j. ds \<le> j \<longrightarrow> j < de \<longrightarrow> on j) \<and> \<not> on de))"

lemma Rule_EndTime_days:
  assumes wf: "wf_rule r" and act: "\<not> AlwaysActive r"
    and ds: "Rule_StartTime (fixed_loc off) r t = moment off ds (rule_Start r)"
      "day_on (rule_WeekdayFilter r) ds"
    and nz: "\<not> IsZero (Rule_StartTime (fixed_loc off) r t)"
  obtains de where "Rule_EndTime (fixed_loc off) r t = moment off de (rule_End r)" "shift_days r ds de"
proof -
  let ?S = "rule_Start r" and ?E = "rule_End r" and ?f = "rule_WeekdayFilter r"
  have S: "0 \<le> ?S" "?S < Day" and wff: "wf_filter ?f" using wf by (simp_all add: wf_rule_def)
  note ld = local_day_moment [OF S, of off ds] and td = time_of_day_moment [OF S, of off ds]
  note eq = Rule_EndTime_def [of "fixed_loc off" r t, unfolded Let_def]
  consider "?S < ?E" | "?E < ?S" | "?S = ?E" by linarith
  then show ?thesis
  proof cases
    case 1
    then show ?thesis using ds nz ld eq by (intro that [of ds]) (auto simp: LastOfDay_fixed shift_days_def)
  next
    case 2
    have "Rule_EndTime (fixed_loc off) r t = moment off (ds + 1) ?E"
      using 2 ds nz ld td eq S by (simp add: LastOfDay_fixed AddDate_days_fixed local_day_moment)
    with 2 ds show ?thesis by (intro that [of "ds + 1"]) (auto simp: shift_days_def)
  next
    case 3
    then have ne: "?f \<noteq> everyDay" using act by (simp add: AlwaysActive_def IsAlways_def)
    obtain k where k: "1 \<le> k" "NextInactive (fixed_loc off) ?f (moment off ds ?S) = Date (fixed_loc off) ((ds + k) * Day)"
      "\<not> day_on ?f (ds + k)" "\<And>j. 1 \<le> j \<Longrightarrow> j < k \<Longrightarrow> day_on ?f (ds + j)"
      by (rule NextInactive_spec [OF wff ne, of "fixed_loc off" "moment off ds ?S"]) (unfold ld, blast)
    have "day_on ?f j" if "ds \<le> j" "j < ds + k" for j
      using k(4) [of "j - ds"] ds(2) that by (cases "j = ds") auto
    moreover have "Rule_EndTime (fixed_loc off) r t = moment off (ds + k) ?E"
      using nz eq k(2) unfolding ds(1) 3 by (simp only: LastOfDay_Date less_irrefl if_False)
    ultimately show ?thesis using 3 k(1,3) ds(2) by (intro that [of "ds + k"]) (auto simp: shift_days_def)
  qed
qed

lemma shift_days_active:
  assumes "shift_days r ds de"
    and "ds < d \<or> (ds = d \<and> rule_Start r \<le> c)" "d < de \<or> (d = de \<and> c < rule_End r)"
  shows "active_at r d c"
proof -
  let ?S = "rule_Start r" and ?E = "rule_End r" and ?on = "day_on (rule_WeekdayFilter r)"
  consider "?S < ?E" | "?E < ?S" | "?S = ?E" by linarith
  then show ?thesis
  proof cases
    case 3
    with assms have de: "ds < de" "\<forall>j. ds \<le> j \<longrightarrow> j < de \<longrightarrow> ?on j" by (auto simp: shift_days_def Let_def)
    show ?thesis
    proof (cases "?S \<le> c")
      case True
      with 3 assms de have "?on d" by auto
      with 3 True show ?thesis by (simp add: active_at_def)
    next
      case False
      with 3 assms de have "?on (d - 1)" by auto
      with 3 False show ?thesis by (simp add: active_at_def)
    qed
  qed (use assms in \<open>auto simp: shift_days_def active_at_def Let_def\<close>)
qed

lemma shift_days_end: "shift_days r ds de \<Longrightarrow> \<not> active_at r de (rule_End r)"
  by (auto simp: shift_days_def active_at_def Let_def split: if_splits)

lemma in_progress_end:
  assumes "in_progress r d c ds" "shift_days r ds de"
  shows "d < de \<or> (d = de \<and> c < rule_End r)"
proof -
  let ?S = "rule_Start r" and ?E = "rule_End r" and ?on = "day_on (rule_WeekdayFilter r)"
  consider "?S < ?E" | "?E < ?S" | "?S = ?E" by linarith
  then show ?thesis
  proof cases
    case 3
    with assms(2) have de: "ds < de" "\<not> ?on de" by (auto simp: shift_days_def Let_def)
    show ?thesis
    proof (cases "d < de")
      case False
      with 3 de assms(1) show ?thesis by (auto simp: in_progress_def Let_def)
    qed simp
  qed (use assms in \<open>auto simp: shift_days_def in_progress_def Let_def\<close>)
qed

lemma Rule_shift:
  assumes wf: "wf_rule r" and off: "off mod 60 = 0" and act: "\<not> NeverActive r" "\<not> AlwaysActive r"
    and nz: "\<not> IsZero (Rule_StartTime (fixed_loc off) r t)"
  defines "s \<equiv> Rule_StartTime (fixed_loc off) r t" and "e \<equiv> Rule_EndTime (fixed_loc off) r t"
  shows "t < e" "s < e"
    "\<And>u. s \<le> u \<Longrightarrow> u < e \<Longrightarrow> IsActive (fixed_loc off) r u" "\<not> IsActive (fixed_loc off) r e"
    "\<And>u. t \<le> u \<Longrightarrow> u < s \<Longrightarrow> \<not> IsActive (fixed_loc off) r u"
proof -
  let ?l = "fixed_loc off"
  define d c where "d = local_day ?l t" and "c = time_of_day ?l t"
  have S: "0 \<le> rule_Start r" "rule_Start r < Day" and E: "0 \<le> rule_End r" "rule_End r < Day"
    and c: "0 \<le> c" "c < Day"
    using wf time_of_day_bounds [of ?l t] by (simp_all add: wf_rule_def c_def)
  obtain ds where ds: "s = moment off ds (rule_Start r)" "day_on (rule_WeekdayFilter r) ds"
    and pu: "in_progress r d c ds \<or> upcoming r d c ds"
    using Rule_StartTime_cases [OF wf off act, of t] unfolding s_def d_def c_def by metis
  obtain de where de: "e = moment off de (rule_End r)" and sd: "shift_days r ds de"
    using Rule_EndTime_days [OF wf act(2) ds [unfolded s_def] nz] unfolding e_def by metis
  have t: "t = moment off d c" unfolding d_def c_def by (rule instant_moment)
  show se: "s < e"
    using sd moment_less_iff [OF S E, of off ds de] by (auto simp: ds(1) de shift_days_def Let_def)
  show "t < e"
  proof (cases "in_progress r d c ds")
    case True
    from in_progress_end [OF this sd] show ?thesis using moment_less_iff [OF c E, of off d de] by (simp add: t de)
  next
    case False
    with pu have "d < ds \<or> (d = ds \<and> c < rule_Start r)" by (auto simp: upcoming_def Let_def)
    then have "t < s" using moment_less_iff [OF c S, of off d ds] by (simp add: t ds(1))
    with se show ?thesis by simp
  qed
  show "IsActive ?l r u" if "s \<le> u" "u < e" for u
    using that shift_days_active [OF sd]
    unfolding IsActive_iff [OF wf off] ds(1) de moment_Start_le [OF wf] less_moment_End [OF wf] by blast
  show "\<not> IsActive ?l r e"
    using shift_days_end [OF sd] E by (simp add: IsActive_iff [OF wf off] de local_day_moment time_of_day_moment)
  show "\<not> IsActive ?l r u" if tu: "t \<le> u" and us: "u < s" for u
  proof -
    define d' c' where "d' = local_day ?l u" and "c' = time_of_day ?l u"
    have u: "u = moment off d' c'" "0 \<le> c'" "c' < Day"
      unfolding d'_def c'_def by (simp_all add: time_of_day_bounds flip: instant_moment)
    have lt: "d' < ds \<or> (d' = ds \<and> c' < rule_Start r)"
      using us moment_less_iff [OF u(2,3) S, of off d' ds] by (simp add: ds(1) u(1))
    have le: "d < d' \<or> (d = d' \<and> c \<le> c')"
      using tu moment_le_iff [OF c u(2,3), of off d d'] by (simp add: t u(1))
    have "upcoming r d c ds" using pu in_progress_active(2) [OF _ ds(2), of d c] le lt by fastforce
    from upcoming_inactive [OF this wf le lt] show ?thesis
      by (simp add: IsActive_iff [OF wf off] d'_def c'_def)
  qed
qed

subsection \<open>Properties\<close>

text \<open>A sample rule: weekdays from 17:00 to 09:00 of the next morning.\<close>

definition night_rule :: Rule where
  "night_rule = \<lparr>rule_ID = ''r'', rule_ScheduleID = ''s'', rule_WeekdayFilter = [0, 1, 1, 1, 1, 1, 0],
     rule_Start = 17 * Hour, rule_End = 9 * Hour, rule_CreatedAt = 0, rule_Target = Some (UserTarget ''u'')\<rparr>"

lemma wf_night_rule: "wf_rule night_rule"
  by (simp add: wf_rule_def night_rule_def wf_filter_def)

text \<open>C35: where the offset is fixed, a rule is active exactly at the wall-clock times it
  describes: on an enabled day from \<open>Start\<close> to \<open>End\<close>, or over midnight to \<open>End\<close> of the next day.\<close>

theorem IsActive_wall_clock:
  assumes "wf_rule r" "off mod 60 = 0"
  shows "IsActive (fixed_loc off) r t
    \<longleftrightarrow> active_at r (local_day (fixed_loc off) t) (time_of_day (fixed_loc off) t)"
  using assms by (rule IsActive_iff)

theorem IsActive_wall_clock_witness:
  "IsActive (fixed_loc 0) night_rule (1700870400 * Second)
   \<and> active_at night_rule (local_day (fixed_loc 0) (1700870400 * Second)) (time_of_day (fixed_loc 0) (1700870400 * Second))"
proof -
  have "active_at night_rule (local_day (fixed_loc 0) (1700870400 * Second))
      (time_of_day (fixed_loc 0) (1700870400 * Second))"
    by code_simp
  with IsActive_wall_clock [OF wf_night_rule, of 0 "1700870400 * Second"] show ?thesis by simp
qed





text \<open>
  The comment on \<open>StartTime\<close> promises the time an active rule became active.  For a 24-hour rule
  it is only the last of the run of days: on Wednesday at 08:00, a rule for Monday and Tuesday
  from 09:00 to 09:00 has been active for two days, and \<open>StartTime\<close> is Tuesday at 09:00.
\<close>

definition full_day_rule :: Rule where
  "full_day_rule = night_rule\<lparr>rule_WeekdayFilter := [0, 1, 1, 0, 0, 0, 0], rule_Start := 9 * Hour\<rparr>"

lemma Rule_StartTime_mid_run:
  "Rule_StartTime (fixed_loc 0) full_day_rule 1700640000000000000 = 1700557200000000000"
  "IsActive (fixed_loc 0) full_day_rule 1700557199000000000"
  "IsActive (fixed_loc 0) full_day_rule 1700640000000000000"
  by code_simp+

end
