(* ===== verification/TempSchedule.thy ===== *)
theory TempSchedule
  imports Clock Validate
begin

section \<open>Temporary schedules: schedule/temporaryschedule.go, fixedshift.go, validate.go, data.go\<close>

text \<open>
  A temporary schedule replaces a schedule's rules by fixed shifts over a span of time.  The
  lists of the code are updated in place, but no two of them share an array, so the model passes
  values.  Two things the code leaves open are arguments here: \<open>now\<close>, the clock, and \<open>iter\<close>, the
  order in which a range over a Go map visits its keys.  The main lemmas are about who is on call
  at each instant before and after an operation.
\<close>

record FixedShift =
  fs_Start :: instant
  fs_End :: instant
  fs_UserID :: string

record TemporarySchedule =
  ts_Start :: instant
  ts_End :: instant
  ts_Shifts :: "FixedShift list"

definition zero_schedule :: TemporarySchedule where
  "zero_schedule = \<lparr>ts_Start = time_zero, ts_End = time_zero, ts_Shifts = []\<rparr>"

subsection \<open>Cutting\<close>

definition trim_shift_end :: "instant \<Rightarrow> FixedShift \<Rightarrow> FixedShift option" where
  "trim_shift_end t shift =
     (if \<not> fs_Start shift < t then None
      else if t < fs_End shift then Some (shift\<lparr>fs_End := t\<rparr>)
      else Some shift)"

definition TrimEnd :: "TemporarySchedule \<Rightarrow> instant \<Rightarrow> TemporarySchedule" where
  "TrimEnd temp t =
     (if \<not> ts_Start temp < t then zero_schedule
      else if \<not> t < ts_End temp then temp
      else temp\<lparr>ts_End := t, ts_Shifts := List.map_filter (trim_shift_end t) (ts_Shifts temp)\<rparr>)"

definition trim_shift_start :: "instant \<Rightarrow> FixedShift \<Rightarrow> FixedShift option" where
  "trim_shift_start t shift =
     (if \<not> t < fs_End shift then None
      else if fs_Start shift < t then Some (shift\<lparr>fs_Start := t\<rparr>)
      else Some shift)"

definition TrimStart :: "TemporarySchedule \<Rightarrow> instant \<Rightarrow> TemporarySchedule" where
  "TrimStart temp t =
     (if \<not> ts_Start temp < t then temp
      else if \<not> t < ts_End temp then zero_schedule
      else temp\<lparr>ts_Start := t, ts_Shifts := List.map_filter (trim_shift_start t) (ts_Shifts temp)\<rparr>)"

definition deleteFixedShifts :: "TemporarySchedule list \<Rightarrow> instant \<Rightarrow> instant \<Rightarrow> TemporarySchedule list" where
  "deleteFixedShifts tempScheds start end =
     (if \<not> start < end then tempScheds
      else concat (map (\<lambda>temp.
             (let before = TrimEnd temp start; after = TrimStart temp end
              in (if \<not> IsZero (ts_Start before) then [before] else [])
                 @ (if \<not> IsZero (ts_Start after) then [after] else []))) tempScheds))"

subsection \<open>Merging shifts: fixedshift.go\<close>

definition maxTime :: "instant \<Rightarrow> instant \<Rightarrow> instant" where
  "maxTime a b = (if b < a then a else b)"

definition clamp_shift :: "instant \<Rightarrow> instant \<Rightarrow> FixedShift \<Rightarrow> FixedShift option" where
  "clamp_shift start end s0 =
     (let s = (if fs_Start s0 < start then s0\<lparr>fs_Start := start\<rparr> else s0);
          s = (if end < fs_End s then s\<lparr>fs_End := end\<rparr> else s)
      in if \<not> fs_Start s < fs_End s then None else Some s)"

definition clampShiftTimes :: "instant \<Rightarrow> instant \<Rightarrow> FixedShift list \<Rightarrow> FixedShift list" where
  "clampShiftTimes start end shifts = List.map_filter (clamp_shift start end) shifts"

text \<open>
  The loop of \<open>mergeShiftsByTime\<close> keeps the result in order; its last element is the one that
  grows.  The lower-cased user ID of the code is assigned to the loop's copy and has no effect.
\<close>

fun merge_shifts_loop :: "FixedShift \<Rightarrow> FixedShift list \<Rightarrow> FixedShift list" where
  "merge_shifts_loop cur [] = [cur]"
| "merge_shifts_loop cur (s # ss) =
     (if \<not> fs_Start s < fs_End s then merge_shifts_loop cur ss
      else if fs_End cur < fs_Start s then cur # merge_shifts_loop s ss
      else merge_shifts_loop (cur\<lparr>fs_End := maxTime (fs_End cur) (fs_End s)\<rparr>) ss)"

definition mergeShiftsByTime :: "FixedShift list \<Rightarrow> FixedShift list" where
  "mergeShiftsByTime shifts =
     (case sort_by (\<lambda>a b. fs_Start a < fs_Start b) shifts of
        [] \<Rightarrow> []
      | s # ss \<Rightarrow> merge_shifts_loop s ss)"

text \<open>Go compares strings byte by byte.\<close>

definition shift_less :: "FixedShift \<Rightarrow> FixedShift \<Rightarrow> bool" where
  "shift_less a b =
     (if fs_Start a \<noteq> fs_Start b then fs_Start a < fs_Start b
      else ord_class.lexordp (map of_char (fs_UserID a) :: nat list) (map of_char (fs_UserID b)))"

definition mergeShifts :: "(string list \<Rightarrow> string list) \<Rightarrow> FixedShift list \<Rightarrow> FixedShift list" where
  "mergeShifts iter shifts =
     sort_by shift_less
       (concat (map (\<lambda>u. mergeShiftsByTime (filter (\<lambda>s. fs_UserID s = u) shifts))
          (iter (remdups (map fs_UserID shifts)))))"

subsection \<open>Merging schedules\<close>

fun merge_scheds_loop :: "TemporarySchedule \<Rightarrow> TemporarySchedule list \<Rightarrow> TemporarySchedule list" where
  "merge_scheds_loop cur [] = [cur]"
| "merge_scheds_loop cur (g # gs) =
     (if ts_End cur < ts_Start g then cur # merge_scheds_loop g gs
      else merge_scheds_loop
             (cur\<lparr>ts_End := maxTime (ts_End cur) (ts_End g), ts_Shifts := ts_Shifts cur @ ts_Shifts g\<rparr>) gs)"

definition MergeTemporarySchedules ::
  "(string list \<Rightarrow> string list) \<Rightarrow> TemporarySchedule list \<Rightarrow> TemporarySchedule list" where
  "MergeTemporarySchedules iter tempScheds =
     (case sort_by (\<lambda>a b. ts_Start a < ts_Start b) tempScheds of
        [] \<Rightarrow> []
      | g # gs \<Rightarrow>
          map (\<lambda>g. g\<lparr>ts_Shifts := mergeShifts iter (clampShiftTimes (ts_Start g) (ts_End g) (ts_Shifts g))\<rparr>)
            (merge_scheds_loop g gs))"

definition setFixedShifts ::
  "(string list \<Rightarrow> string list) \<Rightarrow> TemporarySchedule list \<Rightarrow> TemporarySchedule \<Rightarrow> TemporarySchedule list" where
  "setFixedShifts iter tempScheds newSched =
     MergeTemporarySchedules iter
       (deleteFixedShifts tempScheds (ts_Start newSched) (ts_End newSched) @ [newSched])"

subsection \<open>Who is on call: data.go\<close>

text \<open>
  \<open>TempOnCall\<close> over the temporary schedules of the data (a nil \<open>Data\<close> is \<open>None\<close>): only the first
  active one counts, and a user ID that does not parse is passed over.
\<close>

definition TempOnCall ::
  "(string \<Rightarrow> string + 'u) \<Rightarrow> TemporarySchedule list option \<Rightarrow> instant \<Rightarrow> bool \<times> 'u list" where
  "TempOnCall uuid_parse data t =
     (case data of
        None \<Rightarrow> (False, [])
      | Some temps \<Rightarrow>
          (case find (\<lambda>temp. \<not> (t < ts_Start temp \<or> \<not> t < ts_End temp)) temps of
             None \<Rightarrow> (False, [])
           | Some temp \<Rightarrow>
               (True, List.map_filter
                        (\<lambda>shift. if t < fs_Start shift \<or> \<not> t < fs_End shift then None
                                 else (case uuid_parse (fs_UserID shift) of
                                         Inl _ \<Rightarrow> None | Inr v \<Rightarrow> Some v))
                        (ts_Shifts temp))))"

subsection \<open>Validation: validate.go and Normalize\<close>

definition FixedShiftsPerTemporaryScheduleLimit :: nat where
  "FixedShiftsPerTemporaryScheduleLimit = 150"

definition validateFuture :: "instant \<Rightarrow> string \<Rightarrow> instant \<Rightarrow> error_result" where
  "validateFuture now fieldName t =
     (if 5 * Minute < Sub t now then None
      else NewFieldError fieldName ''must be at least 5 min the future'')"

definition validateTimeRange :: "string \<Rightarrow> instant \<Rightarrow> instant \<Rightarrow> error_result" where
  "validateTimeRange prefix start end =
     (if \<not> start < end then NewFieldError (prefix @ ''End'') (''must be after '' @ prefix @ ''Start'')
      else None)"

definition validateWithinTimeRange ::
  "string \<Rightarrow> string \<Rightarrow> instant \<Rightarrow> instant \<Rightarrow> instant \<Rightarrow> instant \<Rightarrow> error_result" where
  "validateWithinTimeRange tPrefix prefix tStart tEnd start end =
     (if tStart < start
        then NewFieldError (tPrefix @ ''Start'') (''must not be before '' @ prefix @ ''Start'')
      else if \<not> tStart < end
        then NewFieldError (tPrefix @ ''Start'') (''must be before '' @ prefix @ ''End'')
      else if \<not> start < tEnd
        then NewFieldError (tPrefix @ ''End'') (''must be after '' @ prefix @ ''Start'')
      else if end < tEnd
        then NewFieldError (tPrefix @ ''End'') (''must not be after '' @ prefix @ ''End'')
      else None)"

definition validate_shift ::
  "(string \<Rightarrow> string + 'u) \<Rightarrow> (string \<Rightarrow> bool) option \<Rightarrow> TemporarySchedule \<Rightarrow> nat \<Rightarrow> FixedShift \<Rightarrow> error_result" where
  "validate_shift uuid_parse checkUser temp i s =
     (let prefix = ''Shifts['' @ show_nat i @ ''].''
      in case Many [validate_UUID uuid_parse (prefix @ ''UserID'') (fs_UserID s),
                    validateTimeRange prefix (fs_Start s) (fs_End s),
                    validateWithinTimeRange prefix '''' (fs_Start s) (fs_End s) (ts_Start temp) (ts_End temp)] of
           Some e \<Rightarrow> Some e
         | None \<Rightarrow>
             (case checkUser of
                Some exists \<Rightarrow>
                  if \<not> exists (fs_UserID s) then NewFieldError (prefix @ ''UserID'') ''user does not exist''
                  else None
              | None \<Rightarrow> None))"

fun validate_shifts_loop ::
  "(string \<Rightarrow> string + 'u) \<Rightarrow> (string \<Rightarrow> bool) option \<Rightarrow> TemporarySchedule \<Rightarrow> nat \<Rightarrow> FixedShift list \<Rightarrow> error_result" where
  "validate_shifts_loop uuid_parse checkUser temp i [] = None"
| "validate_shifts_loop uuid_parse checkUser temp i (s # ss) =
     (case validate_shift uuid_parse checkUser temp i s of
        Some e \<Rightarrow> Some e
      | None \<Rightarrow> validate_shifts_loop uuid_parse checkUser temp (i + 1) ss)"

definition validateShifts ::
  "(string \<Rightarrow> string + 'u) \<Rightarrow> (string \<Rightarrow> bool) option \<Rightarrow> TemporarySchedule \<Rightarrow> error_result" where
  "validateShifts uuid_parse checkUser temp =
     (if FixedShiftsPerTemporaryScheduleLimit < length (ts_Shifts temp)
        then NewFieldError ''Shifts'' ''too many shifts defined''
      else validate_shifts_loop uuid_parse checkUser temp 0 (ts_Shifts temp))"

definition Temp_Normalize ::
  "(string \<Rightarrow> string + 'u) \<Rightarrow> instant \<Rightarrow> (string \<Rightarrow> bool) option \<Rightarrow> TemporarySchedule
     \<Rightarrow> go_error + TemporarySchedule" where
  "Temp_Normalize uuid_parse now checkUser temp0 =
     (let temp = temp0\<lparr>ts_Start := Truncate (ts_Start temp0) Minute\<rparr>;
          now' = Truncate now Minute;
          temp = (if ts_Start temp < now' then TrimStart temp now' else temp);
          temp = temp\<lparr>ts_End := Truncate (ts_End temp) Minute,
                      ts_Shifts := map (\<lambda>s. s\<lparr>fs_Start := Truncate (fs_Start s) Minute,
                                              fs_End := Truncate (fs_End s) Minute\<rparr>) (ts_Shifts temp)\<rparr>
      in case Many [validateFuture now ''End'' (ts_End temp),
                    validateTimeRange '''' (ts_Start temp) (ts_End temp),
                    validateShifts uuid_parse checkUser temp] of
           Some e \<Rightarrow> Inl e
         | None \<Rightarrow> Inr temp)"

subsection \<open>Merging spans of time\<close>

definition covers :: "instant \<Rightarrow> instant \<Rightarrow> instant \<Rightarrow> bool" where
  "covers a b t \<longleftrightarrow> a \<le> t \<and> t < b"

text \<open>
  The contract of both merging loops: spans ordered by their start are joined while the next one
  starts no later than the current one ends.
\<close>

locale span_merge =
  fixes st en :: "'a \<Rightarrow> instant" and join :: "'a \<Rightarrow> 'a \<Rightarrow> 'a" and loop :: "'a \<Rightarrow> 'a list \<Rightarrow> 'a list"
  assumes st_join: "st (join a b) = st a"
    and en_join: "en (join a b) = max (en a) (en b)"
    and loop_Nil: "loop c [] = [c]"
    and loop_Cons: "st g < en g \<Longrightarrow>
      loop c (g # gs) = (if en c < st g then c # loop g gs else loop (join c g) gs)"
begin

definition spans_ok :: "'a \<Rightarrow> 'a list \<Rightarrow> bool" where
  "spans_ok c gs \<longleftrightarrow> sorted_wrt (\<lambda>a b. st a \<le> st b) (c # gs) \<and> (\<forall>g \<in> set (c # gs). st g < en g)"

lemma spans_ok_next: "spans_ok c (g # gs) \<Longrightarrow> spans_ok g gs"
  by (simp add: spans_ok_def)

lemma spans_ok_join: "spans_ok c (g # gs) \<Longrightarrow> spans_ok (join c g) gs"
  by (auto simp: spans_ok_def st_join en_join)

lemma loop_covers:
  "spans_ok c gs \<Longrightarrow>
    (\<exists>x \<in> set (loop c gs). covers (st x) (en x) t) \<longleftrightarrow> (\<exists>g \<in> set (c # gs). covers (st g) (en g) t)"
proof (induction gs arbitrary: c)
  case (Cons g gs)
  have g: "st g < en g" "st c \<le> st g" using Cons.prems by (auto simp: spans_ok_def)
  show ?case
  proof (cases "en c < st g")
    case True
    then show ?thesis using Cons.IH [OF spans_ok_next [OF Cons.prems]] g by (simp add: loop_Cons)
  next
    case False
    have "covers (st (join c g)) (en (join c g)) t \<longleftrightarrow> covers (st c) (en c) t \<or> covers (st g) (en g) t"
      using False g by (auto simp: covers_def st_join en_join)
    then show ?thesis using Cons.IH [OF spans_ok_join [OF Cons.prems]] g False by (simp add: loop_Cons)
  qed
qed (simp add: loop_Nil)

lemma loop_separated:
  "spans_ok c gs \<Longrightarrow> sorted_wrt (\<lambda>a b. en a < st b) (loop c gs)
    \<and> (\<forall>x \<in> set (loop c gs). st c \<le> st x \<and> st x < en x)"
proof (induction gs arbitrary: c)
  case (Cons g gs)
  have g: "st g < en g" "st c \<le> st g" "st c < en c" using Cons.prems by (auto simp: spans_ok_def)
  show ?case
  proof (cases "en c < st g")
    case True
    then show ?thesis using Cons.IH [OF spans_ok_next [OF Cons.prems]] g by (fastforce simp: loop_Cons)
  next
    case False
    then show ?thesis using Cons.IH [OF spans_ok_join [OF Cons.prems]] g by (simp add: loop_Cons st_join)
  qed
qed (simp add: loop_Nil spans_ok_def)

lemma loop_all:
  assumes "\<And>a b. st a \<le> st b \<Longrightarrow> P a \<Longrightarrow> P b \<Longrightarrow> P (join a b)"
  shows "spans_ok c gs \<Longrightarrow> \<forall>g \<in> set (c # gs). P g \<Longrightarrow> \<forall>x \<in> set (loop c gs). P x"
proof (induction gs arbitrary: c)
  case (Cons g gs)
  have g: "st g < en g" "st c \<le> st g" using Cons.prems by (auto simp: spans_ok_def)
  show ?case
  proof (cases "en c < st g")
    case True
    then show ?thesis
      using Cons.IH [OF spans_ok_next [OF Cons.prems(1)]] Cons.prems(2) g by (simp add: loop_Cons)
  next
    case False
    then show ?thesis
      using Cons.IH [OF spans_ok_join [OF Cons.prems(1)]] Cons.prems(2) assms [OF g(2)] g by (simp add: loop_Cons)
  qed
qed (simp add: loop_Nil)

lemma loop_union:
  assumes "\<And>a b. f (join a b) = f a \<union> f b"
  shows "spans_ok c gs \<Longrightarrow> \<Union> (f ` set (loop c gs)) = \<Union> (f ` set (c # gs))"
proof (induction gs arbitrary: c)
  case (Cons g gs)
  have g: "st g < en g" using Cons.prems by (auto simp: spans_ok_def)
  show ?case
  proof (cases "en c < st g")
    case True
    then show ?thesis using Cons.IH [OF spans_ok_next [OF Cons.prems]] g by (simp add: loop_Cons)
  next
    case False
    then show ?thesis using Cons.IH [OF spans_ok_join [OF Cons.prems]] g assms by (auto simp: loop_Cons)
  qed
qed (simp add: loop_Nil)

end

lemma maxTime_eq [simp]: "maxTime a b = max a b"
  by (auto simp: maxTime_def max_def)

interpretation shifts: span_merge fs_Start fs_End
  "\<lambda>a b. a\<lparr>fs_End := maxTime (fs_End a) (fs_End b)\<rparr>" merge_shifts_loop
  by unfold_locales auto

interpretation scheds: span_merge ts_Start ts_End
  "\<lambda>a b. a\<lparr>ts_End := maxTime (ts_End a) (ts_End b), ts_Shifts := ts_Shifts a @ ts_Shifts b\<rparr>" merge_scheds_loop
  by unfold_locales auto

interpretation shift_start: less_fun "\<lambda>a b. fs_Start a < fs_Start b"
  by (rule less_fun_key)

interpretation sched_start: less_fun "\<lambda>a b. ts_Start a < ts_Start b"
  by (rule less_fun_key)

subsection \<open>Merging the shifts of one schedule\<close>

text \<open>Whether a user has a shift in a list at an instant, and lists of shifts inside a span.\<close>

definition shift_on :: "FixedShift list \<Rightarrow> instant \<Rightarrow> string \<Rightarrow> bool" where
  "shift_on ss t u \<longleftrightarrow> (\<exists>s \<in> set ss. fs_UserID s = u \<and> covers (fs_Start s) (fs_End s) t)"

definition shifts_within :: "instant \<Rightarrow> instant \<Rightarrow> FixedShift list \<Rightarrow> bool" where
  "shifts_within a b ss \<longleftrightarrow> (\<forall>s \<in> set ss. a \<le> fs_Start s \<and> fs_Start s < fs_End s \<and> fs_End s \<le> b)"

lemma set_map_filter: "set (List.map_filter f xs) = {y. \<exists>x \<in> set xs. f x = Some y}"
  by (induction xs) (auto simp: List.map_filter_def)

lemma map_filter_id: "(\<And>x. x \<in> set xs \<Longrightarrow> f x = Some x) \<Longrightarrow> List.map_filter f xs = xs"
  by (induction xs) (auto simp: List.map_filter_def)

lemma clampShiftTimes_id: "shifts_within a b ss \<Longrightarrow> clampShiftTimes a b ss = ss"
  unfolding clampShiftTimes_def
  by (rule map_filter_id) (auto simp: clamp_shift_def shifts_within_def Let_def)

lemma clamp_shift_Some:
  "clamp_shift a b s = Some r \<Longrightarrow> a \<le> fs_Start r \<and> fs_Start r < fs_End r \<and> fs_End r \<le> b"
  by (cases "fs_Start s < a"; cases "b < fs_End s") (auto simp: clamp_shift_def Let_def split: if_splits)

lemma clampShiftTimes_within: "shifts_within a b (clampShiftTimes a b ss)"
  by (auto simp: clampShiftTimes_def shifts_within_def set_map_filter dest: clamp_shift_Some)

lemma mergeShiftsByTime_cases:
  assumes "\<forall>s \<in> set ss. fs_Start s < fs_End s"
  obtains "ss = []" "mergeShiftsByTime ss = []"
  | c cs where "set (c # cs) = set ss" "shifts.spans_ok c cs" "mergeShiftsByTime ss = merge_shifts_loop c cs"
proof (cases "sort_by (\<lambda>a b. fs_Start a < fs_Start b) ss")
  case Nil
  then show ?thesis by (intro that(1)) (auto simp: mergeShiftsByTime_def)
next
  case (Cons c cs)
  then have set: "set (c # cs) = set ss" by (metis set_sort_by)
  moreover have "sorted_wrt (\<lambda>a b. fs_Start a \<le> fs_Start b) (c # cs)"
    using shift_start.sorted_sort_by [of ss] unfolding Cons by (simp add: not_less)
  ultimately show ?thesis
    using assms Cons by (intro that(2)) (auto simp: shifts.spans_ok_def mergeShiftsByTime_def)
qed

lemma mergeShiftsByTime_covers:
  assumes "\<forall>s \<in> set ss. fs_Start s < fs_End s"
  shows "(\<exists>s \<in> set (mergeShiftsByTime ss). covers (fs_Start s) (fs_End s) t)
    \<longleftrightarrow> (\<exists>s \<in> set ss. covers (fs_Start s) (fs_End s) t)"
  using assms
proof (cases ss rule: mergeShiftsByTime_cases)
  case (2 c cs)
  then show ?thesis using shifts.loop_covers [OF 2(2), of t] by simp
qed simp

lemma mergeShiftsByTime_separated:
  assumes "\<forall>s \<in> set ss. fs_Start s < fs_End s"
  shows "sorted_wrt (\<lambda>a b. fs_End a < fs_Start b) (mergeShiftsByTime ss)
    \<and> (\<forall>s \<in> set (mergeShiftsByTime ss). fs_Start s < fs_End s)"
  using assms
proof (cases ss rule: mergeShiftsByTime_cases)
  case (2 c cs)
  then show ?thesis using shifts.loop_separated [OF 2(2)] by simp
qed simp

lemma mergeShiftsByTime_all:
  assumes "\<forall>s \<in> set ss. fs_Start s < fs_End s" "\<forall>s \<in> set ss. P s"
    and "\<And>a b. P a \<Longrightarrow> P b \<Longrightarrow> P (a\<lparr>fs_End := max (fs_End a) (fs_End b)\<rparr>)"
  shows "\<forall>s \<in> set (mergeShiftsByTime ss). P s"
  using assms(1)
proof (cases ss rule: mergeShiftsByTime_cases)
  case (2 c cs)
  then show ?thesis using shifts.loop_all [OF _ 2(2), of P] assms(2,3) by simp
qed simp

lemma mergeShiftsByTime_user:
  assumes "\<forall>s \<in> set ss. fs_Start s < fs_End s" "\<forall>s \<in> set ss. fs_UserID s = u"
  shows "\<forall>s \<in> set (mergeShiftsByTime ss). fs_UserID s = u"
  using assms by (rule mergeShiftsByTime_all) simp

lemma mergeShiftsByTime_within:
  assumes "shifts_within a b ss"
  shows "shifts_within a b (mergeShiftsByTime ss)"
proof -
  have ne: "\<forall>s \<in> set ss. fs_Start s < fs_End s" using assms by (simp add: shifts_within_def)
  have "\<forall>s \<in> set (mergeShiftsByTime ss). a \<le> fs_Start s \<and> fs_End s \<le> b"
    using ne by (rule mergeShiftsByTime_all) (use assms in \<open>auto simp: shifts_within_def\<close>)
  then show ?thesis using mergeShiftsByTime_separated [OF ne] by (simp add: shifts_within_def)
qed

text \<open>An order a Go map may be visited in.\<close>

definition map_order :: "(string list \<Rightarrow> string list) \<Rightarrow> bool" where
  "map_order iter \<longleftrightarrow> (\<forall>ks. mset (iter ks) = mset ks)"

lemma map_order_set: "map_order iter \<Longrightarrow> set (iter ks) = set ks"
  unfolding map_order_def by (metis set_mset_mset)

lemma set_mergeShifts:
  assumes "map_order iter"
  shows "set (mergeShifts iter ss) = (\<Union>u \<in> fs_UserID ` set ss. set (mergeShiftsByTime (filter (\<lambda>s. fs_UserID s = u) ss)))"
  using map_order_set [OF assms] by (simp add: mergeShifts_def)

lemma mergeShifts_on:
  assumes "map_order iter" "\<forall>s \<in> set ss. fs_Start s < fs_End s"
  shows "shift_on (mergeShifts iter ss) t u \<longleftrightarrow> shift_on ss t u"
proof -
  define f where "f v = filter (\<lambda>s. fs_UserID s = v) ss" for v
  have ne: "\<forall>s \<in> set (f v). fs_Start s < fs_End s" for v using assms(2) by (auto simp: f_def)
  have user: "\<forall>s \<in> set (mergeShiftsByTime (f v)). fs_UserID s = v" for v
    using ne by (rule mergeShiftsByTime_user) (simp add: f_def)
  have "shift_on (mergeShifts iter ss) t u
      \<longleftrightarrow> u \<in> fs_UserID ` set ss \<and> (\<exists>s \<in> set (mergeShiftsByTime (f u)). covers (fs_Start s) (fs_End s) t)"
    using user unfolding shift_on_def set_mergeShifts [OF assms(1)] f_def [symmetric] by fastforce
  also have "\<dots> \<longleftrightarrow> u \<in> fs_UserID ` set ss \<and> (\<exists>s \<in> set (f u). covers (fs_Start s) (fs_End s) t)"
    by (simp only: mergeShiftsByTime_covers [OF ne])
  also have "\<dots> \<longleftrightarrow> shift_on ss t u" by (auto simp: shift_on_def f_def)
  finally show ?thesis .
qed

lemma mergeShifts_within:
  assumes "map_order iter" "shifts_within a b ss"
  shows "shifts_within a b (mergeShifts iter ss)"
proof -
  have "shifts_within a b (mergeShiftsByTime (filter (\<lambda>s. fs_UserID s = u) ss))" for u
    using assms(2) by (intro mergeShiftsByTime_within) (simp add: shifts_within_def)
  then show ?thesis by (auto simp: shifts_within_def set_mergeShifts [OF assms(1)])
qed

subsection \<open>The order of the result does not depend on the map\<close>

lemma sorted_unique:
  assumes "less_fun lt" "mset xs = mset ys"
    and "sorted_wrt (\<lambda>x y. \<not> lt y x) xs" "sorted_wrt (\<lambda>x y. \<not> lt y x) ys"
    and "\<And>x y. x \<in> set xs \<Longrightarrow> y \<in> set xs \<Longrightarrow> x = y \<or> lt x y \<or> lt y x"
  shows "xs = ys"
  using assms(2-)
proof (induction xs arbitrary: ys)
  case (Cons x xs)
  then obtain y ys' where ys: "ys = y # ys'" by (cases ys) auto
  have set: "set (x # xs) = set ys" using Cons.prems(1) by (metis set_mset_mset)
  have "x = y"
  proof (rule ccontr)
    assume "x \<noteq> y"
    then have "x \<in> set ys'" "y \<in> set xs" using set ys by auto
    then have "\<not> lt x y" "\<not> lt y x" using Cons.prems(2,3) ys by auto
    moreover have "y \<in> set (x # xs)" using set ys by auto
    ultimately show False using Cons.prems(4) [of x y] \<open>x \<noteq> y\<close> by auto
  qed
  moreover have "xs = ys'"
    by (rule Cons.IH) (use Cons.prems ys \<open>x = y\<close> in auto)
  ultimately show ?case using ys by simp
qed simp

lemma string_lex_total:
  "(u :: string) = v \<or> ord_class.lexordp (map of_char u :: nat list) (map of_char v)
     \<or> ord_class.lexordp (map of_char v :: nat list) (map of_char u)"
proof -
  have "inj (of_char :: char \<Rightarrow> nat)" by (rule inj_of_char)
  then have "(map of_char u :: nat list) = map of_char v \<Longrightarrow> u = v" by (simp add: inj_map_eq_map)
  then show ?thesis using lexordp_linear [of "map of_char u :: nat list" "map of_char v"] by blast
qed

interpretation shift_order: less_fun shift_less
proof
  show "\<not> shift_less y x" if "shift_less x y" for x y
    using that lexordp_antisym by (auto simp: shift_less_def split: if_splits)
  show "shift_less x y \<or> shift_less y z" if "shift_less x z" for x y z
  proof -
    have "ord_class.lexordp (a :: nat list) b \<or> ord_class.lexordp b c" if "ord_class.lexordp a c" for a b c
      using that lexordp_linear [of a b] lexordp_trans [of b a c] by auto
    with that show ?thesis by (auto simp: shift_less_def split: if_splits)
  qed
qed

lemma separated_start_unique:
  assumes "sorted_wrt (\<lambda>a b. fs_End a < fs_Start b) ss" "\<forall>s \<in> set ss. fs_Start s < fs_End s"
    and "a \<in> set ss" "b \<in> set ss" "fs_Start a = fs_Start b"
  shows "a = b"
  using assms by (induction ss) fastforce+

lemma mset_concat_map: "mset (concat (map f xs)) = sum_mset (image_mset (\<lambda>x. mset (f x)) (mset xs))"
  by (induction xs) auto

lemma mergeShifts_deterministic:
  assumes "map_order iter" "map_order iter'" "\<forall>s \<in> set ss. fs_Start s < fs_End s"
  shows "mergeShifts iter ss = mergeShifts iter' ss"
proof -
  define f where "f u = mergeShiftsByTime (filter (\<lambda>s. fs_UserID s = u) ss)" for u
  have ne: "\<forall>s \<in> set (filter (\<lambda>s. fs_UserID s = u) ss). fs_Start s < fs_End s" for u using assms(3) by auto
  have "\<forall>s \<in> set (f u). fs_UserID s = u" for u
    unfolding f_def by (rule mergeShiftsByTime_user [OF ne]) simp
  then have user: "fs_UserID s = u" if "s \<in> set (f u)" for s u using that by blast
  have inj: "a = b" if "a \<in> set (mergeShifts iter ss)" "b \<in> set (mergeShifts iter ss)"
    "fs_Start a = fs_Start b" "fs_UserID a = fs_UserID b" for a b
  proof -
    from that(1,2) obtain u v where ab: "a \<in> set (f u)" "b \<in> set (f v)"
      unfolding set_mergeShifts [OF assms(1)] f_def [symmetric] by blast
    moreover have "u = v" using ab that(4) user by metis
    ultimately show ?thesis
      using separated_start_unique [of "f u" a b] mergeShiftsByTime_separated [OF ne, of u] that(3) by (simp add: f_def)
  qed
  define ks where "ks = remdups (map fs_UserID ss)"
  have "mset (iter ks) = mset (iter' ks)" using assms(1,2) by (simp add: map_order_def)
  then have "mset (concat (map f (iter ks))) = mset (concat (map f (iter' ks)))"
    by (simp only: mset_concat_map)
  then have m: "mset (mergeShifts iter ss) = mset (mergeShifts iter' ss)"
    by (simp add: mergeShifts_def f_def [abs_def] ks_def)
  show ?thesis
  proof (rule sorted_unique [OF shift_order.less_fun_axioms m])
    show "a = b \<or> shift_less a b \<or> shift_less b a"
      if "a \<in> set (mergeShifts iter ss)" "b \<in> set (mergeShifts iter ss)" for a b
      using inj [OF that] string_lex_total [of "fs_UserID a" "fs_UserID b"] by (auto simp: shift_less_def)
  qed (auto simp: mergeShifts_def shift_order.sorted_sort_by)
qed

subsection \<open>Who is on call after an operation\<close>

definition sched_active :: "TemporarySchedule list \<Rightarrow> instant \<Rightarrow> bool" where
  "sched_active gs t \<longleftrightarrow> (\<exists>g \<in> set gs. covers (ts_Start g) (ts_End g) t)"

definition on_call :: "TemporarySchedule list \<Rightarrow> instant \<Rightarrow> string \<Rightarrow> bool" where
  "on_call gs t u \<longleftrightarrow> (\<exists>g \<in> set gs. covers (ts_Start g) (ts_End g) t \<and> shift_on (ts_Shifts g) t u)"

text \<open>What \<open>Normalize\<close> ensures of a schedule: a span that is not empty and shifts inside it.\<close>

definition wf_sched :: "TemporarySchedule \<Rightarrow> bool" where
  "wf_sched g \<longleftrightarrow> time_zero < ts_Start g \<and> ts_Start g < ts_End g
     \<and> shifts_within (ts_Start g) (ts_End g) (ts_Shifts g)"

lemma shift_on_within: "shifts_within a b ss \<Longrightarrow> shift_on ss t u \<Longrightarrow> covers a b t"
  by (fastforce simp: shifts_within_def shift_on_def covers_def)

lemma on_call_wf:
  "\<forall>g \<in> set gs. wf_sched g \<Longrightarrow> on_call gs t u \<longleftrightarrow> (\<exists>g \<in> set gs. shift_on (ts_Shifts g) t u)"
  unfolding on_call_def wf_sched_def using shift_on_within by metis

lemma shift_on_append: "shift_on (xs @ ys) t u \<longleftrightarrow> shift_on xs t u \<or> shift_on ys t u"
  by (auto simp: shift_on_def)

lemma MergeTemporarySchedules_cases:
  assumes "\<forall>g \<in> set gs. wf_sched g"
  obtains "gs = []" "MergeTemporarySchedules iter gs = []"
  | c cs where "set (c # cs) = set gs" "scheds.spans_ok c cs" "\<forall>g \<in> set (merge_scheds_loop c cs). wf_sched g"
      "MergeTemporarySchedules iter gs
         = map (\<lambda>g. g\<lparr>ts_Shifts := mergeShifts iter (ts_Shifts g)\<rparr>) (merge_scheds_loop c cs)"
proof (cases "sort_by (\<lambda>a b. ts_Start a < ts_Start b) gs")
  case Nil
  then show ?thesis by (intro that(1)) (auto simp: MergeTemporarySchedules_def)
next
  case (Cons c cs)
  then have set: "set (c # cs) = set gs" by (metis set_sort_by)
  moreover have "sorted_wrt (\<lambda>a b. ts_Start a \<le> ts_Start b) (c # cs)"
    using sched_start.sorted_sort_by [of gs] unfolding Cons by (simp add: not_less)
  ultimately have ok: "scheds.spans_ok c cs" using assms by (auto simp: scheds.spans_ok_def wf_sched_def)
  have wf: "\<forall>g \<in> set (merge_scheds_loop c cs). wf_sched g"
  proof (rule scheds.loop_all [OF _ ok])
    show "\<forall>g \<in> set (c # cs). wf_sched g" using set assms by simp
  qed (fastforce simp: wf_sched_def shifts_within_def)
  then have "MergeTemporarySchedules iter gs
      = map (\<lambda>g. g\<lparr>ts_Shifts := mergeShifts iter (ts_Shifts g)\<rparr>) (merge_scheds_loop c cs)"
    unfolding MergeTemporarySchedules_def Cons list.case
    by (intro map_cong) (simp_all add: wf_sched_def clampShiftTimes_id)
  with set ok wf show ?thesis by (rule that(2))
qed

lemma Merge_active:
  assumes "\<forall>g \<in> set gs. wf_sched g"
  shows "sched_active (MergeTemporarySchedules iter gs) t \<longleftrightarrow> sched_active gs t"
  using assms
proof (cases rule: MergeTemporarySchedules_cases [of gs iter, case_names 1 2])
  case (2 c cs)
  then show ?thesis using scheds.loop_covers [OF 2(2), of t] by (simp add: sched_active_def)
qed (simp add: sched_active_def)

lemma Merge_wf:
  assumes "map_order iter" "\<forall>g \<in> set gs. wf_sched g"
  shows "\<forall>g \<in> set (MergeTemporarySchedules iter gs). wf_sched g"
  using assms(2)
proof (cases rule: MergeTemporarySchedules_cases [of gs iter, case_names 1 2])
  case (2 c cs)
  then show ?thesis using mergeShifts_within [OF assms(1)] by (auto simp: wf_sched_def)
qed simp

lemma Merge_on_call:
  assumes "map_order iter" "\<forall>g \<in> set gs. wf_sched g"
  shows "on_call (MergeTemporarySchedules iter gs) t u \<longleftrightarrow> on_call gs t u"
proof -
  have "(\<exists>g \<in> set (MergeTemporarySchedules iter gs). shift_on (ts_Shifts g) t u)
      \<longleftrightarrow> (\<exists>g \<in> set gs. shift_on (ts_Shifts g) t u)"
    using assms(2)
  proof (cases rule: MergeTemporarySchedules_cases [of gs iter, case_names 1 2])
    case (2 c cs)
    have eq: "shift_on (mergeShifts iter (ts_Shifts g)) t u \<longleftrightarrow> shift_on (ts_Shifts g) t u"
      if "g \<in> set (merge_scheds_loop c cs)" for g
      using that 2(3) by (intro mergeShifts_on [OF assms(1)]) (auto simp: wf_sched_def shifts_within_def)
    have "(\<Union>g \<in> set (merge_scheds_loop c cs). {v. shift_on (ts_Shifts g) t v})
        = (\<Union>g \<in> set (c # cs). {v. shift_on (ts_Shifts g) t v})"
      by (rule scheds.loop_union [OF _ 2(2)]) (auto simp: shift_on_append)
    then have "(\<exists>g \<in> set (merge_scheds_loop c cs). shift_on (ts_Shifts g) t u)
        \<longleftrightarrow> (\<exists>g \<in> set gs. shift_on (ts_Shifts g) t u)" unfolding 2(1) by blast
    then show ?thesis using 2(4) eq by simp
  qed simp
  then show ?thesis unfolding on_call_wf [OF Merge_wf [OF assms]] on_call_wf [OF assms(2)] .
qed

lemma covers_TrimEnd:
  "covers (ts_Start (TrimEnd g s)) (ts_End (TrimEnd g s)) t \<longleftrightarrow> covers (ts_Start g) (ts_End g) t \<and> t < s"
  by (auto simp: TrimEnd_def zero_schedule_def covers_def)

lemma covers_TrimStart:
  "covers (ts_Start (TrimStart g s)) (ts_End (TrimStart g s)) t \<longleftrightarrow> covers (ts_Start g) (ts_End g) t \<and> s \<le> t"
  by (auto simp: TrimStart_def zero_schedule_def covers_def)

lemma trim_shift_end_covers:
  "(\<exists>r. trim_shift_end s x = Some r \<and> fs_UserID r = u \<and> covers (fs_Start r) (fs_End r) t)
    \<longleftrightarrow> fs_UserID x = u \<and> covers (fs_Start x) (fs_End x) t \<and> t < s"
  by (auto simp: trim_shift_end_def covers_def)

lemma trim_shift_start_covers:
  "(\<exists>r. trim_shift_start s x = Some r \<and> fs_UserID r = u \<and> covers (fs_Start r) (fs_End r) t)
    \<longleftrightarrow> fs_UserID x = u \<and> covers (fs_Start x) (fs_End x) t \<and> s \<le> t"
  by (auto simp: trim_shift_start_def covers_def)

lemma shift_on_map_filter:
  "shift_on (List.map_filter f ss) t u
    \<longleftrightarrow> (\<exists>x \<in> set ss. \<exists>r. f x = Some r \<and> fs_UserID r = u \<and> covers (fs_Start r) (fs_End r) t)"
  by (auto simp: shift_on_def set_map_filter)

lemma shift_on_trimmed:
  "shift_on (List.map_filter (trim_shift_end s) ss) t u \<longleftrightarrow> shift_on ss t u \<and> t < s"
  "shift_on (List.map_filter (trim_shift_start s) ss) t u \<longleftrightarrow> shift_on ss t u \<and> s \<le> t"
  unfolding shift_on_map_filter trim_shift_end_covers trim_shift_start_covers by (auto simp: shift_on_def)

lemma shift_on_zero: "\<not> shift_on (ts_Shifts zero_schedule) t u"
  by (simp add: shift_on_def zero_schedule_def)

lemma shift_on_TrimEnd:
  assumes "wf_sched g"
  shows "shift_on (ts_Shifts (TrimEnd g s)) t u \<longleftrightarrow> shift_on (ts_Shifts g) t u \<and> t < s"
proof -
  have c: "covers (ts_Start g) (ts_End g) t" if "shift_on (ts_Shifts g) t u"
    using assms that shift_on_within by (auto simp: wf_sched_def)
  show ?thesis
    using c unfolding TrimEnd_def
    by (auto simp: shift_on_trimmed shift_on_zero covers_def)
qed

lemma shift_on_TrimStart:
  assumes "wf_sched g"
  shows "shift_on (ts_Shifts (TrimStart g s)) t u \<longleftrightarrow> shift_on (ts_Shifts g) t u \<and> s \<le> t"
proof -
  have c: "covers (ts_Start g) (ts_End g) t" if "shift_on (ts_Shifts g) t u"
    using assms that shift_on_within by (auto simp: wf_sched_def)
  show ?thesis
    using c unfolding TrimStart_def
    by (auto simp: shift_on_trimmed shift_on_zero covers_def)
qed

lemma trim_shift_end_Some:
  "trim_shift_end s x = Some r \<Longrightarrow> fs_Start r = fs_Start x \<and> fs_End r = min (fs_End x) s \<and> fs_Start x < s"
  by (auto simp: trim_shift_end_def split: if_splits)

lemma trim_shift_start_Some:
  "trim_shift_start s x = Some r \<Longrightarrow> fs_Start r = max (fs_Start x) s \<and> fs_End r = fs_End x \<and> s < fs_End x"
  by (auto simp: trim_shift_start_def split: if_splits)

lemma TrimEnd_wf: "wf_sched g \<Longrightarrow> \<not> IsZero (ts_Start (TrimEnd g s)) \<Longrightarrow> wf_sched (TrimEnd g s)"
  by (auto simp: TrimEnd_def wf_sched_def zero_schedule_def IsZero_def shifts_within_def set_map_filter
      dest!: trim_shift_end_Some split: if_splits)

lemma TrimStart_wf:
  "wf_sched g \<Longrightarrow> \<not> IsZero (ts_Start (TrimStart g s)) \<Longrightarrow> wf_sched (TrimStart g s)"
  by (auto simp: TrimStart_def wf_sched_def zero_schedule_def IsZero_def shifts_within_def set_map_filter
      dest!: trim_shift_start_Some split: if_splits)

text \<open>A cut schedule is dropped only when nothing of it is left.\<close>

lemma TrimEnd_zero: "wf_sched g \<Longrightarrow> IsZero (ts_Start (TrimEnd g s)) \<Longrightarrow> \<not> (covers (ts_Start g) (ts_End g) t \<and> t < s)"
  by (auto simp: TrimEnd_def wf_sched_def IsZero_def covers_def split: if_splits)

lemma TrimStart_zero:
  "wf_sched g \<Longrightarrow> time_zero < s \<Longrightarrow> IsZero (ts_Start (TrimStart g s)) \<Longrightarrow> \<not> (covers (ts_Start g) (ts_End g) t \<and> s \<le> t)"
  by (auto simp: TrimStart_def wf_sched_def IsZero_def covers_def split: if_splits)

lemma delete_wf:
  assumes "\<forall>g \<in> set gs. wf_sched g"
  shows "\<forall>g \<in> set (deleteFixedShifts gs a b). wf_sched g"
  using assms TrimEnd_wf TrimStart_wf by (auto simp: deleteFixedShifts_def Let_def split: if_splits)

lemma delete_set:
  assumes "a < b"
  shows "x \<in> set (deleteFixedShifts gs a b) \<longleftrightarrow>
    (\<exists>g \<in> set gs. (x = TrimEnd g a \<or> x = TrimStart g b) \<and> \<not> IsZero (ts_Start x))"
  using assms by (auto simp: deleteFixedShifts_def Let_def split: if_splits)

lemma delete_active:
  assumes wf: "\<forall>g \<in> set gs. wf_sched g" and ab: "a < b" "time_zero < b"
  shows "sched_active (deleteFixedShifts gs a b) t \<longleftrightarrow> sched_active gs t \<and> \<not> covers a b t"
proof
  assume "sched_active (deleteFixedShifts gs a b) t"
  then show "sched_active gs t \<and> \<not> covers a b t"
    using ab by (auto simp: sched_active_def delete_set covers_TrimEnd covers_TrimStart) (auto simp: covers_def)
next
  assume l: "sched_active gs t \<and> \<not> covers a b t"
  then obtain g where g: "g \<in> set gs" "covers (ts_Start g) (ts_End g) t" by (auto simp: sched_active_def)
  consider "t < a" | "b \<le> t" using l ab by (auto simp: covers_def)
  then show "sched_active (deleteFixedShifts gs a b) t"
  proof cases
    case 1
    with g wf TrimEnd_zero [of g a t] have "TrimEnd g a \<in> set (deleteFixedShifts gs a b)" using ab by (auto simp: delete_set)
    with g 1 show ?thesis using covers_TrimEnd [of g a t] by (auto simp: sched_active_def)
  next
    case 2
    with g wf TrimStart_zero [of g b t] have "TrimStart g b \<in> set (deleteFixedShifts gs a b)" using ab by (auto simp: delete_set)
    with g 2 show ?thesis using covers_TrimStart [of g b t] by (auto simp: sched_active_def)
  qed
qed

lemma delete_on_call:
  assumes wf: "\<forall>g \<in> set gs. wf_sched g" and ab: "a < b" "time_zero < b"
  shows "on_call (deleteFixedShifts gs a b) t u \<longleftrightarrow> on_call gs t u \<and> \<not> covers a b t"
  unfolding on_call_wf [OF wf] on_call_wf [OF delete_wf [OF wf]]
proof
  assume "\<exists>g \<in> set (deleteFixedShifts gs a b). shift_on (ts_Shifts g) t u"
  then obtain g where "g \<in> set gs" "shift_on (ts_Shifts g) t u \<and> (t < a \<or> b \<le> t)"
    using ab wf shift_on_TrimEnd shift_on_TrimStart by (fastforce simp: delete_set)
  then show "(\<exists>g \<in> set gs. shift_on (ts_Shifts g) t u) \<and> \<not> covers a b t" by (auto simp: covers_def)
next
  assume l: "(\<exists>g \<in> set gs. shift_on (ts_Shifts g) t u) \<and> \<not> covers a b t"
  then obtain g where g: "g \<in> set gs" "shift_on (ts_Shifts g) t u" "wf_sched g" using wf by auto
  then have cov: "covers (ts_Start g) (ts_End g) t" using shift_on_within by (auto simp: wf_sched_def)
  consider "t < a" | "b \<le> t" using l ab by (auto simp: covers_def)
  then show "\<exists>g \<in> set (deleteFixedShifts gs a b). shift_on (ts_Shifts g) t u"
  proof cases
    case 1
    with g cov TrimEnd_zero [of g a t] have "TrimEnd g a \<in> set (deleteFixedShifts gs a b)" using ab by (auto simp: delete_set)
    with g 1 show ?thesis using shift_on_TrimEnd [OF g(3)] by blast
  next
    case 2
    with g cov TrimStart_zero [of g b t] have "TrimStart g b \<in> set (deleteFixedShifts gs a b)" using ab by (auto simp: delete_set)
    with g 2 show ?thesis using shift_on_TrimStart [OF g(3)] by blast
  qed
qed

lemma set_active:
  assumes "\<forall>g \<in> set gs. wf_sched g" "wf_sched new"
  shows "sched_active (setFixedShifts iter gs new) t
    \<longleftrightarrow> covers (ts_Start new) (ts_End new) t \<or> sched_active gs t"
proof -
  have ab: "ts_Start new < ts_End new" "time_zero < ts_End new" using assms(2) by (auto simp: wf_sched_def)
  have wf: "\<forall>g \<in> set (deleteFixedShifts gs (ts_Start new) (ts_End new) @ [new]). wf_sched g"
    using delete_wf [OF assms(1)] assms(2) by auto
  have "sched_active (xs @ [new]) t \<longleftrightarrow> sched_active xs t \<or> covers (ts_Start new) (ts_End new) t" for xs
    by (auto simp: sched_active_def)
  then show ?thesis
    using Merge_active [OF wf, of iter t] delete_active [OF assms(1) ab] by (auto simp: setFixedShifts_def)
qed

lemma set_on_call:
  assumes "map_order iter" "\<forall>g \<in> set gs. wf_sched g" "wf_sched new"
  shows "on_call (setFixedShifts iter gs new) t u
    \<longleftrightarrow> (if covers (ts_Start new) (ts_End new) t then shift_on (ts_Shifts new) t u else on_call gs t u)"
proof -
  have ab: "ts_Start new < ts_End new" "time_zero < ts_End new" using assms(3) by (auto simp: wf_sched_def)
  have wf: "\<forall>g \<in> set (deleteFixedShifts gs (ts_Start new) (ts_End new) @ [new]). wf_sched g"
    using delete_wf [OF assms(2)] assms(3) by auto
  have "on_call (xs @ [new]) t u
      \<longleftrightarrow> on_call xs t u \<or> (covers (ts_Start new) (ts_End new) t \<and> shift_on (ts_Shifts new) t u)" for xs
    by (auto simp: on_call_def)
  then show ?thesis
    using Merge_on_call [OF assms(1) wf, of t u] delete_on_call [OF assms(2) ab] by (auto simp: setFixedShifts_def)
qed

text \<open>The reference notion of a clean list of schedules: in order, apart from each other, well formed.\<close>

definition clean :: "TemporarySchedule list \<Rightarrow> bool" where
  "clean gs \<longleftrightarrow> sorted_wrt (\<lambda>a b. ts_End a < ts_Start b) gs \<and> (\<forall>g \<in> set gs. wf_sched g)"

lemma Merge_clean:
  assumes "map_order iter" "\<forall>g \<in> set gs. wf_sched g"
  shows "clean (MergeTemporarySchedules iter gs)"
proof -
  have "sorted_wrt (\<lambda>a b. ts_End a < ts_Start b) (MergeTemporarySchedules iter gs)"
    using assms(2)
  proof (cases rule: MergeTemporarySchedules_cases [of gs iter, case_names 1 2])
    case (2 c cs)
    then show ?thesis using scheds.loop_separated [OF 2(2)] by (simp add: sorted_wrt_map)
  qed simp
  with Merge_wf [OF assms] show ?thesis by (simp add: clean_def)
qed

lemma clean_unique:
  assumes "clean gs" "g \<in> set gs" "h \<in> set gs"
    "covers (ts_Start g) (ts_End g) t" "covers (ts_Start h) (ts_End h) t"
  shows "g = h"
  using assms
proof (induction gs)
  case (Cons x gs)
  then show ?case by (auto simp: clean_def covers_def)
qed simp

lemma shift_user_iff:
  "(if \<not> P then None else (case p of Inl _ \<Rightarrow> None | Inr v \<Rightarrow> Some v)) = Some w \<longleftrightarrow> P \<and> p = Inr w"
  by (auto split: sum.splits)

lemma TempOnCall_clean:
  assumes "clean gs"
  shows "fst (TempOnCall uuid_parse (Some gs) t) \<longleftrightarrow> sched_active gs t"
    and "set (snd (TempOnCall uuid_parse (Some gs) t)) = {v. \<exists>u. on_call gs t u \<and> uuid_parse u = Inr v}"
proof -
  have P: "(\<not> (t < ts_Start g \<or> \<not> t < ts_End g)) = covers (ts_Start g) (ts_End g) t" for g
    by (auto simp: covers_def)
  have Q: "(t < fs_Start s \<or> \<not> t < fs_End s) = (\<not> covers (fs_Start s) (fs_End s) t)" for s
    by (auto simp: covers_def)
  define r where "r = find (\<lambda>g. covers (ts_Start g) (ts_End g) t) gs"
  have T: "TempOnCall uuid_parse (Some gs) t = (case r of None \<Rightarrow> (False, [])
      | Some temp \<Rightarrow> (True, List.map_filter (\<lambda>shift. if \<not> covers (fs_Start shift) (fs_End shift) t then None
           else (case uuid_parse (fs_UserID shift) of Inl _ \<Rightarrow> None | Inr v \<Rightarrow> Some v)) (ts_Shifts temp)))"
    unfolding TempOnCall_def P Q r_def by simp
  have "fst (TempOnCall uuid_parse (Some gs) t) = sched_active gs t
    \<and> set (snd (TempOnCall uuid_parse (Some gs) t)) = {v. \<exists>u. on_call gs t u \<and> uuid_parse u = Inr v}"
  proof (cases r)
    case None
    then have "\<forall>g \<in> set gs. \<not> covers (ts_Start g) (ts_End g) t" by (auto simp: r_def find_None_iff)
    with None show ?thesis by (simp add: T sched_active_def on_call_def)
  next
    case (Some g)
    then have g: "g \<in> set gs" "covers (ts_Start g) (ts_End g) t" by (auto simp: r_def find_Some_iff)
    have oc: "on_call gs t u \<longleftrightarrow> shift_on (ts_Shifts g) t u" for u
      using g clean_unique [OF assms g(1)] by (auto simp: on_call_def)
    have "set (snd (TempOnCall uuid_parse (Some gs) t)) = {v. \<exists>s \<in> set (ts_Shifts g).
        covers (fs_Start s) (fs_End s) t \<and> uuid_parse (fs_UserID s) = Inr v}"
      by (simp add: T Some set_map_filter shift_user_iff)
    then show ?thesis using g by (auto simp: T Some sched_active_def oc shift_on_def)
  qed
  then show "fst (TempOnCall uuid_parse (Some gs) t) \<longleftrightarrow> sched_active gs t"
    and "set (snd (TempOnCall uuid_parse (Some gs) t)) = {v. \<exists>u. on_call gs t u \<and> uuid_parse u = Inr v}"
    by simp_all
qed

lemma Many3_None:
  assumes "Many [a, b, c] = None" "a \<noteq> Some (MultiFieldError [])" "b \<noteq> Some (MultiFieldError [])"
    "c \<noteq> Some (MultiFieldError [])"
  shows "a = None \<and> b = None \<and> c = None"
  using Many_None [OF assms(1)] assms(2-) by auto

lemma validateTimeRange_iff:
  "validateTimeRange p a b = None \<longleftrightarrow> a < b" "validateTimeRange p a b \<noteq> Some (MultiFieldError es)"
  by (simp_all add: validateTimeRange_def NewFieldError_def)

lemma validateWithinTimeRange_iff:
  "validateWithinTimeRange p q a b c d = None \<longleftrightarrow> c \<le> a \<and> a < d \<and> c < b \<and> b \<le> d"
  "validateWithinTimeRange p q a b c d \<noteq> Some (MultiFieldError es)"
  by (simp_all add: validateWithinTimeRange_def NewFieldError_def not_less)

lemma validateFuture_iff:
  "validateFuture now f t = None \<longleftrightarrow> 5 * Minute < Sub t now" "validateFuture now f t \<noteq> Some (MultiFieldError es)"
  by (simp_all add: validateFuture_def NewFieldError_def)

lemma validate_UUID_simple: "validate_UUID uuid_parse f u \<noteq> Some (MultiFieldError es)"
  by (auto simp: validate_UUID_def ParseUUID_def split: sum.splits)

subsection \<open>Properties\<close>

definition sample_shift :: "int \<Rightarrow> int \<Rightarrow> string \<Rightarrow> FixedShift" where
  "sample_shift a b u = \<lparr>fs_Start = a, fs_End = b, fs_UserID = u\<rparr>"

definition sample_scheds :: "TemporarySchedule list" where
  "sample_scheds = [\<lparr>ts_Start = 0, ts_End = 100, ts_Shifts = [sample_shift 0 50 ''a'', sample_shift 40 100 ''b'']\<rparr>,
     \<lparr>ts_Start = 200, ts_End = 300, ts_Shifts = [sample_shift 200 300 ''a'']\<rparr>]"

definition sample_new :: TemporarySchedule where
  "sample_new = \<lparr>ts_Start = 90, ts_End = 210, ts_Shifts = [sample_shift 90 210 ''c'']\<rparr>"

lemmas sample_defs = sample_scheds_def sample_new_def sample_shift_def wf_sched_def shifts_within_def time_zero_def

lemma sample_wf: "\<forall>g \<in> set sample_scheds. wf_sched g" "wf_sched sample_new"
  by (simp_all add: sample_defs)

lemma map_order_rev: "map_order rev"
  by (simp add: map_order_def)

text \<open>C2: after \<open>setFixedShifts\<close> the users on call inside the new temporary schedule are exactly
  those of its shifts, and at every other instant the ones that were on call before.\<close>

theorem setFixedShifts_on_call:
  assumes "map_order iter" "\<forall>g \<in> set gs. wf_sched g" "wf_sched new"
  shows "on_call (setFixedShifts iter gs new) t u
      = (if covers (ts_Start new) (ts_End new) t then shift_on (ts_Shifts new) t u else on_call gs t u)
    \<and> sched_active (setFixedShifts iter gs new) t
      = (covers (ts_Start new) (ts_End new) t \<or> sched_active gs t)"
  using set_on_call [OF assms] set_active [OF assms(2,3)] by simp

theorem setFixedShifts_on_call_witness:
  "on_call (setFixedShifts rev sample_scheds sample_new) 95 ''c''
   \<and> \<not> on_call (setFixedShifts rev sample_scheds sample_new) 95 ''b''
   \<and> on_call (setFixedShifts rev sample_scheds sample_new) 45 ''b''"
proof -
  have "covers (ts_Start sample_new) (ts_End sample_new) 95" "\<not> covers (ts_Start sample_new) (ts_End sample_new) 45"
    "shift_on (ts_Shifts sample_new) 95 ''c''" "\<not> shift_on (ts_Shifts sample_new) 95 ''b''" "on_call sample_scheds 45 ''b''"
    by (simp_all add: sample_defs covers_def shift_on_def on_call_def)
  then show ?thesis using setFixedShifts_on_call [OF map_order_rev sample_wf] by simp
qed

text \<open>C4: \<open>deleteFixedShifts\<close> takes everyone off call inside the given span and nowhere else.\<close>

theorem deleteFixedShifts_on_call:
  assumes "\<forall>g \<in> set gs. wf_sched g" "a < b" "time_zero < b"
  shows "on_call (deleteFixedShifts gs a b) t u = (on_call gs t u \<and> \<not> (a \<le> t \<and> t < b))
    \<and> sched_active (deleteFixedShifts gs a b) t = (sched_active gs t \<and> \<not> (a \<le> t \<and> t < b))"
  using delete_on_call [OF assms] delete_active [OF assms] by (simp add: covers_def)

theorem deleteFixedShifts_on_call_witness:
  "\<not> on_call (deleteFixedShifts sample_scheds 50 250) 60 ''b'' \<and> on_call (deleteFixedShifts sample_scheds 50 250) 45 ''b''"
proof -
  have "on_call sample_scheds 45 ''b''" by (simp add: sample_defs covers_def shift_on_def on_call_def)
  then show ?thesis using deleteFixedShifts_on_call [OF sample_wf(1), of 50 250] by (simp add: time_zero_def)
qed

text \<open>C3: \<open>MergeTemporarySchedules\<close> returns schedules in order with a gap between any two, each
  with shifts inside its span, and with the same users on call at every instant as its input.\<close>

theorem MergeTemporarySchedules_correct:
  assumes "map_order iter" "\<forall>g \<in> set gs. wf_sched g"
  shows "sorted_wrt (\<lambda>a b. ts_End a < ts_Start b) (MergeTemporarySchedules iter gs)
    \<and> (\<forall>g \<in> set (MergeTemporarySchedules iter gs). wf_sched g)
    \<and> (\<forall>t u. on_call (MergeTemporarySchedules iter gs) t u = on_call gs t u)
    \<and> (\<forall>t. sched_active (MergeTemporarySchedules iter gs) t = sched_active gs t)"
  using Merge_clean [OF assms] Merge_on_call [OF assms] Merge_active [OF assms(2)] by (simp add: clean_def)

theorem MergeTemporarySchedules_correct_witness:
  "(\<forall>t u. on_call (MergeTemporarySchedules rev (sample_new # sample_scheds)) t u = on_call (sample_new # sample_scheds) t u)
   \<and> length (MergeTemporarySchedules rev (sample_new # sample_scheds)) = 1"
proof
  show "\<forall>t u. on_call (MergeTemporarySchedules rev (sample_new # sample_scheds)) t u = on_call (sample_new # sample_scheds) t u"
    using MergeTemporarySchedules_correct [OF map_order_rev, of "sample_new # sample_scheds"] sample_wf by simp
  show "length (MergeTemporarySchedules rev (sample_new # sample_scheds)) = 1" by code_simp
qed

text \<open>C6: the result of \<open>MergeTemporarySchedules\<close> does not depend on the order in which Go visits
  the map of users: the final sort makes the output deterministic.\<close>

theorem MergeTemporarySchedules_deterministic:
  assumes "map_order iter" "map_order iter'"
  shows "MergeTemporarySchedules iter gs = MergeTemporarySchedules iter' gs"
proof -
  have "mergeShifts iter (clampShiftTimes a b ss) = mergeShifts iter' (clampShiftTimes a b ss)" for a b ss
    using clampShiftTimes_within by (intro mergeShifts_deterministic [OF assms]) (auto simp: shifts_within_def)
  then show ?thesis unfolding MergeTemporarySchedules_def by (auto split: list.splits)
qed

theorem MergeTemporarySchedules_deterministic_witness:
  "MergeTemporarySchedules rev sample_scheds = MergeTemporarySchedules (\<lambda>ks. ks) sample_scheds"
  by (rule MergeTemporarySchedules_deterministic) (simp_all add: map_order_def)

text \<open>C5: on merged data \<open>TempOnCall\<close> reports a temporary schedule exactly when one covers \<open>t\<close>, and
  as users exactly the ones with a shift at \<open>t\<close> whose ID parses, although it stops at the first
  active schedule.\<close>

theorem TempOnCall_correct:
  assumes "map_order iter" "\<forall>g \<in> set gs. wf_sched g"
  shows "fst (TempOnCall uuid_parse (Some (MergeTemporarySchedules iter gs)) t) = sched_active gs t
    \<and> set (snd (TempOnCall uuid_parse (Some (MergeTemporarySchedules iter gs)) t))
      = {v. \<exists>u. on_call gs t u \<and> uuid_parse u = Inr v}"
  using TempOnCall_clean [OF Merge_clean [OF assms], of uuid_parse t] Merge_on_call [OF assms] Merge_active [OF assms(2)] by simp

theorem TempOnCall_correct_witness:
  "fst (TempOnCall Inr (Some (MergeTemporarySchedules rev sample_scheds)) 45)
   \<and> ''b'' \<in> set (snd (TempOnCall Inr (Some (MergeTemporarySchedules rev sample_scheds)) 45))"
proof -
  have "on_call sample_scheds 45 ''b''" "sched_active sample_scheds 45"
    by (simp_all add: sample_defs covers_def shift_on_def on_call_def sched_active_def)
  then show ?thesis
    using TempOnCall_correct [OF map_order_rev sample_wf(1), of "Inr :: string \<Rightarrow> string + string" 45] by auto
qed

lemma validate_shift_ok:
  assumes "validate_shift uuid_parse checkUser temp i s = None"
  shows "ts_Start temp \<le> fs_Start s \<and> fs_Start s < fs_End s \<and> fs_End s \<le> ts_End temp"
proof -
  let ?p = "''Shifts['' @ show_nat i @ ''].''"
  let ?errs = "[validate_UUID uuid_parse (?p @ ''UserID'') (fs_UserID s), validateTimeRange ?p (fs_Start s) (fs_End s),
    validateWithinTimeRange ?p '''' (fs_Start s) (fs_End s) (ts_Start temp) (ts_End temp)]"
  have "Many ?errs = None" using assms unfolding validate_shift_def Let_def by (simp split: option.splits)
  from Many3_None [OF this validate_UUID_simple validateTimeRange_iff(2) validateWithinTimeRange_iff(2)]
  have "validateTimeRange ?p (fs_Start s) (fs_End s) = None"
    "validateWithinTimeRange ?p '''' (fs_Start s) (fs_End s) (ts_Start temp) (ts_End temp) = None" by blast+
  then show ?thesis by (simp add: validateTimeRange_iff validateWithinTimeRange_iff)
qed

lemma validate_shift_simple: "validate_shift uuid_parse checkUser temp i s \<noteq> Some (MultiFieldError [])"
proof -
  have "(case Many errs of Some e \<Rightarrow> Some e | None \<Rightarrow> (case c of Some f \<Rightarrow> if \<not> f x then NewFieldError a b else None
      | None \<Rightarrow> None)) \<noteq> Some (MultiFieldError [])" for errs c x a b
    using Many_not_empty [of errs] by (auto simp: NewFieldError_def split: option.splits)
  then show ?thesis unfolding validate_shift_def Let_def .
qed

lemma validate_shifts_loop_ok:
  "validate_shifts_loop uuid_parse checkUser temp i ss = None \<Longrightarrow> shifts_within (ts_Start temp) (ts_End temp) ss"
proof (induction ss arbitrary: i)
  case (Cons s ss)
  then show ?case using validate_shift_ok [of uuid_parse checkUser temp i s]
    by (auto simp: shifts_within_def split: option.splits)
qed (simp add: shifts_within_def)

lemma validateShifts_simple: "validateShifts uuid_parse checkUser temp \<noteq> Some (MultiFieldError [])"
proof -
  have "validate_shifts_loop uuid_parse checkUser temp i ss \<noteq> Some (MultiFieldError [])" for i ss
    by (induction ss arbitrary: i)
      (use validate_shift_simple [of uuid_parse checkUser temp] in \<open>auto split: option.splits\<close>)
  then show ?thesis by (simp add: validateShifts_def NewFieldError_def)
qed

text \<open>C7: a temporary schedule that \<open>Normalize\<close> accepts starts no earlier than the current minute,
  ends more than five minutes ahead, and has all its shifts, none of them empty, inside its span.\<close>

theorem Temp_Normalize_wf:
  assumes "Temp_Normalize uuid_parse now checkUser temp = Inr temp'" "time_zero < Truncate now Minute"
  shows "wf_sched temp' \<and> Truncate now Minute \<le> ts_Start temp' \<and> 5 * Minute < Sub (ts_End temp') now
    \<and> length (ts_Shifts temp') \<le> FixedShiftsPerTemporaryScheduleLimit"
proof -
  define now' where "now' = Truncate now Minute"
  define t1 where "t1 = temp\<lparr>ts_Start := Truncate (ts_Start temp) Minute\<rparr>"
  define t2 where "t2 = (if ts_Start t1 < now' then TrimStart t1 now' else t1)"
  define t3 where "t3 = t2\<lparr>ts_End := Truncate (ts_End t2) Minute, ts_Shifts := map (\<lambda>s. s\<lparr>fs_Start := Truncate (fs_Start s) Minute,
      fs_End := Truncate (fs_End s) Minute\<rparr>) (ts_Shifts t2)\<rparr>"
  let ?errs = "[validateFuture now ''End'' (ts_End t3), validateTimeRange '''' (ts_Start t3) (ts_End t3),
    validateShifts uuid_parse checkUser t3]"
  have "(case Many ?errs of Some e \<Rightarrow> Inl e | None \<Rightarrow> Inr t3) = Inr temp'"
    using assms(1) unfolding Temp_Normalize_def Let_def t1_def [symmetric] now'_def [symmetric]
      t2_def [symmetric] t3_def [symmetric] .
  then have eq: "temp' = t3" and "Many ?errs = None" by (simp_all split: option.splits)
  from Many3_None [OF this(2) validateFuture_iff(2) validateTimeRange_iff(2) validateShifts_simple]
  have "validateFuture now ''End'' (ts_End t3) = None" "validateTimeRange '''' (ts_Start t3) (ts_End t3) = None"
    and sh: "validateShifts uuid_parse checkUser t3 = None" by blast+
  then have fut: "5 * Minute < Sub (ts_End t3) now" and rng: "ts_Start t3 < ts_End t3"
    by (simp_all only: validateTimeRange_iff validateFuture_iff)
  have "now' \<le> ts_Start t3"
  proof (cases "t2 = zero_schedule")
    case True
    have "Truncate time_zero Minute = time_zero" by (simp add: Truncate_def)
    with True rng show ?thesis by (simp add: zero_schedule_def t3_def)
  next
    case False
    then show ?thesis by (auto simp: t3_def t2_def TrimStart_def split: if_splits)
  qed
  moreover from sh have "shifts_within (ts_Start t3) (ts_End t3) (ts_Shifts t3)"
    "length (ts_Shifts t3) \<le> FixedShiftsPerTemporaryScheduleLimit"
    using validate_shifts_loop_ok [of uuid_parse checkUser t3 0]
    by (auto simp: validateShifts_def NewFieldError_def split: if_splits)
  ultimately show ?thesis using fut rng assms(2) by (simp add: eq wf_sched_def now'_def)
qed

theorem Temp_Normalize_wf_witness:
  "\<exists>temp'. Temp_Normalize (Inr :: string \<Rightarrow> string + string) 0 None
     \<lparr>ts_Start = - Minute, ts_End = 10 * Minute, ts_Shifts = []\<rparr> = Inr temp' \<and> wf_sched temp'"
proof -
  have "Temp_Normalize (Inr :: string \<Rightarrow> string + string) 0 None
     \<lparr>ts_Start = - Minute, ts_End = 10 * Minute, ts_Shifts = []\<rparr> = Inr \<lparr>ts_Start = 0, ts_End = 10 * Minute, ts_Shifts = []\<rparr>"
    by code_simp
  with Temp_Normalize_wf [OF this] show ?thesis by (simp add: Truncate_Minute time_zero_def)
qed

end
