(* ===== verification/ScheduleManager.thy ===== *)
theory ScheduleManager
  imports Rule TempSchedule OnCallRules
begin

section \<open>Recording who is on call: engine/schedulemanager\<close>

text \<open>
  The engine module that compares who should be on call for each schedule with who is recorded as
  on call.  The sets of the code (golang-set) are sets; the order in which the code visits a set or a
  map is an argument.  UUIDs are values of a type \<open>'u\<close>, the JSON text of a schedule's data a value of
  a type \<open>'j\<close>; reading and rewriting it (\<open>unmarshal\<close>, \<open>apply_json\<close>) and parsing UUIDs are
  arguments.  A nil time zone is \<open>None\<close>: \<open>Time.In\<close> panics on it.
\<close>

record 'u Data =
  dat_TemporarySchedules :: "TemporarySchedule list"
  dat_OnCallNotificationRules :: "'u OnCallNotificationRule list"

record 'u rules_row =
  rul_ScheduleID :: 'u
  rul_Sunday :: bool
  rul_Monday :: bool
  rul_Tuesday :: bool
  rul_Wednesday :: bool
  rul_Thursday :: bool
  rul_Friday :: bool
  rul_Saturday :: bool
  rul_StartTime :: Clock
  rul_EndTime :: Clock
  rul_ResolvedUserID :: 'u

record 'u overrides_row =
  ovr_TgtScheduleID :: 'u
  ovr_AddUserID :: "'u option"
  ovr_RemoveUserID :: "'u option"

record ('u, 'j) updateInfo =
  inf_ScheduleID :: 'u
  inf_TimeZone :: "location option"
  inf_RawScheduleData :: "'j option"
  inf_ScheduleData :: "'u Data"
  inf_CurrentOnCall :: "'u set"
  inf_Rules :: "'u rules_row list"
  inf_ActiveOverrides :: "'u overrides_row list"
  inf_MissingUsers :: "'u set option"
  inf_EligibleUsers :: "'u set option"

record ('u, 'j) updateResult =
  res_ScheduleID :: 'u
  res_UsersToStart :: "'u set"
  res_UsersToStop :: "'u set"
  res_NewRawScheduleData :: "'j option"
  res_NotificationChannels :: "'u set"

definition ruleRowIsActive :: "location \<Rightarrow> 'u rules_row \<Rightarrow> instant \<Rightarrow> bool" where
  "ruleRowIsActive l row t =
     IsActive l \<lparr>rule_ID = '''', rule_ScheduleID = '''',
        rule_WeekdayFilter = map (\<lambda>b. if b then 1 else 0)
          [rul_Sunday row, rul_Monday row, rul_Tuesday row, rul_Wednesday row, rul_Thursday row,
           rul_Friday row, rul_Saturday row],
        rule_Start = rul_StartTime row, rule_End = rul_EndTime row, rule_CreatedAt = time_zero,
        rule_Target = None\<rparr> t"

definition equalTimePtr :: "instant option \<Rightarrow> instant option \<Rightarrow> bool" where
  "equalTimePtr a b =
     (if (a = None) \<noteq> (b = None) then False
      else case (a, b) of (Some x, Some y) \<Rightarrow> x = y | _ \<Rightarrow> True)"

definition nextOnCallNotification :: "location \<Rightarrow> instant \<Rightarrow> 'u OnCallNotificationRule \<Rightarrow> instant option" where
  "nextOnCallNotification l now rule =
     (case ocr_Time rule of
        None \<Rightarrow> None
      | Some c \<Rightarrow>
          if (case ocr_WeekdayFilter rule of None \<Rightarrow> True | Some f \<Rightarrow> IsAlways f) then
            (let newTime = FirstOfDay l c now
             in if \<not> now < newTime then Some (FirstOfDay l c (Date l ((local_day l now + 1) * Day)))
                else Some newTime)
          else
            (let f = the (ocr_WeekdayFilter rule)
             in if IsNever f then None
                else
                  (let newTime = (if Filter_Day f (Weekday l now) then FirstOfDay l c now
                                  else FirstOfDay l c (NextActive l f now))
                   in if \<not> now < newTime then Some (FirstOfDay l c (NextActive l f newTime))
                      else Some newTime)))"

subsection \<open>Who should be on call: calcupdates.go\<close>

definition apply_override :: "'u set \<Rightarrow> 'u overrides_row \<Rightarrow> 'u set" where
  "apply_override onCall ov =
     (case ovr_RemoveUserID ov of
        Some r \<Rightarrow>
          if r \<notin> onCall then onCall
          else (case ovr_AddUserID ov of Some a \<Rightarrow> insert a (onCall - {r}) | None \<Rightarrow> onCall - {r})
      | None \<Rightarrow> (case ovr_AddUserID ov of Some a \<Rightarrow> insert a onCall | None \<Rightarrow> onCall))"

definition calcLatestOnCall ::
  "(string \<Rightarrow> string + 'u) \<Rightarrow> ('u, 'j) updateInfo \<Rightarrow> instant \<Rightarrow> 'u set outcome" where
  "calcLatestOnCall uuid_parse info now =
     (let (isActive, users) = TempOnCall uuid_parse (Some (dat_TemporarySchedules (inf_ScheduleData info))) now
      in if isActive then
           Inr (case inf_MissingUsers info of None \<Rightarrow> set users | Some missing \<Rightarrow> set users - missing)
         else case inf_TimeZone info of
           None \<Rightarrow> Inl (Panic ''time: missing Location in call to Time.In'')
         | Some l \<Rightarrow>
             Inr (foldl apply_override
                    (set (map rul_ResolvedUserID (filter (\<lambda>r. ruleRowIsActive l r now) (inf_Rules info))))
                    (inf_ActiveOverrides info)))"

text \<open>The loop over the notification rules: the channels to notify, the new rules, whether any changed.\<close>

fun notify_loop ::
  "location \<Rightarrow> instant \<Rightarrow> bool \<Rightarrow> 'u OnCallNotificationRule list
     \<Rightarrow> 'u set \<times> 'u OnCallNotificationRule list \<times> bool" where
  "notify_loop l now onCallChanged [] = ({}, [], False)"
| "notify_loop l now onCallChanged (r # rs) =
     (let (chans, rs', upd) = notify_loop l now onCallChanged rs
      in case ocr_Time r of
           None \<Rightarrow> (if onCallChanged then insert (ocr_ChannelID r) chans else chans, r # rs', upd)
         | Some c \<Rightarrow>
             (let due = (case ocr_NextNotification r of Some n \<Rightarrow> \<not> now < n | None \<Rightarrow> False);
                  chans = (if due then insert (ocr_ChannelID r) chans else chans);
                  newTime = nextOnCallNotification l now r
              in if equalTimePtr (ocr_NextNotification r) newTime then (chans, r # rs', upd)
                 else (chans, r\<lparr>ocr_NextNotification := newTime\<rparr> # rs', True)))"

definition calcUpdates ::
  "(string \<Rightarrow> string + 'u) \<Rightarrow> ('j option \<Rightarrow> 'u Data \<Rightarrow> string + 'j) \<Rightarrow> ('u, 'j) updateInfo \<Rightarrow> instant
     \<Rightarrow> (string + ('u, 'j) updateResult) outcome" where
  "calcUpdates uuid_parse apply_json info now =
     (case inf_TimeZone info of
        None \<Rightarrow> Inl (Panic ''time: missing Location in call to Time.In'')
      | Some l \<Rightarrow>
          obind (calcLatestOnCall uuid_parse info now) (\<lambda>latest.
            (let newOnCall = (case inf_EligibleUsers info of None \<Rightarrow> latest | Some el \<Rightarrow> latest \<inter> el);
                 current = inf_CurrentOnCall info;
                 onCallChanged = (newOnCall \<noteq> current);
                 stop = (if onCallChanged then current - newOnCall else {});
                 start = (if onCallChanged then newOnCall - current else {});
                 (chans, newRules, dataNeedsUpdate) =
                   notify_loop l now onCallChanged (dat_OnCallNotificationRules (inf_ScheduleData info));
                 result = \<lparr>res_ScheduleID = inf_ScheduleID info, res_UsersToStart = start,
                           res_UsersToStop = stop, res_NewRawScheduleData = None,
                           res_NotificationChannels = chans\<rparr>
             in if dataNeedsUpdate then
                  (case apply_json (inf_RawScheduleData info)
                          (inf_ScheduleData info\<lparr>dat_OnCallNotificationRules := newRules\<rparr>) of
                     Inl e \<Rightarrow> Inr (Inl e)
                   | Inr j \<Rightarrow> Inr (Inr (result\<lparr>res_NewRawScheduleData := Some j\<rparr>)))
                else Inr (Inr result))))"

subsection \<open>Who may be on call: staffing.go\<close>

text \<open>
  The users eligible for a schedule: those that should be on call and whose organization is the
  schedule's, which is not the nil UUID.  \<open>affiliation\<close> and \<open>schedules\<close> are the rows of the two queries.
\<close>

definition eligible_users ::
  "(string \<Rightarrow> string + 'u) \<Rightarrow> 'u \<Rightarrow> ('u \<rightharpoonup> 'u) \<Rightarrow> ('u \<rightharpoonup> 'u) \<Rightarrow> ('u, 'j) updateInfo \<Rightarrow> instant
     \<Rightarrow> 'u set outcome" where
  "eligible_users uuid_parse nil affiliation schedules info now =
     obind (calcLatestOnCall uuid_parse info now) (\<lambda>latest.
       Inr (case schedules (inf_ScheduleID info) of
              None \<Rightarrow> {}
            | Some org \<Rightarrow> {u \<in> latest. (case affiliation u of None \<Rightarrow> nil | Some a \<Rightarrow> a) = org \<and> org \<noteq> nil}))"

subsection \<open>Writing the changes: update.go\<close>

datatype ('u, 'j) sched_stmt =
    StartOnCall 'u 'u
  | EndOnCall 'u 'u
  | SetData 'u 'j
  | InsertMessage 'u 'u

text \<open>The answer of the database to a statement: done, or an error with the constraint it violates.\<close>

datatype db_answer = Done | DbError string string

definition isScheduleDeleted :: "string \<Rightarrow> bool" where
  "isScheduleDeleted constraint \<longleftrightarrow>
     constraint \<in> {''schedule_on_call_users_schedule_id_fkey'', ''schedule_data_schedule_id_fkey'',
                   ''outgoing_messages_schedule_id_fkey''}"

text \<open>
  Statements whose failure on a deleted schedule skips the rest of that schedule, and messages,
  where it skips only the one message.  \<open>Inl\<close> is the error that aborts the whole update.
\<close>

fun run_stmts ::
  "(('u, 'j) sched_stmt \<Rightarrow> db_answer) \<Rightarrow> ('u, 'j) sched_stmt list \<Rightarrow> string + (('u, 'j) sched_stmt list \<times> bool)" where
  "run_stmts exec [] = Inr ([], True)"
| "run_stmts exec (s # ss) =
     (case exec s of
        Done \<Rightarrow> (case run_stmts exec ss of Inl e \<Rightarrow> Inl e | Inr (done, c) \<Rightarrow> Inr (s # done, c))
      | DbError constraint e \<Rightarrow> if isScheduleDeleted constraint then Inr ([], False) else Inl e)"

fun run_messages ::
  "(('u, 'j) sched_stmt \<Rightarrow> db_answer) \<Rightarrow> ('u, 'j) sched_stmt list \<Rightarrow> string + ('u, 'j) sched_stmt list" where
  "run_messages exec [] = Inr []"
| "run_messages exec (s # ss) =
     (case exec s of
        Done \<Rightarrow> (case run_messages exec ss of Inl e \<Rightarrow> Inl e | Inr done \<Rightarrow> Inr (s # done))
      | DbError constraint e \<Rightarrow> if isScheduleDeleted constraint then run_messages exec ss else Inl e)"

definition write_result ::
  "('u set \<Rightarrow> 'u list) \<Rightarrow> (('u, 'j) sched_stmt \<Rightarrow> db_answer) \<Rightarrow> ('u, 'j) updateResult
     \<Rightarrow> string + ('u, 'j) sched_stmt list" where
  "write_result elems exec res =
     (let sid = res_ScheduleID res
      in case run_stmts exec (map (StartOnCall sid) (elems (res_UsersToStart res))
                @ map (EndOnCall sid) (elems (res_UsersToStop res))
                @ (case res_NewRawScheduleData res of None \<Rightarrow> [] | Some j \<Rightarrow> [SetData sid j])) of
           Inl e \<Rightarrow> Inl e
         | Inr (done, False) \<Rightarrow> Inr done
         | Inr (done, True) \<Rightarrow>
             (case run_messages exec (map (\<lambda>c. InsertMessage c sid) (elems (res_NotificationChannels res))) of
                Inl e \<Rightarrow> Inl e
              | Inr msgs \<Rightarrow> Inr (done @ msgs)))"

text \<open>The loop over all schedules; one whose calculation fails is logged and passed over.\<close>

fun update_loop ::
  "(string \<Rightarrow> string + 'u) \<Rightarrow> ('j option \<Rightarrow> 'u Data \<Rightarrow> string + 'j) \<Rightarrow> ('u set \<Rightarrow> 'u list)
     \<Rightarrow> (('u, 'j) sched_stmt \<Rightarrow> db_answer) \<Rightarrow> instant \<Rightarrow> ('u, 'j) updateInfo list
     \<Rightarrow> (string + ('u, 'j) sched_stmt list) outcome" where
  "update_loop uuid_parse apply_json elems exec now [] = Inr (Inr [])"
| "update_loop uuid_parse apply_json elems exec now (info # infos) =
     obind (calcUpdates uuid_parse apply_json info now) (\<lambda>r.
       case r of
         Inl e \<Rightarrow> update_loop uuid_parse apply_json elems exec now infos
       | Inr res \<Rightarrow>
           (case write_result elems exec res of
              Inl e \<Rightarrow> Inr (Inl e)
            | Inr done \<Rightarrow>
                obind (update_loop uuid_parse apply_json elems exec now infos) (\<lambda>rest.
                  Inr (case rest of Inl e \<Rightarrow> Inl e | Inr later \<Rightarrow> Inr (done @ later)))))"

subsection \<open>When the next notification is due\<close>

text \<open>The days a rule is announced on.\<close>

definition announce_on :: "'u OnCallNotificationRule \<Rightarrow> int \<Rightarrow> bool" where
  "announce_on rule d = (case ocr_WeekdayFilter rule of None \<Rightarrow> True | Some f \<Rightarrow> day_on f d)"

definition wf_notify :: "'u OnCallNotificationRule \<Rightarrow> bool" where
  "wf_notify rule \<longleftrightarrow> (case ocr_Time rule of None \<Rightarrow> False | Some c \<Rightarrow> 0 \<le> c \<and> c < Day)
     \<and> (case ocr_WeekdayFilter rule of None \<Rightarrow> True | Some f \<Rightarrow> wf_filter f)"

lemma less_moment_iff:
  assumes "0 \<le> c" "c < Day"
  shows "t < moment off d c \<longleftrightarrow> local_day (fixed_loc off) t < d
    \<or> (local_day (fixed_loc off) t = d \<and> time_of_day (fixed_loc off) t < c)"
proof -
  define d' c' where "d' = local_day (fixed_loc off) t" and "c' = time_of_day (fixed_loc off) t"
  have "t = moment off d' c'" unfolding d'_def c'_def by (rule instant_moment)
  moreover have "0 \<le> c'" "c' < Day" by (simp_all add: c'_def time_of_day_bounds)
  ultimately show ?thesis
    using moment_less_iff [OF _ _ assms, of c' off d' d] unfolding d'_def [symmetric] c'_def [symmetric] by simp
qed

lemma next_daily:
  assumes c: "0 \<le> c" "c < Day" and all: "\<And>d. announce_on rule d"
    and r: "ocr_Time rule = Some c" "case ocr_WeekdayFilter rule of None \<Rightarrow> True | Some f \<Rightarrow> IsAlways f"
  shows "\<exists>d. nextOnCallNotification (fixed_loc off) now rule = Some (moment off d c) \<and> announce_on rule d
    \<and> now < moment off d c \<and> (\<forall>d' < d. announce_on rule d' \<longrightarrow> moment off d' c \<le> now)"
proof -
  define d0 where "d0 = local_day (fixed_loc off) now"
  define d where "d = (if now < moment off d0 c then d0 else d0 + 1)"
  have lt: "now < moment off k c \<longleftrightarrow> d0 < k \<or> (d0 = k \<and> time_of_day (fixed_loc off) now < c)" for k
    unfolding d0_def by (rule less_moment_iff [OF c])
  have "nextOnCallNotification (fixed_loc off) now rule = Some (moment off d c)"
    using r FirstOfDay_Date [of off c "d0 + 1"] FirstOfDay_fixed [of off c now]
    by (simp add: nextOnCallNotification_def Let_def d_def d0_def)
  moreover have "now < moment off d c" by (simp add: d_def lt)
  moreover have "moment off d' c \<le> now" if "d' < d" for d'
    using that by (cases "now < moment off d0 c") (auto simp: d_def lt simp flip: not_less)
  ultimately show ?thesis using all by blast
qed

lemma next_filtered:
  assumes c: "0 \<le> c" "c < Day"
    and r: "ocr_Time rule = Some c" "ocr_WeekdayFilter rule = Some f" "wf_filter f" "\<not> IsAlways f" "\<not> IsNever f"
  shows "\<exists>d. nextOnCallNotification (fixed_loc off) now rule = Some (moment off d c) \<and> announce_on rule d
    \<and> now < moment off d c \<and> (\<forall>d' < d. announce_on rule d' \<longrightarrow> moment off d' c \<le> now)"
proof -
  define l where "l = fixed_loc off"
  define d0 where "d0 = local_day l now"
  have lt: "now < moment off k c \<longleftrightarrow> d0 < k \<or> (d0 = k \<and> time_of_day l now < c)" for k
    unfolding d0_def l_def by (rule less_moment_iff [OF c])
  have nn: "f \<noteq> neverDays" using r(5) by (simp add: IsNever_def)
  have na: "\<exists>k \<ge> 1. NextActive l f t = Date l ((local_day l t + k) * Day) \<and> day_on f (local_day l t + k)
      \<and> (\<forall>j. 1 \<le> j \<longrightarrow> j < k \<longrightarrow> \<not> day_on f (local_day l t + j))" for t
    by (rule NextActive_spec [OF r(3) nn, of l t]) blast
  obtain k where k: "1 \<le> k" "NextActive l f now = Date l ((d0 + k) * Day)" "day_on f (d0 + k)"
    "\<And>j. 1 \<le> j \<Longrightarrow> j < k \<Longrightarrow> \<not> day_on f (d0 + j)" using na [of now] unfolding d0_def by blast
  have ld: "local_day l (moment off d0 c) = d0" unfolding l_def by (rule local_day_moment [OF c])
  obtain m where m: "NextActive l f (moment off d0 c) = Date l ((d0 + m) * Day)" "1 \<le> m" "day_on f (d0 + m)"
    "\<And>j. 1 \<le> j \<Longrightarrow> j < m \<Longrightarrow> \<not> day_on f (d0 + j)" using na [of "moment off d0 c"] unfolding ld by blast
  have mk: "m = k"
    using k(1,3) m(2,3) k(4) [of m] m(4) [of k] by (cases m k rule: linorder_cases) auto
  have first: "FirstOfDay l c (Date l (d * Day)) = moment off d c" for d unfolding l_def by (rule FirstOfDay_Date)
  have fd: "FirstOfDay l c now = moment off d0 c" unfolding l_def d0_def by (rule FirstOfDay_fixed)
  have on0: "Filter_Day f (Weekday l now) = day_on f d0" unfolding d0_def by (rule Filter_Day_on)
  define d where "d = (if day_on f d0 \<and> now < moment off d0 c then d0 else d0 + k)"
  have kd: "now < moment off (d0 + k) c" using k(1) by (simp add: lt)
  have "nextOnCallNotification l now rule = Some (moment off d c)"
  proof -
    have F: "FirstOfDay l c (NextActive l f now) = moment off (d0 + k) c"
      "FirstOfDay l c (NextActive l f (moment off d0 c)) = moment off (d0 + k) c"
      unfolding k(2) m(1) mk by (rule first)+
    show ?thesis using r kd by (simp add: nextOnCallNotification_def Let_def on0 fd F d_def)
  qed
  moreover have "announce_on rule d" using k(3) by (simp add: announce_on_def r(2) d_def)
  moreover have "now < moment off d c" using kd by (simp add: d_def)
  moreover have "moment off d' c \<le> now" if "d' < d" "announce_on rule d'" for d'
  proof -
    have on: "day_on f d'" using that(2) by (simp add: announce_on_def r(2))
    have "\<not> now < moment off d' c"
    proof
      assume n: "now < moment off d' c"
      then have "d0 \<le> d'" by (auto simp: lt)
      moreover have "\<not> (d0 < d' \<and> d' < d0 + k)" using k(4) [of "d' - d0"] on by auto
      ultimately show False using that(1) n on by (auto simp: d_def split: if_splits)
    qed
    then show ?thesis by simp
  qed
  ultimately show ?thesis unfolding l_def by blast
qed

lemma nextOnCallNotification_next:
  assumes "wf_notify rule" "ocr_Time rule = Some c" "ocr_WeekdayFilter rule \<noteq> Some neverDays"
  shows "\<exists>d. nextOnCallNotification (fixed_loc off) now rule = Some (moment off d c) \<and> announce_on rule d
    \<and> now < moment off d c \<and> (\<forall>d' < d. announce_on rule d' \<longrightarrow> moment off d' c \<le> now)"
proof -
  have c: "0 \<le> c" "c < Day" using assms(1,2) by (auto simp: wf_notify_def)
  show ?thesis
  proof (cases "case ocr_WeekdayFilter rule of None \<Rightarrow> True | Some f \<Rightarrow> IsAlways f")
    case True
    have "announce_on rule d" for d
      using True by (auto simp: announce_on_def IsAlways_def split: option.splits)
    then show ?thesis using c True assms(2) by (intro next_daily) auto
  next
    case False
    then obtain f where "ocr_WeekdayFilter rule = Some f" "\<not> IsAlways f" by (auto split: option.splits)
    then show ?thesis using c assms by (intro next_filtered) (auto simp: wf_notify_def IsNever_def)
  qed
qed

subsection \<open>What an update does\<close>

text \<open>Who should be on call, with those who may not taken out.\<close>

definition new_on_call :: "('u, 'j) updateInfo \<Rightarrow> 'u set \<Rightarrow> 'u set" where
  "new_on_call info latest = (case inf_EligibleUsers info of None \<Rightarrow> latest | Some el \<Rightarrow> latest \<inter> el)"

lemma calcUpdates_cases:
  assumes "calcUpdates uuid_parse apply_json info now = Inr (Inr res)"
  obtains l latest chans newRules upd where
    "inf_TimeZone info = Some l" "calcLatestOnCall uuid_parse info now = Inr latest"
    "notify_loop l now (new_on_call info latest \<noteq> inf_CurrentOnCall info)
       (dat_OnCallNotificationRules (inf_ScheduleData info)) = (chans, newRules, upd)"
    "res_ScheduleID res = inf_ScheduleID info"
    "res_UsersToStart res = new_on_call info latest - inf_CurrentOnCall info"
    "res_UsersToStop res = inf_CurrentOnCall info - new_on_call info latest"
    "res_NotificationChannels res = chans" "res_NewRawScheduleData res \<noteq> None \<longleftrightarrow> upd"
proof -
  from assms obtain l where l: "inf_TimeZone info = Some l"
    by (auto simp: calcUpdates_def split: option.splits)
  from assms l obtain latest where la: "calcLatestOnCall uuid_parse info now = Inr latest"
    by (auto simp: calcUpdates_def)
  obtain chans newRules upd where n: "notify_loop l now (new_on_call info latest \<noteq> inf_CurrentOnCall info)
       (dat_OnCallNotificationRules (inf_ScheduleData info)) = (chans, newRules, upd)"
    using prod_cases3 by blast
  show ?thesis
    using assms by (intro that [OF l la n])
      (auto simp: calcUpdates_def l la new_on_call_def [symmetric] n Let_def split: if_splits sum.splits)
qed

lemma notify_loop_quiet:
  assumes "\<forall>r \<in> set rules. ocr_Time r = None \<or> ocr_NextNotification r = nextOnCallNotification l now r"
    and "\<forall>r \<in> set rules. \<forall>n. ocr_Time r \<noteq> None \<longrightarrow> nextOnCallNotification l now r = Some n \<longrightarrow> now < n"
  shows "notify_loop l now False rules = ({}, rules, False)"
  using assms
proof (induction rules)
  case (Cons r rs)
  then have IH: "notify_loop l now False rs = ({}, rs, False)" by simp
  have eq: "equalTimePtr a a" for a by (auto simp: equalTimePtr_def split: option.splits)
  from Cons.prems IH eq show ?case by (auto split: option.splits)
qed simp

lemma notify_loop_rules:
  "notify_loop l now ch rules = (chans, rules', upd) \<Longrightarrow>
     rules' = map (\<lambda>r. if ocr_Time r = None then r else r\<lparr>ocr_NextNotification := nextOnCallNotification l now r\<rparr>) rules"
proof (induction rules arbitrary: chans rules' upd)
  case (Cons r rs)
  obtain c1 rs1 u1 where n: "notify_loop l now ch rs = (c1, rs1, u1)" using prod_cases3 by blast
  have same: "r\<lparr>ocr_NextNotification := b\<rparr> = r" if "equalTimePtr (ocr_NextNotification r) b" for b
    using that by (cases "ocr_NextNotification r"; cases b) (auto simp: equalTimePtr_def)
  show ?case using Cons.prems Cons.IH [OF n] same by (auto simp: n Let_def split: option.splits if_splits)
qed simp

lemma nextOnCall_ignores: "nextOnCallNotification l now (r\<lparr>ocr_NextNotification := x\<rparr>) = nextOnCallNotification l now r"
  by (cases "ocr_Time r") (simp_all add: nextOnCallNotification_def)

text \<open>The recorded users of a schedule after a list of statements.\<close>

fun apply_stmt :: "'u \<Rightarrow> 'u set \<Rightarrow> ('u, 'j) sched_stmt \<Rightarrow> 'u set" where
  "apply_stmt sid cur (StartOnCall s u) = (if s = sid then insert u cur else cur)"
| "apply_stmt sid cur (EndOnCall s u) = (if s = sid then cur - {u} else cur)"
| "apply_stmt sid cur _ = cur"

lemma apply_starts: "foldl (apply_stmt sid) cur (map (StartOnCall sid) us) = cur \<union> set us"
  by (induction us arbitrary: cur) auto

lemma apply_ends: "foldl (apply_stmt sid) cur (map (EndOnCall sid) us) = cur - set us"
  by (induction us arbitrary: cur) auto

lemma apply_messages: "foldl (apply_stmt sid) cur (map (\<lambda>c. InsertMessage c s) cs) = cur"
  by (induction cs arbitrary: cur) auto

lemma run_stmts_done: "(\<And>s. exec s = Done) \<Longrightarrow> run_stmts exec ss = Inr (ss, True)"
  by (induction ss) auto

lemma run_messages_done: "(\<And>s. exec s = Done) \<Longrightarrow> run_messages exec ss = Inr ss"
  by (induction ss) auto

lemma write_result_applied:
  assumes "\<And>s. exec s = Done" "set (elems (res_UsersToStart res)) = res_UsersToStart res"
    "set (elems (res_UsersToStop res)) = res_UsersToStop res"
  shows "\<exists>done. write_result elems exec res = Inr done
    \<and> foldl (apply_stmt (res_ScheduleID res)) cur done = (cur \<union> res_UsersToStart res) - res_UsersToStop res"
  using assms(2,3)
  by (auto simp: write_result_def Let_def run_stmts_done [OF assms(1)] run_messages_done [OF assms(1)]
      apply_starts apply_ends apply_messages split: option.splits)

subsection \<open>Properties\<close>

lemma calcLatestOnCall_finite:
  assumes "calcLatestOnCall uuid_parse info now = Inr latest"
  shows "finite latest"
proof -
  have ov: "finite (foldl apply_override A os)" if "finite A" for A :: "'a set" and os
    using that by (induction os arbitrary: A) (auto simp: apply_override_def split: option.splits)
  show ?thesis
    using assms ov by (auto simp: calcLatestOnCall_def split: prod.splits if_splits option.splits)
qed

lemma new_on_call_finite: "finite latest \<Longrightarrow> finite (new_on_call info latest)"
  by (auto simp: new_on_call_def split: option.splits)

definition sample_info :: "(nat, string) updateInfo" where
  "sample_info = \<lparr>inf_ScheduleID = 9, inf_TimeZone = Some (fixed_loc 0), inf_RawScheduleData = None,
     inf_ScheduleData = \<lparr>dat_TemporarySchedules = [], dat_OnCallNotificationRules = []\<rparr>,
     inf_CurrentOnCall = {5}, inf_Rules = [],
     inf_ActiveOverrides = [\<lparr>ovr_TgtScheduleID = 9, ovr_AddUserID = Some 1, ovr_RemoveUserID = None\<rparr>],
     inf_MissingUsers = None, inf_EligibleUsers = None\<rparr>"

definition sample_parse :: "string \<Rightarrow> string + nat" where
  "sample_parse s = Inr (length s)"

definition sample_apply :: "string option \<Rightarrow> nat Data \<Rightarrow> string + string" where
  "sample_apply j d = Inr ''j''"

definition sample_result :: "(nat, string) updateResult" where
  "sample_result = \<lparr>res_ScheduleID = 9, res_UsersToStart = {1}, res_UsersToStop = {5},
     res_NewRawScheduleData = None, res_NotificationChannels = {}\<rparr>"

lemma sample_latest: "calcLatestOnCall sample_parse sample_info 0 = Inr {1}"
  by (simp add: calcLatestOnCall_def sample_info_def TempOnCall_def apply_override_def)

lemma sample_updates: "calcUpdates sample_parse sample_apply sample_info 0 = Inr (Inr sample_result)"
  unfolding calcUpdates_def sample_latest by (auto simp: sample_info_def Let_def sample_result_def)



lemma wf_notify_time: "wf_notify r \<Longrightarrow> \<exists>c. ocr_Time r = Some c"
  by (auto simp: wf_notify_def split: option.splits)

lemma nextOnCall_later:
  assumes "wf_notify r" "nextOnCallNotification (fixed_loc off) now r = Some n"
  shows "now < n"
proof -
  from wf_notify_time [OF assms(1)] obtain c where c: "ocr_Time r = Some c" ..
  have "ocr_WeekdayFilter r \<noteq> Some neverDays"
    using assms(2) c by (auto simp: nextOnCallNotification_def IsNever_def IsAlways_def neverDays_def everyDay_def)
  from nextOnCallNotification_next [OF assms(1) c this, of off now] assms(2) show ?thesis by auto
qed




definition sample_notify :: "nat OnCallNotificationRule" where
  "sample_notify = \<lparr>ocr_ID = \<lparr>rid_scheduleID = 9, rid_id = 0, rid_valid = True\<rparr>, ocr_ChannelID = 3,
     ocr_Time = Some (9 * Hour), ocr_WeekdayFilter = Some [0, 1, 1, 1, 1, 1, 0], ocr_NextNotification = None\<rparr>"


text \<open>with the eligible users loaded for it, an update starts a user on a schedule only if the
  user's organization is the schedule's.\<close>

theorem update_starts_affiliated:
  assumes "eligible_users uuid_parse nil affiliation schedules info0 now = Inr el"
    and "calcUpdates uuid_parse apply_json (info0\<lparr>inf_EligibleUsers := Some el\<rparr>) now = Inr (Inr res)"
    and "u \<in> res_UsersToStart res" "schedules (inf_ScheduleID info0) = Some org"
  shows "org \<noteq> nil \<and> affiliation u = Some org"
proof -
  let ?info = "info0\<lparr>inf_EligibleUsers := Some el\<rparr>"
  from assms(2) obtain latest where "res_UsersToStart res = new_on_call ?info latest - inf_CurrentOnCall ?info"
    by (rule calcUpdates_cases)
  with assms(3) have "u \<in> el" by (auto simp: new_on_call_def)
  with assms(1,4) show ?thesis by (auto simp: eligible_users_def split: option.splits)
qed

theorem update_starts_affiliated_witness:
  "eligible_users sample_parse 0 (\<lambda>u. Some 4) (\<lambda>s. Some 4) sample_info 0 = Inr {1}
   \<and> (\<exists>res. calcUpdates sample_parse sample_apply (sample_info\<lparr>inf_EligibleUsers := Some {1}\<rparr>) 0 = Inr (Inr res)
        \<and> 1 \<in> res_UsersToStart res \<and> (4 :: nat) \<noteq> 0)"
proof -
  have e: "eligible_users sample_parse 0 (\<lambda>u. Some 4) (\<lambda>s. Some 4) sample_info 0 = Inr {1}"
    by (simp add: eligible_users_def sample_latest)
  have la: "calcLatestOnCall sample_parse (sample_info\<lparr>inf_EligibleUsers := Some {1}\<rparr>) 0 = Inr {1}"
    by (simp add: calcLatestOnCall_def sample_info_def TempOnCall_def apply_override_def)
  have "calcUpdates sample_parse sample_apply (sample_info\<lparr>inf_EligibleUsers := Some {1}\<rparr>) 0 = Inr (Inr sample_result)"
    unfolding calcUpdates_def la by (auto simp: sample_info_def Let_def sample_result_def)
  moreover have "1 \<in> res_UsersToStart sample_result" by (simp add: sample_result_def)
  ultimately show ?thesis
    using update_starts_affiliated [OF e, of sample_apply sample_result 1 4] e by auto
qed

end
