(* ===== verification/TimeIter.thy ===== *)
theory TimeIter
  imports GoTime
begin

section \<open>Iterating over time: oncall/timeiterator.go\<close>

text \<open>
  A \<open>TimeIterator\<close> walks from a start to an end.  At every timestamp it calls its registered
  sub-iterators in order, and each may name the next timestamp it needs, so that the iterator can
  jump.  The sub-iterators are objects in a heap, known by their addresses; the interface
  \<open>SubIterator\<close> is the pair of functions \<open>Process\<close> (which may change the heap) and \<open>StartUnix\<close>
  (\<open>None\<close> for an object that is not \<open>Startable\<close>).
\<close>

record TimeIterator =
  ti_t :: int
  ti_start :: int
  ti_end :: int
  ti_step :: int
  ti_nextStep :: int
  ti_init :: bool
  ti_sub :: "nat list"

definition NewTimeIterator :: "instant \<Rightarrow> instant \<Rightarrow> duration \<Rightarrow> TimeIterator" where
  "NewTimeIterator start end step0 =
     (let step = Duration_Truncate step0 Second;
          stepUnix = step sdiv Second;
          start = Truncate start step;
          end = Truncate end step
      in \<lparr>ti_t = 0, ti_start = Unix start, ti_end = Unix end, ti_step = stepUnix, ti_nextStep = Unix start,
          ti_init = False, ti_sub = []\<rparr>)"

definition iter_Register :: "nat \<Rightarrow> TimeIterator \<Rightarrow> TimeIterator" where
  "iter_Register a iter = iter\<lparr>ti_sub := ti_sub iter @ [a]\<rparr>"

definition iter_Start :: "TimeIterator \<Rightarrow> instant" where "iter_Start iter = ti_start iter * Second"
definition iter_End :: "TimeIterator \<Rightarrow> instant" where "iter_End iter = ti_end iter * Second"
definition iter_Step :: "TimeIterator \<Rightarrow> duration" where "iter_Step iter = Second * ti_step iter"

text \<open>The loop over the \<open>Startable\<close> sub-iterators before the first step.\<close>

fun start_loop :: "(nat \<Rightarrow> int option) \<Rightarrow> int \<Rightarrow> nat list \<Rightarrow> int \<Rightarrow> int outcome" where
  "start_loop StartUnix step [] start = Inr start"
| "start_loop StartUnix step (s # subs) start =
     (case StartUnix s of
        None \<Rightarrow> start_loop StartUnix step subs start
      | Some st \<Rightarrow>
          if step = 0 then Inl (Panic ''runtime error: integer divide by zero'')
          else (let st = st - st smod step
                in start_loop StartUnix step subs (if st \<noteq> 0 \<and> st < start then st else start)))"

text \<open>The loop over the sub-iterators at one timestamp; the accumulator is \<open>iter.nextStep\<close>.\<close>

fun sub_loop ::
  "(nat \<Rightarrow> int \<Rightarrow> 'h \<Rightarrow> (int \<times> 'h) outcome) \<Rightarrow> int \<Rightarrow> int \<Rightarrow> nat list \<Rightarrow> int \<Rightarrow> 'h \<Rightarrow> (int \<times> 'h) outcome" where
  "sub_loop Process t end [] nextStep h = Inr (nextStep, h)"
| "sub_loop Process t end (s # subs) nextStep h =
     obind (Process s t h) (\<lambda>(n, h).
       if n > 0 \<and> n \<le> t then Inl (Panic ''nextStep was not in the future'')
       else
         (let n = (if n = -1 then end else n)
          in sub_loop Process t end subs
               (if nextStep = 0 then n else if n > 0 \<and> n < nextStep then n else nextStep) h))"

definition iter_Next ::
  "('h \<Rightarrow> nat \<Rightarrow> int option) \<Rightarrow> (nat \<Rightarrow> int \<Rightarrow> 'h \<Rightarrow> (int \<times> 'h) outcome) \<Rightarrow> TimeIterator \<Rightarrow> 'h
     \<Rightarrow> (bool \<times> TimeIterator \<times> 'h) outcome" where
  "iter_Next StartUnix Process iter h =
     obind (if \<not> ti_init iter
            then obind (start_loop (StartUnix h) (ti_step iter) (ti_sub iter) (ti_start iter)) (\<lambda>start.
              Inr (iter\<lparr>ti_start := start, ti_nextStep := start, ti_init := True\<rparr>))
            else Inr iter) (\<lambda>iter.
       if ti_t iter \<ge> ti_end iter then Inr (False, iter, h)
       else
         (let t = ti_nextStep iter
          in obind (sub_loop Process t (ti_end iter) (ti_sub iter) 0 h) (\<lambda>(nextStep, h).
               Inr (True,
                 iter\<lparr>ti_t := t,
                   ti_nextStep := (if nextStep = 0 then t + ti_step iter
                                   else if nextStep > ti_end iter then ti_end iter else nextStep)\<rparr>, h))))"

text \<open>Calling \<open>Next\<close> until it returns false: the timestamps visited, each with the heap there.\<close>

fun iter_run ::
  "nat \<Rightarrow> ('h \<Rightarrow> nat \<Rightarrow> int option) \<Rightarrow> (nat \<Rightarrow> int \<Rightarrow> 'h \<Rightarrow> (int \<times> 'h) outcome) \<Rightarrow> TimeIterator \<Rightarrow> 'h
     \<Rightarrow> (int \<times> 'h) list option outcome" where
  "iter_run 0 StartUnix Process iter h = Inr None"
| "iter_run (Suc n) StartUnix Process iter h =
     obind (iter_Next StartUnix Process iter h) (\<lambda>(more, iter, h).
       if \<not> more then Inr (Some [])
       else obind (iter_run n StartUnix Process iter h) (\<lambda>rest.
              Inr (case rest of None \<Rightarrow> None | Some tr \<Rightarrow> Some ((ti_t iter, h) # tr))))"

subsection \<open>What a sub-iterator promises\<close>

text \<open>
  \<open>due h a\<close> is the timestamp the sub-iterator \<open>a\<close> waits for, if any.  Called at a timestamp no later
  than that, it returns the next one it needs, which is later, and touches no other.
\<close>

locale sub_iterator =
  fixes Process :: "nat \<Rightarrow> int \<Rightarrow> 'h \<Rightarrow> (int \<times> 'h) outcome"
    and StartUnix :: "'h \<Rightarrow> nat \<Rightarrow> int option"
    and due :: "'h \<Rightarrow> nat \<Rightarrow> int option"
    and ok :: "nat list \<Rightarrow> 'h \<Rightarrow> bool"
    and step :: int
  assumes Process_ok: "ok subs h \<Longrightarrow> a \<in> set subs \<Longrightarrow> 0 < t \<Longrightarrow> (\<And>d. due h a = Some d \<Longrightarrow> t \<le> d) \<Longrightarrow>
      \<exists>n h'. Process a t h = Inr (n, h') \<and> ok subs h' \<and> (\<forall>b. b \<noteq> a \<longrightarrow> due h' b = due h b)
        \<and> (case due h' a of Some d \<Rightarrow> t < d \<and> n = d | None \<Rightarrow> n = -1 \<or> n = 0)"
    and StartUnix_due: "ok subs h \<Longrightarrow> a \<in> set subs \<Longrightarrow> due h a = Some d \<Longrightarrow> StartUnix h a = Some d"
    and StartUnix_step: "ok subs h \<Longrightarrow> a \<in> set subs \<Longrightarrow> StartUnix h a = Some d \<Longrightarrow> 0 \<le> d \<and> step dvd d"
begin

definition due_after :: "nat list \<Rightarrow> int \<Rightarrow> 'h \<Rightarrow> bool" where
  "due_after subs t h \<longleftrightarrow> (\<forall>a \<in> set subs. \<forall>d. due h a = Some d \<longrightarrow> t < d)"

lemma start_loop_ok:
  assumes "ok subs h" "set xs \<subseteq> set subs" "0 < step" "0 < start" "step dvd start"
  shows "\<exists>s. start_loop (StartUnix h) step xs start = Inr s \<and> 0 < s \<and> s \<le> start \<and> step dvd s
    \<and> (\<forall>a \<in> set xs. \<forall>d. StartUnix h a = Some d \<longrightarrow> d = 0 \<or> s \<le> d)"
  using assms(2,4,5)
proof (induction xs arbitrary: start)
  case Nil
  then show ?case by simp
next
  case (Cons a xs)
  show ?case
  proof (cases "StartUnix h a")
    case None
    with Cons show ?thesis by simp
  next
    case (Some d)
    then have d: "0 \<le> d" "step dvd d" using StartUnix_step [OF assms(1)] Cons.prems(1) by auto
    then have "d smod step = 0" using assms(3) by (simp add: signed_modulo_int_def sgn_if)
    define st where "st = (if d \<noteq> 0 \<and> d < start then d else start)"
    have st: "0 < st" "step dvd st" "st \<le> start" "d = 0 \<or> st \<le> d" using Cons.prems d by (auto simp: st_def)
    have l: "start_loop (StartUnix h) step (a # xs) start = start_loop (StartUnix h) step xs st"
      using Some assms(3) \<open>d smod step = 0\<close> by (simp add: st_def)
    from Cons.IH [of st] Cons.prems(1) st obtain s where
      s: "start_loop (StartUnix h) step xs st = Inr s" "0 < s" "s \<le> st" "step dvd s"
        "\<forall>a \<in> set xs. \<forall>d. StartUnix h a = Some d \<longrightarrow> d = 0 \<or> s \<le> d" by auto
    then show ?thesis unfolding l using Some st by auto
  qed
qed

lemma sub_loop_ok:
  assumes "ok subs h" "set xs \<subseteq> set subs" "distinct xs" "0 < t" "0 < end" "0 \<le> ns"
    and "\<And>a d. a \<in> set xs \<Longrightarrow> due h a = Some d \<Longrightarrow> t \<le> d"
  shows "\<exists>ns' h'. sub_loop Process t end xs ns h = Inr (ns', h') \<and> ok subs h' \<and> 0 \<le> ns'
    \<and> (\<forall>b. b \<notin> set xs \<longrightarrow> due h' b = due h b)
    \<and> (\<forall>a \<in> set xs. \<forall>d. due h' a = Some d \<longrightarrow> t < d \<and> 0 < ns' \<and> ns' \<le> d)
    \<and> (0 < ns \<longrightarrow> 0 < ns' \<and> ns' \<le> ns)
    \<and> (ns' = 0 \<or> ns' = ns \<or> ns' = end \<or> (\<exists>a \<in> set xs. due h' a = Some ns'))"
  using assms(1-3,6,7)
proof (induction xs arbitrary: h ns)
  case Nil
  then show ?case by simp
next
  case (Cons a xs)
  from Process_ok [OF Cons.prems(1), of a t] Cons.prems(2,5) assms(4) obtain n h1 where
    p: "Process a t h = Inr (n, h1)" "ok subs h1" "\<forall>b. b \<noteq> a \<longrightarrow> due h1 b = due h b"
      "case due h1 a of Some d \<Rightarrow> t < d \<and> n = d | None \<Rightarrow> n = -1 \<or> n = 0" by auto
  define m where "m = (if n = -1 then end else n)"
  define ns1 where "ns1 = (if ns = 0 then m else if m > 0 \<and> m < ns then m else ns)"
  have n: "\<not> (n > 0 \<and> n \<le> t)" using p(4) by (auto split: option.splits)
  have m: "0 \<le> m" "m = 0 \<or> m = end \<or> due h1 a = Some m" "\<And>d. due h1 a = Some d \<Longrightarrow> m = d \<and> t < d"
    using p(4) assms(4,5) by (auto simp: m_def split: option.splits)
  have l: "sub_loop Process t end (a # xs) ns h = sub_loop Process t end xs ns1 h1"
    by (simp only: sub_loop.simps p(1) obind_simps prod.case if_not_P [OF n] m_def [symmetric] ns1_def [symmetric] Let_def)
  have ns1: "0 \<le> ns1" "0 < ns \<longrightarrow> 0 < ns1 \<and> ns1 \<le> ns" "ns1 = 0 \<or> ns1 = ns \<or> ns1 = m" "0 < m \<longrightarrow> 0 < ns1 \<and> ns1 \<le> m"
    using m(1) Cons.prems(4) by (auto simp: ns1_def)
  have "t \<le> d" if "b \<in> set xs" "due h1 b = Some d" for b d
    using that p(3) Cons.prems(3,5) by (metis distinct.simps(2) list.set_intros(2))
  with Cons.IH [OF p(2), of ns1] Cons.prems(2,3) ns1(1) obtain ns' h' where
    i: "sub_loop Process t end xs ns1 h1 = Inr (ns', h')" "ok subs h'" "0 \<le> ns'"
      "\<forall>b. b \<notin> set xs \<longrightarrow> due h' b = due h1 b" "\<forall>a \<in> set xs. \<forall>d. due h' a = Some d \<longrightarrow> t < d \<and> 0 < ns' \<and> ns' \<le> d"
      "0 < ns1 \<longrightarrow> 0 < ns' \<and> ns' \<le> ns1" "ns' = 0 \<or> ns' = ns1 \<or> ns' = end \<or> (\<exists>a \<in> set xs. due h' a = Some ns')" by auto
  have a: "due h' a = due h1 a" using i(4) Cons.prems(3) by simp
  have "t < d \<and> 0 < ns' \<and> ns' \<le> d" if "due h' a = Some d" for d
    using m(3) [of d] that a ns1(4) i(6) assms(4) by auto
  moreover have "ns' = 0 \<or> ns' = ns \<or> ns' = end \<or> (\<exists>b \<in> set (a # xs). due h' b = Some ns')"
    using i(7) ns1(3) m(2) a by auto
  ultimately show ?case unfolding l using i ns1(2) p(3)
    by (intro exI [of _ ns'] exI [of _ h']) auto
qed

text \<open>The iterator about to visit \<open>\<tau>\<close>, which no sub-iterator needs to be earlier.\<close>

definition about_to :: "nat list \<Rightarrow> int \<Rightarrow> int \<Rightarrow> TimeIterator \<Rightarrow> 'h \<Rightarrow> bool" where
  "about_to subs end \<tau> iter h \<longleftrightarrow> ti_sub iter = subs \<and> ti_init iter \<and> ti_step iter = step \<and> ti_end iter = end
     \<and> ti_nextStep iter = \<tau> \<and> 0 < \<tau> \<and> \<tau> \<le> end \<and> step dvd \<tau> \<and> ti_t iter < end \<and> ok subs h
     \<and> (\<forall>a \<in> set subs. \<forall>d. due h a = Some d \<longrightarrow> \<tau> \<le> d)"

lemma Next_about:
  assumes "about_to subs end \<tau> iter h" "distinct subs" "0 < step" "step dvd end"
  shows "\<exists>iter' ns h'. iter_Next StartUnix Process iter h = Inr (True, iter', h') \<and> ti_t iter' = \<tau>
    \<and> sub_loop Process \<tau> end subs 0 h = Inr (ns, h') \<and> due_after subs \<tau> h' \<and> ti_init iter' \<and> ti_end iter' = end
    \<and> (\<tau> < end \<longrightarrow> (\<exists>\<tau>'. \<tau> < \<tau>' \<and> about_to subs end \<tau>' iter' h'))"
proof -
  from assms(1) have i: "ti_sub iter = subs" "ti_init iter" "ti_step iter = step" "ti_end iter = end" "ti_nextStep iter = \<tau>"
    "0 < \<tau>" "\<tau> \<le> end" "step dvd \<tau>" "ti_t iter < end" "ok subs h" "\<And>a d. a \<in> set subs \<Longrightarrow> due h a = Some d \<Longrightarrow> \<tau> \<le> d"
    by (auto simp: about_to_def)
  from sub_loop_ok [OF i(10) order.refl assms(2) i(6), of "end" 0] i(6,7,11) obtain ns h' where
    s: "sub_loop Process \<tau> end subs 0 h = Inr (ns, h')" "ok subs h'" "0 \<le> ns"
      "\<forall>a \<in> set subs. \<forall>d. due h' a = Some d \<longrightarrow> \<tau> < d \<and> 0 < ns \<and> ns \<le> d"
      "ns = 0 \<or> ns = end \<or> (\<exists>a \<in> set subs. due h' a = Some ns)" by auto
  define \<tau>' where "\<tau>' = (if ns = 0 then \<tau> + step else if ns > end then end else ns)"
  let ?iter = "iter\<lparr>ti_t := \<tau>, ti_nextStep := \<tau>'\<rparr>"
  have n: "iter_Next StartUnix Process iter h = Inr (True, ?iter, h')"
    using i s(1) by (simp add: iter_Next_def \<tau>'_def Let_def)
  have "about_to subs end \<tau>' ?iter h' \<and> \<tau> < \<tau>'" if lt: "\<tau> < end"
  proof (cases "ns = 0")
    case True
    have "\<tau> + step \<le> end" using lt i(8) assms(3,4) by (metis add.commute dvd_diff zdvd_imp_le diff_gt_0_iff_gt le_diff_eq)
    then show ?thesis unfolding about_to_def using i s True assms(3) lt by (auto simp: \<tau>'_def)
  next
    case False
    have d: "step dvd ns \<and> \<tau> < ns" if "\<exists>a \<in> set subs. due h' a = Some ns"
      using that StartUnix_due [OF s(2)] StartUnix_step [OF s(2)] s(4) by blast
    have "\<tau> < \<tau>'" "\<tau>' \<le> end" "step dvd \<tau>'" using False s(5) lt d assms(4) by (auto simp: \<tau>'_def)
    moreover have "\<forall>a \<in> set subs. \<forall>d. due h' a = Some d \<longrightarrow> \<tau>' \<le> d"
      using s(4) False by (force simp: \<tau>'_def)
    ultimately show ?thesis unfolding about_to_def using i s lt by auto
  qed
  with n s i show ?thesis unfolding due_after_def by (intro exI [of _ ?iter] exI [of _ ns] exI [of _ h']) auto
qed

text \<open>
  A complete trace from \<open>\<tau>\<close>: strictly increasing timestamps up to the end, each heap the result of
  processing there, and nothing due between one timestamp and the next.
\<close>

fun trace_ok :: "nat list \<Rightarrow> int \<Rightarrow> int \<Rightarrow> 'h \<Rightarrow> (int \<times> 'h) list \<Rightarrow> bool" where
  "trace_ok subs end \<tau> h0 [] = False"
| "trace_ok subs end \<tau> h0 ((t, h) # rest) \<longleftrightarrow>
     t = \<tau> \<and> (\<forall>a \<in> set subs. \<forall>d. due h0 a = Some d \<longrightarrow> t \<le> d)
     \<and> (\<exists>ns. sub_loop Process t end subs 0 h0 = Inr (ns, h)) \<and> ok subs h0 \<and> due_after subs t h
     \<and> (case rest of [] \<Rightarrow> t = end | (t', h') # _ \<Rightarrow> t < t' \<and> t' \<le> end \<and> trace_ok subs end t' h rest)"

lemma iter_run_about:
  assumes "about_to subs end \<tau> iter h" "distinct subs" "0 < step" "step dvd end" "nat (end - \<tau>) + 1 < n"
  shows "\<exists>tr. iter_run n StartUnix Process iter h = Inr (Some tr) \<and> trace_ok subs end \<tau> h tr"
  using assms(1,5)
proof (induction n arbitrary: \<tau> iter h)
  case 0
  then show ?case by simp
next
  case (Suc n)
  have b: "ok subs h" "\<forall>a \<in> set subs. \<forall>d. due h a = Some d \<longrightarrow> \<tau> \<le> d" "\<tau> \<le> end"
    using Suc.prems(1) by (auto simp: about_to_def)
  from Next_about [OF Suc.prems(1) assms(2-4)] obtain iter' ns h' where
    x: "iter_Next StartUnix Process iter h = Inr (True, iter', h')" "ti_t iter' = \<tau>"
      "sub_loop Process \<tau> end subs 0 h = Inr (ns, h')" "due_after subs \<tau> h'" "ti_init iter'" "ti_end iter' = end"
      "\<tau> < end \<longrightarrow> (\<exists>\<tau>'. \<tau> < \<tau>' \<and> about_to subs end \<tau>' iter' h')" by auto
  show ?case
  proof (cases "\<tau> < end")
    case True
    with x(7) obtain \<tau>' where t': "\<tau> < \<tau>'" "about_to subs end \<tau>' iter' h'" by blast
    then have "\<tau>' \<le> end" by (simp add: about_to_def)
    have "nat (end - \<tau>') < nat (end - \<tau>)" using t'(1) True by simp
    then have "nat (end - \<tau>') + 1 < n" using Suc.prems(2) by linarith
    from Suc.IH [OF t'(2) this] obtain tr where
      tr: "iter_run n StartUnix Process iter' h' = Inr (Some tr)" "trace_ok subs end \<tau>' h' tr" by blast
    then obtain h2 rest where "tr = (\<tau>', h2) # rest" by (cases tr) auto
    with tr x b t' \<open>\<tau>' \<le> end\<close> show ?thesis by auto
  next
    case False
    then have "\<tau> = end" using b(3) by simp
    obtain m where m: "n = Suc m" using Suc.prems(2) by (cases n) auto
    have "iter_run n StartUnix Process iter' h' = Inr (Some [])"
      using x(2,5,6) \<open>\<tau> = end\<close> by (simp add: m iter_Next_def)
    with x b \<open>\<tau> = end\<close> show ?thesis by auto
  qed
qed

text \<open>
  From the first call of \<open>Next\<close> on: the iteration ends, does not panic, and starts no later than
  anything a sub-iterator is waiting for.
\<close>

theorem iter_run_complete:
  assumes "ok (ti_sub iter) h" "distinct (ti_sub iter)" "0 < step" "ti_step iter = step" "\<not> ti_init iter"
    and "0 < ti_start iter" "step dvd ti_start iter" "step dvd ti_end iter" "ti_start iter \<le> ti_end iter" "ti_t iter < ti_end iter"
    and "\<And>a d. a \<in> set (ti_sub iter) \<Longrightarrow> due h a = Some d \<Longrightarrow> 0 < d" and "nat (ti_end iter) + 2 < n"
  shows "\<exists>\<tau> tr. iter_run n StartUnix Process iter h = Inr (Some tr) \<and> \<tau> \<le> ti_start iter \<and> 0 < \<tau>
    \<and> trace_ok (ti_sub iter) (ti_end iter) \<tau> h tr"
proof -
  from start_loop_ok [OF assms(1) order.refl assms(3,6,7)] obtain \<tau> where
    s: "start_loop (StartUnix h) step (ti_sub iter) (ti_start iter) = Inr \<tau>" "0 < \<tau>" "\<tau> \<le> ti_start iter" "step dvd \<tau>"
      "\<forall>a \<in> set (ti_sub iter). \<forall>d. StartUnix h a = Some d \<longrightarrow> d = 0 \<or> \<tau> \<le> d" by blast
  let ?iter = "iter\<lparr>ti_start := \<tau>, ti_nextStep := \<tau>, ti_init := True\<rparr>"
  have "about_to (ti_sub iter) (ti_end iter) \<tau> ?iter h"
    unfolding about_to_def using assms s StartUnix_due [OF assms(1)] by fastforce
  moreover have "iter_Next StartUnix Process iter h = iter_Next StartUnix Process ?iter h"
    using assms(4,5) s(1) by (simp add: iter_Next_def)
  then have "iter_run n StartUnix Process iter h = iter_run n StartUnix Process ?iter h" by (cases n) simp_all
  moreover have "nat (ti_end iter - \<tau>) \<le> nat (ti_end iter)" using s(2) by (intro nat_mono) simp
  then have "nat (ti_end iter - \<tau>) + 1 < n" using assms(12) by linarith
  ultimately show ?thesis
    using iter_run_about [of "ti_sub iter" "ti_end iter" \<tau> ?iter h n] assms(2,3,8) s(2,3) by auto
qed

end

end
