(* ===== verification/OnCall.thy ===== *)
theory OnCall
  imports TimeIter Rule Rotation TempSchedule
begin

section \<open>Calculating shifts: package oncall\<close>

text \<open>
  The calculators of the package are sub-iterators that refer to each other by pointer.  They are
  objects in a heap, a list whose positions are the addresses; a \<open>world\<close> is the iterator they are
  registered with and the heap.  \<open>sort.Slice\<close> is modelled by a stable sort: what it sorts here is
  then registered under distinct keys or compared again, and the result sorted by a total order.  The
  order in which Go iterates over the map of a \<open>UserCalculator\<close> is a parameter.  A scratch slice
  that \<open>MapUsers\<close> reuses between calls is not part of the state.
\<close>

subsection \<open>The objects\<close>

record ActiveCalculator =
  act_states :: "(int \<times> bool) list"
  act_init :: bool
  act_active :: "int \<times> bool"
  act_changed :: bool

record UserCalculator =
  usr_m :: "(string \<times> nat) list"
  usr_calc :: "(string \<times> nat) list"
  usr_init :: bool
  usr_active :: "string list"
  usr_changed :: bool

record ResolvedRotation =
  rr_Rotation :: Rotation
  rr_CurrentIndex :: int
  rr_CurrentStart :: instant
  rr_CurrentEnd :: instant
  rr_Users :: "string list"

text \<open>A rule with the address of its rotation, if it has one; rules may share a rotation.\<close>

record ResolvedRule =
  rsr_Rule :: Rule
  rsr_Rotation :: "nat option"

record SingleRuleCalculator =
  src_act :: nat
  src_rot :: "nat option"
  src_rule :: ResolvedRule
  src_userID :: string
  src_changed :: bool

record RulesCalculator =
  rc_rules :: "nat list"
  rc_userIDs :: "string list"
  rc_changed :: bool

record OverrideCalculator =
  oc_add :: nat
  oc_remove :: nat
  oc_replace :: nat
  oc_userMap :: "string \<rightharpoonup> string"

datatype obj =
    ActObj ActiveCalculator
  | UserObj UserCalculator
  | SingleObj SingleRuleCalculator
  | RulesObj RulesCalculator
  | OverObj OverrideCalculator

record world =
  w_iter :: TimeIterator
  w_heap :: "obj list"

definition empty_act :: ActiveCalculator where
  "empty_act = \<lparr>act_states = [], act_init = False, act_active = (0, False), act_changed = False\<rparr>"

definition empty_usr :: UserCalculator where
  "empty_usr = \<lparr>usr_m = [], usr_calc = [], usr_init = False, usr_active = [], usr_changed = False\<rparr>"

definition get_act :: "obj list \<Rightarrow> nat \<Rightarrow> ActiveCalculator" where
  "get_act h a = (case h ! a of ActObj x \<Rightarrow> x | _ \<Rightarrow> empty_act)"

definition get_usr :: "obj list \<Rightarrow> nat \<Rightarrow> UserCalculator" where
  "get_usr h a = (case h ! a of UserObj x \<Rightarrow> x | _ \<Rightarrow> empty_usr)"

definition alloc :: "obj \<Rightarrow> world \<Rightarrow> nat \<times> world" where
  "alloc x w = (length (w_heap w), w\<lparr>w_heap := w_heap w @ [x]\<rparr>)"

definition put :: "nat \<Rightarrow> obj \<Rightarrow> world \<Rightarrow> world" where
  "put a x w = w\<lparr>w_heap := (w_heap w)[a := x]\<rparr>"

definition register :: "nat \<Rightarrow> world \<Rightarrow> world" where
  "register a w = w\<lparr>w_iter := iter_Register a (w_iter w)\<rparr>"

subsection \<open>ActiveCalculator: activecalculator.go\<close>

definition NewActiveCalculator :: "world \<Rightarrow> nat \<times> world" where
  "NewActiveCalculator w = (let (a, w) = alloc (ActObj empty_act) w in (a, register a w))"

definition act_StartUnix :: "ActiveCalculator \<Rightarrow> int" where
  "act_StartUnix act = (case act_states act of [] \<Rightarrow> 0 | (T, _) # _ \<Rightarrow> T)"

definition act_Init :: "ActiveCalculator \<Rightarrow> ActiveCalculator" where
  "act_Init act = (if act_init act then act else act\<lparr>act_init := True\<rparr>)"

definition act_set :: "instant \<Rightarrow> bool \<Rightarrow> ActiveCalculator \<Rightarrow> ActiveCalculator outcome" where
  "act_set t isStart act =
     (let tid = Unix t; states = act_states act
      in if states = [] \<and> \<not> isStart then Inl (Panic ''end registered before start'')
         else if states \<noteq> [] \<and> isStart = snd (last states) then Inl (Panic ''must not overlap shifts'')
         else if states \<noteq> [] \<and> isStart \<and> tid = fst (last states) then Inr (act\<lparr>act_states := butlast states\<rparr>)
         else if states \<noteq> [] \<and> tid \<le> fst (last states) then Inl (Panic ''shifts must be registered in order'')
         else Inr (act\<lparr>act_states := states @ [(tid, isStart)]\<rparr>))"

definition act_SetSpan :: "TimeIterator \<Rightarrow> instant \<Rightarrow> instant \<Rightarrow> ActiveCalculator \<Rightarrow> ActiveCalculator outcome" where
  "act_SetSpan iter start0 end0 act =
     (if act_init act then Inl (Panic ''cannot add spans after Init'')
      else
        (let start = Truncate start0 (iter_Step iter);
             end = Truncate end0 (iter_Step iter)
         in if \<not> start < end then Inr act
            else if \<not> iter_Start iter < end then Inr act
            else if \<not> start < iter_End iter then Inr act
            else obind (act_set start True act) (act_set end False)))"

definition act_Process :: "int \<Rightarrow> ActiveCalculator \<Rightarrow> (int \<times> ActiveCalculator) outcome" where
  "act_Process t act =
     (if \<not> act_init act then Inl (Panic ''Init never called'')
      else case act_states act of
             [] \<Rightarrow> Inr (-1, act\<lparr>act_changed := False\<rparr>)
           | val # rest \<Rightarrow>
               if fst val = t then
                 Inr (case rest of [] \<Rightarrow> -1 | next # _ \<Rightarrow> fst next,
                      act\<lparr>act_changed := True, act_active := val, act_states := rest\<rparr>)
               else Inr (fst val, act\<lparr>act_changed := False\<rparr>))"

definition act_Active :: "ActiveCalculator \<Rightarrow> bool" where
  "act_Active act = snd (act_active act)"

subsection \<open>UserCalculator: usercalculator.go\<close>

definition NewUserCalculator :: "world \<Rightarrow> nat \<times> world" where
  "NewUserCalculator w = alloc (UserObj empty_usr) w"

fun init_acts :: "(string \<times> nat) list \<Rightarrow> world \<Rightarrow> world" where
  "init_acts [] w = w"
| "init_acts ((i, a) # cs) w = init_acts cs (put a (ActObj (act_Init (get_act (w_heap w) a))) w)"

definition usr_Init :: "((string \<times> nat) list \<Rightarrow> (string \<times> nat) list) \<Rightarrow> nat \<Rightarrow> world \<Rightarrow> world" where
  "usr_Init ord u w =
     (let usr = get_usr (w_heap w) u
      in if usr_init usr then w
         else
           (let calc = ord (usr_m usr);
                w = register u (init_acts calc w)
            in put u (UserObj (usr\<lparr>usr_calc := calc, usr_init := True\<rparr>)) w))"

definition usr_SetSpan :: "nat \<Rightarrow> instant \<Rightarrow> instant \<Rightarrow> string \<Rightarrow> world \<Rightarrow> world outcome" where
  "usr_SetSpan u start end uid w =
     (let usr = get_usr (w_heap w) u
      in if usr_init usr then Inl (Panic ''cannot call SetSpan after init'')
         else
           (let (c, w) = (case map_of (usr_m usr) uid of
                            Some c \<Rightarrow> (c, w)
                          | None \<Rightarrow>
                              (let (c, w) = NewActiveCalculator w
                               in (c, put u (UserObj (usr\<lparr>usr_m := usr_m usr @ [(uid, c)]\<rparr>)) w)))
            in obind (act_SetSpan (w_iter w) start end (get_act (w_heap w) c)) (\<lambda>act.
                 Inr (put c (ActObj act) w))))"

definition omitStr :: "string list \<Rightarrow> string \<Rightarrow> string list" where
  "omitStr s val = remove1 val s"

fun usr_loop :: "obj list \<Rightarrow> (string \<times> nat) list \<Rightarrow> bool \<Rightarrow> string list \<Rightarrow> bool \<times> string list" where
  "usr_loop h [] changed active = (changed, active)"
| "usr_loop h ((i, c) # cs) changed active =
     (let act = get_act h c
      in if \<not> act_changed act then usr_loop h cs changed active
         else usr_loop h cs True (if act_Active act then active @ [i] else omitStr active i))"

definition usr_Process :: "obj list \<Rightarrow> UserCalculator \<Rightarrow> (int \<times> UserCalculator) outcome" where
  "usr_Process h u =
     (if \<not> usr_init u then Inl (Panic ''init was never called'')
      else if usr_calc u = [] then Inr (-1, u)
      else (let (changed, active) = usr_loop h (usr_calc u) False (usr_active u)
            in Inr (0, u\<lparr>usr_changed := changed, usr_active := active\<rparr>)))"

subsection \<open>Who a rotation has on call: state.go\<close>

definition index_user :: "string list \<Rightarrow> int \<Rightarrow> string outcome" where
  "index_user users i =
     (if 0 \<le> i \<and> i < int (length users) then Inr (users ! nat i)
      else Inl (Panic ''runtime error: index out of range''))"

text \<open>
  The loops that move the current shift forward and backward until it contains \<open>t\<close>.  They have no
  limit: \<open>None\<close> is a loop that does not end.
\<close>

partial_function (option) rr_forward :: "instant \<Rightarrow> ResolvedRotation \<Rightarrow> ResolvedRotation outcome option" where
  [code]: "rr_forward t r =
     (if \<not> t < rr_CurrentEnd r
      then if isl (Rotation_EndTime (rr_Rotation r) (rr_CurrentEnd r))
           then Some (Inl (projl (Rotation_EndTime (rr_Rotation r) (rr_CurrentEnd r))))
           else rr_forward t (r\<lparr>rr_CurrentStart := rr_CurrentEnd r,
                  rr_CurrentEnd := projr (Rotation_EndTime (rr_Rotation r) (rr_CurrentEnd r)),
                  rr_CurrentIndex := rr_CurrentIndex r + 1\<rparr>)
      else Some (Inr r))"

partial_function (option) rr_backward :: "instant \<Rightarrow> ResolvedRotation \<Rightarrow> ResolvedRotation outcome option" where
  [code]: "rr_backward t r =
     (if t < rr_CurrentStart r
      then if isl (Rotation_StartTime (rr_Rotation r) (rr_CurrentStart r - 1))
           then Some (Inl (projl (Rotation_StartTime (rr_Rotation r) (rr_CurrentStart r - 1))))
           else rr_backward t (r\<lparr>rr_CurrentEnd := rr_CurrentStart r,
                  rr_CurrentStart := projr (Rotation_StartTime (rr_Rotation r) (rr_CurrentStart r - 1)),
                  rr_CurrentIndex := rr_CurrentIndex r - 1\<rparr>)
      else Some (Inr r))"

type_synonym 'a run = "'a outcome option"

definition rbind :: "'a run \<Rightarrow> ('a \<Rightarrow> 'b run) \<Rightarrow> 'b run" where
  "rbind m f = (case m of None \<Rightarrow> None | Some (Inl p) \<Rightarrow> Some (Inl p) | Some (Inr v) \<Rightarrow> f v)"

lemma rbind_simps [simp]:
  "rbind (Some (Inr v)) f = f v" "rbind (Some (Inl p)) f = Some (Inl p)" "rbind None f = None"
  by (simp_all add: rbind_def)

text \<open>The fields that are still zero are set first.\<close>

definition rr_prepare :: "instant \<Rightarrow> ResolvedRotation \<Rightarrow> ResolvedRotation outcome" where
  "rr_prepare t r =
     obind (if IsZero (rr_CurrentStart r)
            then obind (Rotation_StartTime (rr_Rotation r) t) (\<lambda>s. Inr (r\<lparr>rr_CurrentStart := s\<rparr>))
            else Inr r) (\<lambda>r.
       if IsZero (rr_CurrentEnd r)
       then obind (Rotation_StartTime (rr_Rotation r) (rr_CurrentStart r)) (\<lambda>s.
            obind (Rotation_EndTime (rr_Rotation r) s) (\<lambda>e.
              Inr (r\<lparr>rr_CurrentStart := s, rr_CurrentEnd := e\<rparr>)))
       else Inr r)"

definition rr_UserID :: "instant \<Rightarrow> ResolvedRotation \<Rightarrow> (string \<times> ResolvedRotation) run" where
  "rr_UserID t r =
     (if rr_Users r = [] then Some (Inr ('''', r))
      else if length (rr_Users r) = 1 then Some (Inr (rr_Users r ! 0, r))
      else
        rbind (Some (rr_prepare t r)) (\<lambda>r.
          if t < rr_CurrentEnd r \<and> \<not> t < rr_CurrentStart r
          then Some (obind (index_user (rr_Users r) (rr_CurrentIndex r)) (\<lambda>u. Inr (u, r)))
          else
            rbind (rr_forward t r) (\<lambda>r.
            rbind (rr_backward t r) (\<lambda>r.
              (let n = int (length (rr_Users r));
                   i = rr_CurrentIndex r smod n;
                   i = (if i < 0 then i + n else i);
                   r = r\<lparr>rr_CurrentIndex := i\<rparr>
               in Some (obind (index_user (rr_Users r) i) (\<lambda>u. Inr (u, r))))))))"

subsection \<open>SingleRuleCalculator: singlerulecalculator.go\<close>

text \<open>
  The two loops share one limit of 100000 rounds: it is their recursion argument, and what is left
  of it after the first goes into the second.
\<close>

fun rule_loop ::
  "nat \<Rightarrow> TimeIterator \<Rightarrow> location \<Rightarrow> Rule \<Rightarrow> instant \<Rightarrow> ActiveCalculator \<Rightarrow> (nat \<times> ActiveCalculator) outcome" where
  "rule_loop 0 iter l rule cur act =
     (if cur < iter_End iter then Inl (Panic ''infinite loop'') else Inr (0, act))"
| "rule_loop (Suc n) iter l rule cur act =
     (if cur < iter_End iter then
        (let end = Rule_EndTime l rule cur
         in obind (act_SetSpan iter cur end act) (\<lambda>act. rule_loop n iter l rule (Rule_StartTime l rule end) act))
      else Inr (Suc n, act))"

fun rot_loop :: "nat \<Rightarrow> nat \<Rightarrow> instant \<Rightarrow> ResolvedRotation \<Rightarrow> world \<Rightarrow> (ResolvedRotation \<times> world) run" where
  "rot_loop 0 u cur r w =
     (if cur < iter_End (w_iter w) then Some (Inl (Panic ''infinite loop'')) else Some (Inr (r, w)))"
| "rot_loop (Suc n) u cur r w =
     (if cur < iter_End (w_iter w) then
        rbind (rr_UserID cur r) (\<lambda>(uid, r).
        rbind (Some (usr_SetSpan u (rr_CurrentStart r) (rr_CurrentEnd r) uid w)) (\<lambda>w.
          rot_loop n u (rr_CurrentEnd r) r w))
      else Some (Inr (r, w)))"

text \<open>The rotations of a calculation live in their own store, shared by the rules.\<close>

definition single_act :: "TimeIterator \<Rightarrow> location \<Rightarrow> Rule \<Rightarrow> ActiveCalculator \<Rightarrow> (nat \<times> ActiveCalculator) outcome" where
  "single_act iter l rule act =
     (if AlwaysActive rule
      then obind (act_SetSpan iter (iter_Start iter) (iter_End iter + iter_Step iter) act) (\<lambda>act. Inr (100000, act))
      else if \<not> NeverActive rule
      then rule_loop 100000 iter l rule (Rule_StartTime l rule (iter_Start iter)) act
      else Inr (100000, act))"

definition rot_users :: "nat \<Rightarrow> nat \<Rightarrow> ResolvedRotation \<Rightarrow> world \<Rightarrow> (ResolvedRotation \<times> world) run" where
  "rot_users limit u r w =
     (let iter = w_iter w
      in if rr_Users r = [] then Some (Inr (r, w))
         else if length (rr_Users r) = 1
         then rbind (rr_UserID (iter_Start iter) r) (\<lambda>(uid, r).
              rbind (Some (usr_SetSpan u (iter_Start iter) (iter_End iter + iter_Step iter) uid w)) (\<lambda>w.
                Some (Inr (r, w))))
         else rot_loop limit u (iter_Start iter) r w)"

definition single_rot ::
  "((string \<times> nat) list \<Rightarrow> (string \<times> nat) list) \<Rightarrow> nat \<Rightarrow> ResolvedRule \<Rightarrow> ResolvedRotation list \<times> world
     \<Rightarrow> (nat option \<times> ResolvedRotation list \<times> world) run" where
  "single_rot ord limit rule s =
     (let (rots, w) = s
      in case rsr_Rotation rule of
           None \<Rightarrow> Some (Inr (None, rots, w))
         | Some ri \<Rightarrow>
             (let (u, w) = NewUserCalculator w
              in rbind (rot_users limit u (rots ! ri) w) (\<lambda>(r, w).
                   Some (Inr (Some u, rots[ri := r], usr_Init ord u w)))))"

definition NewSingleRuleCalculator ::
  "((string \<times> nat) list \<Rightarrow> (string \<times> nat) list) \<Rightarrow> location \<Rightarrow> ResolvedRule \<Rightarrow> ResolvedRotation list \<times> world
     \<Rightarrow> (nat \<times> ResolvedRotation list \<times> world) run" where
  "NewSingleRuleCalculator ord l rule s =
     (let (rots, w) = s;
          (a, w) = NewActiveCalculator w
      in rbind (Some (single_act (w_iter w) l (rsr_Rule rule) (get_act (w_heap w) a))) (\<lambda>(limit, act).
         rbind (single_rot ord limit rule (rots, put a (ActObj (act_Init act)) w)) (\<lambda>(rot, rots, w).
           (let (c, w) = alloc (SingleObj \<lparr>src_act = a, src_rot = rot, src_rule = rule, src_userID = '''', src_changed = False\<rparr>) w
            in Some (Inr (c, rots, register c w))))))"

definition single_Process :: "obj list \<Rightarrow> SingleRuleCalculator \<Rightarrow> (int \<times> SingleRuleCalculator) outcome" where
  "single_Process h c =
     obind (if act_Active (get_act h (src_act c)) then
              (case src_rot c of
                 Some u \<Rightarrow> Inr (case usr_active (get_usr h u) of [] \<Rightarrow> '''' | x # _ \<Rightarrow> x)
               | None \<Rightarrow>
                   (case rule_Target (rsr_Rule (src_rule c)) of
                      None \<Rightarrow> Inl (Panic ''runtime error: invalid memory address or nil pointer dereference'')
                    | Some tgt \<Rightarrow> Inr (if Target_TargetType tgt = TargetTypeUser then Target_TargetID tgt else '''')))
            else Inr '''') (\<lambda>newUserID.
       Inr (0, c\<lparr>src_changed := (src_userID c \<noteq> newUserID), src_userID := newUserID\<rparr>))"

subsection \<open>RulesCalculator: rulescalculator.go\<close>

fun single_rules ::
  "((string \<times> nat) list \<Rightarrow> (string \<times> nat) list) \<Rightarrow> location \<Rightarrow> ResolvedRule list \<Rightarrow> ResolvedRotation list \<times> world
     \<Rightarrow> (nat list \<times> ResolvedRotation list \<times> world) run" where
  "single_rules ord l [] s = Some (Inr ([], fst s, snd s))"
| "single_rules ord l (r # rs) s =
     rbind (NewSingleRuleCalculator ord l r s) (\<lambda>(c, rots, w).
     rbind (single_rules ord l rs (rots, w)) (\<lambda>(cs, rots, w). Some (Inr (c # cs, rots, w))))"

definition NewRulesCalculator ::
  "((string \<times> nat) list \<Rightarrow> (string \<times> nat) list) \<Rightarrow> location \<Rightarrow> ResolvedRule list \<Rightarrow> ResolvedRotation list \<times> world
     \<Rightarrow> (nat \<times> world) run" where
  "NewRulesCalculator ord l rules s =
     rbind (single_rules ord l rules s) (\<lambda>(cs, rots, w).
       (let (c, w) = alloc (RulesObj \<lparr>rc_rules = cs, rc_userIDs = [], rc_changed = False\<rparr>) w
        in Some (Inr (c, register c w))))"

definition get_single :: "obj list \<Rightarrow> nat \<Rightarrow> SingleRuleCalculator option" where
  "get_single h a = (case h ! a of SingleObj x \<Rightarrow> Some x | _ \<Rightarrow> None)"

definition rules_Process :: "obj list \<Rightarrow> RulesCalculator \<Rightarrow> (int \<times> RulesCalculator) outcome" where
  "rules_Process h rc =
     (let rs = List.map_filter (get_single h) (rc_rules rc);
          changed = (\<exists>r \<in> set rs. src_changed r)
      in if \<not> changed then Inr (0, rc\<lparr>rc_changed := False\<rparr>)
         else Inr (0, rc\<lparr>rc_changed := True, rc_userIDs := filter (\<lambda>i. i \<noteq> '''') (map src_userID rs)\<rparr>))"

subsection \<open>OverrideCalculator: overridecalculator.go\<close>

record UserOverride =
  uo_AddUserID :: string
  uo_RemoveUserID :: string
  uo_Start :: instant
  uo_End :: instant

definition newline :: char where "newline = CHR 0x0A"

definition set_override :: "nat \<Rightarrow> nat \<Rightarrow> nat \<Rightarrow> UserOverride \<Rightarrow> world \<Rightarrow> world outcome" where
  "set_override add remove replace ov w =
     (if uo_AddUserID ov \<noteq> '''' \<and> uo_RemoveUserID ov \<noteq> ''''
      then usr_SetSpan replace (uo_Start ov) (uo_End ov) (uo_RemoveUserID ov @ [newline] @ uo_AddUserID ov) w
      else if uo_AddUserID ov \<noteq> '''' then usr_SetSpan add (uo_Start ov) (uo_End ov) (uo_AddUserID ov) w
      else if uo_RemoveUserID ov \<noteq> '''' then usr_SetSpan remove (uo_Start ov) (uo_End ov) (uo_RemoveUserID ov) w
      else Inr w)"

definition NewOverrideCalculator ::
  "((string \<times> nat) list \<Rightarrow> (string \<times> nat) list) \<Rightarrow> UserOverride list \<Rightarrow> world \<Rightarrow> (nat \<times> world) outcome" where
  "NewOverrideCalculator ord overrides w =
     (let (add, w) = NewUserCalculator w;
          (remove, w) = NewUserCalculator w;
          (replace, w) = NewUserCalculator w
      in obind (ofold (set_override add remove replace) (sort_by (\<lambda>x y. uo_Start x < uo_Start y) overrides) w) (\<lambda>w.
         (let w = usr_Init ord replace (usr_Init ord remove (usr_Init ord add w));
              (c, w) = alloc (OverObj \<lparr>oc_add = add, oc_remove = remove, oc_replace = replace, oc_userMap = Map.empty\<rparr>) w
          in Inr (c, register c w))))"

definition split_replace :: "string \<Rightarrow> string \<times> string" where
  "split_replace s = (takeWhile (\<lambda>c. c \<noteq> newline) s, tl (dropWhile (\<lambda>c. c \<noteq> newline) s))"

definition over_Process :: "obj list \<Rightarrow> OverrideCalculator \<Rightarrow> (int \<times> OverrideCalculator) outcome" where
  "over_Process h oc =
     (let remove = get_usr h (oc_remove oc); replace = get_usr h (oc_replace oc)
      in if \<not> usr_changed remove \<and> \<not> usr_changed replace then Inr (0, oc)
         else Inr (0, oc\<lparr>oc_userMap := map_of (rev (map (\<lambda>i. (i, '''')) (usr_active remove)
                           @ map split_replace (usr_active replace)))\<rparr>))"

definition MapUsers :: "obj list \<Rightarrow> OverrideCalculator \<Rightarrow> string list \<Rightarrow> string list" where
  "MapUsers h oc userIDs =
     concat (map (\<lambda>i. case oc_userMap oc i of
                        None \<Rightarrow> [i]
                      | Some newID \<Rightarrow> if newID = '''' then [] else [newID]) userIDs)
     @ usr_active (get_usr h (oc_add oc))"

subsection \<open>TemporaryScheduleCalculator: temporaryschedulecalculator.go\<close>

definition set_act :: "nat \<Rightarrow> instant \<Rightarrow> instant \<Rightarrow> world \<Rightarrow> world outcome" where
  "set_act a start end w =
     obind (act_SetSpan (w_iter w) start end (get_act (w_heap w) a)) (\<lambda>act. Inr (put a (ActObj act) w))"

definition NewTemporaryScheduleCalculator ::
  "((string \<times> nat) list \<Rightarrow> (string \<times> nat) list) \<Rightarrow> TemporarySchedule list \<Rightarrow> world \<Rightarrow> ((nat \<times> nat) \<times> world) outcome" where
  "NewTemporaryScheduleCalculator ord tempScheds w =
     (let (a, w) = NewActiveCalculator w;
          (u, w) = NewUserCalculator w;
          temps = sort_by (\<lambda>x y. ts_Start x < ts_Start y) tempScheds;
          allShifts = concat (map ts_Shifts temps)
      in obind (ofold (\<lambda>temp w. set_act a (ts_Start temp) (ts_End temp) w) temps w) (\<lambda>w.
         obind (ofold (\<lambda>s w. usr_SetSpan u (fs_Start s) (fs_End s) (fs_UserID s) w)
                  (sort_by (\<lambda>x y. fs_Start x < fs_Start y) allShifts) w) (\<lambda>w.
           Inr ((a, u), usr_Init ord u (put a (ActObj (act_Init (get_act (w_heap w) a))) w)))))"

subsection \<open>The sub-iterators\<close>

text \<open>
  \<open>obj_Process\<close> is the method \<open>Process\<close> of the object \<open>x\<close>, which reads the objects it points to in
  the heap \<open>h\<close>; \<open>Process\<close> calls it on the object at an address.  Only an \<open>ActiveCalculator\<close> is
  \<open>Startable\<close>.
\<close>

definition obj_Process :: "int \<Rightarrow> obj list \<Rightarrow> obj \<Rightarrow> (int \<times> obj) outcome" where
  "obj_Process t h x =
     (case x of
        ActObj act \<Rightarrow> obind (act_Process t act) (\<lambda>(n, act). Inr (n, ActObj act))
      | UserObj u \<Rightarrow> obind (usr_Process h u) (\<lambda>(n, u). Inr (n, UserObj u))
      | SingleObj c \<Rightarrow> obind (single_Process h c) (\<lambda>(n, c). Inr (n, SingleObj c))
      | RulesObj rc \<Rightarrow> obind (rules_Process h rc) (\<lambda>(n, rc). Inr (n, RulesObj rc))
      | OverObj oc \<Rightarrow> obind (over_Process h oc) (\<lambda>(n, oc). Inr (n, OverObj oc)))"

definition Process :: "nat \<Rightarrow> int \<Rightarrow> obj list \<Rightarrow> (int \<times> obj list) outcome" where
  "Process a t h = obind (obj_Process t h (h ! a)) (\<lambda>(n, x). Inr (n, h[a := x]))"

definition StartUnix :: "obj list \<Rightarrow> nat \<Rightarrow> int option" where
  "StartUnix h a = (case h ! a of ActObj act \<Rightarrow> Some (act_StartUnix act) | _ \<Rightarrow> None)"

subsection \<open>Shifts: state.go\<close>

record Shift =
  sh_UserID :: string
  sh_Start :: instant
  sh_End :: instant
  sh_Truncated :: bool

record state =
  st_tempScheds :: "TemporarySchedule list"
  st_rules :: "ResolvedRule list"
  st_overrides :: "UserOverride list"
  st_history :: "Shift list"
  st_now :: instant
  st_loc :: location

definition shift_lt :: "Shift \<Rightarrow> Shift \<Rightarrow> bool" where
  "shift_lt x y =
     (if sh_Start x = sh_Start y
      then ord_class.lexordp (map of_char (sh_UserID x) :: nat list) (map of_char (sh_UserID y))
      else sh_Start x < sh_Start y)"

definition sortShifts :: "Shift list \<Rightarrow> Shift list" where
  "sortShifts s = sort_by shift_lt s"

text \<open>
  The map \<open>isOnCall\<close> is a list with one open shift per user; the order in which Go iterates over it
  is the parameter \<open>mord\<close>.
\<close>

definition setOnCall ::
  "(Shift list \<Rightarrow> Shift list) \<Rightarrow> instant \<Rightarrow> instant \<Rightarrow> string list \<Rightarrow> Shift list \<times> Shift list \<Rightarrow> Shift list \<times> Shift list" where
  "setOnCall mord start now userIDs s =
     (let (isOnCall, shifts) = s;
          isOnCall = fold (\<lambda>i m. if i \<in> sh_UserID ` set m then m
                                  else m @ [\<lparr>sh_UserID = i, sh_Start = now, sh_End = time_zero, sh_Truncated = False\<rparr>])
                       userIDs isOnCall;
          gone = filter (\<lambda>s. sh_UserID s \<notin> set userIDs) (mord isOnCall)
      in (filter (\<lambda>s. sh_UserID s \<in> set userIDs) isOnCall,
          if start < now then shifts @ map (\<lambda>s. s\<lparr>sh_End := now\<rparr>) gone else shifts))"

text \<open>The addresses of the calculators of one calculation.\<close>

record calcs =
  c_hist :: nat
  c_tempAct :: nat
  c_tempUsr :: nat
  c_over :: nat
  c_rules :: nat

definition empty_over :: OverrideCalculator where
  "empty_over = \<lparr>oc_add = 0, oc_remove = 0, oc_replace = 0, oc_userMap = Map.empty\<rparr>"

definition get_over :: "obj list \<Rightarrow> nat \<Rightarrow> OverrideCalculator" where
  "get_over h a = (case h ! a of OverObj x \<Rightarrow> x | _ \<Rightarrow> empty_over)"

definition get_rules :: "obj list \<Rightarrow> nat \<Rightarrow> RulesCalculator" where
  "get_rules h a = (case h ! a of RulesObj x \<Rightarrow> x | _ \<Rightarrow> \<lparr>rc_rules = [], rc_userIDs = [], rc_changed = False\<rparr>)"

definition historyCutoff :: "state \<Rightarrow> instant" where
  "historyCutoff s = Truncate (st_now s) Minute + Minute"

definition calc_iterator :: "state \<Rightarrow> instant \<Rightarrow> instant \<Rightarrow> TimeIterator" where
  "calc_iterator s start end =
     (let start = Truncate start Minute;
          end = Truncate end Minute;
          tiStart = (if \<not> IsZero (st_now s) \<and> st_now s < start then Truncate (st_now s) Minute else start)
      in NewTimeIterator tiStart end Minute)"

text \<open>The part of \<open>CalculateShifts\<close> before its loop: every calculator is created and registered.\<close>

definition set_hist :: "instant \<Rightarrow> nat \<Rightarrow> Shift \<Rightarrow> world \<Rightarrow> world outcome" where
  "set_hist cutoff hist s w =
     usr_SetSpan hist (sh_Start s) (if IsZero (sh_End s) then cutoff else sh_End s) (sh_UserID s) w"

definition new_hist ::
  "((string \<times> nat) list \<Rightarrow> (string \<times> nat) list) \<Rightarrow> state \<Rightarrow> world \<Rightarrow> (nat \<times> world) outcome" where
  "new_hist ord s w =
     (let (hist, w) = NewUserCalculator w
      in obind (ofold (set_hist (historyCutoff s) hist) (sort_by (\<lambda>x y. sh_Start x < sh_Start y) (st_history s)) w) (\<lambda>w.
           Inr (hist, usr_Init ord hist w)))"

definition new_calcs ::
  "((string \<times> nat) list \<Rightarrow> (string \<times> nat) list) \<Rightarrow> ResolvedRotation list \<Rightarrow> state \<Rightarrow> instant \<Rightarrow> instant
     \<Rightarrow> (calcs \<times> world) run" where
  "new_calcs ord rots s start end =
     rbind (Some (new_hist ord s \<lparr>w_iter = calc_iterator s start end, w_heap = []\<rparr>)) (\<lambda>(hist, w).
     rbind (Some (NewTemporaryScheduleCalculator ord (st_tempScheds s) w)) (\<lambda>((tact, tusr), w).
     rbind (Some (NewOverrideCalculator ord (st_overrides s) w)) (\<lambda>(ov, w).
     rbind (NewRulesCalculator ord (st_loc s) (st_rules s) (rots, w)) (\<lambda>(rules, w).
       Some (Inr (\<lparr>c_hist = hist, c_tempAct = tact, c_tempUsr = tusr, c_over = ov, c_rules = rules\<rparr>, w))))))"

text \<open>The users passed to \<open>setOnCall\<close> at a timestamp.\<close>

definition tick_users :: "calcs \<Rightarrow> instant \<Rightarrow> int \<times> obj list \<Rightarrow> string list" where
  "tick_users c cutoff x =
     (let (t, h) = x
      in if t * Second < cutoff then usr_active (get_usr h (c_hist c))
         else if act_Active (get_act h (c_tempAct c)) then usr_active (get_usr h (c_tempUsr c))
         else MapUsers h (get_over h (c_over c)) (rc_userIDs (get_rules h (c_rules c))))"

text \<open>
  The loop and what follows it, on the timestamps the iterator visits: \<open>setOnCall\<close> does not touch
  the calculators, so that the iteration can be run first.  \<open>fuel\<close> bounds the number of calls to
  \<open>Next\<close>; \<open>None\<close> is a loop that has not ended.
\<close>

definition finish_shifts :: "(Shift list \<Rightarrow> Shift list) \<Rightarrow> instant \<Rightarrow> Shift list \<times> Shift list \<Rightarrow> Shift list" where
  "finish_shifts mord final s =
     (let (isOnCall, shifts) = s
      in sortShifts (shifts @ map (\<lambda>s. s\<lparr>sh_Truncated := True, sh_End := final\<rparr>) (mord isOnCall)))"

definition tick :: "(Shift list \<Rightarrow> Shift list) \<Rightarrow> calcs \<Rightarrow> instant \<Rightarrow> instant \<Rightarrow> int \<times> obj list \<Rightarrow> Shift list \<times> Shift list \<Rightarrow> Shift list \<times> Shift list" where
  "tick mord c cutoff start x = setOnCall mord start (fst x * Second) (tick_users c cutoff x)"

definition CalculateShifts ::
  "nat \<Rightarrow> ((string \<times> nat) list \<Rightarrow> (string \<times> nat) list) \<Rightarrow> (Shift list \<Rightarrow> Shift list) \<Rightarrow> ResolvedRotation list \<Rightarrow> state
     \<Rightarrow> instant \<Rightarrow> instant \<Rightarrow> Shift list run" where
  "CalculateShifts fuel ord mord rots s start end =
     rbind (new_calcs ord rots s start end) (\<lambda>(c, w).
     rbind (case iter_run fuel StartUnix Process (w_iter w) (w_heap w) of
              Inl p \<Rightarrow> Some (Inl p) | Inr None \<Rightarrow> None | Inr (Some tr) \<Rightarrow> Some (Inr tr)) (\<lambda>tr.
       Some (Inr (finish_shifts mord (if tr = [] then 0 else fst (last tr) * Second)
                    (fold (tick mord c (historyCutoff s) (Truncate start Minute)) tr ([], []))))))"

end
