(* ===== verification/OnCallShifts.thy ===== *)
theory OnCallShifts
  imports OnCall
begin

section \<open>The calculators follow the iterator\<close>

text \<open>
  What the calculators report at every timestamp the iterator visits, from the spans that were
  registered: each object is a sub-iterator in the sense of the iterator's contract, an object
  reads only objects registered before it, and its value at a visited timestamp is a function of
  the registered spans.
\<close>

subsection \<open>Boundaries\<close>

text \<open>The value at \<open>t\<close> of a calculator with value \<open>b\<close> and boundaries still to come.\<close>

fun value_at :: "bool \<Rightarrow> (int \<times> bool) list \<Rightarrow> int \<Rightarrow> bool" where
  "value_at b [] t = b"
| "value_at b ((T, s) # xs) t = (if T \<le> t then value_at s xs t else b)"

fun alternating :: "bool \<Rightarrow> (int \<times> bool) list \<Rightarrow> bool" where
  "alternating b [] = True"
| "alternating b ((T, s) # xs) \<longleftrightarrow> s = (\<not> b) \<and> alternating s xs"

definition act_at :: "ActiveCalculator \<Rightarrow> int \<Rightarrow> bool" where
  "act_at act t = value_at (act_Active act) (act_states act) t"

definition boundaries_ok :: "ActiveCalculator \<Rightarrow> bool" where
  "boundaries_ok act \<longleftrightarrow> alternating (act_Active act) (act_states act) \<and> sorted_wrt (<) (map fst (act_states act))
     \<and> (\<forall>T \<in> fst ` set (act_states act). 0 < T \<and> 60 dvd T)"

definition act_due :: "ActiveCalculator \<Rightarrow> int option" where
  "act_due act = (case act_states act of [] \<Rightarrow> None | (T, _) # _ \<Rightarrow> Some T)"

lemma act_at_before:
  assumes "\<And>d. act_due act = Some d \<Longrightarrow> t < d"
  shows "act_at act t = act_Active act"
  using assms by (cases "act_states act") (auto simp: act_at_def act_due_def)

text \<open>
  \<open>Process\<close> no later than the next boundary: the value is the one registered for \<open>t\<close>, the values to
  come stay the same, and \<open>Changed\<close> tells whether the value flipped.
\<close>

lemma act_Process_ok:
  assumes "act_init act" "boundaries_ok act" "\<And>d. act_due act = Some d \<Longrightarrow> t \<le> d"
  shows "\<exists>n act'. act_Process t act = Inr (n, act') \<and> act_init act' \<and> boundaries_ok act'
    \<and> act_Active act' = act_at act t \<and> (\<forall>t' \<ge> t. act_at act' t' = act_at act t')
    \<and> (act_changed act' \<longleftrightarrow> act_Active act' \<noteq> act_Active act)
    \<and> (case act_due act' of Some d \<Rightarrow> t < d \<and> n = d | None \<Rightarrow> n = -1)"
proof (cases "act_states act")
  case Nil
  with assms show ?thesis
    by (simp add: act_Process_def boundaries_ok_def act_at_def act_due_def act_Active_def)
next
  case (Cons v rest)
  obtain T s where v: "v = (T, s)" by (cases v)
  have T: "t \<le> T" using assms(3) Cons v by (simp add: act_due_def)
  have alt: "s = (\<not> act_Active act)" "alternating s rest" "sorted_wrt (<) (map fst rest)" "\<forall>x \<in> fst ` set rest. T < x"
    "\<forall>x \<in> fst ` set rest. 0 < x \<and> 60 dvd x"
    using assms(2) Cons v by (auto simp: boundaries_ok_def)
  show ?thesis
  proof (cases "T = t")
    case True
    then have r: "\<And>d x xs. rest = (d, x) # xs \<Longrightarrow> t < d" using alt(4) by simp
    have val: "value_at s rest t = s" using r by (cases rest) auto
    let ?act = "act\<lparr>act_changed := True, act_active := v, act_states := rest\<rparr>"
    have "act_Process t act = Inr (case rest of [] \<Rightarrow> -1 | next # _ \<Rightarrow> fst next, ?act)"
      using assms(1) Cons v True by (simp add: act_Process_def)
    moreover have "case act_due ?act of Some d \<Rightarrow> t < d \<and> (case rest of [] \<Rightarrow> -1 | next # _ \<Rightarrow> fst next) = d
        | None \<Rightarrow> (case rest of [] \<Rightarrow> -1 | next # _ \<Rightarrow> fst next) = -1"
      using r by (cases rest) (auto simp: act_due_def)
    ultimately show ?thesis using assms(1) Cons v True alt val
      by (auto simp: act_at_def act_Active_def boundaries_ok_def)
  next
    case False
    with T assms(1,2) Cons v show ?thesis
      by (auto simp: act_Process_def act_at_def act_due_def act_Active_def boundaries_ok_def)
  qed
qed

subsection \<open>Objects in the heap\<close>

text \<open>The objects whose \<open>Changed\<close> and current values the method \<open>Process\<close> of an object reads.\<close>

definition deps :: "obj \<Rightarrow> nat list" where
  "deps x = (case x of
      ActObj act \<Rightarrow> []
    | UserObj u \<Rightarrow> map snd (usr_calc u)
    | SingleObj c \<Rightarrow> src_act c # (case src_rot c of None \<Rightarrow> [] | Some u \<Rightarrow> [u])
    | RulesObj rc \<Rightarrow> rc_rules rc
    | OverObj oc \<Rightarrow> [oc_remove oc, oc_replace oc])"

definition obj_due :: "obj list \<Rightarrow> nat \<Rightarrow> int option" where
  "obj_due h a = (case h ! a of ActObj act \<Rightarrow> act_due act | _ \<Rightarrow> None)"

definition obj_ok :: "obj \<Rightarrow> bool" where
  "obj_ok x = (case x of
      ActObj act \<Rightarrow> act_init act \<and> boundaries_ok act
    | UserObj u \<Rightarrow> usr_init u
    | SingleObj c \<Rightarrow> src_rot c = None \<longrightarrow> rule_Target (rsr_Rule (src_rule c)) \<noteq> None
    | RulesObj rc \<Rightarrow> True
    | OverObj oc \<Rightarrow> True)"

fun ordered :: "nat set \<Rightarrow> nat list \<Rightarrow> obj list \<Rightarrow> bool" where
  "ordered seen [] h = True"
| "ordered seen (a # as) h \<longleftrightarrow> a < length h \<and> set (deps (h ! a)) \<subseteq> seen \<and> ordered (insert a seen) as h"

definition calcs_ok :: "nat list \<Rightarrow> obj list \<Rightarrow> bool" where
  "calcs_ok subs h \<longleftrightarrow> ordered {} subs h \<and> (\<forall>a \<in> set subs. obj_ok (h ! a))"

lemma usr_loop_cong: "(\<And>c. c \<in> snd ` set cs \<Longrightarrow> get_act h c = get_act h' c) \<Longrightarrow> usr_loop h cs b xs = usr_loop h' cs b xs"
proof (induction cs arbitrary: b xs)
  case (Cons ic cs)
  then have "get_act h (snd ic) = get_act h' (snd ic)" by simp
  with Cons show ?case by (cases ic) (simp add: Let_def)
qed simp

lemma obj_Process_cong:
  assumes "\<And>a. a \<in> set (deps x) \<Longrightarrow> h ! a = h' ! a"
  shows "obj_Process t h x = obj_Process t h' x"
proof (cases x)
  case (UserObj u)
  with assms have "\<And>c. c \<in> snd ` set (usr_calc u) \<Longrightarrow> get_act h c = get_act h' c" by (simp add: deps_def get_act_def)
  then have "usr_Process h u = usr_Process h' u" by (simp add: usr_Process_def usr_loop_cong [of _ h h'])
  with UserObj show ?thesis by (simp add: obj_Process_def)
next
  case (SingleObj c)
  with assms show ?thesis
    by (auto simp: obj_Process_def deps_def single_Process_def get_act_def get_usr_def split: option.splits)
next
  case (RulesObj rc)
  with assms have "List.map_filter (get_single h) (rc_rules rc) = List.map_filter (get_single h') (rc_rules rc)"
    by (auto simp: List.map_filter_def deps_def get_single_def intro!: map_cong filter_cong)
  with RulesObj show ?thesis by (simp add: obj_Process_def rules_Process_def Let_def)
next
  case (OverObj oc)
  with assms show ?thesis by (simp add: obj_Process_def deps_def over_Process_def get_usr_def)
qed (simp add: obj_Process_def)

lemma obj_Process_deps:
  assumes "obj_Process t h x = Inr (n, x')"
  shows "deps x' = deps x"
  using assms
  by (cases x) (auto simp: obj_Process_def deps_def act_Process_def usr_Process_def single_Process_def rules_Process_def
      over_Process_def Let_def split: if_splits list.splits prod.splits)

lemma ordered_cong:
  assumes "length h' = length h" "\<And>a. a \<in> set as \<Longrightarrow> deps (h' ! a) = deps (h ! a)"
  shows "ordered seen as h' = ordered seen as h"
  using assms(2) by (induction as arbitrary: seen) (simp_all add: assms(1))

lemma obj_Process_ok:
  assumes "obj_ok x" "\<And>act d. x = ActObj act \<Longrightarrow> act_due act = Some d \<Longrightarrow> t \<le> d"
  shows "\<exists>n x'. obj_Process t h x = Inr (n, x') \<and> obj_ok x'
    \<and> (case (case x' of ActObj act \<Rightarrow> act_due act | _ \<Rightarrow> None) of Some d \<Rightarrow> t < d \<and> n = d | None \<Rightarrow> n = -1 \<or> n = 0)"
proof (cases x)
  case (ActObj act)
  with assms act_Process_ok [of act t] obtain n act' where
    "act_Process t act = Inr (n, act')" "act_init act'" "boundaries_ok act'"
    "case act_due act' of Some d \<Rightarrow> t < d \<and> n = d | None \<Rightarrow> n = -1"
    by (auto simp: obj_ok_def)
  with ActObj show ?thesis by (auto simp: obj_Process_def obj_ok_def split: option.splits)
next
  case (UserObj u)
  with assms(1) show ?thesis
    by (auto simp: obj_Process_def obj_ok_def usr_Process_def split: prod.splits)
next
  case (SingleObj c)
  with assms(1) show ?thesis
    by (auto simp: obj_Process_def obj_ok_def single_Process_def obind_def split: option.splits)
next
  case (RulesObj rc)
  then show ?thesis by (auto simp: obj_Process_def obj_ok_def rules_Process_def Let_def)
next
  case (OverObj oc)
  then show ?thesis by (auto simp: obj_Process_def obj_ok_def over_Process_def Let_def)
qed

text \<open>The calculators are sub-iterators with steps of a minute.\<close>

interpretation calc: sub_iterator Process StartUnix obj_due calcs_ok 60
proof
  fix subs h a t
  assume ok: "calcs_ok subs h" and a: "a \<in> set subs" and due: "\<And>d. obj_due h a = Some d \<Longrightarrow> t \<le> d"
  have len: "a < length h"
  proof -
    have "ordered seen as h \<Longrightarrow> b \<in> set as \<Longrightarrow> b < length h" for seen as b
      by (induction as arbitrary: seen) auto
    with ok a show ?thesis by (auto simp: calcs_ok_def)
  qed
  from ok a have "obj_ok (h ! a)" by (simp add: calcs_ok_def)
  with obj_Process_ok [of "h ! a" t h] due obtain n x where
    p: "obj_Process t h (h ! a) = Inr (n, x)" "obj_ok x"
      "case (case x of ActObj act \<Rightarrow> act_due act | _ \<Rightarrow> None) of Some d \<Rightarrow> t < d \<and> n = d | None \<Rightarrow> n = -1 \<or> n = 0"
    by (auto simp: obj_due_def)
  have "deps (h[a := x] ! b) = deps (h ! b)" for b
    using obj_Process_deps [OF p(1)] len by (cases "b = a") auto
  then have "calcs_ok subs (h[a := x])" using ok p(2) len
    by (auto simp: calcs_ok_def ordered_cong [of "h[a := x]" h] nth_list_update)
  moreover have "case obj_due (h[a := x]) a of Some d \<Rightarrow> t < d \<and> n = d | None \<Rightarrow> n = -1 \<or> n = 0"
    using p(3) len by (simp add: obj_due_def)
  ultimately show "\<exists>n h'. Process a t h = Inr (n, h') \<and> calcs_ok subs h' \<and> (\<forall>b. b \<noteq> a \<longrightarrow> obj_due h' b = obj_due h b)
      \<and> (case obj_due h' a of Some d \<Rightarrow> t < d \<and> n = d | None \<Rightarrow> n = -1 \<or> n = 0)"
    using p(1) by (intro exI [of _ n] exI [of _ "h[a := x]"]) (simp add: Process_def obj_due_def)
next
  fix subs h a d
  assume "calcs_ok subs h" "a \<in> set subs" "obj_due h a = Some d"
  then show "StartUnix h a = Some d"
    by (auto simp: obj_due_def StartUnix_def act_due_def act_StartUnix_def split: obj.splits list.splits)
next
  fix subs h a d
  assume "calcs_ok subs h" "a \<in> set subs" "StartUnix h a = Some d"
  then show "0 \<le> d \<and> 60 dvd d"
    by (auto simp: StartUnix_def act_StartUnix_def calcs_ok_def obj_ok_def boundaries_ok_def less_imp_le
        split: obj.splits list.splits)
qed

text \<open>
  One round over the sub-iterators: every object was processed, and what it read of others is what
  they hold after the round.
\<close>

definition round_of :: "int \<Rightarrow> nat list \<Rightarrow> obj list \<Rightarrow> obj list \<Rightarrow> bool" where
  "round_of t subs h h' \<longleftrightarrow> length h' = length h \<and> (\<forall>a. a \<notin> set subs \<longrightarrow> h' ! a = h ! a)
     \<and> (\<forall>a \<in> set subs. \<exists>n. obj_Process t h' (h ! a) = Inr (n, h' ! a))"

lemma sub_loop_round:
  assumes "sub_loop Process t end xs ns h = Inr (ns', h')" "distinct xs" "ordered seen xs h" "seen \<inter> set xs = {}"
  shows "round_of t xs h h'"
  using assms
proof (induction xs arbitrary: h ns seen)
  case Nil
  then show ?case by (simp add: round_of_def)
next
  case (Cons a xs)
  from Cons.prems(1) obtain n x ns1 where
    p: "obj_Process t h (h ! a) = Inr (n, x)" "sub_loop Process t end xs ns1 (h[a := x]) = Inr (ns', h')"
    by (auto simp: Process_def [of a t h] Let_def split: if_splits)
  have len: "a < length h" and dp: "set (deps (h ! a)) \<subseteq> seen" using Cons.prems(3) by auto
  have "deps (h[a := x] ! b) = deps (h ! b)" for b
    using obj_Process_deps [OF p(1)] len by (cases "b = a") auto
  then have "ordered (insert a seen) xs (h[a := x])" using Cons.prems(3) by (simp add: ordered_cong [of "h[a := x]" h])
  from Cons.IH [OF p(2) _ this] Cons.prems(2,4) have r: "round_of t xs (h[a := x]) h'" by auto
  have "h ! b = h' ! b" if "b \<in> set (deps (h ! a))" for b
    using that r dp Cons.prems(4) by (auto simp: round_of_def disjoint_iff dest!: subsetD)
  then have "obj_Process t h' (h ! a) = Inr (n, x)" using p(1) obj_Process_cong [of "h ! a" h h' t] by simp
  moreover have "h' ! a = x" using r Cons.prems(2) len by (simp add: round_of_def)
  moreover have "h[a := x] ! b = h ! b" if "b \<in> set xs" for b using that Cons.prems(2) by (cases "b = a") auto
  ultimately show ?case using r by (auto simp: round_of_def)
qed

text \<open>
  What is known of the objects after a visit at \<open>t\<close>, with the heap \<open>h0\<close> before the iteration: who is
  active is a function of the spans registered in \<open>h0\<close>.
\<close>

definition users_at :: "obj list \<Rightarrow> nat \<Rightarrow> int \<Rightarrow> string set" where
  "users_at h0 u t = {i. \<exists>c. (i, c) \<in> set (usr_calc (get_usr h0 u)) \<and> act_at (get_act h0 c) t}"

definition user_at :: "obj list \<Rightarrow> SingleRuleCalculator \<Rightarrow> int \<Rightarrow> string \<Rightarrow> bool" where
  "user_at h0 c t i \<longleftrightarrow>
     (if \<not> act_at (get_act h0 (src_act c)) t then i = ''''
      else case src_rot c of
             Some u \<Rightarrow> i \<in> users_at h0 u t \<or> (users_at h0 u t = {} \<and> i = '''')
           | None \<Rightarrow> (case rule_Target (rsr_Rule (src_rule c)) of
                        None \<Rightarrow> False
                      | Some tgt \<Rightarrow> i = (if Target_TargetType tgt = TargetTypeUser then Target_TargetID tgt else '''')))"

definition override_map :: "string list \<Rightarrow> string list \<Rightarrow> string \<rightharpoonup> string" where
  "override_map rem rep = map_of (rev (map (\<lambda>i. (i, '''')) rem @ map split_replace rep))"

text \<open>The part of an object that \<open>Process\<close> does not change.\<close>

definition shape :: "obj \<Rightarrow> obj" where
  "shape x = (case x of
      ActObj act \<Rightarrow> ActObj empty_act
    | UserObj u \<Rightarrow> UserObj (u\<lparr>usr_active := [], usr_changed := False\<rparr>)
    | SingleObj c \<Rightarrow> SingleObj (c\<lparr>src_userID := '''', src_changed := False\<rparr>)
    | RulesObj rc \<Rightarrow> RulesObj (rc\<lparr>rc_userIDs := [], rc_changed := False\<rparr>)
    | OverObj oc \<Rightarrow> OverObj (oc\<lparr>oc_userMap := Map.empty\<rparr>))"

lemma obj_Process_shape:
  assumes "obj_Process t h x = Inr (n, x')"
  shows "shape x' = shape x"
  using assms
  by (cases x) (auto simp: obj_Process_def shape_def act_Process_def usr_Process_def single_Process_def rules_Process_def
      over_Process_def Let_def split: if_splits list.splits prod.splits)

lemma round_shape:
  assumes "round_of t subs h h'"
  shows "shape (h' ! a) = shape (h ! a)"
proof (cases "a \<in> set subs")
  case True
  with assms obtain n where "obj_Process t h' (h ! a) = Inr (n, h' ! a)" by (auto simp: round_of_def)
  then show ?thesis by (rule obj_Process_shape)
next
  case False
  with assms show ?thesis by (simp add: round_of_def)
qed

lemma shape_calc: "shape x = shape (UserObj u) \<Longrightarrow> \<exists>u'. x = UserObj u' \<and> usr_calc u' = usr_calc u"
  by (cases x) (auto simp: shape_def intro: UserCalculator.equality dest: arg_cong [of _ _ usr_calc])

lemma get_usr_shape: "shape (h ! a) = shape (h0 ! a) \<Longrightarrow> usr_calc (get_usr h a) = usr_calc (get_usr h0 a)"
  by (cases "h ! a"; cases "h0 ! a") (auto simp: shape_def get_usr_def dest: arg_cong [of _ _ usr_calc])

text \<open>The step of each kind of object.\<close>

lemma act_round:
  assumes "round_of t subs h h'" "c \<in> set subs" "obj_ok (h ! c)" "\<And>d. obj_due h c = Some d \<Longrightarrow> t \<le> d"
  shows "act_Active (get_act h' c) = act_at (get_act h c) t \<and> (\<forall>t' \<ge> t. act_at (get_act h' c) t' = act_at (get_act h c) t')
    \<and> (act_changed (get_act h' c) \<longleftrightarrow> act_Active (get_act h' c) \<noteq> act_Active (get_act h c))"
proof -
  from assms(1,2) obtain n where p: "obj_Process t h' (h ! c) = Inr (n, h' ! c)" by (auto simp: round_of_def)
  show ?thesis
  proof (cases "h ! c")
    case (ActObj act)
    have "\<And>d. act_due act = Some d \<Longrightarrow> t \<le> d" using assms(4) ActObj by (simp add: obj_due_def)
    moreover have "act_init act" "boundaries_ok act" using assms(3) ActObj by (simp_all add: obj_ok_def)
    ultimately obtain m act' where "act_Process t act = Inr (m, act')"
      and r: "act_Active act' = act_at act t" "\<forall>t' \<ge> t. act_at act' t' = act_at act t'"
        "act_changed act' \<longleftrightarrow> act_Active act' \<noteq> act_Active act"
      using act_Process_ok by blast
    with p ActObj have "h' ! c = ActObj act'" by (auto simp: obj_Process_def)
    with r ActObj show ?thesis by (simp add: get_act_def)
  qed (use obj_Process_shape [OF p] in \<open>cases "h' ! c"; simp add: shape_def get_act_def act_at_def empty_act_def act_Active_def\<close>)+
qed

lemma usr_loop_result:
  assumes "distinct (map fst cs)" "distinct xs"
    and "\<And>i c. (i, c) \<in> set cs \<Longrightarrow> act_changed (get_act h c) \<longleftrightarrow> act_Active (get_act h c) \<noteq> (i \<in> set xs)"
  shows "case usr_loop h cs b xs of (b', xs') \<Rightarrow> distinct xs' \<and> (\<not> b' \<longrightarrow> xs' = xs \<and> \<not> b)
    \<and> set xs' = (set xs - fst ` set cs) \<union> {i. \<exists>c. (i, c) \<in> set cs \<and> act_Active (get_act h c)}"
  using assms
proof (induction cs arbitrary: b xs)
  case Nil
  then show ?case by simp
next
  case (Cons ic cs)
  obtain i c where ic: "ic = (i, c)" by (cases ic)
  let ?act = "get_act h c"
  define xs1 where "xs1 = (if \<not> act_changed ?act then xs else if act_Active ?act then xs @ [i] else omitStr xs i)"
  define b1 where "b1 = (b \<or> act_changed ?act)"
  have ch: "act_changed ?act \<longleftrightarrow> act_Active ?act \<noteq> (i \<in> set xs)" using Cons.prems(3) ic by simp
  have l: "usr_loop h (ic # cs) b xs = usr_loop h cs b1 xs1" by (auto simp: ic xs1_def b1_def Let_def)
  have x1: "distinct xs1" "set xs1 = (set xs - {i}) \<union> (if act_Active ?act then {i} else {})"
    using ch Cons.prems(2) by (auto simp: xs1_def omitStr_def)
  have fresh: "i \<notin> fst ` set cs" "distinct (map fst cs)" using Cons.prems(1) ic by auto
  have "act_changed (get_act h c') \<longleftrightarrow> act_Active (get_act h c') \<noteq> (i' \<in> set xs1)" if "(i', c') \<in> set cs" for i' c'
  proof -
    have "i' \<noteq> i" using that fresh(1) by force
    then show ?thesis using Cons.prems(3) [of i' c'] that x1(2) by auto
  qed
  from Cons.IH [OF fresh(2) x1(1) this] have
    "case usr_loop h cs b1 xs1 of (b', xs') \<Rightarrow> distinct xs' \<and> (\<not> b' \<longrightarrow> xs' = xs1 \<and> \<not> b1)
      \<and> set xs' = (set xs1 - fst ` set cs) \<union> {i. \<exists>c. (i, c) \<in> set cs \<and> act_Active (get_act h c)}" .
  moreover have "\<not> b1 \<Longrightarrow> xs1 = xs \<and> \<not> b" by (simp add: b1_def xs1_def)
  ultimately show ?case unfolding l using x1(2) ic fresh(1) by (auto split: prod.splits)
qed

definition ready :: "int \<Rightarrow> nat list \<Rightarrow> obj list \<Rightarrow> bool" where
  "ready t subs h \<longleftrightarrow> calcs_ok subs h \<and> (\<forall>a \<in> set subs. \<forall>d. obj_due h a = Some d \<longrightarrow> t \<le> d)"

lemma ordered_deps: "ordered seen as h \<Longrightarrow> a \<in> set as \<Longrightarrow> set (deps (h ! a)) \<subseteq> seen \<union> set as"
  by (induction as arbitrary: seen) fastforce+

lemma calcs_ok_deps: "calcs_ok subs h \<Longrightarrow> a \<in> set subs \<Longrightarrow> b \<in> set (deps (h ! a)) \<Longrightarrow> b \<in> set subs"
  using ordered_deps [of "{}" subs h a] by (auto simp: calcs_ok_def)

lemma ready_act:
  assumes "round_of t subs h h'" "ready t subs h" "c \<in> set subs"
  shows "act_Active (get_act h' c) = act_at (get_act h c) t"
    and "\<And>t'. t \<le> t' \<Longrightarrow> act_at (get_act h' c) t' = act_at (get_act h c) t'"
    and "act_changed (get_act h' c) \<longleftrightarrow> act_Active (get_act h' c) \<noteq> act_Active (get_act h c)"
  using act_round [OF assms(1,3)] assms(2,3) by (auto simp: ready_def calcs_ok_def)

definition usr_sync :: "obj list \<Rightarrow> UserCalculator \<Rightarrow> bool" where
  "usr_sync h u \<longleftrightarrow> distinct (usr_active u)
     \<and> set (usr_active u) = {i. \<exists>c. (i, c) \<in> set (usr_calc u) \<and> act_Active (get_act h c)}"

lemma usr_round:
  assumes "round_of t subs h h'" "ready t subs h" "a \<in> set subs" "h ! a = UserObj u"
    and "distinct (map fst (usr_calc u))" "usr_sync h u"
  shows "\<exists>u'. h' ! a = UserObj u' \<and> usr_calc u' = usr_calc u \<and> usr_sync h' u'
    \<and> (\<not> usr_changed u' \<longrightarrow> usr_active u' = usr_active u)"
proof -
  from assms(1,3,4) obtain n where "obj_Process t h' (UserObj u) = Inr (n, h' ! a)" by (force simp: round_of_def)
  then obtain u' where u': "usr_Process h' u = Inr (n, u')" "h' ! a = UserObj u'" by (auto simp: obj_Process_def)
  have sub: "c \<in> set subs" if "(i, c) \<in> set (usr_calc u)" for i c
    using calcs_ok_deps [of subs h a c] assms(2,3,4) that by (force simp: ready_def deps_def)
  show ?thesis
  proof (cases "usr_calc u = []")
    case True
    with u' have "u' = u" by (auto simp: usr_Process_def split: if_splits)
    with True assms(6) u'(2) show ?thesis by (auto simp: usr_sync_def)
  next
    case False
    obtain b xs where l: "usr_loop h' (usr_calc u) False (usr_active u) = (b, xs)" by fastforce
    with False u'(1) have u'_eq: "u' = u\<lparr>usr_changed := b, usr_active := xs\<rparr>" by (auto simp: usr_Process_def split: if_splits)
    have "act_changed (get_act h' c) \<longleftrightarrow> act_Active (get_act h' c) \<noteq> (i \<in> set (usr_active u))"
      if ic: "(i, c) \<in> set (usr_calc u)" for i c
    proof -
      have "i \<in> set (usr_active u) \<longleftrightarrow> act_Active (get_act h c)"
        using assms(5,6) ic by (auto simp: usr_sync_def dest: eq_key_imp_eq_value)
      then show ?thesis using ready_act(3) [OF assms(1,2) sub [OF ic]] by simp
    qed
    with usr_loop_result [OF assms(5), of "usr_active u" h' False] assms(6) l
    have "distinct xs" "\<not> b \<longrightarrow> xs = usr_active u"
      "set xs = (set (usr_active u) - fst ` set (usr_calc u)) \<union> {i. \<exists>c. (i, c) \<in> set (usr_calc u) \<and> act_Active (get_act h' c)}"
      by (auto simp: usr_sync_def)
    moreover have "set (usr_active u) - fst ` set (usr_calc u) = {}" using assms(6) by (force simp: usr_sync_def)
    ultimately show ?thesis using u'(2) u'_eq by (simp add: usr_sync_def)
  qed
qed

definition single_value :: "obj list \<Rightarrow> SingleRuleCalculator \<Rightarrow> string" where
  "single_value h c =
     (if \<not> act_Active (get_act h (src_act c)) then ''''
      else case src_rot c of
             Some u \<Rightarrow> (case usr_active (get_usr h u) of [] \<Rightarrow> '''' | x # _ \<Rightarrow> x)
           | None \<Rightarrow> (case rule_Target (rsr_Rule (src_rule c)) of
                        None \<Rightarrow> ''''
                      | Some tgt \<Rightarrow> if Target_TargetType tgt = TargetTypeUser then Target_TargetID tgt else ''''))"

lemma single_value_update [simp]:
  "single_value h (c\<lparr>src_changed := b, src_userID := i\<rparr>) = single_value h c"
  by (auto simp: single_value_def split: option.split)

lemma single_round:
  assumes "round_of t subs h h'" "a \<in> set subs" "h ! a = SingleObj c"
  shows "h' ! a = SingleObj (c\<lparr>src_changed := src_userID c \<noteq> single_value h' c, src_userID := single_value h' c\<rparr>)"
proof -
  from assms obtain n where "obj_Process t h' (SingleObj c) = Inr (n, h' ! a)" by (force simp: round_of_def)
  then show ?thesis
    by (auto simp: obj_Process_def single_Process_def single_value_def obind_def split: option.splits if_splits sum.splits)
qed

definition rules_sync :: "obj list \<Rightarrow> RulesCalculator \<Rightarrow> bool" where
  "rules_sync h rc \<longleftrightarrow> rc_userIDs rc = filter (\<lambda>i. i \<noteq> '''') (map src_userID (List.map_filter (get_single h) (rc_rules rc)))"

lemma single_ids_same:
  assumes "\<And>a. a \<in> set as \<Longrightarrow> get_single h' a = map_option (\<lambda>c. c\<lparr>src_changed := src_userID c \<noteq> f c, src_userID := f c\<rparr>) (get_single h a)"
    and "\<And>r. r \<in> set (List.map_filter (get_single h') as) \<Longrightarrow> \<not> src_changed r"
  shows "map src_userID (List.map_filter (get_single h') as) = map src_userID (List.map_filter (get_single h) as)"
  using assms
proof (induction as)
  case (Cons a as)
  have "get_single h' a = map_option (\<lambda>c. c\<lparr>src_changed := src_userID c \<noteq> f c, src_userID := f c\<rparr>) (get_single h a)"
    using Cons.prems(1) by simp
  moreover have ch: "\<not> src_changed r" if "get_single h' a = Some r" for r
    using Cons.prems(2) [of r] that by (simp add: List.map_filter_simps)
  ultimately have "map_option src_userID (get_single h' a) = map_option src_userID (get_single h a)"
    by (cases "get_single h a") fastforce+
  moreover have "map src_userID (List.map_filter (get_single h') as) = map src_userID (List.map_filter (get_single h) as)"
    using Cons.prems by (intro Cons.IH) (auto simp: List.map_filter_simps split: option.splits)
  ultimately show ?case by (cases "get_single h a"; cases "get_single h' a") (auto simp: List.map_filter_simps)
qed (simp add: List.map_filter_simps)

lemma rules_round:
  assumes "round_of t subs h h'" "ready t subs h" "a \<in> set subs" "h ! a = RulesObj rc" "rules_sync h rc"
  shows "\<exists>rc'. h' ! a = RulesObj rc' \<and> rc_rules rc' = rc_rules rc \<and> rules_sync h' rc'"
proof -
  from assms(1,3,4) obtain n where p: "obj_Process t h' (RulesObj rc) = Inr (n, h' ! a)" by (force simp: round_of_def)
  let ?rs = "List.map_filter (get_single h') (rc_rules rc)"
  show ?thesis
  proof (cases "\<exists>r \<in> set ?rs. src_changed r")
    case True
    with p show ?thesis
      by (intro exI [of _ "rc\<lparr>rc_changed := True, rc_userIDs := filter (\<lambda>i. i \<noteq> '''') (map src_userID ?rs)\<rparr>"])
        (auto simp: obj_Process_def rules_Process_def Let_def rules_sync_def split: if_splits)
  next
    case False
    have "get_single h' b = map_option (\<lambda>c. c\<lparr>src_changed := src_userID c \<noteq> single_value h' c, src_userID := single_value h' c\<rparr>) (get_single h b)"
      if "b \<in> set (rc_rules rc)" for b
    proof -
      have b: "b \<in> set subs" using calcs_ok_deps [of subs h a b] assms(2-4) that by (simp add: ready_def deps_def)
      show ?thesis
      proof (cases "h ! b")
        case (SingleObj c)
        with single_round [OF assms(1) b] show ?thesis by (simp add: get_single_def)
      qed (use round_shape [OF assms(1), of b] in \<open>cases "h' ! b"; simp add: shape_def get_single_def\<close>)+
    qed
    from single_ids_same [of "rc_rules rc" h' "single_value h'" h, OF this] False
    have "map src_userID ?rs = map src_userID (List.map_filter (get_single h) (rc_rules rc))" by blast
    with p False assms(5) show ?thesis
      by (intro exI [of _ "rc\<lparr>rc_changed := False\<rparr>"]) (auto simp: obj_Process_def rules_Process_def Let_def rules_sync_def)
  qed
qed

definition over_sync :: "obj list \<Rightarrow> OverrideCalculator \<Rightarrow> bool" where
  "over_sync h oc \<longleftrightarrow> oc_userMap oc = override_map (usr_active (get_usr h (oc_remove oc))) (usr_active (get_usr h (oc_replace oc)))"

lemma over_round:
  assumes "round_of t subs h h'" "a \<in> set subs" "h ! a = OverObj oc" "over_sync h oc"
    and same: "\<And>u. u \<in> {oc_remove oc, oc_replace oc} \<Longrightarrow> \<not> usr_changed (get_usr h' u) \<Longrightarrow> usr_active (get_usr h' u) = usr_active (get_usr h u)"
  shows "\<exists>m. h' ! a = OverObj (oc\<lparr>oc_userMap := m\<rparr>) \<and> over_sync h' (oc\<lparr>oc_userMap := m\<rparr>)"
proof -
  from assms(1-3) obtain n where p: "obj_Process t h' (OverObj oc) = Inr (n, h' ! a)" by (force simp: round_of_def)
  show ?thesis
  proof (cases "\<not> usr_changed (get_usr h' (oc_remove oc)) \<and> \<not> usr_changed (get_usr h' (oc_replace oc))")
    case True
    with p have "h' ! a = OverObj oc" by (simp add: obj_Process_def over_Process_def)
    moreover from True have "usr_active (get_usr h' (oc_remove oc)) = usr_active (get_usr h (oc_remove oc))"
      "usr_active (get_usr h' (oc_replace oc)) = usr_active (get_usr h (oc_replace oc))" using same by auto
    ultimately show ?thesis using assms(4) by (intro exI [of _ "oc_userMap oc"]) (simp add: over_sync_def)
  next
    case False
    with p have "h' ! a = OverObj (oc\<lparr>oc_userMap := override_map (usr_active (get_usr h' (oc_remove oc))) (usr_active (get_usr h' (oc_replace oc)))\<rparr>)"
      by (auto simp: obj_Process_def over_Process_def override_map_def Let_def split: if_splits)
    then show ?thesis by (auto simp: over_sync_def)
  qed
qed

text \<open>
  The invariant between two visits.  \<open>h0\<close> is the heap before the iteration, and from \<open>\<tau>\<close> on the
  boundaries still to come are those registered there.
\<close>

definition shapes_kept :: "obj list \<Rightarrow> obj list \<Rightarrow> bool" where
  "shapes_kept h0 h \<longleftrightarrow> (\<forall>a. shape (h ! a) = shape (h0 ! a))"

definition acts_kept :: "obj list \<Rightarrow> nat list \<Rightarrow> int \<Rightarrow> obj list \<Rightarrow> bool" where
  "acts_kept h0 subs \<tau> h \<longleftrightarrow> (\<forall>a \<in> set subs. \<forall>t \<ge> \<tau>. act_at (get_act h a) t = act_at (get_act h0 a) t)"

definition all_sync :: "nat list \<Rightarrow> obj list \<Rightarrow> bool" where
  "all_sync subs h \<longleftrightarrow> (\<forall>a \<in> set subs. \<forall>u. h ! a = UserObj u \<longrightarrow> usr_sync h u)
     \<and> (\<forall>a \<in> set subs. \<forall>rc. h ! a = RulesObj rc \<longrightarrow> rules_sync h rc)
     \<and> (\<forall>a \<in> set subs. \<forall>oc. h ! a = OverObj oc \<longrightarrow> over_sync h oc)"

definition keys_distinct :: "nat list \<Rightarrow> obj list \<Rightarrow> bool" where
  "keys_distinct subs h \<longleftrightarrow> (\<forall>a \<in> set subs. distinct (map fst (usr_calc (get_usr h a))))"

lemma usr_active_same:
  assumes "round_of t subs h h'" "ready t subs h" "keys_distinct subs h" "all_sync subs h" "u \<in> set subs"
    and "\<not> usr_changed (get_usr h' u)"
  shows "usr_active (get_usr h' u) = usr_active (get_usr h u)"
proof (cases "h ! u")
  case (UserObj v)
  have "get_usr h u = v" using UserObj by (simp add: get_usr_def)
  then have "distinct (map fst (usr_calc v))" using assms(3,5) unfolding keys_distinct_def by metis
  with usr_round [OF assms(1,2,5) UserObj] assms(4,5) UserObj obtain v' where
    "h' ! u = UserObj v'" "\<not> usr_changed v' \<longrightarrow> usr_active v' = usr_active v" by (auto simp: all_sync_def)
  with assms(6) UserObj show ?thesis by (simp add: get_usr_def)
qed (use round_shape [OF assms(1), of u] in \<open>cases "h' ! u"; simp add: shape_def get_usr_def\<close>)+

lemma all_sync_round:
  assumes "round_of t subs h h'" "ready t subs h" "keys_distinct subs h" "all_sync subs h"
  shows "all_sync subs h'"
  unfolding all_sync_def
proof (intro conjI ballI allI impI)
  fix a u'
  assume a: "a \<in> set subs" "h' ! a = UserObj u'"
  with round_shape [OF assms(1), of a] obtain u where u: "h ! a = UserObj u" using shape_calc [of "h ! a" u'] by metis
  then have "get_usr h a = u" by (simp add: get_usr_def)
  then have "distinct (map fst (usr_calc u))" using assms(3) a(1) unfolding keys_distinct_def by metis
  with usr_round [OF assms(1,2) a(1) u] assms(4) a u show "usr_sync h' u'" by (auto simp: all_sync_def)
next
  fix a rc'
  assume a: "a \<in> set subs" "h' ! a = RulesObj rc'"
  with round_shape [OF assms(1), of a] obtain rc where rc: "h ! a = RulesObj rc" by (cases "h ! a") (auto simp: shape_def)
  with rules_round [OF assms(1,2) a(1) rc] assms(4) a show "rules_sync h' rc'" by (auto simp: all_sync_def)
next
  fix a oc'
  assume a: "a \<in> set subs" "h' ! a = OverObj oc'"
  with round_shape [OF assms(1), of a] obtain oc where oc: "h ! a = OverObj oc" by (cases "h ! a") (auto simp: shape_def)
  have "u \<in> set subs" if "u \<in> {oc_remove oc, oc_replace oc}" for u
    using calcs_ok_deps [of subs h a u] assms(2) a(1) oc that by (auto simp: ready_def deps_def)
  with usr_active_same [OF assms] have
    "\<not> usr_changed (get_usr h' u) \<Longrightarrow> usr_active (get_usr h' u) = usr_active (get_usr h u)" if "u \<in> {oc_remove oc, oc_replace oc}" for u
    using that by blast
  with over_round [OF assms(1) a(1) oc] assms(4) a oc show "over_sync h' oc'" by (auto simp: all_sync_def)
qed

lemma keys_distinct_shape: "shapes_kept h0 h \<Longrightarrow> keys_distinct subs h0 \<Longrightarrow> keys_distinct subs h"
  unfolding shapes_kept_def keys_distinct_def using get_usr_shape by metis

definition tracking :: "obj list \<Rightarrow> nat list \<Rightarrow> int \<Rightarrow> obj list \<Rightarrow> bool" where
  "tracking h0 subs \<tau> h \<longleftrightarrow> shapes_kept h0 h \<and> acts_kept h0 subs \<tau> h \<and> all_sync subs h"

text \<open>After a visit at \<open>t\<close>, moreover, every current value is the one for \<open>t\<close>.\<close>

definition current :: "obj list \<Rightarrow> nat list \<Rightarrow> int \<Rightarrow> obj list \<Rightarrow> bool" where
  "current h0 subs t h \<longleftrightarrow> (\<forall>a \<in> set subs. act_Active (get_act h a) = act_at (get_act h0 a) t)
     \<and> (\<forall>a \<in> set subs. \<forall>c. h ! a = SingleObj c \<longrightarrow> src_userID c = single_value h c)"

lemma tracking_round:
  assumes "tracking h0 subs t h" "keys_distinct subs h0" "ready t subs h" "round_of t subs h h'"
  shows "tracking h0 subs t h' \<and> current h0 subs t h'"
proof -
  have k: "shapes_kept h0 h" "acts_kept h0 subs t h" "all_sync subs h" using assms(1) by (auto simp: tracking_def)
  have "shapes_kept h0 h'" using k(1) round_shape [OF assms(4)] by (simp add: shapes_kept_def)
  moreover have "acts_kept h0 subs t h'" using k(2) ready_act(2) [OF assms(4,3)] by (simp add: acts_kept_def)
  moreover have "all_sync subs h'" using all_sync_round [OF assms(4,3)] k(3) keys_distinct_shape [OF k(1) assms(2)] by blast
  moreover have "act_Active (get_act h' a) = act_at (get_act h0 a) t" if "a \<in> set subs" for a
    using ready_act(1) [OF assms(4,3) that] k(2) that by (simp add: acts_kept_def)
  moreover have "src_userID c = single_value h' c" if "a \<in> set subs" "h' ! a = SingleObj c" for a c
  proof -
    from round_shape [OF assms(4), of a] that(2) obtain c0 where c0: "h ! a = SingleObj c0"
      by (cases "h ! a") (auto simp: shape_def)
    with single_round [OF assms(4) that(1) c0] that(2) show ?thesis by auto
  qed
  ultimately show ?thesis by (simp add: tracking_def current_def)
qed

lemma tracking_later: "tracking h0 subs t h \<Longrightarrow> t \<le> t' \<Longrightarrow> tracking h0 subs t' h"
  by (auto simp: tracking_def acts_kept_def)

fun visits :: "obj list \<Rightarrow> nat list \<Rightarrow> int \<Rightarrow> (int \<times> obj list) list \<Rightarrow> bool" where
  "visits h0 subs end [] = False"
| "visits h0 subs end ((t, h) # rest) \<longleftrightarrow> tracking h0 subs t h \<and> current h0 subs t h
     \<and> (case rest of [] \<Rightarrow> t = end
        | (t', _) # _ \<Rightarrow> t < t' \<and> t' \<le> end
            \<and> (\<forall>x. t \<le> x \<longrightarrow> x < t' \<longrightarrow> (\<forall>a \<in> set subs. act_at (get_act h0 a) x = act_at (get_act h0 a) t))
            \<and> visits h0 subs end rest)"

lemma no_event_between:
  assumes "tracking h0 subs t h" "current h0 subs t h" "a \<in> set subs" "t \<le> x" "\<And>d. obj_due h a = Some d \<Longrightarrow> x < d"
  shows "act_at (get_act h0 a) x = act_at (get_act h0 a) t"
proof -
  have "act_at (get_act h a) x = act_Active (get_act h a)"
    using assms(5) by (intro act_at_before) (auto simp: obj_due_def get_act_def act_due_def empty_act_def split: obj.splits)
  then show ?thesis using assms(1-4) by (simp add: tracking_def current_def acts_kept_def)
qed

lemma trace_visits:
  assumes "calc.trace_ok subs end \<tau> h tr" "tracking h0 subs \<tau> h" "keys_distinct subs h0" "distinct subs"
  shows "visits h0 subs end tr"
  using assms(1,2)
proof (induction tr arbitrary: \<tau> h)
  case Nil
  then show ?case by simp
next
  case (Cons th rest)
  obtain t h1 where th: "th = (t, h1)" by (cases th)
  from Cons.prems(1) obtain ns where c: "t = \<tau>" "ready t subs h" "sub_loop Process t end subs 0 h = Inr (ns, h1)"
    "calc.due_after subs t h1" and r: "case rest of [] \<Rightarrow> t = end | (t', h') # _ \<Rightarrow> t < t' \<and> t' \<le> end \<and> calc.trace_ok subs end t' h1 rest"
    by (auto simp: th ready_def)
  have "ordered {} subs h" using c(2) by (simp add: ready_def calcs_ok_def)
  then have "round_of t subs h h1" using sub_loop_round [OF c(3) assms(4)] by simp
  then have h1: "tracking h0 subs t h1" "current h0 subs t h1" using tracking_round [of h0 subs t h h1] Cons.prems(2) assms(3) c(1,2) by auto
  show ?case
  proof (cases rest)
    case Nil
    with r h1 show ?thesis by (simp add: th)
  next
    case (Cons th' rest')
    obtain t' h' where th': "th' = (t', h')" by (cases th')
    have n: "t < t'" "t' \<le> end" "calc.trace_ok subs end t' h1 rest" using r Cons th' by auto
    then have "\<forall>a \<in> set subs. \<forall>d. obj_due h1 a = Some d \<longrightarrow> t' \<le> d" using Cons th' by auto
    then have g: "act_at (get_act h0 a) x = act_at (get_act h0 a) t" if "t \<le> x" "x < t'" "a \<in> set subs" for x a
      using no_event_between [OF h1 that(3,1)] that by force
    have v: "visits h0 subs end rest" using Cons.IH [OF n(3)] tracking_later [OF h1(1)] n(1) by simp
    have "case rest of [] \<Rightarrow> t = end | (t', _) # _ \<Rightarrow> t < t' \<and> t' \<le> end
        \<and> (\<forall>x. t \<le> x \<longrightarrow> x < t' \<longrightarrow> (\<forall>a \<in> set subs. act_at (get_act h0 a) x = act_at (get_act h0 a) t)) \<and> visits h0 subs end rest"
      unfolding Cons th' list.case prod.case using n(1,2) g v [unfolded Cons th'] by blast
    then show ?thesis unfolding th visits.simps using h1 by blast
  qed
qed

text \<open>What the calculators report at a visit, from the registered spans.\<close>

lemma current_users:
  assumes "tracking h0 subs t h" "current h0 subs t h" "calcs_ok subs h0" "u \<in> set subs"
  shows "distinct (usr_active (get_usr h u)) \<and> set (usr_active (get_usr h u)) = users_at h0 u t"
proof (cases "\<exists>v. h ! u = UserObj v")
  case True
  then obtain v where UserObj: "h ! u = UserObj v" by blast
  have s: "shape (h0 ! u) = shape (UserObj v)" using assms(1) UserObj by (metis shapes_kept_def tracking_def)
  from shape_calc [OF s] obtain v0 where v0: "h0 ! u = UserObj v0" "usr_calc v0 = usr_calc v" by blast
  have "act_Active (get_act h c) = act_at (get_act h0 c) t" if "(i, c) \<in> set (usr_calc v)" for i c
    using calcs_ok_deps [OF assms(3,4), of c] that v0 assms(2) by (force simp: deps_def current_def)
  moreover have "usr_sync h v" using assms(1,4) UserObj by (simp add: tracking_def all_sync_def)
  ultimately show ?thesis using UserObj v0 by (auto simp: usr_sync_def users_at_def get_usr_def)
next
  case False
  have "shape (h ! u) = shape (h0 ! u)" using assms(1) by (metis shapes_kept_def tracking_def)
  with False have "get_usr h u = empty_usr" "get_usr h0 u = empty_usr"
    by (cases "h ! u"; cases "h0 ! u"; simp add: shape_def get_usr_def)+
  then show ?thesis by (simp add: users_at_def empty_usr_def)
qed

lemma single_fields:
  assumes "c\<lparr>src_userID := i, src_changed := b\<rparr> = c0\<lparr>src_userID := j, src_changed := b'\<rparr>"
  shows "src_act c = src_act c0" "src_rot c = src_rot c0" "src_rule c = src_rule c0"
  using assms by (cases c; cases c0; simp)+

lemma current_single:
  assumes "tracking h0 subs t h" "current h0 subs t h" "calcs_ok subs h0" "a \<in> set subs" "h0 ! a = SingleObj c0"
  shows "\<exists>c. get_single h a = Some c \<and> user_at h0 c0 t (src_userID c)"
proof -
  have "shape (h ! a) = shape (SingleObj c0)" using assms(1,5) by (metis shapes_kept_def tracking_def)
  then obtain c where c: "h ! a = SingleObj c" and e: "src_act c = src_act c0" "src_rot c = src_rot c0" "src_rule c = src_rule c0"
    by (cases "h ! a") (auto simp: shape_def dest: single_fields)
  have d: "b \<in> set subs" if "b = src_act c0 \<or> src_rot c0 = Some b" for b
    using calcs_ok_deps [OF assms(3,4), of b] that assms(5) by (auto simp: deps_def)
  have "single_value h c = single_value h c0" unfolding single_value_def e by (rule refl)
  then have "src_userID c = single_value h c0" using assms(2,4) c by (simp add: current_def)
  moreover have "act_Active (get_act h (src_act c0)) = act_at (get_act h0 (src_act c0)) t"
    using assms(2) d by (simp add: current_def)
  moreover have "set (usr_active (get_usr h u)) = users_at h0 u t" if "src_rot c0 = Some u" for u
    using current_users [OF assms(1-3) d] that by blast
  moreover have "src_rot c0 = None \<longrightarrow> rule_Target (rsr_Rule (src_rule c0)) \<noteq> None"
    using assms(3-5) by (auto simp: calcs_ok_def obj_ok_def)
  ultimately have "user_at h0 c0 t (src_userID c)"
    by (auto simp: user_at_def single_value_def split: option.splits list.splits)
  with c show ?thesis by (simp add: get_single_def)
qed

end
