(* ===== verification/OnCallSetup.thy ===== *)
theory OnCallSetup
  imports OnCallShifts
begin

section \<open>Building the calculators\<close>

text \<open>
  The spans that the constructors register, and the heap they leave: every object is registered
  once, after the objects it reads, initialized and at its initial value.
\<close>

subsection \<open>The spans of an ActiveCalculator\<close>

definition spans_ok :: "(int \<times> bool) list \<Rightarrow> bool" where
  "spans_ok xs \<longleftrightarrow> alternating False xs \<and> (xs \<noteq> [] \<longrightarrow> \<not> snd (last xs)) \<and> sorted_wrt (<) (map fst xs)
     \<and> (\<forall>T \<in> fst ` set xs. 60 dvd T)"

lemma alternating_snoc: "alternating b (xs @ [(T, s)]) \<longleftrightarrow> alternating b xs \<and> s = (\<not> (if xs = [] then b else snd (last xs)))"
  by (induction b xs rule: alternating.induct) auto

lemma value_at_snoc:
  "sorted_wrt (<) (map fst (xs @ [(T, s)])) \<Longrightarrow> value_at b (xs @ [(T, s)]) t = (if T \<le> t then s else value_at b xs t)"
  by (induction b xs t rule: value_at.induct) auto

lemma value_at_last: "\<forall>T \<in> fst ` set xs. T \<le> t \<Longrightarrow> value_at b xs t = (if xs = [] then b else snd (last xs))"
  by (induction b xs t rule: value_at.induct) auto

text \<open>A span in minutes, as \<open>SetSpan\<close> truncates it.\<close>

definition in_span :: "instant \<Rightarrow> instant \<Rightarrow> int \<Rightarrow> bool" where
  "in_span s e t \<longleftrightarrow> Truncate s Minute \<le> t * Second \<and> t * Second < Truncate e Minute"

definition add_span :: "int \<Rightarrow> int \<Rightarrow> (int \<times> bool) list \<Rightarrow> (int \<times> bool) list" where
  "add_span S E xs = (if xs \<noteq> [] \<and> S = fst (last xs) then butlast xs else xs @ [(S, True)]) @ [(E, False)]"

lemma add_span_ok:
  assumes "spans_ok xs" "S < E" "60 dvd S" "60 dvd E" "xs \<noteq> [] \<Longrightarrow> fst (last xs) \<le> S"
  shows "spans_ok (add_span S E xs)"
    and "value_at False (add_span S E xs) t \<longleftrightarrow> value_at False xs t \<or> S \<le> t \<and> t < E"
proof -
  consider (empty) "xs = []" | (merge) ys where "xs = ys @ [(S, False)]" | (gap) ys T where "xs = ys @ [(T, False)]" "T < S"
  proof (cases xs rule: rev_cases)
    case (snoc ys v)
    then show ?thesis using assms(1,5) that(2,3) by (cases v) (force simp: spans_ok_def)
  qed (use that in auto)
  then have "spans_ok (add_span S E xs) \<and> (value_at False (add_span S E xs) t \<longleftrightarrow> value_at False xs t \<or> S \<le> t \<and> t < E)"
  proof cases
    case empty
    with assms(2-4) show ?thesis by (auto simp: add_span_def spans_ok_def)
  next
    case (merge ys)
    then have a: "add_span S E xs = ys @ [(E, False)]" by (simp add: add_span_def)
    have ys: "alternating False ys" "ys \<noteq> []" "snd (last ys)" "sorted_wrt (<) (map fst ys)" "\<forall>T \<in> fst ` set ys. T < S \<and> 60 dvd T"
      using assms(1) by (auto simp: spans_ok_def merge alternating_snoc sorted_wrt_append split: if_splits)
    have so: "sorted_wrt (<) (map fst (ys @ [(E, False)]))" using ys assms(2) by (force simp: sorted_wrt_append)
    have sx: "sorted_wrt (<) (map fst (ys @ [(S, False)]))" using ys by (force simp: sorted_wrt_append)
    have "value_at False ys t" if "S \<le> t" using value_at_last [of ys t False] ys that by force
    then have "value_at False (add_span S E xs) t \<longleftrightarrow> value_at False xs t \<or> S \<le> t \<and> t < E"
      unfolding a unfolding merge value_at_snoc [OF so] value_at_snoc [OF sx] using assms(2) by auto
    moreover have "spans_ok (add_span S E xs)" unfolding a using ys so assms(4) by (auto simp: spans_ok_def alternating_snoc)
    ultimately show ?thesis by simp
  next
    case (gap ys T)
    then have a: "add_span S E xs = (xs @ [(S, True)]) @ [(E, False)]" by (simp add: add_span_def)
    have xs: "alternating False xs" "\<not> snd (last xs)" "xs \<noteq> []" "sorted_wrt (<) (map fst xs)" "\<forall>T \<in> fst ` set xs. T < S \<and> 60 dvd T"
      using assms(1) gap by (auto simp: spans_ok_def sorted_wrt_append)
    have s1: "sorted_wrt (<) (map fst (xs @ [(S, True)]))" using xs by (force simp: sorted_wrt_append)
    have s2: "sorted_wrt (<) (map fst ((xs @ [(S, True)]) @ [(E, False)]))" using xs assms(2) by (force simp: sorted_wrt_append)
    have "\<not> value_at False xs t" if "S \<le> t" using value_at_last [of xs t False] xs that by force
    then have "value_at False (add_span S E xs) t \<longleftrightarrow> value_at False xs t \<or> S \<le> t \<and> t < E"
      unfolding a value_at_snoc [OF s2] value_at_snoc [OF s1] using assms(2) by auto
    moreover have "spans_ok (add_span S E xs)" unfolding a spans_ok_def alternating_snoc using xs s2 assms(3,4) by auto
    ultimately show ?thesis by simp
  qed
  then show "spans_ok (add_span S E xs)"
    and "value_at False (add_span S E xs) t \<longleftrightarrow> value_at False xs t \<or> S \<le> t \<and> t < E" by simp_all
qed

lemma minute_unix: "Truncate t Minute = Unix (Truncate t Minute) * Second \<and> 60 dvd Unix (Truncate t Minute)"
proof -
  have "Minute dvd Truncate t Minute" by (simp add: Truncate_Minute dvd_minus_mod)
  then obtain k where k: "Truncate t Minute = Minute * k" by (rule dvdE)
  have "Unix (Truncate t Minute) = 60 * k" unfolding k by (simp add: Unix_def)
  then show ?thesis unfolding k by simp
qed

lemma act_set_pair:
  assumes "S < E" "act_states act \<noteq> [] \<longrightarrow> \<not> snd (last (act_states act))"
    and "alternating False (act_states act)" "sorted_wrt (<) (map fst (act_states act))"
    and "obind (act_set s True act) (act_set e False) = Inr act'" "Unix s = S" "Unix e = E"
  shows "act' = act\<lparr>act_states := add_span S E (act_states act)\<rparr> \<and> (act_states act \<noteq> [] \<longrightarrow> fst (last (act_states act)) \<le> S)"
proof (cases "act_states act = []")
  case True
  with assms(1,5-7) show ?thesis by (simp add: act_set_def Let_def add_span_def)
next
  case ne: False
  show ?thesis
  proof (cases "S = fst (last (act_states act))")
    case True
    then have "act_set s True act = Inr (act\<lparr>act_states := butlast (act_states act)\<rparr>)" using ne assms by (simp add: act_set_def Let_def)
    with assms(5) have "act_set e False (act\<lparr>act_states := butlast (act_states act)\<rparr>) = Inr act'" by simp
    then have "act' = act\<lparr>act_states := butlast (act_states act) @ [(E, False)]\<rparr>"
      using assms(7) by (auto simp: act_set_def Let_def split: if_splits)
    with True ne show ?thesis by (simp add: add_span_def)
  next
    case False
    with ne assms(5,6) have "act_set s True act = Inr (act\<lparr>act_states := act_states act @ [(S, True)]\<rparr>)" "fst (last (act_states act)) < S"
      by (auto simp: act_set_def Let_def split: if_splits)
    with assms(1,5,7) False show ?thesis by (auto simp: act_set_def Let_def add_span_def)
  qed
qed

text \<open>A calculator at its initial value.\<close>

definition quiet :: "ActiveCalculator \<Rightarrow> bool" where
  "quiet act \<longleftrightarrow> act_active act = (0, False) \<and> spans_ok (act_states act)"

lemma quiet_empty [simp]: "quiet empty_act" "\<not> act_init empty_act" "act_at empty_act t = False"
  by (simp_all add: quiet_def empty_act_def spans_ok_def act_at_def act_Active_def)

lemma quiet_Init [simp]: "quiet (act_Init act) = quiet act" "act_init (act_Init act)" "act_at (act_Init act) t = act_at act t"
  by (simp_all add: quiet_def act_Init_def act_at_def act_Active_def)

text \<open>The timestamps for which a calculation needs the value of a calculator.\<close>

definition in_window :: "TimeIterator \<Rightarrow> int \<Rightarrow> bool" where
  "in_window iter t \<longleftrightarrow> ti_start iter \<le> t \<and> t < ti_end iter"

lemma act_SetSpan_ok:
  assumes "act_SetSpan iter s e act = Inr act'" "quiet act" "ti_step iter = 60"
  shows "\<not> act_init act \<and> \<not> act_init act' \<and> quiet act' \<and> (\<forall>t. in_window iter t \<longrightarrow> act_at act' t \<longleftrightarrow> act_at act t \<or> in_span s e t)"
proof -
  let ?s = "Truncate s Minute" and ?e = "Truncate e Minute"
  have step: "iter_Step iter = Minute" using assms(3) by (simp add: iter_Step_def)
  define S E where "S = Unix ?s" and "E = Unix ?e"
  have se: "?s = S * Second" "?e = E * Second" "60 dvd S" "60 dvd E" using minute_unix by (auto simp: S_def E_def)
  have i: "\<not> act_init act" using assms(1) by (auto simp: act_SetSpan_def split: if_splits)
  have span: "in_span s e t \<longleftrightarrow> S \<le> t \<and> t < E" for t by (simp add: in_span_def se)
  show ?thesis
  proof (cases "S < E \<and> ti_start iter < E \<and> S < ti_end iter")
    case True
    then have set: "obind (act_set ?s True act) (act_set ?e False) = Inr act'"
      using assms(1) i step by (simp add: act_SetSpan_def Let_def se iter_Start_def iter_End_def)
    have q: "act_states act \<noteq> [] \<longrightarrow> \<not> snd (last (act_states act))" "alternating False (act_states act)"
      "sorted_wrt (<) (map fst (act_states act))" using assms(2) by (simp_all add: quiet_def spans_ok_def)
    have a: "act' = act\<lparr>act_states := add_span S E (act_states act)\<rparr>" "act_states act \<noteq> [] \<longrightarrow> fst (last (act_states act)) \<le> S"
      using act_set_pair [OF _ q set S_def [symmetric] E_def [symmetric]] True by simp_all
    have act: "act_Active act = False" "act_Active act' = False" using assms(2) a(1) by (simp_all add: quiet_def act_Active_def)
    have "act_at act' t \<longleftrightarrow> act_at act t \<or> S \<le> t \<and> t < E" for t
      using add_span_ok(2) [of "act_states act" S E t] True assms(2) a(2) se(3,4)
      unfolding act_at_def act by (simp add: a(1) quiet_def)
    then show ?thesis using i a add_span_ok(1) [of "act_states act" S E] True assms(2) se(3,4) by (simp add: quiet_def span)
  next
    case False
    then have "act' = act" using assms(1) i step
      by (auto simp: act_SetSpan_def Let_def se iter_Start_def iter_End_def split: if_splits)
    with False assms(2) i show ?thesis by (auto simp: span in_window_def)
  qed
qed

subsection \<open>The heap under construction\<close>

text \<open>
  \<open>us\<close> are the user calculators and \<open>A\<close> the other active calculators that are not initialized yet.
\<close>

definition idle :: "obj \<Rightarrow> bool" where
  "idle x = (case x of
      ActObj act \<Rightarrow> quiet act
    | UserObj u \<Rightarrow> usr_init u \<and> usr_active u = [] \<and> distinct (map fst (usr_calc u))
    | SingleObj c \<Rightarrow> src_userID c = '''' \<and> (src_rot c = None \<longrightarrow> rule_Target (rsr_Rule (src_rule c)) \<noteq> None)
    | RulesObj rc \<Rightarrow> rc_userIDs rc = []
    | OverObj oc \<Rightarrow> oc_userMap oc = Map.empty)"

definition raw_user :: "UserCalculator \<Rightarrow> bool" where
  "raw_user u \<longleftrightarrow> \<not> usr_init u \<and> usr_calc u = [] \<and> usr_active u = [] \<and> distinct (map fst (usr_m u)) \<and> distinct (map snd (usr_m u))"

definition raw_act :: "obj list \<Rightarrow> nat \<Rightarrow> bool" where
  "raw_act h a \<longleftrightarrow> a < length h \<and> (\<exists>act. h ! a = ActObj act \<and> \<not> act_init act)"

definition owned :: "obj list \<Rightarrow> nat \<Rightarrow> nat set" where
  "owned h u = snd ` set (usr_m (get_usr h u))"

definition finished :: "obj \<Rightarrow> bool" where
  "finished x = (case x of ActObj act \<Rightarrow> act_init act | UserObj u \<Rightarrow> usr_init u | _ \<Rightarrow> True)"

definition regs_ok :: "nat list \<Rightarrow> world \<Rightarrow> bool" where
  "regs_ok us w \<longleftrightarrow> distinct (ti_sub (w_iter w)) \<and> set (ti_sub (w_iter w)) = {..<length (w_heap w)} - set us
     \<and> ordered {} (ti_sub (w_iter w)) (w_heap w)"

definition users_raw :: "nat list \<Rightarrow> obj list \<Rightarrow> bool" where
  "users_raw us h \<longleftrightarrow> distinct us \<and> (\<forall>u \<in> set us. u < length h \<and> (\<exists>x. h ! u = UserObj x \<and> raw_user x))"

definition acts_raw :: "nat list \<Rightarrow> nat set \<Rightarrow> obj list \<Rightarrow> bool" where
  "acts_raw us A h \<longleftrightarrow> (\<forall>a \<in> A. raw_act h a) \<and> (\<forall>a. raw_act h a \<longrightarrow> a \<in> A \<or> (\<exists>u \<in> set us. a \<in> owned h u))
     \<and> (\<forall>u \<in> set us. \<forall>c \<in> owned h u. raw_act h c \<and> c \<notin> A)
     \<and> (\<forall>u \<in> set us. \<forall>v \<in> set us. u \<noteq> v \<longrightarrow> owned h u \<inter> owned h v = {})"

definition building :: "nat list \<Rightarrow> nat set \<Rightarrow> world \<Rightarrow> bool" where
  "building us A w \<longleftrightarrow> ti_step (w_iter w) = 60 \<and> regs_ok us w \<and> users_raw us (w_heap w) \<and> acts_raw us A (w_heap w)
     \<and> (\<forall>b < length (w_heap w). b \<notin> set us \<longrightarrow> idle (w_heap w ! b))"

definition kept :: "world \<Rightarrow> world \<Rightarrow> bool" where
  "kept w w' \<longleftrightarrow> length (w_heap w) \<le> length (w_heap w') \<and> w_iter w' = (w_iter w)\<lparr>ti_sub := ti_sub (w_iter w')\<rparr>
     \<and> (\<forall>b < length (w_heap w). finished (w_heap w ! b) \<longrightarrow> w_heap w' ! b = w_heap w ! b)"

lemma kept_refl [simp]: "kept w w" by (simp add: kept_def)

lemma kept_trans: "kept w1 w2 \<Longrightarrow> kept w2 w3 \<Longrightarrow> kept w1 w3"
  unfolding kept_def by (metis (no_types, lifting) TimeIterator.surjective TimeIterator.update_convs(7) order.trans order.strict_trans2)

lemma ordered_mono:
  assumes "length h \<le> length h'" "\<And>a. a \<in> set as \<Longrightarrow> deps (h' ! a) = deps (h ! a)" "ordered seen as h"
  shows "ordered seen as h'"
  using assms(2,3) by (induction as arbitrary: seen) (use assms(1) in auto)

lemma ordered_snoc: "ordered seen (as @ [a]) h \<longleftrightarrow> ordered seen as h \<and> a < length h \<and> set (deps (h ! a)) \<subseteq> seen \<union> set as"
  by (induction as arbitrary: seen) auto

lemma ordered_length: "ordered seen as h \<Longrightarrow> a \<in> set as \<Longrightarrow> a < length h"
  by (induction as arbitrary: seen) auto

lemma owned_append: "u < length h \<Longrightarrow> owned (h @ xs) u = owned h u"
  by (simp add: owned_def get_usr_def nth_append)

lemma raw_act_append: "raw_act (h @ [x]) a \<longleftrightarrow> raw_act h a \<or> a = length h \<and> (\<exists>act. x = ActObj act \<and> \<not> act_init act)"
  by (auto simp: raw_act_def nth_append less_Suc_eq)

lemma users_raw_less: "users_raw us h \<Longrightarrow> u \<in> set us \<Longrightarrow> u < length h"
  by (simp add: users_raw_def)

lemma owned_raw: "acts_raw us A h \<Longrightarrow> u \<in> set us \<Longrightarrow> c \<in> owned h u \<Longrightarrow> raw_act h c \<and> c \<notin> A"
  unfolding acts_raw_def by blast

lemma kept_alloc: "kept w (w\<lparr>w_heap := w_heap w @ xs\<rparr>)" "kept w (register a (w\<lparr>w_heap := w_heap w @ xs\<rparr>))"
  by (simp_all add: kept_def register_def iter_Register_def nth_append)

lemma building_user:
  assumes "building us A w" "NewUserCalculator w = (u, w')"
  shows "building (us @ [u]) A w' \<and> kept w w' \<and> u = length (w_heap w) \<and> w_heap w' = w_heap w @ [UserObj empty_usr]"
proof -
  let ?h = "w_heap w"
  have w': "u = length ?h" "w' = w\<lparr>w_heap := ?h @ [UserObj empty_usr]\<rparr>" using assms(2) by (simp_all add: NewUserCalculator_def alloc_def)
  have b: "regs_ok us w" "users_raw us ?h" "acts_raw us A ?h" using assms(1) by (simp_all add: building_def)
  have "regs_ok (us @ [u]) w'" using b(1) ordered_mono [of ?h "w_heap w'" "ti_sub (w_iter w)" "{}"] users_raw_less [OF b(2)]
    by (auto simp: regs_ok_def w' nth_append)
  moreover have "users_raw (us @ [u]) (w_heap w')" using b(2)
    by (fastforce simp: users_raw_def w' nth_append empty_usr_def raw_user_def)
  moreover have "owned (w_heap w') u = {}" by (simp add: owned_def get_usr_def w' empty_usr_def)
  then have "acts_raw (us @ [u]) A (w_heap w')"
    using b(3) users_raw_less [OF b(2)] unfolding acts_raw_def by (auto simp: w' owned_append raw_act_append)
  ultimately show ?thesis using assms(1) kept_alloc(1) by (auto simp: building_def w' nth_append less_Suc_eq)
qed

lemma building_act:
  assumes "building us A w" "NewActiveCalculator w = (a, w')"
  shows "building us (insert a A) w' \<and> kept w w' \<and> a = length (w_heap w) \<and> w_heap w' = w_heap w @ [ActObj empty_act]"
proof -
  let ?h = "w_heap w"
  have w': "a = length ?h" "w' = register a (w\<lparr>w_heap := ?h @ [ActObj empty_act]\<rparr>)" using assms(2)
    by (auto simp: NewActiveCalculator_def alloc_def)
  then have h': "w_heap w' = ?h @ [ActObj empty_act]" by (simp add: register_def)
  have b: "regs_ok us w" "users_raw us ?h" "acts_raw us A ?h" using assms(1) by (simp_all add: building_def)
  have "ordered {} (ti_sub (w_iter w)) (w_heap w')"
  proof (rule ordered_mono)
    show "length ?h \<le> length (w_heap w')" by (simp add: h')
    show "ordered {} (ti_sub (w_iter w)) ?h" using b(1) by (simp add: regs_ok_def)
    show "deps (w_heap w' ! c) = deps (?h ! c)" if "c \<in> set (ti_sub (w_iter w))" for c
      using that b(1) unfolding h' regs_ok_def by (simp add: nth_append)
  qed
  then have "regs_ok us w'" using b(1) users_raw_less [OF b(2)]
    by (auto simp: regs_ok_def w' register_def iter_Register_def ordered_snoc deps_def h' less_Suc_eq)
  moreover have "users_raw us (w_heap w')" using b(2) by (fastforce simp: users_raw_def h' nth_append)
  moreover have "acts_raw us (insert a A) (w_heap w')"
    using b(3) users_raw_less [OF b(2)] unfolding acts_raw_def
    by (auto simp: h' w'(1) owned_append raw_act_append) (auto simp: raw_act_def)
  ultimately show ?thesis using assms(1) kept_alloc(2) [of w a "[ActObj empty_act]"]
    by (auto simp: building_def h' w' nth_append less_Suc_eq idle_def register_def iter_Register_def)
qed

text \<open>Replacing an active calculator that is not initialized.\<close>

lemma owned_put: "h ! a = ActObj act \<Longrightarrow> owned (h[a := ActObj act']) u = owned h u"
  by (cases "a < length h"; cases "u = a") (simp_all add: owned_def get_usr_def list_update_beyond)

lemma kept_put: "\<not> finished (w_heap w ! a) \<Longrightarrow> kept w (put a x w)"
  by (auto simp: kept_def put_def) (metis nth_list_update_neq)

lemma building_put:
  assumes "building us A w" "raw_act (w_heap w) a" "quiet act'" "\<not> act_init act'"
  shows "building us A (put a (ActObj act') w) \<and> kept w (put a (ActObj act') w)"
proof -
  let ?h = "w_heap w" and ?h' = "(w_heap w)[a := ActObj act']"
  from assms(2) obtain act where a: "a < length ?h" "?h ! a = ActObj act" "\<not> act_init act" by (auto simp: raw_act_def)
  have b: "regs_ok us w" "users_raw us ?h" "acts_raw us A ?h" using assms(1) by (simp_all add: building_def)
  have "deps (?h' ! b) = deps (?h ! b)" for b using a by (cases "b = a") (simp_all add: deps_def)
  then have "regs_ok us (put a (ActObj act') w)" using b(1) by (simp add: regs_ok_def put_def ordered_cong [of ?h' ?h])
  moreover have "users_raw us ?h'" using b(2) a by (auto simp: users_raw_def nth_list_update)
  moreover have r: "raw_act ?h' c \<longleftrightarrow> raw_act ?h c" for c using assms(2,4) a by (cases "c = a") (auto simp: raw_act_def)
  have "acts_raw us A ?h'" using b(3) unfolding acts_raw_def r owned_put [OF a(2)] .
  ultimately show ?thesis using assms(1,3) a kept_put [of w a "ActObj act'"]
    by (auto simp: building_def put_def nth_list_update idle_def finished_def)
qed

lemma building_Init:
  assumes "building us A w" "a \<in> A"
  shows "building us (A - {a}) (put a (ActObj (act_Init (get_act (w_heap w) a))) w) \<and> kept w (put a (ActObj (act_Init (get_act (w_heap w) a))) w)"
proof -
  let ?h = "w_heap w" and ?h' = "(w_heap w)[a := ActObj (act_Init (get_act (w_heap w) a))]"
  have b: "regs_ok us w" "users_raw us ?h" "acts_raw us A ?h" using assms(1) by (simp_all add: building_def)
  from assms(2) b(3) obtain act where a: "a < length ?h" "?h ! a = ActObj act" "\<not> act_init act" by (auto simp: acts_raw_def raw_act_def)
  have "deps (?h' ! b) = deps (?h ! b)" for b using a by (cases "b = a") (simp_all add: deps_def)
  then have "regs_ok us (put a (ActObj (act_Init (get_act ?h a))) w)" using b(1) by (simp add: regs_ok_def put_def ordered_cong [of ?h' ?h])
  moreover have "users_raw us ?h'" using b(2) a by (auto simp: users_raw_def nth_list_update)
  moreover have r: "raw_act ?h' c \<longleftrightarrow> raw_act ?h c \<and> c \<noteq> a" for c using a by (cases "c = a") (auto simp: raw_act_def)
  have "acts_raw us (A - {a}) ?h'" using b(3) assms(2) unfolding acts_raw_def r owned_put [OF a(2)] by blast
  moreover have "quiet act" using assms(1) a b(1) b(2) by (force simp: building_def idle_def users_raw_def)
  ultimately show ?thesis using assms(1) a kept_put [of w a]
    by (auto simp: building_def put_def nth_list_update idle_def finished_def get_act_def)
qed

text \<open>Entering an active calculator in the map of a user calculator.\<close>

lemma building_key:
  assumes "building us (insert a A) w" "a \<notin> A" "u \<in> set us" "i \<notin> fst ` set (usr_m (get_usr (w_heap w) u))"
  defines "w' \<equiv> put u (UserObj (get_usr (w_heap w) u\<lparr>usr_m := usr_m (get_usr (w_heap w) u) @ [(i, a)]\<rparr>)) w"
  shows "building us A w' \<and> kept w w'"
proof -
  let ?h = "w_heap w" and ?x = "get_usr (w_heap w) u"
  have b: "regs_ok us w" "users_raw us ?h" "acts_raw us (insert a A) ?h" using assms(1) by (simp_all add: building_def)
  from b(2) assms(3) have u: "u < length ?h" "?h ! u = UserObj ?x" "raw_user ?x" by (auto simp: users_raw_def get_usr_def)
  have h': "w_heap w' = ?h[u := UserObj (?x\<lparr>usr_m := usr_m ?x @ [(i, a)]\<rparr>)]" by (simp add: w'_def put_def)
  have own: "owned (w_heap w') v = (if v = u then insert a (owned ?h u) else owned ?h v)" for v
    using u(1) by (auto simp: h' owned_def get_usr_def)
  have raw: "raw_act (w_heap w') c \<longleftrightarrow> raw_act ?h c" for c using u by (cases "c = u") (auto simp: h' raw_act_def)
  have fresh: "a \<notin> owned ?h v" if "v \<in> set us" for v using b(3) that by (auto simp: acts_raw_def)
  have "deps (w_heap w' ! c) = deps (?h ! c)" for c using u by (cases "c = u") (simp_all add: h' deps_def raw_user_def)
  then have "regs_ok us w'" using b(1) ordered_cong [of "w_heap w'" ?h] by (simp add: regs_ok_def h') (simp add: w'_def put_def)
  moreover have "raw_user (?x\<lparr>usr_m := usr_m ?x @ [(i, a)]\<rparr>)"
    using u(3) fresh [OF assms(3)] assms(4) by (auto simp: raw_user_def owned_def)
  then have "users_raw us (w_heap w')" using b(2) u by (auto simp: users_raw_def h' nth_list_update)
  moreover have "acts_raw us A (w_heap w')" unfolding acts_raw_def raw own
  proof (intro conjI)
    show "\<forall>c. raw_act ?h c \<longrightarrow> c \<in> A \<or> (\<exists>v \<in> set us. c \<in> (if v = u then insert a (owned ?h u) else owned ?h v))"
      using b(3) assms(3) unfolding acts_raw_def by (metis insert_iff)
    show "\<forall>v \<in> set us. \<forall>c \<in> if v = u then insert a (owned ?h u) else owned ?h v. raw_act ?h c \<and> c \<notin> A"
      using b(3) assms(2) unfolding acts_raw_def by (metis insert_iff)
  qed (use b(3) fresh assms(3) in \<open>auto simp: acts_raw_def\<close>)
  moreover have "idle (w_heap w' ! c)" if "c < length (w_heap w')" "c \<notin> set us" for c
    using assms(1,3) that by (cases "c = u") (auto simp: building_def h')
  moreover have "\<not> finished (?h ! u)" using u by (simp add: finished_def raw_user_def)
  then have "kept w w'" unfolding w'_def by (rule kept_put)
  ultimately show ?thesis using assms(1) by (simp add: building_def w'_def put_def)
qed

text \<open>The value at \<open>t\<close> of the calculator of a user.\<close>

definition span_on :: "obj list \<Rightarrow> nat \<Rightarrow> string \<Rightarrow> int \<Rightarrow> bool" where
  "span_on h u i t \<longleftrightarrow> (\<exists>c. (i, c) \<in> set (usr_m (get_usr h u)) \<and> act_at (get_act h c) t)"

lemma assoc_unique:
  assumes "distinct (map fst m)" "distinct (map snd m)" "(i, c) \<in> set m" "(j, d) \<in> set m"
  shows "j = i \<longleftrightarrow> d = c"
proof -
  have "inj_on fst (set m)" "inj_on snd (set m)" using assms(1,2) by (simp_all add: distinct_map)
  then show ?thesis using inj_onD [of fst "set m" "(i, c)" "(j, d)"] inj_onD [of snd "set m" "(i, c)" "(j, d)"] assms(3,4) by auto
qed

lemma span_on_put:
  assumes "building us A w" "u \<in> set us" "v \<in> set us" "(i, c) \<in> set (usr_m (get_usr (w_heap w) u))"
  shows "span_on (w_heap (put c (ActObj act') w)) v j t \<longleftrightarrow>
    (if v = u \<and> j = i then act_at act' t else span_on (w_heap w) v j t)"
proof -
  let ?h = "w_heap w"
  have b: "users_raw us ?h" "acts_raw us A ?h" using assms(1) by (simp_all add: building_def)
  have c: "c \<in> owned ?h u" using assms(4) by (force simp: owned_def)
  then obtain act where act: "c < length ?h" "?h ! c = ActObj act" using owned_raw [OF b(2) assms(2)] by (auto simp: raw_act_def)
  have d: "distinct (map fst (usr_m (get_usr ?h v)))" "distinct (map snd (usr_m (get_usr ?h v)))"
    using b(1) assms(3) by (auto simp: users_raw_def raw_user_def get_usr_def)
  have m: "usr_m (get_usr (w_heap (put c (ActObj act') w)) v) = usr_m (get_usr ?h v)"
    using act by (cases "v = c") (simp_all add: put_def get_usr_def)
  have g: "get_act (w_heap (put c (ActObj act') w)) c' = (if c' = c then act' else get_act ?h c')" for c'
    using act by (simp add: put_def get_act_def)
  show ?thesis
  proof (cases "v = u")
    case True
    have uniq: "(j', c') \<in> set (usr_m (get_usr ?h u)) \<Longrightarrow> j' = i \<longleftrightarrow> c' = c" for j' c'
      using assoc_unique [OF d] True assms(4) by blast
    show ?thesis
    proof (cases "j = i")
      case True
      then have "(j, d) \<in> set (usr_m (get_usr ?h u)) \<longleftrightarrow> d = c" for d using assms(4) uniq by blast
      then show ?thesis using \<open>v = u\<close> True unfolding span_on_def m g by simp
    next
      case False
      then have "(j, c) \<notin> set (usr_m (get_usr ?h v))" using uniq \<open>v = u\<close> by blast
      then show ?thesis using False unfolding span_on_def m g by (auto split: if_splits)
    qed
  next
    case False
    have "c \<notin> owned ?h v" using b(2) assms(2,3) False c unfolding acts_raw_def by blast
    then have "(j, c) \<notin> set (usr_m (get_usr ?h v))" by (force simp: owned_def)
    then show ?thesis using False unfolding span_on_def m g by (auto split: if_splits)
  qed
qed

lemma span_on_key:
  assumes "u < length h" "h ! u = UserObj x" "\<not> act_at (get_act h a) t"
  shows "span_on (h[u := UserObj (x\<lparr>usr_m := usr_m x @ [(i, a)]\<rparr>)]) v j t \<longleftrightarrow> span_on h v j t"
proof -
  have g: "get_act (h[u := UserObj (x\<lparr>usr_m := usr_m x @ [(i, a)]\<rparr>)]) c = get_act h c" for c
    using assms(1,2) by (cases "c = u") (simp_all add: get_act_def)
  show ?thesis using assms unfolding span_on_def g by (cases "v = u") (auto simp: get_usr_def)
qed

lemma span_on_unique:
  assumes "building us A w" "u \<in> set us" "(i, c) \<in> set (usr_m (get_usr (w_heap w) u))"
  shows "span_on (w_heap w) u i t \<longleftrightarrow> act_at (get_act (w_heap w) c) t"
proof -
  have "distinct (map fst (usr_m (get_usr (w_heap w) u)))"
    using assms(1,2) by (auto simp: building_def users_raw_def raw_user_def get_usr_def)
  then show ?thesis using assms(3) unfolding span_on_def by (metis eq_key_imp_eq_value)
qed

lemma span_on_append:
  assumes "building us A w" "v \<in> set us"
  shows "span_on (w_heap w @ xs) v j t \<longleftrightarrow> span_on (w_heap w) v j t"
proof -
  have b: "users_raw us (w_heap w)" "acts_raw us A (w_heap w)" using assms(1) by (simp_all add: building_def)
  have m: "get_usr (w_heap w @ xs) v = get_usr (w_heap w) v" using users_raw_less [OF b(1) assms(2)] by (simp add: get_usr_def nth_append)
  have "get_act (w_heap w @ xs) c = get_act (w_heap w) c" if "(j, c) \<in> set (usr_m (get_usr (w_heap w) v))" for c
  proof -
    have "c \<in> owned (w_heap w) v" using that by (force simp: owned_def)
    then have "raw_act (w_heap w) c" using owned_raw [OF b(2) assms(2)] by blast
    then show ?thesis by (simp add: get_act_def nth_append raw_act_def)
  qed
  then show ?thesis unfolding span_on_def m by metis
qed

lemma kept_window: "kept w w' \<Longrightarrow> in_window (w_iter w') t = in_window (w_iter w) t"
  unfolding kept_def in_window_def by (metis TimeIterator.simps(2,3) TimeIterator.surjective TimeIterator.update_convs(7))

text \<open>\<open>SetSpan\<close> on the calculator of a user that is already in the map.\<close>

lemma span_set_ok:
  assumes "building us A w" "u \<in> set us" "(i, c) \<in> set (usr_m (get_usr (w_heap w) u))"
    and "obind (act_SetSpan (w_iter w) s e (get_act (w_heap w) c)) (\<lambda>act. Inr (put c (ActObj act) w)) = Inr w'"
  shows "building us A w' \<and> kept w w' \<and> (\<forall>a \<in> A. get_act (w_heap w') a = get_act (w_heap w) a)
    \<and> (\<forall>v \<in> set us. \<forall>j t. in_window (w_iter w) t \<longrightarrow>
         span_on (w_heap w') v j t \<longleftrightarrow> span_on (w_heap w) v j t \<or> v = u \<and> j = i \<and> in_span s e t)"
proof -
  let ?h = "w_heap w"
  from assms(4) obtain act' where a: "act_SetSpan (w_iter w) s e (get_act ?h c) = Inr act'" "w' = put c (ActObj act') w" by auto
  have b: "users_raw us ?h" "acts_raw us A ?h" "ti_step (w_iter w) = 60" using assms(1) by (simp_all add: building_def)
  have "c \<in> owned ?h u" using assms(3) by (force simp: owned_def)
  then have raw: "raw_act ?h c" "c \<notin> A" using owned_raw [OF b(2) assms(2)] by blast+
  then have "c \<notin> set us" using b(1) by (force simp: users_raw_def raw_act_def)
  then have "quiet (get_act ?h c)" using assms(1) raw by (auto simp: building_def raw_act_def idle_def get_act_def)
  from act_SetSpan_ok [OF a(1) this b(3)] have
    act': "quiet act'" "\<not> act_init act'" "\<And>t. in_window (w_iter w) t \<Longrightarrow> act_at act' t \<longleftrightarrow> act_at (get_act ?h c) t \<or> in_span s e t"
    by auto
  have "get_act (w_heap w') d = get_act ?h d" if "d \<in> A" for d using that raw(2) by (cases "d = c") (auto simp: a(2) put_def get_act_def)
  moreover have "span_on (w_heap w') v j t \<longleftrightarrow> span_on ?h v j t \<or> v = u \<and> j = i \<and> in_span s e t"
    if "v \<in> set us" "in_window (w_iter w) t" for v j t
    unfolding a(2) span_on_put [OF assms(1,2) that(1) assms(3)] using act'(3) [OF that(2)] span_on_unique [OF assms(1-3)] by auto
  ultimately show ?thesis using building_put [OF assms(1) raw(1) act'(1,2)] a(2) by simp
qed

lemma usr_SetSpan_ok:
  assumes "building us A w" "u \<in> set us" "usr_SetSpan u s e i w = Inr w'"
  shows "building us A w' \<and> kept w w' \<and> (\<forall>a \<in> A. get_act (w_heap w') a = get_act (w_heap w) a)
    \<and> (\<forall>v \<in> set us. \<forall>j t. in_window (w_iter w) t \<longrightarrow>
         span_on (w_heap w') v j t \<longleftrightarrow> span_on (w_heap w) v j t \<or> v = u \<and> j = i \<and> in_span s e t)"
proof -
  let ?h = "w_heap w" and ?x = "get_usr (w_heap w) u"
  have b: "users_raw us ?h" "acts_raw us A ?h" using assms(1) by (simp_all add: building_def)
  from b(1) assms(2) have u: "u < length ?h" "?h ! u = UserObj ?x" "\<not> usr_init ?x" by (auto simp: users_raw_def get_usr_def raw_user_def)
  show ?thesis
  proof (cases "map_of (usr_m ?x) i")
    case (Some c)
    then have "obind (act_SetSpan (w_iter w) s e (get_act ?h c)) (\<lambda>act. Inr (put c (ActObj act) w)) = Inr w'"
      using assms(3) u(3) by (simp add: usr_SetSpan_def Let_def)
    with span_set_ok [OF assms(1,2) map_of_SomeD [OF Some]] show ?thesis by simp
  next
    case None
    obtain c w2 where n: "NewActiveCalculator w = (c, w2)" by fastforce
    note w2 = building_act [OF assms(1) n]
    define w1 where "w1 = put u (UserObj (?x\<lparr>usr_m := usr_m ?x @ [(i, c)]\<rparr>)) w2"
    have x2: "get_usr (w_heap w2) u = ?x" using w2 u(1) by (simp add: get_usr_def nth_append)
    have "c \<notin> A" using w2 b(2) by (auto simp: acts_raw_def raw_act_def)
    moreover have "i \<notin> fst ` set (usr_m (get_usr (w_heap w2) u))" using None by (simp add: x2 map_of_eq_None_iff)
    ultimately have w1: "building us A w1" "kept w2 w1" using building_key [of us c A w2 u i] w2 assms(2) unfolding x2 w1_def by blast+
    have h1: "w_heap w1 = (w_heap w2)[u := UserObj (?x\<lparr>usr_m := usr_m ?x @ [(i, c)]\<rparr>)]" by (simp add: w1_def put_def)
    have m1: "(i, c) \<in> set (usr_m (get_usr (w_heap w1) u))" using u(1) w2 by (simp add: h1 get_usr_def)
    have "obind (act_SetSpan (w_iter w1) s e (get_act (w_heap w1) c)) (\<lambda>act. Inr (put c (ActObj act) w1)) = Inr w'"
      using assms(3) u(3) None n by (simp add: usr_SetSpan_def Let_def w1_def)
    note r = span_set_ok [OF w1(1) assms(2) m1 this]
    have k: "kept w w1" using w2 w1(2) kept_trans by blast
    then have win: "in_window (w_iter w1) t = in_window (w_iter w) t" for t by (rule kept_window)
    have sp: "span_on (w_heap w1) v j t \<longleftrightarrow> span_on ?h v j t" if "v \<in> set us" for v j t
    proof -
      have "u < length (w_heap w2)" "w_heap w2 ! u = UserObj ?x" using u w2 by (auto simp: nth_append)
      moreover have "\<not> act_at (get_act (w_heap w2) c) t" using w2 by (simp add: get_act_def)
      ultimately have "span_on (w_heap w1) v j t \<longleftrightarrow> span_on (w_heap w2) v j t" unfolding h1 by (rule span_on_key)
      also have "\<dots> \<longleftrightarrow> span_on ?h v j t" using span_on_append [OF assms(1) that] w2 by simp
      finally show ?thesis .
    qed
    have "get_act (w_heap w1) a = get_act ?h a" if "a \<in> A" for a
    proof -
      have "raw_act ?h a" using b(2) that by (simp add: acts_raw_def)
      then have "a \<noteq> u" "a < length ?h" using u(2) by (auto simp: raw_act_def)
      then show ?thesis using w2 by (simp add: h1 get_act_def nth_append)
    qed
    with r sp win k show ?thesis using kept_trans [of w w1 w'] by simp
  qed
qed

subsection \<open>Initialization\<close>

lemma init_acts_effect:
  assumes "distinct (map snd cs)" "\<forall>c \<in> snd ` set cs. c < length (w_heap w)"
  shows "w_iter (init_acts cs w) = w_iter w \<and> length (w_heap (init_acts cs w)) = length (w_heap w)
    \<and> (\<forall>b. w_heap (init_acts cs w) ! b = (if b \<in> snd ` set cs then ActObj (act_Init (get_act (w_heap w) b)) else w_heap w ! b))"
  using assms
proof (induction cs arbitrary: w)
  case (Cons ic cs)
  obtain i c where ic: "ic = (i, c)" by (cases ic)
  let ?w = "put c (ActObj (act_Init (get_act (w_heap w) c))) w"
  have h: "w_heap ?w ! b = (if b = c then ActObj (act_Init (get_act (w_heap w) c)) else w_heap w ! b)" for b
    using Cons.prems(2) ic by (simp add: put_def)
  have "distinct (map snd cs)" "\<forall>c \<in> snd ` set cs. c < length (w_heap ?w)" "c \<notin> snd ` set cs"
    using Cons.prems ic by (auto simp: put_def)
  with Cons.IH [of ?w] show ?case using h by (auto simp: ic put_def get_act_def)
qed simp

lemma usr_Init_effect:
  assumes "building us A w" "u \<in> set us" "mset (ord (usr_m (get_usr (w_heap w) u))) = mset (usr_m (get_usr (w_heap w) u))"
  defines "x \<equiv> get_usr (w_heap w) u" and "w' \<equiv> usr_Init ord u w"
  shows "w_iter w' = iter_Register u (w_iter w) \<and> length (w_heap w') = length (w_heap w)
    \<and> w_heap w' ! u = UserObj (x\<lparr>usr_calc := ord (usr_m x), usr_init := True\<rparr>)
    \<and> (\<forall>b. b \<noteq> u \<longrightarrow> w_heap w' ! b = (if b \<in> owned (w_heap w) u then ActObj (act_Init (get_act (w_heap w) b)) else w_heap w ! b))"
proof -
  have b: "users_raw us (w_heap w)" "acts_raw us A (w_heap w)" using assms(1) by (simp_all add: building_def)
  have u: "u < length (w_heap w)" "\<not> usr_init x" "distinct (map snd (usr_m x))"
    using b(1) assms(2) by (auto simp: users_raw_def raw_user_def get_usr_def x_def)
  have "mset (ord (usr_m x)) = mset (usr_m x)" using assms(3) by (simp add: x_def)
  then have ord: "set (ord (usr_m x)) = set (usr_m x)" "mset (map snd (ord (usr_m x))) = mset (map snd (usr_m x))"
    by (rule mset_eq_setD, simp)
  then have "distinct (map snd (ord (usr_m x)))" using u(3) mset_eq_imp_distinct_iff [OF ord(2)] by simp
  moreover have own: "snd ` set (ord (usr_m x)) = owned (w_heap w) u" using ord(1) by (simp add: owned_def x_def)
  moreover have "\<forall>c \<in> owned (w_heap w) u. c < length (w_heap w)" using owned_raw [OF b(2) assms(2)] by (auto simp: raw_act_def)
  ultimately have i: "w_iter (init_acts (ord (usr_m x)) w) = w_iter w" "length (w_heap (init_acts (ord (usr_m x)) w)) = length (w_heap w)"
    "\<And>b. w_heap (init_acts (ord (usr_m x)) w) ! b = (if b \<in> owned (w_heap w) u then ActObj (act_Init (get_act (w_heap w) b)) else w_heap w ! b)"
    using init_acts_effect [of "ord (usr_m x)" w] by auto
  have "w' = put u (UserObj (x\<lparr>usr_calc := ord (usr_m x), usr_init := True\<rparr>)) (register u (init_acts (ord (usr_m x)) w))"
    using u(2) by (simp add: w'_def usr_Init_def Let_def x_def)
  with i u(1) show ?thesis by (simp add: put_def register_def)
qed

definition user_done :: "obj list \<Rightarrow> nat \<Rightarrow> bool" where
  "user_done h u \<longleftrightarrow> u < length h \<and> finished (h ! u) \<and> (\<forall>c \<in> snd ` set (usr_calc (get_usr h u)). c < length h \<and> finished (h ! c))"

lemma building_usr_Init:
  assumes "building us A w" "u \<in> set us" and ord: "\<And>m. mset (ord m) = mset m"
  defines "w' \<equiv> usr_Init ord u w"
  shows "building (remove1 u us) A w' \<and> kept w w' \<and> users_at (w_heap w') u t = {i. span_on (w_heap w) u i t}
    \<and> (\<forall>v \<in> set us. v \<noteq> u \<longrightarrow> (\<forall>j. span_on (w_heap w') v j t = span_on (w_heap w) v j t))
    \<and> (\<forall>a \<in> A. get_act (w_heap w') a = get_act (w_heap w) a) \<and> user_done (w_heap w') u"
proof -
  let ?h = "w_heap w" and ?h' = "w_heap w'" and ?x = "get_usr (w_heap w) u"
  have b: "regs_ok us w" "users_raw us ?h" "acts_raw us A ?h" "\<And>b. b < length ?h \<Longrightarrow> b \<notin> set us \<Longrightarrow> idle (?h ! b)" "ti_step (w_iter w) = 60"
    using assms(1) by (simp_all add: building_def)
  have u: "u < length ?h" "?h ! u = UserObj ?x" "raw_user ?x" using b(2) assms(2) by (auto simp: users_raw_def get_usr_def)
  have e: "w_iter w' = iter_Register u (w_iter w)" "length ?h' = length ?h"
    "?h' ! u = UserObj (?x\<lparr>usr_calc := ord (usr_m ?x), usr_init := True\<rparr>)"
    "\<And>b. b \<noteq> u \<Longrightarrow> ?h' ! b = (if b \<in> owned ?h u then ActObj (act_Init (get_act ?h b)) else ?h ! b)"
    using usr_Init_effect [OF assms(1,2), of ord] ord by (auto simp: w'_def)
  have ordm: "set (ord m) = set m" for m using ord by (metis set_mset_mset)
  have own: "raw_act ?h c" "c \<notin> A" "c \<notin> set us" if "v \<in> set us" "c \<in> owned ?h v" for v c
    using owned_raw [OF b(3) that] b(2) by (force simp: users_raw_def raw_act_def)+
  have us': "set (remove1 u us) = set us - {u}" using b(2) by (simp add: users_raw_def)
  have ow': "owned ?h' v = owned ?h v" if "v \<in> set us - {u}" for v
    using e(4) [of v] own(3) [OF assms(2), of v] that by (auto simp: owned_def get_usr_def)
  have raw': "raw_act ?h' c \<longleftrightarrow> raw_act ?h c \<and> c \<notin> owned ?h u" for c
    using e(2,3) e(4) [of c] u own(1) [OF assms(2), of c] by (cases "c = u") (auto simp: raw_act_def)
  have dis: "owned ?h u \<inter> owned ?h v = {}" if "v \<in> set us" "v \<noteq> u" for v
    using b(3) assms(2) that unfolding acts_raw_def by blast
  have "regs_ok (remove1 u us) w'"
  proof -
    have s: "distinct (ti_sub (w_iter w))" "set (ti_sub (w_iter w)) = {..<length ?h} - set us" "ordered {} (ti_sub (w_iter w)) ?h"
      using b(1) by (simp_all add: regs_ok_def)
    have "deps (?h' ! c) = deps (?h ! c)" if "c \<in> set (ti_sub (w_iter w))" for c
      using that s(2) assms(2) e(4) [of c] own(1) [OF assms(2), of c] by (force simp: deps_def raw_act_def)
    then have "ordered {} (ti_sub (w_iter w)) ?h'" using s(3) e(2) ordered_mono [of ?h ?h' "ti_sub (w_iter w)" "{}"] by simp
    moreover have "set (deps (?h' ! u)) = owned ?h u" by (simp add: e(3) deps_def owned_def ordm)
    then have "set (deps (?h' ! u)) \<subseteq> set (ti_sub (w_iter w))" using own(1,3) [OF assms(2)] s(2) by (auto simp: raw_act_def)
    ultimately show ?thesis using s(1,2) u(1) assms(2) us' e(2)
      by (auto simp: regs_ok_def e(1) iter_Register_def ordered_snoc)
  qed
  moreover have "users_raw (remove1 u us) ?h'" unfolding users_raw_def us'
  proof (intro conjI ballI)
    fix v assume v: "v \<in> set us - {u}"
    then have "?h' ! v = ?h ! v" using e(4) [of v] own(3) [OF assms(2), of v] by auto
    then show "v < length ?h'" "\<exists>x. ?h' ! v = UserObj x \<and> raw_user x" using b(2) v e(2) by (auto simp: users_raw_def)
  qed (use b(2) in \<open>simp add: users_raw_def\<close>)
  moreover have "acts_raw (remove1 u us) A ?h'" unfolding acts_raw_def us' raw'
  proof (intro conjI)
    show "\<forall>a \<in> A. raw_act ?h a \<and> a \<notin> owned ?h u" using b(3) own(2) [OF assms(2)] unfolding acts_raw_def by blast
    show "\<forall>a. raw_act ?h a \<and> a \<notin> owned ?h u \<longrightarrow> a \<in> A \<or> (\<exists>v \<in> set us - {u}. a \<in> owned ?h' v)"
      using b(3) ow' unfolding acts_raw_def by blast
    show "\<forall>v \<in> set us - {u}. \<forall>c \<in> owned ?h' v. (raw_act ?h c \<and> c \<notin> owned ?h u) \<and> c \<notin> A"
      using ow' own(1,2) dis by blast
    show "\<forall>v \<in> set us - {u}. \<forall>v' \<in> set us - {u}. v \<noteq> v' \<longrightarrow> owned ?h' v \<inter> owned ?h' v' = {}"
      using b(3) ow' unfolding acts_raw_def by blast
  qed
  moreover have "idle (?h' ! c)" if c: "c < length ?h'" "c \<notin> set us - {u}" for c
  proof (cases "c = u")
    case True
    have "mset (map fst (ord (usr_m ?x))) = mset (map fst (usr_m ?x))" using ord by simp
    then show ?thesis using u(3) mset_eq_imp_distinct_iff True by (fastforce simp: e(3) idle_def raw_user_def)
  next
    case False
    then show ?thesis using c b(4) [of c] e(2) e(4) [of c] own(1) [OF assms(2), of c] by (auto simp: idle_def raw_act_def get_act_def)
  qed
  moreover have "kept w w'"
  proof -
    have "?h' ! c = ?h ! c" if "finished (?h ! c)" for c
      using that e(4) [of c] own(1) [OF assms(2), of c] u by (cases "c = u") (auto simp: finished_def raw_act_def raw_user_def)
    then show ?thesis using e(1,2) by (simp add: kept_def iter_Register_def)
  qed
  moreover have g: "get_act ?h' c = (if c \<in> owned ?h u then act_Init (get_act ?h c) else get_act ?h c)" for c
    using e(3) e(4) [of c] u(2) own(3) [OF assms(2), of c] assms(2) by (cases "c = u") (auto simp: get_act_def)
  have "users_at ?h' u t = {i. span_on ?h u i t}"
    using quiet_Init(3) by (auto simp: users_at_def span_on_def get_usr_def e(3) ordm g [unfolded get_usr_def])
  moreover have "span_on ?h' v j t = span_on ?h v j t" if v: "v \<in> set us" "v \<noteq> u" for v j
  proof -
    have "get_usr ?h' v = get_usr ?h v" using e(4) [OF v(2)] own(3) [OF assms(2), of v] v(1) by (auto simp: get_usr_def)
    moreover have "get_act ?h' c = get_act ?h c" if "(j, c) \<in> set (usr_m (get_usr ?h v))" for c
    proof -
      have "c \<in> owned ?h v" using that by (force simp: owned_def)
      then show ?thesis using dis [OF v] g by auto
    qed
    ultimately show ?thesis unfolding span_on_def by metis
  qed
  moreover have "get_act ?h' a = get_act ?h a" if "a \<in> A" for a using that own(2) [OF assms(2), of a] by (auto simp: g)
  moreover have "user_done ?h' u"
  proof -
    have "snd ` set (usr_calc (get_usr ?h' u)) = owned ?h u" by (simp add: get_usr_def [of ?h'] e(3) ordm owned_def)
    moreover have "c < length ?h' \<and> finished (?h' ! c)" if "c \<in> owned ?h u" for c
    proof -
      have "c \<noteq> u" using own(3) [OF assms(2) that] assms(2) by blast
      then show ?thesis using that e(2) e(4) [of c] own(1) [OF assms(2) that] by (simp add: raw_act_def finished_def)
    qed
    ultimately show ?thesis using u(1) e(2,3) by (simp add: user_done_def finished_def)
  qed
  ultimately show ?thesis using b(5) us' by (auto simp: building_def e(1) iter_Register_def)
qed

subsection \<open>The constructors\<close>

text \<open>A loop that registers spans: \<open>K x\<close> says for which calculator and user, if any.\<close>

lemma span_fold:
  assumes "building us A w" "ofold f xs w = Inr w'"
    and f: "\<And>x w. f x w = (case K x of None \<Rightarrow> Inr w | Some (u, i) \<Rightarrow> usr_SetSpan u (S x) (E x) i w)"
    and K: "\<forall>x u i. K x = Some (u, i) \<longrightarrow> u \<in> set us"
  shows "building us A w' \<and> kept w w' \<and> (\<forall>a \<in> A. get_act (w_heap w') a = get_act (w_heap w) a)
    \<and> (\<forall>v \<in> set us. \<forall>j t. in_window (w_iter w) t \<longrightarrow>
         span_on (w_heap w') v j t \<longleftrightarrow> span_on (w_heap w) v j t \<or> (\<exists>x \<in> set xs. K x = Some (v, j) \<and> in_span (S x) (E x) t))"
  using assms(1,2)
proof (induction xs arbitrary: w)
  case Nil
  then show ?case by simp
next
  case (Cons x xs)
  from Cons.prems(2) obtain w1 where w1: "f x w = Inr w1" "ofold f xs w1 = Inr w'" by auto
  have step: "building us A w1 \<and> kept w w1 \<and> (\<forall>a \<in> A. get_act (w_heap w1) a = get_act (w_heap w) a)
    \<and> (\<forall>v \<in> set us. \<forall>j t. in_window (w_iter w) t \<longrightarrow>
         span_on (w_heap w1) v j t \<longleftrightarrow> span_on (w_heap w) v j t \<or> K x = Some (v, j) \<and> in_span (S x) (E x) t)"
  proof (cases "K x")
    case None
    with w1(1) Cons.prems(1) show ?thesis by (simp add: f)
  next
    case (Some ui)
    obtain u i where ui: "ui = (u, i)" by (cases ui)
    then have "u \<in> set us" using Some K by blast
    from usr_SetSpan_ok [OF Cons.prems(1) this, of "S x" "E x" i w1] Some ui w1(1) show ?thesis by (auto simp: f)
  qed
  then have "in_window (w_iter w1) t = in_window (w_iter w) t" for t by (intro kept_window) simp
  with Cons.IH [OF _ w1(2)] step kept_trans [of w w1 w'] show ?case by auto
qed

lemma building_good: "building [] {} w \<Longrightarrow> b < length (w_heap w) \<Longrightarrow> finished (w_heap w ! b) \<and> idle (w_heap w ! b)"
  by (auto simp: building_def acts_raw_def raw_act_def finished_def idle_def split: obj.splits)

text \<open>What is finished keeps its values.\<close>

lemma kept_act: "kept w w' \<Longrightarrow> a < length (w_heap w) \<Longrightarrow> finished (w_heap w ! a) \<Longrightarrow> get_act (w_heap w') a = get_act (w_heap w) a"
  by (simp add: kept_def get_act_def)

lemma kept_users:
  assumes "kept w w'" "user_done (w_heap w) u"
  shows "users_at (w_heap w') u t = users_at (w_heap w) u t \<and> user_done (w_heap w') u"
proof -
  let ?h = "w_heap w"
  have same: "w_heap w' ! b = ?h ! b" if "b < length ?h" "finished (?h ! b)" for b using assms(1) that by (simp add: kept_def)
  have len: "length ?h \<le> length (w_heap w')" using assms(1) by (simp add: kept_def)
  have d: "u < length ?h" "finished (?h ! u)" "\<And>c. c \<in> snd ` set (usr_calc (get_usr ?h u)) \<Longrightarrow> c < length ?h \<and> finished (?h ! c)"
    using assms(2) unfolding user_done_def by blast+
  have u: "get_usr (w_heap w') u = get_usr ?h u" using same d(1,2) by (simp add: get_usr_def)
  have "get_act (w_heap w') c = get_act ?h c" if "(i, c) \<in> set (usr_calc (get_usr ?h u))" for i c
  proof -
    have "c < length ?h \<and> finished (?h ! c)" by (rule d(3)) (use that in force)
    then show ?thesis using same by (simp add: get_act_def)
  qed
  then have "users_at (w_heap w') u t = users_at ?h u t" unfolding users_at_def u by metis
  moreover have "user_done (w_heap w') u" unfolding user_done_def u
  proof (intro conjI ballI)
    fix c assume c: "c \<in> snd ` set (usr_calc (get_usr ?h u))"
    show "c < length (w_heap w')" "finished (w_heap w' ! c)" using d(3) [OF c] same len by auto
  qed (use d(1,2) same len in auto)
  ultimately show ?thesis ..
qed

definition hist_on :: "state \<Rightarrow> string \<Rightarrow> int \<Rightarrow> bool" where
  "hist_on s u t \<longleftrightarrow> (\<exists>x \<in> set (st_history s). sh_UserID x = u
     \<and> in_span (sh_Start x) (if IsZero (sh_End x) then historyCutoff s else sh_End x) t)"

lemma span_on_new: "span_on (h @ [UserObj empty_usr]) (length h) i t = False"
  by (simp add: span_on_def get_usr_def empty_usr_def)

lemma new_hist_ok:
  assumes "building [] {} w" "new_hist ord s w = Inr (hist, w')" and ord: "\<And>m. mset (ord m) = mset m"
  shows "building [] {} w' \<and> kept w w' \<and> user_done (w_heap w') hist \<and> (\<forall>t. in_window (w_iter w) t \<longrightarrow> users_at (w_heap w') hist t = {u. hist_on s u t})"
proof -
  obtain w1 where n: "NewUserCalculator w = (hist, w1)" using assms(2) by (auto simp: new_hist_def Let_def split: prod.splits)
  let ?xs = "sort_by (\<lambda>x y. sh_Start x < sh_Start y) (st_history s)"
  obtain w2 where w2: "ofold (set_hist (historyCutoff s) hist) ?xs w1 = Inr w2" "w' = usr_Init ord hist w2"
    using assms(2) n by (auto simp: new_hist_def Let_def)
  note u = building_user [OF assms(1) n, simplified]
  then have b1: "building [hist] {} w1" by blast
  note f = span_fold [OF b1 w2(1), where K = "\<lambda>x. Some (hist, sh_UserID x)" and S = sh_Start
      and E = "\<lambda>x. if IsZero (sh_End x) then historyCutoff s else sh_End x"]
  have f': "building [hist] {} w2" "kept w1 w2" "\<And>j t. in_window (w_iter w1) t \<Longrightarrow> span_on (w_heap w2) hist j t \<longleftrightarrow> hist_on s j t"
    using f u by (auto simp: set_hist_def span_on_new hist_on_def)
  have i: "building [] {} w' \<and> kept w2 w' \<and> users_at (w_heap w') hist t = {i. span_on (w_heap w2) hist i t} \<and> user_done (w_heap w') hist" for t
    using building_usr_Init [OF f'(1), of hist ord t] ord by (simp add: w2(2))
  have "kept w w'" using u f'(2) i kept_trans by blast
  moreover have "in_window (w_iter w1) t = in_window (w_iter w) t" for t using u by (intro kept_window) simp
  ultimately show ?thesis using i f'(3) by auto
qed

lemma span_on_other:
  assumes "building us A w" "a \<in> A" "v \<in> set us"
  shows "span_on (w_heap (put a (ActObj act) w)) v j t = span_on (w_heap w) v j t"
proof -
  let ?h = "w_heap w" and ?h' = "w_heap (put a (ActObj act) w)"
  have b: "users_raw us ?h" "acts_raw us A ?h" using assms(1) by (simp_all add: building_def)
  have "raw_act ?h a" using b(2) assms(2) by (simp add: acts_raw_def)
  then have "a \<noteq> v" using b(1) assms(3) by (force simp: users_raw_def raw_act_def)
  then have "get_usr ?h' v = get_usr ?h v" by (simp add: put_def get_usr_def)
  moreover have "get_act ?h' c = get_act ?h c" if "(j, c) \<in> set (usr_m (get_usr ?h v))" for c
  proof -
    have "c \<in> owned ?h v" using that by (force simp: owned_def)
    then have "c \<noteq> a" using owned_raw [OF b(2) assms(3)] assms(2) by blast
    then show ?thesis by (simp add: put_def get_act_def)
  qed
  ultimately show ?thesis unfolding span_on_def by metis
qed

lemma building_quiet:
  assumes "building us A w" "a \<in> A"
  shows "quiet (get_act (w_heap w) a) \<and> raw_act (w_heap w) a"
proof -
  have r: "raw_act (w_heap w) a" using assms by (simp add: building_def acts_raw_def)
  then obtain act where a: "a < length (w_heap w)" "w_heap w ! a = ActObj act" by (auto simp: raw_act_def)
  then have "a \<notin> set us" using assms(1) by (auto simp: building_def users_raw_def)
  then have "idle (w_heap w ! a)" using assms(1) a(1) by (simp add: building_def)
  with a r show ?thesis by (simp add: idle_def get_act_def)
qed

lemma act_fold:
  assumes "building us A w" "a \<in> A" "ofold (\<lambda>x w. set_act a (S x) (E x) w) xs w = Inr w'"
  shows "building us A w' \<and> kept w w' \<and> (\<forall>v \<in> set us. \<forall>j t. span_on (w_heap w') v j t = span_on (w_heap w) v j t)
    \<and> (\<forall>t. in_window (w_iter w) t \<longrightarrow>
         act_at (get_act (w_heap w') a) t \<longleftrightarrow> act_at (get_act (w_heap w) a) t \<or> (\<exists>x \<in> set xs. in_span (S x) (E x) t))"
  using assms(1,3)
proof (induction xs arbitrary: w)
  case Nil
  then show ?case by simp
next
  case (Cons x xs)
  from Cons.prems(2) obtain act' where a: "act_SetSpan (w_iter w) (S x) (E x) (get_act (w_heap w) a) = Inr act'"
    and r: "ofold (\<lambda>x w. set_act a (S x) (E x) w) xs (put a (ActObj act') w) = Inr w'" by (auto simp: set_act_def)
  let ?w1 = "put a (ActObj act') w"
  have q: "quiet (get_act (w_heap w) a)" "raw_act (w_heap w) a" "ti_step (w_iter w) = 60"
    using building_quiet [OF Cons.prems(1) assms(2)] Cons.prems(1) by (auto simp: building_def)
  have act': "quiet act'" "\<not> act_init act'" "\<And>t. in_window (w_iter w) t \<Longrightarrow> act_at act' t \<longleftrightarrow> act_at (get_act (w_heap w) a) t \<or> in_span (S x) (E x) t"
    using act_SetSpan_ok [OF a q(1,3)] by auto
  note p = building_put [OF Cons.prems(1) q(2) act'(1,2)]
  have "get_act (w_heap ?w1) a = act'" using q(2) by (simp add: put_def get_act_def raw_act_def)
  moreover have "in_window (w_iter ?w1) t = in_window (w_iter w) t" for t by (simp add: put_def)
  moreover have "kept w w'" using Cons.IH [OF _ r] p kept_trans by blast
  ultimately show ?case using Cons.IH [OF _ r] p act'(3) span_on_other [OF Cons.prems(1) assms(2)] by auto
qed

definition temp_active :: "state \<Rightarrow> int \<Rightarrow> bool" where
  "temp_active s t \<longleftrightarrow> (\<exists>x \<in> set (st_tempScheds s). in_span (ts_Start x) (ts_End x) t)"

definition temp_on :: "state \<Rightarrow> string \<Rightarrow> int \<Rightarrow> bool" where
  "temp_on s u t \<longleftrightarrow> (\<exists>x \<in> set (st_tempScheds s). \<exists>f \<in> set (ts_Shifts x). fs_UserID f = u \<and> in_span (fs_Start f) (fs_End f) t)"

lemma new_temp_ok:
  assumes "building [] {} w" "NewTemporaryScheduleCalculator ord (st_tempScheds s) w = Inr ((a, u), w')"
    and ord: "\<And>m. mset (ord m) = mset m"
  shows "building [] {} w' \<and> kept w w' \<and> a < length (w_heap w') \<and> user_done (w_heap w') u
    \<and> (\<forall>t. in_window (w_iter w) t \<longrightarrow> act_at (get_act (w_heap w') a) t = temp_active s t \<and> users_at (w_heap w') u t = {i. temp_on s i t})"
proof -
  obtain wa where na: "NewActiveCalculator w = (a, wa)" using assms(2)
    by (auto simp: NewTemporaryScheduleCalculator_def Let_def split: prod.splits)
  obtain wu where nu: "NewUserCalculator wa = (u, wu)" using assms(2) na
    by (auto simp: NewTemporaryScheduleCalculator_def Let_def split: prod.splits)
  let ?temps = "sort_by (\<lambda>x y. ts_Start x < ts_Start y) (st_tempScheds s)"
  let ?shifts = "sort_by (\<lambda>x y. fs_Start x < fs_Start y) (concat (map ts_Shifts ?temps))"
  let ?init = "\<lambda>w. put a (ActObj (act_Init (get_act (w_heap w) a))) w"
  obtain w1 w2 where w1: "ofold (\<lambda>temp w. set_act a (ts_Start temp) (ts_End temp) w) ?temps wu = Inr w1"
    and w2: "ofold (\<lambda>s w. usr_SetSpan u (fs_Start s) (fs_End s) (fs_UserID s) w) ?shifts w1 = Inr w2"
    and w': "w' = usr_Init ord u (?init w2)"
    using assms(2) na nu by (auto simp: NewTemporaryScheduleCalculator_def Let_def)
  note pa = building_act [OF assms(1) na, simplified]
  then have ba: "building [] {a} wa" by blast
  note pu = building_user [OF ba nu, simplified]
  then have bu: "building [u] {a} wu" by blast
  note p1 = act_fold [OF bu _ w1, simplified]
  then have b1: "building [u] {a} w1" by blast
  note p2 = span_fold [OF b1 w2, where K = "\<lambda>x. Some (u, fs_UserID x)" and S = fs_Start and E = fs_End, simplified]
  then have b2: "building [u] {a} w2" by blast
  note p3 = building_Init [OF b2, of a, simplified]
  then have b3: "building [u] {} (?init w2)" by blast
  note p4 = building_usr_Init [OF b3, of u ord, simplified, OF ord, folded w']
  have k: "kept w wa" "kept wa wu" "kept wu w1" "kept w1 w2" "kept w2 (?init w2)" "kept (?init w2) w'" using pa pu p1 p2 p3 p4 by blast+
  have kw: "kept w wu" "kept wu w2" "kept w2 w'" "kept wu w'" using k kept_trans by blast+
  have win: "in_window (w_iter wu) t = in_window (w_iter w) t" "in_window (w_iter w1) t = in_window (w_iter w) t" for t
    using kept_window [OF kw(1)] kept_window [OF k(3)] by simp_all
  have hu: "w_heap wu = w_heap w @ [ActObj empty_act, UserObj empty_usr]" "a = length (w_heap w)" "u = Suc (length (w_heap w))"
    using pa pu by auto
  have gu: "get_act (w_heap wu) a = empty_act" by (simp add: hu get_act_def)
  have su: "\<not> span_on (w_heap wu) u j t" for j t by (simp add: hu span_on_def get_usr_def nth_append empty_usr_def)
  have act: "act_at (get_act (w_heap w2) a) t = temp_active s t" if "in_window (w_iter w) t" for t
    using p1 p2 that by (simp add: win gu temp_active_def)
  have usr: "span_on (w_heap w2) u j t = temp_on s j t" if "in_window (w_iter w) t" for t j
    using p1 p2 that su by (auto simp: win temp_on_def)
  have len: "a < length (w_heap w2)" "u < length (w_heap w2)" using kw(2) by (auto simp: kept_def hu)
  have ga: "get_act (w_heap (?init w2)) a = act_Init (get_act (w_heap w2) a)" using len(1) by (simp add: put_def get_act_def)
  have "get_act (w_heap w') a = act_Init (get_act (w_heap w2) a)"
    using kept_act [OF k(6), of a] len(1) ga by (simp add: put_def finished_def)
  moreover have "users_at (w_heap w') u t = {i. span_on (w_heap w2) u i t}" for t
    using p4 span_on_other [OF b2, of a u] by simp
  ultimately show ?thesis using p4 act usr kept_trans [OF kw(1,4)] len kw(3) by (auto simp: kept_def)
qed

lemma building_obj:
  assumes "building [] {} w" "idle x" "finished x" "set (deps x) \<subseteq> {..<length (w_heap w)}" "alloc x w = (c, w1)"
  shows "building [] {} (register c w1) \<and> kept w (register c w1) \<and> c = length (w_heap w) \<and> w_heap (register c w1) = w_heap w @ [x]"
proof -
  let ?h = "w_heap w" and ?w = "register c w1"
  have c: "c = length ?h" "w1 = w\<lparr>w_heap := ?h @ [x]\<rparr>" using assms(5) by (simp_all add: alloc_def)
  then have h: "w_heap ?w = ?h @ [x]" "ti_sub (w_iter ?w) = ti_sub (w_iter w) @ [c]" by (simp_all add: register_def iter_Register_def)
  have s: "distinct (ti_sub (w_iter w))" "set (ti_sub (w_iter w)) = {..<length ?h}" "ordered {} (ti_sub (w_iter w)) ?h"
    using assms(1) by (simp_all add: building_def regs_ok_def)
  have "deps ((?h @ [x]) ! b) = deps (?h ! b)" if "b \<in> set (ti_sub (w_iter w))" for b using that s(2) by (simp add: nth_append)
  then have "ordered {} (ti_sub (w_iter w)) (?h @ [x])" using s(3) ordered_mono [of ?h "?h @ [x]" "ti_sub (w_iter w)" "{}"] by simp
  then have "regs_ok [] ?w" unfolding regs_ok_def h ordered_snoc using s(1,2) assms(4) by (auto simp: c(1))
  moreover have "acts_raw [] {} (?h @ [x])" using assms(1,3) by (auto simp: building_def acts_raw_def raw_act_append finished_def)
  moreover have "idle ((?h @ [x]) ! b)" if "b < Suc (length ?h)" for b
    using that assms(1,2) by (auto simp: building_def nth_append less_Suc_eq)
  moreover have "kept w ?w" using kept_alloc(2) c(2) by simp
  ultimately show ?thesis using assms(1) h c(1) by (simp add: building_def users_raw_def c(2) register_def iter_Register_def)
qed

definition over_added :: "state \<Rightarrow> string \<Rightarrow> int \<Rightarrow> bool" where
  "over_added s u t \<longleftrightarrow> u \<noteq> '''' \<and> (\<exists>o' \<in> set (st_overrides s). uo_AddUserID o' = u \<and> uo_RemoveUserID o' = '''' \<and> in_span (uo_Start o') (uo_End o') t)"

definition over_removed :: "state \<Rightarrow> string \<Rightarrow> int \<Rightarrow> bool" where
  "over_removed s u t \<longleftrightarrow> u \<noteq> '''' \<and> (\<exists>o' \<in> set (st_overrides s). uo_AddUserID o' = '''' \<and> uo_RemoveUserID o' = u \<and> in_span (uo_Start o') (uo_End o') t)"

definition over_replaced :: "state \<Rightarrow> string \<Rightarrow> string \<Rightarrow> int \<Rightarrow> bool" where
  "over_replaced s u v t \<longleftrightarrow> u \<noteq> '''' \<and> v \<noteq> ''''
     \<and> (\<exists>o' \<in> set (st_overrides s). uo_AddUserID o' = v \<and> uo_RemoveUserID o' = u \<and> in_span (uo_Start o') (uo_End o') t)"

definition over_key :: "nat \<Rightarrow> nat \<Rightarrow> nat \<Rightarrow> UserOverride \<Rightarrow> (nat \<times> string) option" where
  "over_key a r p ov =
     (if uo_AddUserID ov \<noteq> '''' \<and> uo_RemoveUserID ov \<noteq> '''' then Some (p, uo_RemoveUserID ov @ [newline] @ uo_AddUserID ov)
      else if uo_AddUserID ov \<noteq> '''' then Some (a, uo_AddUserID ov)
      else if uo_RemoveUserID ov \<noteq> '''' then Some (r, uo_RemoveUserID ov) else None)"

text \<open>Three user calculators made one after the other.\<close>

lemma three_users:
  assumes "building [] {} w" "NewUserCalculator w = (a, wa)" "NewUserCalculator wa = (r, wr)" "NewUserCalculator wr = (p, wp)"
  shows "building [a, r, p] {} wp \<and> kept w wp \<and> distinct [a, r, p]
    \<and> (\<forall>v \<in> {a, r, p}. v < length (w_heap wp) \<and> (\<forall>j t. \<not> span_on (w_heap wp) v j t))"
proof -
  note pa = building_user [OF assms(1,2), simplified]
  then have "building [a] {} wa" by blast
  note pr = building_user [OF this assms(3), simplified]
  then have "building [a, r] {} wr" by blast
  note pp = building_user [OF this assms(4), simplified]
  have h: "w_heap wp = w_heap w @ [UserObj empty_usr, UserObj empty_usr, UserObj empty_usr]"
    "a = length (w_heap w)" "r = Suc (length (w_heap w))" "p = Suc (Suc (length (w_heap w)))" using pa pr pp by auto
  have "kept w wp" using pa pr pp kept_trans by blast
  moreover have "v < length (w_heap wp) \<and> (\<forall>j t. \<not> span_on (w_heap wp) v j t)" if "v \<in> {a, r, p}" for v
    using that by (auto simp: h span_on_def get_usr_def nth_append empty_usr_def)
  moreover have "building [a, r, p] {} wp" using pp by blast
  moreover have "distinct [a, r, p]" using h(2-4) by simp
  ultimately show ?thesis by blast
qed

lemma three_Inits:
  assumes "building [a, r, p] {} w" "distinct [a, r, p]" and ord: "\<And>m. mset (ord m) = mset m"
  defines "w' \<equiv> usr_Init ord p (usr_Init ord r (usr_Init ord a w))"
  shows "building [] {} w' \<and> kept w w' \<and> (\<forall>v \<in> {a, r, p}. user_done (w_heap w') v \<and> users_at (w_heap w') v t = {i. span_on (w_heap w) v i t})"
proof -
  define wa where "wa = usr_Init ord a w"
  define wr where "wr = usr_Init ord r wa"
  have w': "w' = usr_Init ord p wr" by (simp add: w'_def wa_def wr_def)
  have rm: "remove1 a [a, r, p] = [r, p]" "remove1 r [r, p] = [p]" "remove1 p [p] = []" using assms(2) by auto
  have m: "a \<in> set [a, r, p]" "r \<in> set [a, r, p]" "p \<in> set [a, r, p]" "r \<in> set [r, p]" "p \<in> set [r, p]" "p \<in> set [p]" by auto
  have d: "r \<noteq> a" "p \<noteq> a" "p \<noteq> r" using assms(2) by auto
  note ba = building_usr_Init [OF assms(1) m(1) ord, of t, folded wa_def, unfolded rm]
  then have b1: "building [r, p] {} wa" by blast
  note br = building_usr_Init [OF b1 m(4) ord, of t, folded wr_def, unfolded rm]
  then have b2: "building [p] {} wr" by blast
  note bp = building_usr_Init [OF b2 m(6) ord, of t, folded w', unfolded rm]
  have k: "kept w wa" "kept wa wr" "kept wr w'" using ba br bp by blast+
  then have k': "kept wa w'" "kept w w'" using kept_trans by blast+
  have sr: "span_on (w_heap wa) r i t = span_on (w_heap w) r i t" "span_on (w_heap wa) p i t = span_on (w_heap w) p i t"
    "span_on (w_heap wr) p i t = span_on (w_heap wa) p i t" for i using ba br m d by blast+
  have "user_done (w_heap wa) a" "user_done (w_heap wr) r" "user_done (w_heap w') p" using ba br bp by blast+
  moreover have "users_at (w_heap wa) a t = {i. span_on (w_heap w) a i t}" using ba by blast
  moreover have "users_at (w_heap wr) r t = {i. span_on (w_heap wa) r i t}" using br by blast
  moreover have "users_at (w_heap w') p t = {i. span_on (w_heap wr) p i t}" using bp by blast
  ultimately have "\<forall>v \<in> {a, r, p}. user_done (w_heap w') v \<and> users_at (w_heap w') v t = {i. span_on (w_heap w) v i t}"
    using kept_users [OF k'(1)] kept_users [OF k(3)] by (simp add: sr)
  with bp k'(2) show ?thesis by blast
qed

definition over_inv :: "state \<Rightarrow> obj list \<Rightarrow> nat \<Rightarrow> int \<Rightarrow> bool" where
  "over_inv s h ov t \<longleftrightarrow> (\<exists>oc. h ! ov = OverObj oc \<and> oc_userMap oc = Map.empty
     \<and> (\<forall>v \<in> {oc_add oc, oc_remove oc, oc_replace oc}. user_done h v)
     \<and> users_at h (oc_add oc) t = {i. over_added s i t}
     \<and> users_at h (oc_remove oc) t = {i. over_removed s i t}
     \<and> users_at h (oc_replace oc) t = {u @ [newline] @ v |u v. over_replaced s u v t})"

lemma new_over_ok:
  assumes "building [] {} w" "NewOverrideCalculator ord (st_overrides s) w = Inr (ov, w')"
    and ord: "\<And>m. mset (ord m) = mset m"
  shows "building [] {} w' \<and> kept w w' \<and> ov < length (w_heap w') \<and> (\<forall>t. in_window (w_iter w) t \<longrightarrow> over_inv s (w_heap w') ov t)"
proof -
  obtain a wa where na: "NewUserCalculator w = (a, wa)" by fastforce
  obtain r wr where nr: "NewUserCalculator wa = (r, wr)" by fastforce
  obtain p wp where np: "NewUserCalculator wr = (p, wp)" by fastforce
  let ?xs = "sort_by (\<lambda>x y. uo_Start x < uo_Start y) (st_overrides s)"
  let ?init = "\<lambda>w. usr_Init ord p (usr_Init ord r (usr_Init ord a w))"
  let ?oc = "\<lparr>oc_add = a, oc_remove = r, oc_replace = p, oc_userMap = Map.empty\<rparr>"
  obtain w1 c w2 where w1: "ofold (set_override a r p) ?xs wp = Inr w1"
    and w2: "alloc (OverObj ?oc) (?init w1) = (c, w2)" and w': "ov = c" "w' = register c w2"
    using assms(2) na nr np by (auto simp: NewOverrideCalculator_def Let_def split: prod.splits)
  note p0 = three_users [OF assms(1) na nr np]
  then have bp: "building [a, r, p] {} wp" and d: "distinct [a, r, p]" and kp: "kept w wp" by blast+
  have f: "set_override a r p x w = (case over_key a r p x of None \<Rightarrow> Inr w | Some (u, i) \<Rightarrow> usr_SetSpan u (uo_Start x) (uo_End x) i w)" for x w
    by (simp add: set_override_def over_key_def)
  have key: "\<forall>x u i. over_key a r p x = Some (u, i) \<longrightarrow> u \<in> set [a, r, p]" by (auto simp: over_key_def split: if_splits)
  note p1 = span_fold [OF bp w1 f key]
  then have b1: "building [a, r, p] {} w1" and k1: "kept wp w1" by blast+
  note p2 = three_Inits [OF b1 d ord]
  then have b2: "building [] {} (?init w1)" and k2: "kept w1 (?init w1)" and done2: "\<forall>v \<in> {a, r, p}. user_done (w_heap (?init w1)) v" by blast+
  have "set (deps (OverObj ?oc)) \<subseteq> {..<length (w_heap (?init w1))}" using done2 by (simp add: deps_def user_done_def)
  from building_obj [OF b2 _ _ this w2] have p3: "building [] {} w'" "kept (?init w1) w'" "ov = length (w_heap (?init w1))"
    "w_heap w' = w_heap (?init w1) @ [OverObj ?oc]"
    by (auto simp: idle_def finished_def w')
  have k: "kept w w'" using kp k1 k2 p3(2) kept_trans by blast
  have "over_inv s (w_heap w') ov t" if win: "in_window (w_iter w) t" for t
  proof -
    have "in_window (w_iter wp) t" using win kept_window [OF kp] by simp
    then have on: "span_on (w_heap w1) v j t \<longleftrightarrow> (\<exists>x \<in> set (st_overrides s). over_key a r p x = Some (v, j) \<and> in_span (uo_Start x) (uo_End x) t)"
      if "v \<in> {a, r, p}" for v j using p0 p1 that by (elim insertE) simp_all
    have u: "users_at (w_heap w') v t = {i. span_on (w_heap w1) v i t}" "user_done (w_heap w') v" if "v \<in> {a, r, p}" for v
      using p2 [of t] kept_users [OF p3(2), of v t] that by auto
    have ne: "a \<noteq> r" "a \<noteq> p" "r \<noteq> p" using d by auto
    have "span_on (w_heap w1) a j t \<longleftrightarrow> over_added s j t" for j
      unfolding on [of a, simplified] using ne by (auto simp: over_key_def over_added_def split: if_splits)
    moreover have "span_on (w_heap w1) r j t \<longleftrightarrow> over_removed s j t" for j
      unfolding on [of r, simplified] using ne by (auto simp: over_key_def over_removed_def split: if_splits)
    moreover have "span_on (w_heap w1) p j t \<longleftrightarrow> (\<exists>u v. j = u @ [newline] @ v \<and> over_replaced s u v t)" for j
      unfolding on [of p, simplified] using ne by (auto simp: over_key_def over_replaced_def split: if_splits)
    ultimately show ?thesis unfolding over_inv_def using u p3(3,4) by (intro exI [of _ ?oc]) (simp add: nth_append)
  qed
  then show ?thesis using p3 k by simp
qed

subsection \<open>Rules\<close>

lemma rbind_InrE [elim!]:
  assumes "rbind m f = Some (Inr y)"
  obtains x where "m = Some (Inr x)" "f x = Some (Inr y)"
  using assms by (auto simp: rbind_def split: option.splits sum.splits)

text \<open>The spans that the loop over the active times of a rule registers.\<close>

fun rule_spans :: "nat \<Rightarrow> instant \<Rightarrow> location \<Rightarrow> Rule \<Rightarrow> instant \<Rightarrow> (instant \<times> instant) list" where
  "rule_spans 0 stop l r cur = []"
| "rule_spans (Suc n) stop l r cur =
     (if cur < stop then (cur, Rule_EndTime l r cur) # rule_spans n stop l r (Rule_StartTime l r (Rule_EndTime l r cur)) else [])"

definition rule_on :: "TimeIterator \<Rightarrow> location \<Rightarrow> Rule \<Rightarrow> int \<Rightarrow> bool" where
  "rule_on iter l r t \<longleftrightarrow> AlwaysActive r \<or> \<not> NeverActive r
     \<and> (\<exists>(s, e) \<in> set (rule_spans 100000 (iter_End iter) l r (Rule_StartTime l r (iter_Start iter))). in_span s e t)"

definition rule_left :: "TimeIterator \<Rightarrow> location \<Rightarrow> Rule \<Rightarrow> nat" where
  "rule_left iter l r =
     (if AlwaysActive r \<or> NeverActive r then 100000
      else 100000 - length (rule_spans 100000 (iter_End iter) l r (Rule_StartTime l r (iter_Start iter))))"

lemma rule_loop_ok:
  assumes "rule_loop n iter l r cur act = Inr (m, act')" "quiet act" "\<not> act_init act" "ti_step iter = 60"
  shows "quiet act' \<and> \<not> act_init act' \<and> m = n - length (rule_spans n (iter_End iter) l r cur)
    \<and> (\<forall>t. in_window iter t \<longrightarrow> act_at act' t \<longleftrightarrow> act_at act t \<or> (\<exists>(s, e) \<in> set (rule_spans n (iter_End iter) l r cur). in_span s e t))"
  using assms(1-3)
proof (induction n arbitrary: cur act)
  case 0
  then show ?case by (auto split: if_splits)
next
  case (Suc n)
  show ?case
  proof (cases "cur < iter_End iter")
    case True
    let ?e = "Rule_EndTime l r cur"
    from True Suc.prems(1) obtain act1 where a1: "act_SetSpan iter cur ?e act = Inr act1"
      and r1: "rule_loop n iter l r (Rule_StartTime l r ?e) act1 = Inr (m, act')" by (auto simp: Let_def)
    from act_SetSpan_ok [OF a1 Suc.prems(2) assms(4)] Suc.IH [OF r1] True show ?thesis by auto
  next
    case False
    with Suc.prems show ?thesis by auto
  qed
qed

lemma always_span: "in_window iter t \<Longrightarrow> ti_step iter = 60 \<Longrightarrow> in_span (iter_Start iter) (iter_End iter + iter_Step iter) t"
  using Truncate_bounds [of Minute "iter_Start iter"] Truncate_bounds [of Minute "iter_End iter + Minute"]
  by (simp add: in_window_def in_span_def iter_Start_def iter_End_def iter_Step_def)

lemma rule_act_ok:
  assumes "single_act iter l r empty_act = Inr (m, act)" "ti_step iter = 60"
  shows "quiet act \<and> \<not> act_init act \<and> m = rule_left iter l r \<and> (\<forall>t. in_window iter t \<longrightarrow> act_at act t = rule_on iter l r t)"
proof -
  consider "AlwaysActive r" | "\<not> AlwaysActive r" "NeverActive r" | "\<not> AlwaysActive r" "\<not> NeverActive r" by blast
  then show ?thesis
  proof cases
    case 1
    with assms(1) [unfolded single_act_def] have "m = 100000" "act_SetSpan iter (iter_Start iter) (iter_End iter + iter_Step iter) empty_act = Inr act" by auto
    from this(1) act_SetSpan_ok [OF this(2) _ assms(2)] always_span [OF _ assms(2)] 1 show ?thesis by (auto simp: rule_on_def rule_left_def)
  next
    case 2
    with assms(1) [unfolded single_act_def] show ?thesis by (auto simp: rule_on_def rule_left_def)
  next
    case 3
    with assms(1) [unfolded single_act_def] have "rule_loop 100000 iter l r (Rule_StartTime l r (iter_Start iter)) empty_act = Inr (m, act)" by simp
    from rule_loop_ok [OF this _ _ assms(2)] 3 show ?thesis by (auto simp: rule_on_def rule_left_def)
  qed
qed

text \<open>The spans of the users of a rotation.\<close>

fun rot_spans :: "nat \<Rightarrow> instant \<Rightarrow> instant \<Rightarrow> ResolvedRotation \<Rightarrow> (string \<times> instant \<times> instant) list" where
  "rot_spans 0 stop cur r = []"
| "rot_spans (Suc n) stop cur r =
     (if cur < stop then
        (case rr_UserID cur r of
           Some (Inr (uid, r')) \<Rightarrow> (uid, rr_CurrentStart r', rr_CurrentEnd r') # rot_spans n stop (rr_CurrentEnd r') r'
         | _ \<Rightarrow> [])
      else [])"

fun rot_end :: "nat \<Rightarrow> instant \<Rightarrow> instant \<Rightarrow> ResolvedRotation \<Rightarrow> ResolvedRotation" where
  "rot_end 0 stop cur r = r"
| "rot_end (Suc n) stop cur r =
     (if cur < stop then
        (case rr_UserID cur r of Some (Inr (uid, r')) \<Rightarrow> rot_end n stop (rr_CurrentEnd r') r' | _ \<Rightarrow> r)
      else r)"

definition rot_after :: "TimeIterator \<Rightarrow> nat \<Rightarrow> ResolvedRotation \<Rightarrow> ResolvedRotation" where
  "rot_after iter n r = (if length (rr_Users r) \<le> 1 then r else rot_end n (iter_End iter) (iter_Start iter) r)"

definition next_rots :: "TimeIterator \<Rightarrow> location \<Rightarrow> ResolvedRule \<Rightarrow> ResolvedRotation list \<Rightarrow> ResolvedRotation list" where
  "next_rots iter l rule rots =
     (case rsr_Rotation rule of
        None \<Rightarrow> rots
      | Some ri \<Rightarrow> rots[ri := rot_after iter (rule_left iter l (rsr_Rule rule)) (rots ! ri)])"

text \<open>Each rule with the rotations as they are when its calculator is made.\<close>

fun rule_envs :: "TimeIterator \<Rightarrow> location \<Rightarrow> ResolvedRotation list \<Rightarrow> ResolvedRule list \<Rightarrow> (ResolvedRule \<times> ResolvedRotation list) list" where
  "rule_envs iter l rots [] = []"
| "rule_envs iter l rots (rule # rules) = (rule, rots) # rule_envs iter l (next_rots iter l rule rots) rules"

definition rot_on :: "TimeIterator \<Rightarrow> nat \<Rightarrow> ResolvedRotation \<Rightarrow> string \<Rightarrow> int \<Rightarrow> bool" where
  "rot_on iter n r i t \<longleftrightarrow> rr_Users r \<noteq> []
     \<and> (if length (rr_Users r) = 1 then i = rr_Users r ! 0
        else \<exists>(i', s, e) \<in> set (rot_spans n (iter_End iter) (iter_Start iter) r). i' = i \<and> in_span s e t)"

lemma kept_iter:
  assumes "kept w w'"
  shows "iter_End (w_iter w') = iter_End (w_iter w)" "iter_Start (w_iter w') = iter_Start (w_iter w)" "iter_Step (w_iter w') = iter_Step (w_iter w)"
proof -
  from assms obtain xs where "w_iter w' = (w_iter w)\<lparr>ti_sub := xs\<rparr>" unfolding kept_def by blast
  then show "iter_End (w_iter w') = iter_End (w_iter w)" "iter_Start (w_iter w') = iter_Start (w_iter w)" "iter_Step (w_iter w') = iter_Step (w_iter w)"
    by (simp_all add: iter_End_def iter_Start_def iter_Step_def)
qed

lemma rot_loop_ok:
  assumes "rot_loop n u cur r w = Some (Inr (r', w'))" "building us A w" "u \<in> set us"
  shows "building us A w' \<and> kept w w' \<and> r' = rot_end n (iter_End (w_iter w)) cur r
    \<and> (\<forall>j t. in_window (w_iter w) t \<longrightarrow> span_on (w_heap w') u j t \<longleftrightarrow> span_on (w_heap w) u j t
          \<or> (\<exists>(i, s, e) \<in> set (rot_spans n (iter_End (w_iter w)) cur r). i = j \<and> in_span s e t))"
  using assms(1,2)
proof (induction n arbitrary: cur r w)
  case 0
  then show ?case by (auto split: if_splits)
next
  case (Suc n)
  show ?case
  proof (cases "cur < iter_End (w_iter w)")
    case True
    with Suc.prems(1) obtain uid r1 w1 where rr: "rr_UserID cur r = Some (Inr (uid, r1))"
      and s: "usr_SetSpan u (rr_CurrentStart r1) (rr_CurrentEnd r1) uid w = Inr w1"
      and l: "rot_loop n u (rr_CurrentEnd r1) r1 w1 = Some (Inr (r', w'))" by auto
    note s1 = usr_SetSpan_ok [OF Suc.prems(2) assms(3) s]
    then have b1: "building us A w1" and k1: "kept w w1" by blast+
    note ih = Suc.IH [OF l b1, unfolded kept_iter [OF k1] kept_window [OF k1]]
    have "span_on (w_heap w') u j t \<longleftrightarrow> span_on (w_heap w) u j t
          \<or> (\<exists>(i, s, e) \<in> set (rot_spans (Suc n) (iter_End (w_iter w)) cur r). i = j \<and> in_span s e t)"
      if "in_window (w_iter w) t" for j t using s1 ih that assms(3) True rr by auto
    moreover have "kept w w'" using ih k1 kept_trans by blast
    moreover have "r' = rot_end (Suc n) (iter_End (w_iter w)) cur r" using ih True rr by simp
    ultimately show ?thesis using ih by blast
  next
    case False
    with Suc.prems show ?thesis by auto
  qed
qed

lemma building_put_Init:
  assumes "building us A w" "a \<in> A" "quiet act" "\<not> act_init act"
  shows "building us (A - {a}) (put a (ActObj (act_Init act)) w) \<and> kept w (put a (ActObj (act_Init act)) w)"
proof -
  let ?w = "put a (ActObj act) w"
  have r: "raw_act (w_heap w) a" using building_quiet [OF assms(1,2)] by simp
  have b: "building us A ?w" "kept w ?w" using building_put [OF assms(1) r assms(3,4)] by auto
  have "put a (ActObj (act_Init (get_act (w_heap ?w) a))) ?w = put a (ActObj (act_Init act)) w"
    using r by (simp add: put_def get_act_def raw_act_def)
  with building_Init [OF b(1) assms(2)] show ?thesis using b(2) kept_trans by metis
qed

text \<open>What the constructor of a single rule leaves.\<close>

definition single_inv :: "TimeIterator \<Rightarrow> location \<Rightarrow> ResolvedRotation list \<Rightarrow> obj list \<Rightarrow> nat \<Rightarrow> ResolvedRule \<Rightarrow> bool" where
  "single_inv iter l rots h c rule \<longleftrightarrow> c < length h \<and> (\<exists>c0. h ! c = SingleObj c0 \<and> src_rule c0 = rule
     \<and> src_act c0 < length h \<and> finished (h ! src_act c0)
     \<and> (\<forall>t. in_window iter t \<longrightarrow> act_at (get_act h (src_act c0)) t = rule_on iter l (rsr_Rule rule) t)
     \<and> (case src_rot c0 of
          None \<Rightarrow> rsr_Rotation rule = None
        | Some u \<Rightarrow> user_done h u \<and> (\<exists>ri. rsr_Rotation rule = Some ri
             \<and> (\<forall>t. in_window iter t \<longrightarrow> users_at h u t = {i. rot_on iter (rule_left iter l (rsr_Rule rule)) (rots ! ri) i t}))))"

lemma rot_users_ok:
  assumes "building [] {} w" "NewUserCalculator w = (u, w1)" and ord: "\<And>m. mset (ord m) = mset m"
    and "rot_users n u r w1 = Some (Inr (r', w2))"
  shows "building [] {} (usr_Init ord u w2) \<and> kept w (usr_Init ord u w2) \<and> r' = rot_after (w_iter w) n r \<and> user_done (w_heap (usr_Init ord u w2)) u
    \<and> (\<forall>t. in_window (w_iter w) t \<longrightarrow> users_at (w_heap (usr_Init ord u w2)) u t = {i. rot_on (w_iter w) n r i t})"
proof -
  note pu = building_user [OF assms(1,2), simplified]
  then have bu: "building [u] {} w1" and ku: "kept w w1" by blast+
  have s0: "\<not> span_on (w_heap w1) u j t" for j t using pu by (simp add: span_on_new)
  note it = kept_iter [OF ku] kept_window [OF ku]
  have step: "ti_step (w_iter w) = 60" using assms(1) by (simp add: building_def)
  have "building [u] {} w2 \<and> kept w1 w2 \<and> r' = rot_after (w_iter w) n r
    \<and> (\<forall>j t. in_window (w_iter w) t \<longrightarrow> span_on (w_heap w2) u j t = rot_on (w_iter w) n r j t)"
  proof -
    consider "rr_Users r = []" | "length (rr_Users r) = 1" | "rr_Users r \<noteq> []" "length (rr_Users r) \<noteq> 1" by blast
    then show ?thesis
    proof cases
      case 1
      with assms(4) [unfolded rot_users_def Let_def it] bu s0 show ?thesis by (auto simp: rot_on_def rot_after_def)
    next
      case 2
      with assms(4) [unfolded rot_users_def Let_def it] have "r' = r" "usr_SetSpan u (iter_Start (w_iter w)) (iter_End (w_iter w) + iter_Step (w_iter w)) (rr_Users r ! 0) w1 = Inr w2"
        by (auto simp: rr_UserID_def split: if_splits)
      from usr_SetSpan_ok [OF bu _ this(2), simplified] this(1) 2 s0 always_span [OF _ step] show ?thesis by (auto simp: rot_on_def rot_after_def it)
    next
      case 3
      with assms(4) [unfolded rot_users_def Let_def it] have "rot_loop n u (iter_Start (w_iter w)) r w1 = Some (Inr (r', w2))" by simp
      moreover have "\<not> length (rr_Users r) \<le> 1" using 3 by (cases "rr_Users r") auto
      ultimately show ?thesis using rot_loop_ok [OF _ bu] 3 s0 by (auto simp: rot_on_def rot_after_def it)
    qed
  qed
  then have b2: "building [u] {} w2" and k2: "kept w1 w2" and r': "r' = rot_after (w_iter w) n r"
    and on: "\<And>j t. in_window (w_iter w) t \<Longrightarrow> span_on (w_heap w2) u j t = rot_on (w_iter w) n r j t" by blast+
  have i: "building [] {} (usr_Init ord u w2) \<and> kept w2 (usr_Init ord u w2) \<and> user_done (w_heap (usr_Init ord u w2)) u
    \<and> users_at (w_heap (usr_Init ord u w2)) u t = {i. span_on (w_heap w2) u i t}" for t
    using building_usr_Init [OF b2 _ ord, of u t] by simp
  moreover have "kept w (usr_Init ord u w2)" using ku k2 i kept_trans by blast
  ultimately show ?thesis using on r' by simp
qed

lemma single_inv_kept:
  assumes "kept w w'" "single_inv iter l rots (w_heap w) c rule"
  shows "single_inv iter l rots (w_heap w') c rule"
proof -
  let ?h = "w_heap w"
  from assms(2) obtain c0 where c: "c < length ?h" "?h ! c = SingleObj c0" "src_rule c0 = rule" "src_act c0 < length ?h" "finished (?h ! src_act c0)"
    "\<forall>t. in_window iter t \<longrightarrow> act_at (get_act ?h (src_act c0)) t = rule_on iter l (rsr_Rule rule) t"
    and rot: "case src_rot c0 of None \<Rightarrow> rsr_Rotation rule = None
        | Some u \<Rightarrow> user_done ?h u \<and> (\<exists>ri. rsr_Rotation rule = Some ri
             \<and> (\<forall>t. in_window iter t \<longrightarrow> users_at ?h u t = {i. rot_on iter (rule_left iter l (rsr_Rule rule)) (rots ! ri) i t}))"
    unfolding single_inv_def by blast
  have len: "length ?h \<le> length (w_heap w')" and same: "\<And>b. b < length ?h \<Longrightarrow> finished (?h ! b) \<Longrightarrow> w_heap w' ! b = ?h ! b"
    using assms(1) by (auto simp: kept_def)
  have "w_heap w' ! c = SingleObj c0" using same [OF c(1)] c(2) by (simp add: finished_def)
  moreover have "finished (w_heap w' ! src_act c0)" "get_act (w_heap w') (src_act c0) = get_act ?h (src_act c0)"
    using same [OF c(4,5)] c(5) by (simp_all add: get_act_def)
  moreover have "case src_rot c0 of None \<Rightarrow> rsr_Rotation rule = None
        | Some u \<Rightarrow> user_done (w_heap w') u \<and> (\<exists>ri. rsr_Rotation rule = Some ri
             \<and> (\<forall>t. in_window iter t \<longrightarrow> users_at (w_heap w') u t = {i. rot_on iter (rule_left iter l (rsr_Rule rule)) (rots ! ri) i t}))"
    using rot kept_users [OF assms(1)] by (cases "src_rot c0") auto
  ultimately show ?thesis unfolding single_inv_def using c(1,3,4,6) len by auto
qed

lemma new_single_ok:
  assumes "building [] {} w" "NewSingleRuleCalculator ord l rule (rots, w) = Some (Inr (c, rots', w'))"
    and ord: "\<And>m. mset (ord m) = mset m" and tgt: "rsr_Rotation rule = None \<longrightarrow> rule_Target (rsr_Rule rule) \<noteq> None"
  shows "building [] {} w' \<and> kept w w' \<and> rots' = next_rots (w_iter w) l rule rots \<and> single_inv (w_iter w) l rots (w_heap w') c rule"
proof -
  obtain a w1 where na: "NewActiveCalculator w = (a, w1)" by fastforce
  note pa = building_act [OF assms(1) na, simplified]
  then have b1: "building [] {a} w1" and k1: "kept w w1" and ga: "get_act (w_heap w1) a = empty_act" by (auto simp: get_act_def)
  from assms(2) obtain limit act rot w3 w4 where
    act: "single_act (w_iter w1) l (rsr_Rule rule) empty_act = Inr (limit, act)"
    and rot: "single_rot ord limit rule (rots, put a (ActObj (act_Init act)) w1) = Some (Inr (rot, rots', w3))"
    and al: "alloc (SingleObj \<lparr>src_act = a, src_rot = rot, src_rule = rule, src_userID = '''', src_changed = False\<rparr>) w3 = (c, w4)" "w' = register c w4"
    unfolding NewSingleRuleCalculator_def by (auto simp: na ga split: prod.splits)
  define w2 where "w2 = put a (ActObj (act_Init act)) w1"
  have "ti_step (w_iter w1) = 60" using b1 by (simp add: building_def)
  note q = rule_act_ok [OF act this]
  then have b2: "building [] {} w2" and k2: "kept w1 w2" using building_put_Init [OF b1, of a act] by (auto simp: w2_def)
  have kw2: "kept w w2" using k1 k2 kept_trans by blast
  note it = kept_window [OF k1]
  have left: "limit = rule_left (w_iter w) l (rsr_Rule rule)" using q by (simp add: rule_left_def kept_iter [OF k1])
  have on: "act_at act t = rule_on (w_iter w) l (rsr_Rule rule) t" if "in_window (w_iter w) t" for t
    using q that by (simp add: it rule_on_def kept_iter [OF k1])
  have a2: "a < length (w_heap w2)" "w_heap w2 ! a = ActObj (act_Init act)" using pa by (simp_all add: w2_def put_def)
  have r3: "building [] {} w3 \<and> kept w2 w3 \<and> rots' = next_rots (w_iter w) l rule rots \<and> (case rot of None \<Rightarrow> rsr_Rotation rule = None
        | Some u \<Rightarrow> user_done (w_heap w3) u \<and> (\<exists>ri. rsr_Rotation rule = Some ri
             \<and> (\<forall>t. in_window (w_iter w) t \<longrightarrow> users_at (w_heap w3) u t = {i. rot_on (w_iter w) (rule_left (w_iter w) l (rsr_Rule rule)) (rots ! ri) i t})))"
  proof (cases "rsr_Rotation rule")
    case None
    with rot b2 show ?thesis by (auto simp: single_rot_def w2_def next_rots_def)
  next
    case (Some ri)
    with rot obtain u w5 r6 w6 where u: "NewUserCalculator w2 = (u, w5)" "rot_users limit u (rots ! ri) w5 = Some (Inr (r6, w6))"
      "rot = Some u" "w3 = usr_Init ord u w6" "rots' = rots[ri := r6]"
      by (auto simp: single_rot_def w2_def split: prod.splits)
    from rot_users_ok [OF b2 u(1) ord u(2)] have
      p: "building [] {} w3" "kept w2 w3" "r6 = rot_after (w_iter w2) limit (rots ! ri)" "user_done (w_heap w3) u"
        "\<And>t. in_window (w_iter w2) t \<Longrightarrow> users_at (w_heap w3) u t = {i. rot_on (w_iter w2) limit (rots ! ri) i t}"
      by (auto simp: u(4))
    have "rot_on (w_iter w2) limit (rots ! ri) i t = rot_on (w_iter w) limit (rots ! ri) i t" for i t
      unfolding rot_on_def kept_iter [OF kw2] ..
    moreover have "r6 = rot_after (w_iter w) limit (rots ! ri)" using p(3) by (simp add: rot_after_def kept_iter [OF kw2])
    ultimately show ?thesis using p Some kept_window [OF kw2] u(5) left by (auto simp: u(3) next_rots_def)
  qed
  let ?c0 = "\<lparr>src_act = a, src_rot = rot, src_rule = rule, src_userID = '''', src_changed = False\<rparr>"
  have a3: "a < length (w_heap w3)" "w_heap w3 ! a = ActObj (act_Init act)"
    using r3 a2 by (auto simp: kept_def finished_def)
  have nil: "rot = None \<longrightarrow> rule_Target (rsr_Rule rule) \<noteq> None" using r3 tgt by (cases rot) auto
  have "set (deps (SingleObj ?c0)) \<subseteq> {..<length (w_heap w3)}"
    using a3(1) r3 by (auto simp: deps_def user_done_def split: option.splits)
  from building_obj [OF conjunct1 [OF r3] _ _ this al(1)] have
    p4: "building [] {} w'" "kept w3 w'" "c = length (w_heap w3)" "w_heap w' = w_heap w3 @ [SingleObj ?c0]"
    using nil by (auto simp: idle_def finished_def al(2))
  have "case rot of None \<Rightarrow> rsr_Rotation rule = None
        | Some u \<Rightarrow> user_done (w_heap w') u \<and> (\<exists>ri. rsr_Rotation rule = Some ri
             \<and> (\<forall>t. in_window (w_iter w) t \<longrightarrow> users_at (w_heap w') u t = {i. rot_on (w_iter w) (rule_left (w_iter w) l (rsr_Rule rule)) (rots ! ri) i t}))"
    using r3 kept_users [OF p4(2)] by (cases rot) auto
  moreover have "w_heap w' ! a = ActObj (act_Init act)" using a3 by (simp add: p4(4) nth_append)
  ultimately have "single_inv (w_iter w) l rots (w_heap w') c rule"
    unfolding single_inv_def using p4(3,4) a3(1) on by (intro conjI exI [of _ ?c0]) (auto simp: finished_def get_act_def)
  moreover have "kept w w'" using kw2 r3 p4(2) kept_trans by blast
  ultimately show ?thesis using p4(1) r3 by blast
qed

lemma single_inv_iter: "kept w w' \<Longrightarrow> single_inv (w_iter w') l rots h c rule = single_inv (w_iter w) l rots h c rule"
  unfolding single_inv_def rule_on_def rot_on_def rule_left_def by (simp only: kept_iter kept_window)

lemma next_rots_iter: "kept w w' \<Longrightarrow> next_rots (w_iter w') l rule rots = next_rots (w_iter w) l rule rots"
  unfolding next_rots_def rot_after_def rule_left_def by (simp only: kept_iter)

lemma rule_envs_iter: "kept w w' \<Longrightarrow> rule_envs (w_iter w') l rots rules = rule_envs (w_iter w) l rots rules"
  by (induction rules arbitrary: rots) (simp_all add: next_rots_iter)

lemma single_rules_ok:
  assumes "building [] {} w" "single_rules ord l rules (rots, w) = Some (Inr (cs, rots', w'))"
    and ord: "\<And>m. mset (ord m) = mset m" and "\<forall>r \<in> set rules. rsr_Rotation r = None \<longrightarrow> rule_Target (rsr_Rule r) \<noteq> None"
  shows "building [] {} w' \<and> kept w w' \<and> list_all2 (\<lambda>c (rule, rots). single_inv (w_iter w) l rots (w_heap w') c rule) cs (rule_envs (w_iter w) l rots rules)"
  using assms(1,2,4)
proof (induction rules arbitrary: w rots cs)
  case Nil
  then show ?case by simp
next
  case (Cons rule rules)
  from Cons.prems(2) obtain c rots1 w1 cs' where n: "NewSingleRuleCalculator ord l rule (rots, w) = Some (Inr (c, rots1, w1))"
    and r: "single_rules ord l rules (rots1, w1) = Some (Inr (cs', rots', w'))" and cs: "cs = c # cs'" by auto
  have b1: "building [] {} w1" and k1: "kept w w1" and i1: "single_inv (w_iter w) l rots (w_heap w1) c rule"
    and r1: "rots1 = next_rots (w_iter w) l rule rots" using new_single_ok [OF Cons.prems(1) n ord] Cons.prems(3) by auto
  note ih = Cons.IH [OF b1 r, unfolded rule_envs_iter [OF k1] single_inv_iter [OF k1] r1]
  show ?case using ih kept_trans [OF k1] single_inv_kept [OF _ i1, of w'] Cons.prems(3) unfolding cs by auto
qed

definition rules_inv :: "TimeIterator \<Rightarrow> ResolvedRotation list \<Rightarrow> state \<Rightarrow> obj list \<Rightarrow> nat \<Rightarrow> bool" where
  "rules_inv iter rots s h rc \<longleftrightarrow> rc < length h \<and> (\<exists>x. h ! rc = RulesObj x \<and> rc_userIDs x = []
     \<and> list_all2 (\<lambda>c (rule, rots). single_inv iter (st_loc s) rots h c rule) (rc_rules x) (rule_envs iter (st_loc s) rots (st_rules s)))"

lemma new_rules_ok:
  assumes "building [] {} w" "NewRulesCalculator ord (st_loc s) (st_rules s) (rots, w) = Some (Inr (rc, w'))"
    and ord: "\<And>m. mset (ord m) = mset m" and tgt: "\<forall>r \<in> set (st_rules s). rsr_Rotation r = None \<longrightarrow> rule_Target (rsr_Rule r) \<noteq> None"
  shows "building [] {} w' \<and> kept w w' \<and> rules_inv (w_iter w) rots s (w_heap w') rc"
proof -
  from assms(2) obtain cs rots1 w1 w2 where r: "single_rules ord (st_loc s) (st_rules s) (rots, w) = Some (Inr (cs, rots1, w1))"
    and al: "alloc (RulesObj \<lparr>rc_rules = cs, rc_userIDs = [], rc_changed = False\<rparr>) w1 = (rc, w2)" "w' = register rc w2"
    by (auto simp: NewRulesCalculator_def split: prod.splits)
  have p: "building [] {} w1" "kept w w1" "list_all2 (\<lambda>c (rule, rots). single_inv (w_iter w) (st_loc s) rots (w_heap w1) c rule) cs (rule_envs (w_iter w) (st_loc s) rots (st_rules s))"
    using single_rules_ok [OF assms(1) r ord tgt] by auto
  let ?x = "\<lparr>rc_rules = cs, rc_userIDs = [], rc_changed = False\<rparr>"
  have "\<forall>c \<in> set cs. c < length (w_heap w1)" using p(3)
    by (fastforce simp: list_all2_conv_all_nth in_set_conv_nth single_inv_def)
  then have "set (deps (RulesObj ?x)) \<subseteq> {..<length (w_heap w1)}" by (auto simp: deps_def)
  from building_obj [OF p(1) _ _ this al(1)] have
    p4: "building [] {} w'" "kept w1 w'" "rc = length (w_heap w1)" "w_heap w' = w_heap w1 @ [RulesObj ?x]"
    by (auto simp: idle_def finished_def al(2))
  have "list_all2 (\<lambda>c (rule, rots). single_inv (w_iter w) (st_loc s) rots (w_heap w') c rule) cs (rule_envs (w_iter w) (st_loc s) rots (st_rules s))"
    using p(3) by (rule list_all2_mono) (use single_inv_kept [OF p4(2)] in auto)
  then have "rules_inv (w_iter w) rots s (w_heap w') rc" unfolding rules_inv_def p4(3,4) by simp
  then show ?thesis using p4(1,2) p(2) kept_trans by blast
qed

subsection \<open>All calculators of a calculation\<close>

definition setup_inv :: "ResolvedRotation list \<Rightarrow> state \<Rightarrow> TimeIterator \<Rightarrow> calcs \<Rightarrow> world \<Rightarrow> bool" where
  "setup_inv rots s iter c w \<longleftrightarrow> building [] {} w \<and> w_iter w = iter\<lparr>ti_sub := ti_sub (w_iter w)\<rparr>
     \<and> user_done (w_heap w) (c_hist c) \<and> c_tempAct c < length (w_heap w) \<and> user_done (w_heap w) (c_tempUsr c) \<and> c_over c < length (w_heap w)
     \<and> (\<forall>t. in_window iter t \<longrightarrow> users_at (w_heap w) (c_hist c) t = {u. hist_on s u t}
          \<and> act_at (get_act (w_heap w) (c_tempAct c)) t = temp_active s t
          \<and> users_at (w_heap w) (c_tempUsr c) t = {u. temp_on s u t} \<and> over_inv s (w_heap w) (c_over c) t)
     \<and> rules_inv iter rots s (w_heap w) (c_rules c)"

lemma over_inv_kept:
  assumes "kept w w'" "ov < length (w_heap w)" "over_inv s (w_heap w) ov t"
  shows "over_inv s (w_heap w') ov t"
proof -
  from assms(3) obtain oc where oc: "w_heap w ! ov = OverObj oc" "oc_userMap oc = Map.empty"
    "\<forall>v \<in> {oc_add oc, oc_remove oc, oc_replace oc}. user_done (w_heap w) v"
    "users_at (w_heap w) (oc_add oc) t = {i. over_added s i t}" "users_at (w_heap w) (oc_remove oc) t = {i. over_removed s i t}"
    "users_at (w_heap w) (oc_replace oc) t = {u @ [newline] @ v |u v. over_replaced s u v t}" unfolding over_inv_def by blast
  have "w_heap w' ! ov = OverObj oc" using assms(1,2) oc(1) by (auto simp: kept_def finished_def)
  with oc show ?thesis unfolding over_inv_def using kept_users [OF assms(1)] by (intro exI [of _ oc]) auto
qed

lemma building_start: "building [] {} \<lparr>w_iter = calc_iterator s start end, w_heap = []\<rparr>"
  by (simp add: building_def regs_ok_def users_raw_def acts_raw_def raw_act_def calc_iterator_def NewTimeIterator_def
      Duration_Truncate_def signed_divide_int_def signed_modulo_int_def Let_def)

theorem new_calcs_ok:
  assumes "new_calcs ord rots s start end = Some (Inr (c, w))" and ord: "\<And>m. mset (ord m) = mset m"
    and tgt: "\<forall>r \<in> set (st_rules s). rsr_Rotation r = None \<longrightarrow> rule_Target (rsr_Rule r) \<noteq> None"
  shows "setup_inv rots s (calc_iterator s start end) c w"
proof -
  let ?w0 = "\<lparr>w_iter = calc_iterator s start end, w_heap = []\<rparr>"
  from assms(1) obtain hist w1 tact tusr w2 ov w3 rc where
    n: "new_hist ord s ?w0 = Inr (hist, w1)" "NewTemporaryScheduleCalculator ord (st_tempScheds s) w1 = Inr ((tact, tusr), w2)"
      "NewOverrideCalculator ord (st_overrides s) w2 = Inr (ov, w3)"
      "NewRulesCalculator ord (st_loc s) (st_rules s) (rots, w3) = Some (Inr (rc, w))"
      "c = \<lparr>c_hist = hist, c_tempAct = tact, c_tempUsr = tusr, c_over = ov, c_rules = rc\<rparr>"
    by (auto simp: new_calcs_def)
  note p1 = new_hist_ok [OF building_start n(1) ord]
  then have b1: "building [] {} w1" and k1: "kept ?w0 w1" by blast+
  note p2 = new_temp_ok [OF b1 n(2) ord]
  then have b2: "building [] {} w2" and k2: "kept w1 w2" by blast+
  note p3 = new_over_ok [OF b2 n(3) ord]
  then have b3: "building [] {} w3" and k3: "kept w2 w3" by blast+
  note p4 = new_rules_ok [OF b3 n(4) ord tgt]
  then have b4: "building [] {} w" and k4: "kept w3 w" by blast+
  have k: "kept w1 w" "kept w2 w" "kept ?w0 w2" "kept ?w0 w3" "kept ?w0 w" using k1 k2 k3 k4 kept_trans by blast+
  have win: "in_window (w_iter w1) t = in_window (calc_iterator s start end) t" "in_window (w_iter w2) t = in_window (calc_iterator s start end) t" for t
    using kept_window [OF k1] kept_window [OF k(3)] by simp_all
  have "a < length (w_heap w2) \<Longrightarrow> get_act (w_heap w) a = get_act (w_heap w2) a" for a
    using kept_act [OF k(2)] building_good [OF b2] by blast
  moreover have "rules_inv (w_iter w3) rots s (w_heap w) rc = rules_inv (calc_iterator s start end) rots s (w_heap w) rc"
    unfolding rules_inv_def single_inv_iter [OF k(4), unfolded world.select_convs(1)] rule_envs_iter [OF k(4), unfolded world.select_convs(1)] ..
  moreover have "w_iter w = (calc_iterator s start end)\<lparr>ti_sub := ti_sub (w_iter w)\<rparr>" using k(5) by (simp add: kept_def)
  moreover have "length (w_heap w2) \<le> length (w_heap w)" "length (w_heap w3) \<le> length (w_heap w)" using k(2) k4 by (simp_all add: kept_def)
  ultimately show ?thesis unfolding setup_inv_def n(5)
    using b4 p1 p2 p3 p4 kept_users [OF k(1)] kept_users [OF k(2)] over_inv_kept [OF k4] by (auto simp: win)
qed

end
