(* ===== verification/ShiftRuns.thy ===== *)
theory ShiftRuns
  imports OnCall
begin

section \<open>From users at timestamps to shifts\<close>

text \<open>
  The closure \<open>setOnCall\<close> of \<open>CalculateShifts\<close> turns the users reported at increasing timestamps
  into shifts.  A shift is a maximal run of a user: the shifts of a user cover exactly the time at
  which the user was reported, and do not touch.
\<close>

text \<open>The users reported at \<open>x\<close>: those of the last timestamp not after it.\<close>

fun on_at :: "(instant \<times> string list) list \<Rightarrow> instant \<Rightarrow> string list" where
  "on_at [] x = []"
| "on_at ((t, ids) # vs) x = (if t \<le> x then (if vs \<noteq> [] \<and> fst (hd vs) \<le> x then on_at vs x else ids) else [])"

lemma on_at_snoc:
  assumes "sorted_wrt (<) (map fst (vs @ [(t, ids)]))"
  shows "on_at (vs @ [(t, ids)]) x = (if t \<le> x then ids else on_at vs x)"
  using assms
proof (induction vs)
  case (Cons v vs)
  then show ?case by (cases v; cases vs) auto
qed simp

definition open_shift :: "instant \<Rightarrow> string \<Rightarrow> Shift" where
  "open_shift now i = \<lparr>sh_UserID = i, sh_Start = now, sh_End = time_zero, sh_Truncated = False\<rparr>"

lemma open_fold:
  assumes "distinct (map sh_UserID m)"
  shows "distinct (map sh_UserID (fold (\<lambda>i m. if i \<in> sh_UserID ` set m then m else m @ [open_shift now i]) ids m))
    \<and> set (fold (\<lambda>i m. if i \<in> sh_UserID ` set m then m else m @ [open_shift now i]) ids m)
        = set m \<union> open_shift now ` (set ids - sh_UserID ` set m)"
  using assms
proof (induction ids arbitrary: m)
  case (Cons i ids)
  show ?case
  proof (cases "i \<in> sh_UserID ` set m")
    case True
    with Cons.IH [OF Cons.prems] show ?thesis by auto
  next
    case False
    with Cons.prems have "distinct (map sh_UserID (m @ [open_shift now i]))" by (auto simp: open_shift_def)
    from Cons.IH [OF this] False show ?thesis by (auto simp: open_shift_def)
  qed
qed simp

text \<open>Where a user is covered by the open and the closed shifts, and the invariant of the loop.\<close>

definition run_covers :: "Shift list \<times> Shift list \<Rightarrow> string \<Rightarrow> instant \<Rightarrow> bool" where
  "run_covers s u x \<longleftrightarrow> (\<exists>o' \<in> set (fst s). sh_UserID o' = u \<and> sh_Start o' \<le> x)
     \<or> (\<exists>c \<in> set (snd s). sh_UserID c = u \<and> sh_Start c \<le> x \<and> x < sh_End c)"

definition runs_apart :: "Shift list \<Rightarrow> bool" where
  "runs_apart ss \<longleftrightarrow> sorted_wrt (\<lambda>a b. sh_UserID a = sh_UserID b \<longrightarrow> sh_End a < sh_Start b) ss"

definition runs_inv :: "instant \<Rightarrow> instant \<Rightarrow> string list \<Rightarrow> Shift list \<times> Shift list \<Rightarrow> bool" where
  "runs_inv start now ids s \<longleftrightarrow> distinct (map sh_UserID (fst s)) \<and> sh_UserID ` set (fst s) = set ids
     \<and> (\<forall>o' \<in> set (fst s). sh_Start o' \<le> now \<and> \<not> sh_Truncated o' \<and> (\<forall>c \<in> set (snd s). sh_UserID c = sh_UserID o' \<longrightarrow> sh_End c < sh_Start o'))
     \<and> (\<forall>c \<in> set (snd s). sh_Start c < sh_End c \<and> sh_End c \<le> now \<and> start < sh_End c \<and> \<not> sh_Truncated c)
     \<and> runs_apart (snd s)"

lemma setOnCall_step:
  assumes inv: "runs_inv start t0 ids0 s" and "t0 < now" and mord: "\<And>m. mset (mord m) = mset m"
  shows "runs_inv start now ids (setOnCall mord start now ids s)"
    and "start \<le> x \<Longrightarrow> run_covers (setOnCall mord start now ids s) u x \<longleftrightarrow> (if now \<le> x then u \<in> set ids else run_covers s u x)"
proof -
  obtain op cl where s: "s = (op, cl)" by (cases s)
  define op1 where "op1 = fold (\<lambda>i m. if i \<in> sh_UserID ` set m then m else m @ [open_shift now i]) ids op"
  define op' where "op' = filter (\<lambda>s. sh_UserID s \<in> set ids) op1"
  define gone where "gone = filter (\<lambda>s. sh_UserID s \<notin> set ids) (mord op1)"
  define cl' where "cl' = (if start < now then cl @ map (\<lambda>s. s\<lparr>sh_End := now\<rparr>) gone else cl)"
  have eq: "setOnCall mord start now ids s = (op', cl')"
    unfolding s setOnCall_def op1_def op'_def gone_def cl'_def open_shift_def by (simp add: Let_def)
  have i: "distinct (map sh_UserID op)" "\<And>o'. o' \<in> set op \<Longrightarrow> sh_Start o' \<le> t0 \<and> \<not> sh_Truncated o'"
    "\<And>o' c. o' \<in> set op \<Longrightarrow> c \<in> set cl \<Longrightarrow> sh_UserID c = sh_UserID o' \<Longrightarrow> sh_End c < sh_Start o'"
    "\<And>c. c \<in> set cl \<Longrightarrow> sh_Start c < sh_End c \<and> sh_End c \<le> t0 \<and> start < sh_End c \<and> \<not> sh_Truncated c" "runs_apart cl"
    using inv by (auto simp: runs_inv_def s)
  have op1: "distinct (map sh_UserID op1)" "set op1 = set op \<union> open_shift now ` (set ids - sh_UserID ` set op)"
    using open_fold [OF i(1), of now ids] by (auto simp: op1_def)
  have op': "set op' = {o' \<in> set op. sh_UserID o' \<in> set ids} \<union> open_shift now ` (set ids - sh_UserID ` set op)"
    using op1(2) by (auto simp: op'_def open_shift_def)
  have "set (mord op1) = set op1" using mord by (metis set_mset_mset)
  then have gone: "set gone = {o' \<in> set op. sh_UserID o' \<notin> set ids}" using op1(2) by (auto simp: gone_def open_shift_def)
  have "mset (map sh_UserID (mord op1)) = mset (map sh_UserID op1)" using mord by simp
  then have "distinct (map sh_UserID (mord op1))" using op1(1) by (metis mset_eq_imp_distinct_iff)
  then have dg: "distinct (map sh_UserID gone)" by (simp add: gone_def distinct_map_filter)
  have ids: "distinct (map sh_UserID op')" "sh_UserID ` set op' = set ids"
  proof -
    show "distinct (map sh_UserID op')" using op1(1) by (simp add: op'_def distinct_map_filter)
    have e1: "sh_UserID ` open_shift now ` A = A" for A by (simp add: image_image open_shift_def)
    have e2: "sh_UserID ` {o' \<in> set op. sh_UserID o' \<in> set ids} = sh_UserID ` set op \<inter> set ids" by blast
    show "sh_UserID ` set op' = set ids" unfolding op' image_Un e1 e2 by blast
  qed
  have o': "sh_Start o' \<le> now \<and> \<not> sh_Truncated o'" if "o' \<in> set op'" for o'
    using that i(2) [of o'] assms(2) unfolding op' by (auto simp: open_shift_def)
  show "run_covers (setOnCall mord start now ids s) u x \<longleftrightarrow> (if now \<le> x then u \<in> set ids else run_covers s u x)" if "start \<le> x"
  proof (cases "now \<le> x")
    case True
    have "\<not> x < sh_End c" if "c \<in> set cl'" for c
      using that True i(4) [of c] assms(2) by (auto simp: cl'_def split: if_splits)
    moreover have "(\<exists>o' \<in> set op'. sh_UserID o' = u \<and> sh_Start o' \<le> x) \<longleftrightarrow> u \<in> set ids"
      using True o' unfolding ids(2) [symmetric] by force
    ultimately show ?thesis using True by (auto simp: run_covers_def eq)
  next
    case False
    then have "start < now" using that by simp
    then have cs: "set cl' = set cl \<union> (\<lambda>s. s\<lparr>sh_End := now\<rparr>) ` {o' \<in> set op. sh_UserID o' \<notin> set ids}" using gone by (simp add: cl'_def)
    show ?thesis using False unfolding eq unfolding run_covers_def s fst_conv snd_conv op' cs bex_Un by (auto simp: open_shift_def)
  qed
  show "runs_inv start now ids (setOnCall mord start now ids s)"
  proof -
    have sep: "sh_End c < sh_Start o'" if "o' \<in> set op'" "c \<in> set cl'" "sh_UserID c = sh_UserID o'" for o' c
    proof (cases "c \<in> set cl")
      case True
      then show ?thesis using that(1,3) i(3) [of o' c] i(4) [of c] assms(2) unfolding op' by (auto simp: open_shift_def)
    next
      case False
      have "set cl' \<subseteq> set cl \<union> (\<lambda>s. s\<lparr>sh_End := now\<rparr>) ` set gone" by (simp add: cl'_def)
      with False that(2) obtain g where "g \<in> set gone" "c = g\<lparr>sh_End := now\<rparr>" by blast
      then have "sh_UserID c \<notin> set ids" by (simp add: gone)
      then show ?thesis using that(1,3) ids(2) by (metis imageI)
    qed
    have c': "sh_Start c < sh_End c \<and> sh_End c \<le> now \<and> start < sh_End c \<and> \<not> sh_Truncated c" if "c \<in> set cl'" for c
      using that gone i(2) i(4) [of c] assms(2) by (fastforce simp: cl'_def split: if_splits)
    have "sorted_wrt (\<lambda>a b. sh_UserID a = sh_UserID b \<longrightarrow> sh_End a < sh_Start b) (map (\<lambda>s. s\<lparr>sh_End := now\<rparr>) gone)"
      using dg by (induction gone) (auto simp: image_iff)
    then have "runs_apart cl'" using i(3,5) gone by (auto simp: cl'_def runs_apart_def sorted_wrt_append)
    then show ?thesis unfolding runs_inv_def eq fst_conv snd_conv using ids o' sep c' by blast
  qed
qed

text \<open>The whole loop, from the empty state.\<close>

lemma setOnCall_run:
  fixes start :: instant
  assumes "sorted_wrt (<) (map fst vs)" "vs \<noteq> []" and mord: "\<And>m. mset (mord m) = mset m"
  defines "s \<equiv> fold (\<lambda>(t, ids). setOnCall mord start t ids) vs ([], [])"
  shows "runs_inv start (fst (last vs)) (snd (last vs)) s
    \<and> (\<forall>u x. start \<le> x \<longrightarrow> run_covers s u x \<longleftrightarrow> u \<in> set (on_at vs x))"
  using assms(1,2) unfolding s_def
proof (induction vs rule: rev_induct)
  case (snoc v vs)
  obtain t ids where v: "v = (t, ids)" by (cases v)
  let ?f = "fold (\<lambda>(t, ids). setOnCall mord start t ids)"
  have at: "on_at (vs @ [v]) x = (if t \<le> x then ids else on_at vs x)" for x
    using on_at_snoc snoc.prems(1) by (simp add: v)
  show ?case
  proof (cases "vs = []")
    case True
    have i: "runs_inv start (t - 1) [] ([], [])" by (simp add: runs_inv_def runs_apart_def)
    have "run_covers ([], []) u x \<longleftrightarrow> u \<in> set []" for u x by (simp add: run_covers_def)
    with setOnCall_step [OF i, where now = t and mord = mord and ids = ids] mord show ?thesis by (simp add: True v)
  next
    case False
    then have ih: "runs_inv start (fst (last vs)) (snd (last vs)) (?f vs ([], []))"
      "\<And>u x. start \<le> x \<Longrightarrow> run_covers (?f vs ([], [])) u x \<longleftrightarrow> u \<in> set (on_at vs x)"
      using snoc.IH snoc.prems(1) by (auto simp: sorted_wrt_append)
    have "fst (last vs) < t" using False snoc.prems(1) by (simp add: v sorted_wrt_append)
    from setOnCall_step [OF ih(1) this, where mord = mord and ids = ids] mord ih(2) show ?thesis by (simp add: at [unfolded v] v)
  qed
qed simp

interpretation call_order: less_fun shift_lt
proof
  show "\<not> shift_lt y x" if "shift_lt x y" for x y
    using that lexordp_antisym by (auto simp: shift_lt_def split: if_splits)
  show "shift_lt x y \<or> shift_lt y z" if "shift_lt x z" for x y z
  proof -
    have "ord_class.lexordp (a :: nat list) b \<or> ord_class.lexordp b c" if "ord_class.lexordp a c" for a b c
      using that lexordp_linear [of a b] lexordp_trans [of b a c] by auto
    with that show ?thesis by (auto simp: shift_lt_def split: if_splits)
  qed
qed

text \<open>The shifts returned: ordered, those of a user apart, and covering what was reported before the end.\<close>

definition shift_covers :: "Shift list \<Rightarrow> string \<Rightarrow> instant \<Rightarrow> bool" where
  "shift_covers ss u x \<longleftrightarrow> (\<exists>s \<in> set ss. sh_UserID s = u \<and> sh_Start s \<le> x \<and> x < sh_End s)"

lemma finish_shifts_run:
  fixes start :: instant
  assumes "sorted_wrt (<) (map fst vs)" "vs \<noteq> []" and mord: "\<And>m. mset (mord m) = mset m"
  defines "ss \<equiv> finish_shifts mord (fst (last vs)) (fold (\<lambda>(t, ids). setOnCall mord start t ids) vs ([], []))"
  shows "\<forall>u x. start \<le> x \<longrightarrow> x < fst (last vs) \<longrightarrow> shift_covers ss u x \<longleftrightarrow> u \<in> set (on_at vs x)"
    and "sorted_wrt (\<lambda>a b. \<not> shift_lt b a) ss"
    and "\<forall>s \<in> set ss. \<forall>s' \<in> set ss. sh_UserID s = sh_UserID s' \<longrightarrow> s = s' \<or> sh_End s < sh_Start s' \<or> sh_End s' < sh_Start s"
proof -
  obtain op cl where s: "fold (\<lambda>(t, ids). setOnCall mord start t ids) vs ([], []) = (op, cl)" by fastforce
  have r: "runs_inv start (fst (last vs)) (snd (last vs)) (op, cl)"
    "\<And>u x. start \<le> x \<Longrightarrow> run_covers (op, cl) u x \<longleftrightarrow> u \<in> set (on_at vs x)"
    using setOnCall_run [OF assms(1,2) mord, of start] unfolding s by auto
  let ?trunc = "\<lambda>s. s\<lparr>sh_Truncated := True, sh_End := fst (last vs)\<rparr>"
  have mo: "set (mord op) = set op" using mord by (metis set_mset_mset)
  have ss: "set ss = set cl \<union> ?trunc ` set op" using mo by (simp add: ss_def s finish_shifts_def sortShifts_def)
  have "shift_covers ss u x \<longleftrightarrow> run_covers (op, cl) u x" if "x < fst (last vs)" for u x
    using that unfolding shift_covers_def run_covers_def ss bex_Un by auto
  then show "\<forall>u x. start \<le> x \<longrightarrow> x < fst (last vs) \<longrightarrow> shift_covers ss u x \<longleftrightarrow> u \<in> set (on_at vs x)" using r(2) by simp
  show "sorted_wrt (\<lambda>a b. \<not> shift_lt b a) ss"
    by (simp add: ss_def s finish_shifts_def sortShifts_def call_order.sorted_sort_by)
  show "\<forall>s \<in> set ss. \<forall>s' \<in> set ss. sh_UserID s = sh_UserID s' \<longrightarrow> s = s' \<or> sh_End s < sh_Start s' \<or> sh_End s' < sh_Start s"
  proof (intro ballI impI)
    fix a b assume ab: "a \<in> set ss" "b \<in> set ss" "sh_UserID a = sh_UserID b"
    have cl: "c = c' \<or> sh_End c < sh_Start c' \<or> sh_End c' < sh_Start c"
      if "c \<in> set cl" "c' \<in> set cl" "sh_UserID c = sh_UserID c'" for c c'
    proof -
      have sw: "sorted_wrt (\<lambda>a b. sh_UserID a = sh_UserID b \<longrightarrow> sh_End a < sh_Start b) cl"
        using r(1) by (simp add: runs_inv_def runs_apart_def)
      from that(1,2) obtain i j where "i < length cl" "j < length cl" "c = cl ! i" "c' = cl ! j" by (auto simp: in_set_conv_nth)
      then show ?thesis using sorted_wrt_nth_less [OF sw, of i j] sorted_wrt_nth_less [OF sw, of j i] that(3)
        by (cases i j rule: linorder_cases) auto
    qed
    have op: "sh_End c < sh_Start o'" if "c \<in> set cl" "o' \<in> set op" "sh_UserID c = sh_UserID o'" for c o'
      using that r(1) unfolding runs_inv_def by auto
    have "o' = o''" if "o' \<in> set op" "o'' \<in> set op" "sh_UserID o' = sh_UserID o''" for o' o''
      using that r(1) unfolding runs_inv_def by (auto simp: distinct_map inj_on_def)
    then have op2: "?trunc o' = ?trunc o''" if "o' \<in> set op" "o'' \<in> set op" "sh_UserID o' = sh_UserID o''" for o' o'' using that by blast
    consider "a \<in> set cl" "b \<in> set cl" | o' where "a \<in> set cl" "o' \<in> set op" "b = ?trunc o'"
      | o' where "b \<in> set cl" "o' \<in> set op" "a = ?trunc o'" | o' o'' where "o' \<in> set op" "o'' \<in> set op" "a = ?trunc o'" "b = ?trunc o''"
      using ab(1,2) unfolding ss by auto
    then show "a = b \<or> sh_End a < sh_Start b \<or> sh_End b < sh_Start a"
    proof cases
      case 1 then show ?thesis using cl ab(3) by blast
    next
      case 2 then show ?thesis using op [of a o'] ab(3) by simp
    next
      case 3 then show ?thesis using op [of b o'] ab(3) by simp
    next
      case 4 then show ?thesis using op2 [of o' o''] ab(3) by simp
    qed
  qed
qed

end
