(* ===== verification/OnCallResult.thy ===== *)
theory OnCallResult
  imports OnCallSetup ShiftRuns
begin

section \<open>What CalculateShifts returns\<close>

text \<open>
  The calculation as a whole: the calculators are built, the iterator visits the timestamps at
  which something changes, and the shifts returned cover a user exactly when the schedule has the
  user on call.
\<close>

subsection \<open>Overrides\<close>

lemma split_replace_join: "newline \<notin> set u \<Longrightarrow> split_replace (u @ [newline] @ v) = (u, v)"
  unfolding split_replace_def by (induction u) auto

lemma override_map_replaced:
  assumes "split_replace k = (i, v)" "k \<in> set rep" "\<And>k' v'. k' \<in> set rep \<Longrightarrow> split_replace k' = (i, v') \<Longrightarrow> v' = v"
  shows "override_map rem rep i = Some v"
proof -
  have "map_of (rev (map split_replace rep)) i = Some v"
  proof (cases "map_of (rev (map split_replace rep)) i")
    case None
    then have "i \<notin> fst ` set (map split_replace rep)" by (simp add: map_of_eq_None_iff)
    with assms(1,2) show ?thesis by force
  next
    case (Some v')
    then have "(i, v') \<in> set (map split_replace rep)" by (auto dest: map_of_SomeD)
    with assms(3) Some show ?thesis by force
  qed
  then show ?thesis by (simp add: override_map_def)
qed

lemma override_map_other:
  assumes "\<And>k. k \<in> set rep \<Longrightarrow> fst (split_replace k) \<noteq> i"
  shows "override_map rem rep i = (if i \<in> set rem then Some '''' else None)"
proof -
  have "i \<notin> fst ` split_replace ` set rep" using assms by blast
  then have "map_of (rev (map split_replace rep)) i = None" by (simp add: map_of_eq_None_iff)
  moreover have "map_of (rev (map (\<lambda>i. (i, '''')) rem)) i = (if i \<in> set rem then Some '''' else None)"
    by (induction rem rule: rev_induct) auto
  ultimately show ?thesis by (auto simp: override_map_def map_add_def)
qed

text \<open>The users on call at \<open>t\<close>, from those of the rules, with the overrides applied.\<close>

definition overridden :: "state \<Rightarrow> string list \<Rightarrow> string \<Rightarrow> int \<Rightarrow> bool" where
  "overridden s ids u t \<longleftrightarrow> over_added s u t
     \<or> (\<exists>i \<in> set ids. over_replaced s i u t \<or> u = i \<and> \<not> over_removed s i t \<and> (\<nexists>v. over_replaced s i v t))"

definition overrides_ok :: "state \<Rightarrow> bool" where
  "overrides_ok s \<longleftrightarrow> (\<forall>o' \<in> set (st_overrides s). newline \<notin> set (uo_RemoveUserID o'))
     \<and> (\<forall>t u v v'. over_replaced s u v t \<longrightarrow> over_replaced s u v' t \<longrightarrow> v = v')"

lemma replaced_newline: "overrides_ok s \<Longrightarrow> over_replaced s u v t \<Longrightarrow> newline \<notin> set u"
  unfolding overrides_ok_def over_replaced_def by blast

lemma MapUsers_overridden:
  assumes "overrides_ok s" "oc_userMap oc = override_map rem rep" "set (usr_active (get_usr h (oc_add oc))) = {i. over_added s i t}"
    and rem: "set rem = {i. over_removed s i t}" and rep: "set rep = {u @ [newline] @ v |u v. over_replaced s u v t}"
  shows "u \<in> set (MapUsers h oc ids) \<longleftrightarrow> overridden s ids u t"
proof -
  have one: "u \<in> set (case oc_userMap oc i of None \<Rightarrow> [i] | Some newID \<Rightarrow> if newID = '''' then [] else [newID])
      \<longleftrightarrow> over_replaced s i u t \<or> u = i \<and> \<not> over_removed s i t \<and> (\<nexists>v. over_replaced s i v t)" for i
  proof (cases "\<exists>v. over_replaced s i v t")
    case True
    then obtain v where v: "over_replaced s i v t" by blast
    have "override_map rem rep i = Some v"
    proof (rule override_map_replaced)
      show "split_replace (i @ [newline] @ v) = (i, v)" using split_replace_join replaced_newline [OF assms(1) v] by simp
      show "i @ [newline] @ v \<in> set rep" using v rep by blast
      fix k' v' assume "k' \<in> set rep" "split_replace k' = (i, v')"
      then obtain x y where "over_replaced s x y t" "k' = x @ [newline] @ y" using rep by blast
      then show "v' = v" using \<open>split_replace k' = (i, v')\<close> split_replace_join replaced_newline [OF assms(1)] v assms(1)
        unfolding overrides_ok_def by fastforce
    qed
    moreover have "v \<noteq> ''''" using v by (simp add: over_replaced_def)
    moreover have "over_replaced s i u t \<longleftrightarrow> u = v" using v assms(1) unfolding overrides_ok_def by blast
    ultimately show ?thesis using True assms(2) by auto
  next
    case False
    have "fst (split_replace k) \<noteq> i" if "k \<in> set rep" for k
    proof -
      from that rep obtain x y where "over_replaced s x y t" "k = x @ [newline] @ y" by blast
      then show ?thesis using False split_replace_join [of x y] replaced_newline [OF assms(1)] by force
    qed
    then have "override_map rem rep i = (if i \<in> set rem then Some '''' else None)" by (rule override_map_other)
    with False rem assms(2) show ?thesis by auto
  qed
  have "u \<in> set (MapUsers h oc ids) \<longleftrightarrow> u \<in> set (usr_active (get_usr h (oc_add oc)))
      \<or> (\<exists>i \<in> set ids. u \<in> set (case oc_userMap oc i of None \<Rightarrow> [i] | Some newID \<Rightarrow> if newID = '''' then [] else [newID]))"
    by (auto simp: MapUsers_def)
  then show ?thesis unfolding one overridden_def assms(3) by blast
qed

subsection \<open>The heap before the iteration\<close>

text \<open>Every boundary registered lies after the Unix epoch; a timestamp 0 would read as \<open>unknown\<close>.\<close>

definition after_epoch :: "obj \<Rightarrow> bool" where
  "after_epoch x = (case x of ActObj act \<Rightarrow> (\<forall>T \<in> fst ` set (act_states act). 0 < T) | _ \<Rightarrow> True)"

lemma setup_calcs_ok:
  assumes "building [] {} w" "\<forall>x \<in> set (w_heap w). after_epoch x"
  shows "calcs_ok (ti_sub (w_iter w)) (w_heap w)"
proof -
  have r: "set (ti_sub (w_iter w)) = {..<length (w_heap w)}" "ordered {} (ti_sub (w_iter w)) (w_heap w)"
    using assms(1) by (simp_all add: building_def regs_ok_def)
  have "obj_ok (w_heap w ! a)" if "a < length (w_heap w)" for a
  proof -
    have "finished (w_heap w ! a)" "idle (w_heap w ! a)" "after_epoch (w_heap w ! a)"
      using building_good [OF assms(1) that] assms(2) that by auto
    then show ?thesis
      by (auto simp: obj_ok_def finished_def idle_def after_epoch_def boundaries_ok_def quiet_def spans_ok_def act_Active_def split: obj.splits)
  qed
  with r show ?thesis by (simp add: calcs_ok_def)
qed

lemma idle_defaults:
  assumes "building [] {} w" "a < length (w_heap w)"
  shows "\<not> act_Active (get_act (w_heap w) a)" "usr_active (get_usr (w_heap w) a) = []" "get_single (w_heap w) a = Some c \<Longrightarrow> src_userID c = ''''"
proof -
  have "idle (w_heap w ! a)" using building_good [OF assms] by simp
  then show "\<not> act_Active (get_act (w_heap w) a)" "usr_active (get_usr (w_heap w) a) = []"
    "get_single (w_heap w) a = Some c \<Longrightarrow> src_userID c = ''''"
    by (auto simp: idle_def get_act_def get_usr_def get_single_def act_Active_def quiet_def empty_act_def empty_usr_def split: obj.splits)
qed

lemma setup_tracking:
  assumes "building [] {} w"
  shows "tracking (w_heap w) (ti_sub (w_iter w)) \<tau> (w_heap w) \<and> keys_distinct (ti_sub (w_iter w)) (w_heap w)"
proof -
  let ?h = "w_heap w" and ?subs = "ti_sub (w_iter w)"
  have r: "set ?subs = {..<length ?h}" "ordered {} ?subs ?h" using assms by (simp_all add: building_def regs_ok_def)
  have d: "b < length ?h" if "a < length ?h" "b \<in> set (deps (?h ! a))" for a b
    using ordered_deps [OF r(2), of a] r(1) that by auto
  have idle: "idle (?h ! a)" if "a < length ?h" for a using building_good [OF assms that] by simp
  have "usr_sync ?h u" if "a < length ?h" "?h ! a = UserObj u" for a u
  proof -
    have "\<not> act_Active (get_act ?h c)" if "(i, c) \<in> set (usr_calc u)" for i c
      using idle_defaults(1) [OF assms] d [OF \<open>a < length ?h\<close>, of c] that \<open>?h ! a = UserObj u\<close> by (force simp: deps_def)
    moreover have "usr_active u = []" using idle [OF that(1)] that(2) by (simp add: idle_def)
    ultimately show ?thesis by (auto simp: usr_sync_def)
  qed
  moreover have "rules_sync ?h rc" if "a < length ?h" "?h ! a = RulesObj rc" for a rc
  proof -
    have "src_userID c = ''''" if "c \<in> set (List.map_filter (get_single ?h) (rc_rules rc))" for c
    proof -
      from that obtain b where "b \<in> set (rc_rules rc)" "get_single ?h b = Some c" by (auto simp: List.map_filter_def)
      moreover then have "b < length ?h" using d [OF \<open>a < length ?h\<close>, of b] \<open>?h ! a = RulesObj rc\<close> by (simp add: deps_def)
      ultimately show ?thesis using idle_defaults(3) [OF assms] by blast
    qed
    then have "filter (\<lambda>i. i \<noteq> '''') (map src_userID (List.map_filter (get_single ?h) (rc_rules rc))) = []" by (auto simp: filter_empty_conv)
    moreover have "rc_userIDs rc = []" using idle [OF that(1)] that(2) by (simp add: idle_def)
    ultimately show ?thesis by (simp add: rules_sync_def)
  qed
  moreover have "over_sync ?h oc" if "a < length ?h" "?h ! a = OverObj oc" for a oc
  proof -
    have "oc_remove oc < length ?h" "oc_replace oc < length ?h" using d [OF that(1)] that(2) by (simp_all add: deps_def)
    then have "usr_active (get_usr ?h (oc_remove oc)) = []" "usr_active (get_usr ?h (oc_replace oc)) = []" using idle_defaults(2) [OF assms] by blast+
    moreover have "oc_userMap oc = Map.empty" using idle [OF that(1)] that(2) by (simp add: idle_def)
    ultimately show ?thesis by (simp add: over_sync_def override_map_def)
  qed
  moreover have "distinct (map fst (usr_calc (get_usr ?h a)))" if "a < length ?h" for a
    using idle [OF that] by (auto simp: idle_def get_usr_def empty_usr_def split: obj.splits)
  ultimately show ?thesis using r(1) by (auto simp: tracking_def shapes_kept_def acts_kept_def all_sync_def keys_distinct_def)
qed

subsection \<open>A visit of the iterator\<close>

definition steady :: "obj list \<Rightarrow> nat list \<Rightarrow> int \<Rightarrow> int \<Rightarrow> bool" where
  "steady h0 subs t x \<longleftrightarrow> (\<forall>y. t \<le> y \<longrightarrow> y \<le> x \<longrightarrow> (\<forall>a \<in> set subs. act_at (get_act h0 a) y = act_at (get_act h0 a) t))"

lemma visits_last: "visits h0 subs end tr \<Longrightarrow> fst (last tr) = end \<and> tr \<noteq> []"
proof (induction tr)
  case (Cons th tr)
  then show ?case by (cases th; cases tr) auto
qed simp

lemma visits_ConsD:
  assumes "visits h0 subs end ((t, h) # (t', h') # rest)"
  shows "tracking h0 subs t h" "current h0 subs t h" "t < t'" "visits h0 subs end ((t', h') # rest)"
    "\<And>y a. t \<le> y \<Longrightarrow> y < t' \<Longrightarrow> a \<in> set subs \<Longrightarrow> act_at (get_act h0 a) y = act_at (get_act h0 a) t"
  using assms unfolding visits.simps(2) [of h0 subs "end" t h] list.case prod.case by blast+

lemma visits_sorted: "visits h0 subs end tr \<Longrightarrow> sorted_wrt (<) (map fst tr)"
proof (induction tr)
  case (Cons th tr)
  show ?case
  proof (cases tr)
    case (Cons th' tr')
    obtain t h t' h' where th: "th = (t, h)" "th' = (t', h')" by (cases th, cases th')
    have v: "t < t'" "visits h0 subs end tr" using visits_ConsD(3,4) Cons.prems unfolding Cons th by blast+
    have "sorted_wrt (<) (map fst ((t', h') # tr'))" using Cons.IH [OF v(2)] unfolding Cons th .
    then show ?thesis unfolding Cons th using v(1) by fastforce
  qed simp
qed simp

lemma visit_value:
  assumes "visits h0 subs end ((\<tau>, h1) # tr)" "\<tau> \<le> x" "x < end"
  shows "\<exists>t h. t \<le> x \<and> \<tau> \<le> t \<and> tracking h0 subs t h \<and> current h0 subs t h \<and> steady h0 subs t x
    \<and> on_at (map (\<lambda>p. (fst p * Second, f p)) ((\<tau>, h1) # tr)) (x * Second) = f (t, h)"
  using assms(1,2)
proof (induction tr arbitrary: \<tau> h1)
  case Nil
  then show ?case using assms(3) by simp
next
  case (Cons th tr)
  obtain t' h' where th: "th = (t', h')" by (cases th)
  note v = visits_ConsD [OF Cons.prems(1) [unfolded th]]
  show ?case
  proof (cases "t' \<le> x")
    case True
    from Cons.IH [OF v(4) True] obtain t h where
      "t \<le> x" "t' \<le> t" "tracking h0 subs t h" "current h0 subs t h" "steady h0 subs t x"
      "on_at (map (\<lambda>p. (fst p * Second, f p)) ((t', h') # tr)) (x * Second) = f (t, h)" by blast
    moreover have "on_at (map (\<lambda>p. (fst p * Second, f p)) ((\<tau>, h1) # th # tr)) (x * Second)
        = on_at (map (\<lambda>p. (fst p * Second, f p)) ((t', h') # tr)) (x * Second)"
      using True Cons.prems(2) by (simp add: th)
    moreover have "\<tau> \<le> t" using v(3) \<open>t' \<le> t\<close> by simp
    ultimately show ?thesis by metis
  next
    case False
    have "steady h0 subs \<tau> x" unfolding steady_def
    proof (intro allI impI ballI)
      fix y a assume y: "\<tau> \<le> y" "y \<le> x" and a: "a \<in> set subs"
      then have "y < t'" using False by simp
      then show "act_at (get_act h0 a) y = act_at (get_act h0 a) \<tau>" by (rule v(5) [OF y(1) _ a])
    qed
    moreover have "on_at (map (\<lambda>p. (fst p * Second, f p)) ((\<tau>, h1) # th # tr)) (x * Second) = f (\<tau>, h1)"
      using False Cons.prems(2) by (simp add: th)
    moreover have "\<tau> \<le> \<tau>" by simp
    ultimately show ?thesis using v(1,2) Cons.prems(2) by (intro exI [of _ \<tau>] exI [of _ h1] conjI)
  qed
qed

lemma steady_users:
  assumes "steady h0 subs t x" "t \<le> x" "calcs_ok subs h0" "u \<in> set subs"
  shows "users_at h0 u x = users_at h0 u t"
proof -
  have "act_at (get_act h0 c) x = act_at (get_act h0 c) t" if "(i, c) \<in> set (usr_calc (get_usr h0 u))" for i c
  proof -
    have "c \<in> set (deps (h0 ! u))" using that by (force simp: deps_def get_usr_def empty_usr_def split: obj.splits)
    then have "c \<in> set subs" using calcs_ok_deps [OF assms(3,4)] by blast
    then show ?thesis using assms(1,2) unfolding steady_def by blast
  qed
  then show ?thesis unfolding users_at_def by metis
qed

definition rule_user_at :: "TimeIterator \<Rightarrow> location \<Rightarrow> int \<Rightarrow> ResolvedRule \<times> ResolvedRotation list \<Rightarrow> string \<Rightarrow> bool" where
  "rule_user_at iter l t env i \<longleftrightarrow>
     (let (rule, rots) = env; on = rot_on iter (rule_left iter l (rsr_Rule rule))
      in if \<not> rule_on iter l (rsr_Rule rule) t then i = ''''
         else case rsr_Rotation rule of
                None \<Rightarrow> \<exists>tgt. rule_Target (rsr_Rule rule) = Some tgt \<and> i = (if Target_TargetType tgt = TargetTypeUser then Target_TargetID tgt else '''')
              | Some ri \<Rightarrow> on (rots ! ri) i t \<or> (\<nexists>j. on (rots ! ri) j t) \<and> i = '''')"

lemma single_at_visit:
  assumes "single_inv iter l rots h0 c rule" "tracking h0 subs t h" "current h0 subs t h" "calcs_ok subs h0"
    and "steady h0 subs t x" "t \<le> x" "in_window iter x" "set subs = {..<length h0}"
  shows "\<exists>c'. get_single h c = Some c' \<and> rule_user_at iter l x (rule, rots) (src_userID c')"
proof -
  from assms(1) obtain c0 where c: "c < length h0" "h0 ! c = SingleObj c0" "src_rule c0 = rule" "src_act c0 < length h0"
    "\<forall>t. in_window iter t \<longrightarrow> act_at (get_act h0 (src_act c0)) t = rule_on iter l (rsr_Rule rule) t"
    and rot: "case src_rot c0 of None \<Rightarrow> rsr_Rotation rule = None
        | Some u \<Rightarrow> user_done h0 u \<and> (\<exists>ri. rsr_Rotation rule = Some ri
             \<and> (\<forall>t. in_window iter t \<longrightarrow> users_at h0 u t = {i. rot_on iter (rule_left iter l (rsr_Rule rule)) (rots ! ri) i t}))"
    unfolding single_inv_def by blast
  from current_single [OF assms(2-4) _ c(2)] c(1) assms(8) obtain c' where
    c': "get_single h c = Some c'" "user_at h0 c0 t (src_userID c')" by auto
  have act: "act_at (get_act h0 (src_act c0)) t = rule_on iter l (rsr_Rule rule) x"
  proof -
    have "src_act c0 \<in> set subs" using c(4) assms(8) by simp
    then have "act_at (get_act h0 (src_act c0)) x = act_at (get_act h0 (src_act c0)) t" using assms(5,6) unfolding steady_def by blast
    then show ?thesis using c(5) assms(7) by simp
  qed
  have "users_at h0 u t = {i. rot_on iter (rule_left iter l (rsr_Rule rule)) (rots ! ri) i x}"
    if "src_rot c0 = Some u" "rsr_Rotation rule = Some ri" for u ri
    using rot that steady_users [OF assms(5,6,4), of u] assms(7,8) by (auto simp: user_done_def)
  then have "rule_user_at iter l x (rule, rots) (src_userID c')"
    using c'(2) rot unfolding user_at_def rule_user_at_def act c(3) by (auto split: option.splits if_splits)
  with c'(1) show ?thesis by blast
qed

lemma rule_ids_at_visit:
  assumes "list_all2 (\<lambda>c (rule, rots). single_inv iter l rots h0 c rule) cs envs" "tracking h0 subs t h" "current h0 subs t h"
    and "calcs_ok subs h0" "steady h0 subs t x" "t \<le> x" "in_window iter x" "set subs = {..<length h0}"
  shows "list_all2 (rule_user_at iter l x) envs (map src_userID (List.map_filter (get_single h) cs))"
  using assms(1)
proof (induction rule: list_all2_induct)
  case Nil
  then show ?case by (simp add: List.map_filter_simps)
next
  case (Cons c cs env envs)
  obtain rule rots where env: "env = (rule, rots)" by (cases env)
  with Cons.hyps(1) single_at_visit [OF _ assms(2-8), of l rots c rule] obtain c' where
    "get_single h c = Some c'" "rule_user_at iter l x env (src_userID c')" by auto
  with Cons.IH show ?case by (simp add: List.map_filter_simps)
qed

lemma shape_over: "shape x = shape (OverObj oc) \<Longrightarrow> \<exists>m. x = OverObj (oc\<lparr>oc_userMap := m\<rparr>)"
proof -
  assume "shape x = shape (OverObj oc)"
  then obtain oc' where "x = OverObj oc'" "oc'\<lparr>oc_userMap := Map.empty\<rparr> = oc\<lparr>oc_userMap := Map.empty\<rparr>"
    by (cases x) (auto simp: shape_def)
  then show ?thesis by (intro exI [of _ "oc_userMap oc'"]) (cases oc; cases oc'; simp)
qed

lemma shape_rules: "shape x = shape (RulesObj rc) \<Longrightarrow> \<exists>rc'. x = RulesObj rc' \<and> rc_rules rc' = rc_rules rc"
proof -
  assume "shape x = shape (RulesObj rc)"
  then obtain rc' where "x = RulesObj rc'" "rc'\<lparr>rc_userIDs := [], rc_changed := False\<rparr> = rc\<lparr>rc_userIDs := [], rc_changed := False\<rparr>"
    by (cases x) (auto simp: shape_def)
  then show ?thesis by (cases rc; cases rc'; simp)
qed

text \<open>
  Who is on call at \<open>t\<close>: history before the cutoff, a temporary schedule where there is one, and
  otherwise the users of the rules, with the overrides applied.
\<close>

definition on_call_at :: "state \<Rightarrow> string list \<Rightarrow> string \<Rightarrow> int \<Rightarrow> bool" where
  "on_call_at s ids u t \<longleftrightarrow>
     (if t * Second < historyCutoff s then hist_on s u t
      else if temp_active s t then temp_on s u t
      else overridden s (filter (\<lambda>i. i \<noteq> '''') ids) u t)"

lemma tick_at_visit:
  fixes w :: world
  defines "h0 \<equiv> w_heap w" and "subs \<equiv> ti_sub (w_iter w)"
  assumes su: "setup_inv rots s iter c w" and ok: "calcs_ok subs h0" "overrides_ok s"
    and h: "tracking h0 subs t h" "current h0 subs t h" "steady h0 subs t x" "t \<le> x" "in_window iter x"
    and cut: "t * Second < historyCutoff s \<longleftrightarrow> x * Second < historyCutoff s"
  shows "\<exists>ids. list_all2 (rule_user_at iter (st_loc s) x) (rule_envs iter (st_loc s) rots (st_rules s)) ids
    \<and> (\<forall>u. u \<in> set (tick_users c (historyCutoff s) (t, h)) \<longleftrightarrow> on_call_at s ids u x)"
proof -
  have subs: "set subs = {..<length h0}" using su by (simp add: setup_inv_def building_def regs_ok_def h0_def subs_def)
  have users: "set (usr_active (get_usr h u)) = users_at h0 u x" if "user_done h0 u" for u
    using current_users [OF h(1,2) ok(1), of u] steady_users [OF h(3,4) ok(1), of u] that subs by (simp add: user_done_def)
  have hist: "set (usr_active (get_usr h (c_hist c))) = {u. hist_on s u x}"
    and tusr: "set (usr_active (get_usr h (c_tempUsr c))) = {u. temp_on s u x}"
    using users su h(5) by (simp_all add: setup_inv_def h0_def)
  have tact: "act_Active (get_act h (c_tempAct c)) = temp_active s x"
  proof -
    have a: "c_tempAct c \<in> set subs" using su subs by (simp add: setup_inv_def h0_def)
    then have "act_Active (get_act h (c_tempAct c)) = act_at (get_act h0 (c_tempAct c)) t" using h(2) by (simp add: current_def)
    also have "\<dots> = act_at (get_act h0 (c_tempAct c)) x" using h(3,4) a unfolding steady_def by blast
    finally show ?thesis using su h(5) by (simp add: setup_inv_def h0_def)
  qed
  have sh: "shape (h ! a) = shape (h0 ! a)" for a using h(1) by (simp add: tracking_def shapes_kept_def)
  have "rules_inv iter rots s h0 (c_rules c)" using su by (simp add: setup_inv_def h0_def)
  then obtain x0 where rc0: "c_rules c < length h0" "h0 ! c_rules c = RulesObj x0"
    "list_all2 (\<lambda>c (rule, rots). single_inv iter (st_loc s) rots h0 c rule) (rc_rules x0) (rule_envs iter (st_loc s) rots (st_rules s))"
    unfolding rules_inv_def by blast
  obtain rc where rc: "h ! c_rules c = RulesObj rc" "rc_rules rc = rc_rules x0" using shape_rules sh rc0(2) by metis
  define ids where "ids = map src_userID (List.map_filter (get_single h) (rc_rules x0))"
  have "rules_sync h rc" using h(1) rc(1) rc0(1) subs by (simp add: tracking_def all_sync_def)
  then have ids: "rc_userIDs (get_rules h (c_rules c)) = filter (\<lambda>i. i \<noteq> '''') ids" by (simp add: rules_sync_def rc get_rules_def ids_def)
  have "over_inv s h0 (c_over c) x" "c_over c < length h0" using su h(5) by (simp_all add: setup_inv_def h0_def)
  then obtain oc where oc: "h0 ! c_over c = OverObj oc" "\<forall>v \<in> {oc_add oc, oc_remove oc, oc_replace oc}. user_done h0 v"
    "users_at h0 (oc_add oc) x = {i. over_added s i x}" "users_at h0 (oc_remove oc) x = {i. over_removed s i x}"
    "users_at h0 (oc_replace oc) x = {u @ [newline] @ v |u v. over_replaced s u v x}" and ov: "c_over c \<in> set subs"
    using subs unfolding over_inv_def by auto
  obtain m where oc': "h ! c_over c = OverObj (oc\<lparr>oc_userMap := m\<rparr>)" using shape_over sh oc(1) by metis
  then have "over_sync h (oc\<lparr>oc_userMap := m\<rparr>)" using h(1) ov by (simp add: tracking_def all_sync_def)
  then have um: "m = override_map (usr_active (get_usr h (oc_remove oc))) (usr_active (get_usr h (oc_replace oc)))" by (simp add: over_sync_def)
  have over: "u \<in> set (MapUsers h (get_over h (c_over c)) us) \<longleftrightarrow> overridden s us u x" for u us
    by (rule MapUsers_overridden [OF ok(2), where rem = "usr_active (get_usr h (oc_remove oc))" and rep = "usr_active (get_usr h (oc_replace oc))"])
      (use users oc um in \<open>simp_all add: get_over_def oc'\<close>)
  have "list_all2 (rule_user_at iter (st_loc s) x) (rule_envs iter (st_loc s) rots (st_rules s)) ids"
    unfolding ids_def by (rule rule_ids_at_visit [OF rc0(3) h(1,2) ok(1) h(3-5) subs])
  moreover have "u \<in> set (tick_users c (historyCutoff s) (t, h)) \<longleftrightarrow> on_call_at s ids u x" for u
    using hist tusr tact over ids cut by (simp add: tick_users_def on_call_at_def)
  ultimately show ?thesis by blast
qed

subsection \<open>The whole calculation\<close>

lemma calc_iterator_facts:
  fixes s :: state and start "end" :: instant
  defines "iter \<equiv> calc_iterator s start end"
  shows "ti_t iter = 0" "\<not> ti_init iter" "ti_step iter = 60" "60 dvd ti_start iter" "60 dvd ti_end iter"
    "ti_end iter * Second = Truncate end Minute"
    "ti_start iter * Second = (if \<not> IsZero (st_now s) \<and> st_now s < Truncate start Minute then Truncate (st_now s) Minute else Truncate start Minute)"
proof -
  have d: "Duration_Truncate Minute Second = Minute" "Minute sdiv Second = 60"
    by (simp_all add: Duration_Truncate_def signed_divide_int_def signed_modulo_int_def)
  show "ti_t iter = 0" "\<not> ti_init iter" "ti_step iter = 60" by (simp_all add: iter_def calc_iterator_def NewTimeIterator_def Let_def d)
  have u: "Unix (Truncate x Minute) * Second = Truncate x Minute" "60 dvd Unix (Truncate x Minute)" for x using minute_unix [of x] by auto
  show "ti_end iter * Second = Truncate end Minute" "60 dvd ti_end iter"
    using u [of "end"] by (simp_all add: iter_def calc_iterator_def NewTimeIterator_def Let_def d)
  show "60 dvd ti_start iter" "ti_start iter * Second = (if \<not> IsZero (st_now s) \<and> st_now s < Truncate start Minute then Truncate (st_now s) Minute else Truncate start Minute)"
    using u [of "st_now s"] u [of start] by (simp_all add: iter_def calc_iterator_def NewTimeIterator_def Let_def d)
qed

lemma Truncate_ge_Minute: "Minute \<le> t \<Longrightarrow> Minute \<le> Truncate t Minute"
  using Truncate_mono [of Minute Minute t] by (simp add: Truncate_Minute)

lemma calc_iterator_window:
  fixes s :: state and start "end" :: instant
  defines "iter \<equiv> calc_iterator s start end"
  assumes "IsZero (st_now s) \<or> Minute \<le> st_now s" "Minute \<le> start" "start \<le> end"
  shows "0 < ti_start iter" "ti_start iter \<le> ti_end iter" "ti_start iter * Second \<le> Truncate start Minute"
    "\<not> IsZero (st_now s) \<Longrightarrow> ti_start iter * Second \<le> historyCutoff s - Minute" "ti_end iter \<le> Unix end"
proof -
  note f = calc_iterator_facts(6,7) [of s start "end", folded iter_def]
  have m: "Truncate start Minute \<le> Truncate end Minute" "Minute \<le> Truncate start Minute" "\<not> IsZero (st_now s) \<Longrightarrow> Minute \<le> Truncate (st_now s) Minute"
    using assms(2-4) Truncate_mono [of Minute start "end"] Truncate_ge_Minute by auto
  have n: "st_now s < Truncate start Minute \<Longrightarrow> Truncate (st_now s) Minute \<le> Truncate start Minute"
    "\<not> st_now s < Truncate start Minute \<Longrightarrow> Truncate start Minute \<le> Truncate (st_now s) Minute"
    using Truncate_mono [of Minute "st_now s" "Truncate start Minute"] Truncate_mono [of Minute "Truncate start Minute" "st_now s"] by auto
  have "Minute \<le> ti_start iter * Second" "ti_start iter * Second \<le> ti_end iter * Second" using f m n by (auto split: if_splits)
  then show "0 < ti_start iter" "ti_start iter \<le> ti_end iter" by simp_all
  show "ti_start iter * Second \<le> Truncate start Minute" using f(2) n(1) by (auto split: if_splits)
  show "ti_start iter * Second \<le> historyCutoff s - Minute" if "\<not> IsZero (st_now s)"
    using that f(2) n by (auto simp: historyCutoff_def split: if_splits)
  have "ti_end iter * Second \<le> end" using f(1) Truncate_bounds(1) [of Minute "end"] by simp
  then show "ti_end iter \<le> Unix end" by (simp add: Unix_def)
qed

text \<open>The cutoff between history and schedule falls on a visit.\<close>

definition cutoff_visited :: "state \<Rightarrow> instant \<Rightarrow> bool" where
  "cutoff_visited s end \<longleftrightarrow> IsZero (st_now s) \<or> Truncate end Minute \<le> historyCutoff s
     \<or> (\<exists>u. hist_on s u (Unix (historyCutoff s) - 1) \<noteq> hist_on s u (Unix (historyCutoff s)))"

lemma steady_mono: "steady h0 subs t x \<Longrightarrow> y \<le> x \<Longrightarrow> steady h0 subs t y"
  unfolding steady_def by (meson order.trans)

lemma cutoff_same_side:
  fixes w :: world
  defines "h0 \<equiv> w_heap w" and "subs \<equiv> ti_sub (w_iter w)"
  assumes su: "setup_inv rots s iter c w" and "calcs_ok subs h0" "cutoff_visited s end"
    and t: "steady h0 subs t x" "t \<le> x" "0 < t" "x * Second < Truncate end Minute" "x < ti_end iter"
    and now: "\<not> IsZero (st_now s) \<Longrightarrow> ti_start iter * Second \<le> historyCutoff s - Minute"
  shows "t * Second < historyCutoff s \<longleftrightarrow> x * Second < historyCutoff s"
proof (rule ccontr)
  assume "\<not> ?thesis"
  then have tx: "t * Second < historyCutoff s" "historyCutoff s \<le> x * Second" using t(2) by auto
  define C where "C = Unix (historyCutoff s)"
  define z where "z = Unix (Truncate (st_now s) Minute) + 60"
  have "historyCutoff s = z * Second" using minute_unix [of "st_now s"] by (simp add: historyCutoff_def z_def)
  then have C: "historyCutoff s = C * Second" by (simp add: C_def Unix_def)
  have "t \<le> C - 1" "C \<le> x" using tx C by auto
  have "\<not> IsZero (st_now s)"
  proof
    assume "IsZero (st_now s)"
    then have "historyCutoff s < 0" by (simp add: historyCutoff_def IsZero_def Truncate_def time_zero_def)
    then show False using tx(1) t(3) by simp
  qed
  then have "ti_start iter \<le> C - 1" using now C by simp
  have "\<not> Truncate end Minute \<le> historyCutoff s" using tx(2) t(4) by linarith
  with assms(5) \<open>\<not> IsZero (st_now s)\<close> obtain u where u: "hist_on s u (C - 1) \<noteq> hist_on s u C" by (auto simp: cutoff_visited_def C_def)
  have hd: "c_hist c \<in> set subs"
    using su by (auto simp: setup_inv_def building_def regs_ok_def user_done_def subs_def)
  have same: "users_at h0 (c_hist c) y = users_at h0 (c_hist c) t" if "t \<le> y" "y \<le> x" for y
    using steady_users [OF steady_mono [OF t(1) that(2)] that(1) assms(4) hd] .
  have "users_at h0 (c_hist c) (C - 1) = users_at h0 (c_hist c) C"
    using same [of "C - 1"] same [of C] \<open>t \<le> C - 1\<close> \<open>C \<le> x\<close> by simp
  moreover have "in_window iter (C - 1)" "in_window iter C" using \<open>ti_start iter \<le> C - 1\<close> \<open>C \<le> x\<close> t(5) by (simp_all add: in_window_def)
  ultimately show False using u su by (auto simp: setup_inv_def h0_def)
qed

lemma fold_ticks:
  "fold (tick mord c cutoff start) tr z = fold (\<lambda>(t, ids). setOnCall mord start t ids) (map (\<lambda>p. (fst p * Second, tick_users c cutoff p)) tr) z"
  by (induction tr arbitrary: z) (simp_all add: tick_def)

text \<open>The iteration ends, and visits every timestamp at which something changes.\<close>

lemma calc_iter_run:
  assumes "setup_inv rots s (calc_iterator s start end) c w" "\<forall>x \<in> set (w_heap w). after_epoch x"
    and "IsZero (st_now s) \<or> Minute \<le> st_now s" "Minute \<le> start" "start \<le> end" "nat (Unix end) + 2 < fuel"
  shows "\<exists>\<tau> h1 tr. iter_run fuel StartUnix Process (w_iter w) (w_heap w) = Inr (Some ((\<tau>, h1) # tr))
    \<and> visits (w_heap w) (ti_sub (w_iter w)) (ti_end (calc_iterator s start end)) ((\<tau>, h1) # tr)
    \<and> 0 < \<tau> \<and> \<tau> \<le> ti_start (calc_iterator s start end)"
proof -
  let ?iter = "calc_iterator s start end" and ?subs = "ti_sub (w_iter w)"
  have b: "building [] {} w" "w_iter w = ?iter\<lparr>ti_sub := ?subs\<rparr>" using assms(1) by (auto simp: setup_inv_def)
  have i: "ti_t (w_iter w) = 0" "\<not> ti_init (w_iter w)" "ti_step (w_iter w) = 60" "60 dvd ti_start (w_iter w)" "60 dvd ti_end (w_iter w)"
    "ti_start (w_iter w) = ti_start ?iter" "ti_end (w_iter w) = ti_end ?iter"
    using calc_iterator_facts [of s start "end"] by (simp_all add: b(2) [THEN arg_cong [of _ _ ti_t]] b(2) [THEN arg_cong [of _ _ ti_init]]
        b(2) [THEN arg_cong [of _ _ ti_step]] b(2) [THEN arg_cong [of _ _ ti_start]] b(2) [THEN arg_cong [of _ _ ti_end]])
  note win = calc_iterator_window [OF assms(3-5)]
  have ok: "calcs_ok ?subs (w_heap w)" by (rule setup_calcs_ok [OF b(1) assms(2)])
  have d: "distinct ?subs" using b(1) by (simp add: building_def regs_ok_def)
  have due: "0 < d" if "a \<in> set ?subs" "obj_due (w_heap w) a = Some d" for a d
    using ok that by (auto simp: calcs_ok_def obj_ok_def obj_due_def act_due_def boundaries_ok_def split: obj.splits list.splits)
  have "nat (ti_end (w_iter w)) \<le> nat (Unix end)" using win(5) i(7) by simp
  then have fuel: "nat (ti_end (w_iter w)) + 2 < fuel" using assms(6) by simp
  have st: "0 < ti_start (w_iter w)" "ti_start (w_iter w) \<le> ti_end (w_iter w)" "ti_t (w_iter w) < ti_end (w_iter w)" using win(1,2) i by simp_all
  have "\<exists>\<tau> tr. iter_run fuel StartUnix Process (w_iter w) (w_heap w) = Inr (Some tr) \<and> \<tau> \<le> ti_start (w_iter w) \<and> 0 < \<tau>
    \<and> calc.trace_ok ?subs (ti_end (w_iter w)) \<tau> (w_heap w) tr"
    by (rule calc.iter_run_complete [OF ok d _ i(3,2) st(1) i(4,5) st(2,3) _ fuel]) (use due in auto)
  then obtain \<tau> tr where
    r: "iter_run fuel StartUnix Process (w_iter w) (w_heap w) = Inr (Some tr)" "\<tau> \<le> ti_start (w_iter w)" "0 < \<tau>"
      "calc.trace_ok ?subs (ti_end (w_iter w)) \<tau> (w_heap w) tr" by blast
  have "tracking (w_heap w) ?subs \<tau> (w_heap w)" "keys_distinct ?subs (w_heap w)" using setup_tracking [OF b(1)] by auto
  from trace_visits [OF r(4) this d] have v: "visits (w_heap w) ?subs (ti_end (w_iter w)) tr" .
  from r(4) obtain h1 tr' where "tr = (\<tau>, h1) # tr'" by (cases tr) auto
  with r v i show ?thesis by auto
qed


text \<open>
  A schedule with one rule that is always active and assigns the user \<open>u\<close>, looked at from ten
  minutes to seventy minutes past the epoch: \<open>sample_state hs\<close> with the history \<open>hs\<close>.  The
  lemmas evaluate the construction of its calculators and its two rounds of the iterator.
\<close>

definition sample_rule :: ResolvedRule where
  "sample_rule = \<lparr>rsr_Rule = NewAlwaysActive ''s'' (UserTarget ''u''), rsr_Rotation = None\<rparr>"

definition sample_state :: "Shift list \<Rightarrow> state" where
  "sample_state hs = \<lparr>st_tempScheds = [], st_rules = [sample_rule], st_overrides = [], st_history = hs,
     st_now = 600 * Second, st_loc = fixed_loc 0\<rparr>"

definition sample_open :: Shift where
  "sample_open = \<lparr>sh_UserID = ''u'', sh_Start = 60 * Second, sh_End = time_zero, sh_Truncated = False\<rparr>"

lemmas world_eval = alloc_def put_def register_def iter_Register_def NewActiveCalculator_def NewUserCalculator_def empty_act_def empty_usr_def
  usr_SetSpan_def act_SetSpan_def act_set_def usr_Init_def act_Init_def get_usr_def get_act_def
  iter_Start_def iter_End_def iter_Step_def Truncate_Minute Unix_def

lemma sample_iter:
  "calc_iterator (sample_state hs) (600 * Second) (4200 * Second)
     = \<lparr>ti_t = 0, ti_start = 600, ti_end = 4200, ti_step = 60, ti_nextStep = 600, ti_init = False, ti_sub = []\<rparr>"
  by (simp add: calc_iterator_def sample_state_def NewTimeIterator_def Let_def Duration_Truncate_def signed_divide_int_def
      signed_modulo_int_def Truncate_Minute Unix_def IsZero_def)

lemma sample_cutoff: "historyCutoff (sample_state hs) = 660 * Second"
  by (simp add: historyCutoff_def sample_state_def Truncate_Minute)

definition sample_world :: "nat list \<Rightarrow> obj list \<Rightarrow> world" where
  "sample_world subs h = \<lparr>w_iter = \<lparr>ti_t = 0, ti_start = 600, ti_end = 4200, ti_step = 60, ti_nextStep = 600, ti_init = False, ti_sub = subs\<rparr>, w_heap = h\<rparr>"

lemma sample_hist:
  "new_hist id (sample_state [sample_open]) (sample_world [] []) = Inr (0, sample_world [1, 0]
     [UserObj \<lparr>usr_m = [(''u'', 1)], usr_calc = [(''u'', 1)], usr_init = True, usr_active = [], usr_changed = False\<rparr>,
      ActObj \<lparr>act_states = [(60, True), (660, False)], act_init = True, act_active = (0, False), act_changed = False\<rparr>])"
  by (simp add: new_hist_def set_hist_def historyCutoff_def sample_world_def world_eval Let_def sample_open_def sample_state_def IsZero_def time_zero_def)

definition idle_user :: obj where
  "idle_user = UserObj \<lparr>usr_m = [], usr_calc = [], usr_init = True, usr_active = [], usr_changed = False\<rparr>"

definition idle_act :: "(int \<times> bool) list \<Rightarrow> obj" where
  "idle_act xs = ActObj \<lparr>act_states = xs, act_init = True, act_active = (0, False), act_changed = False\<rparr>"

lemma sample_temp:
  "NewTemporaryScheduleCalculator id [] (sample_world subs h)
     = Inr ((length h, Suc (length h)), sample_world (subs @ [length h, Suc (length h)]) (h @ [idle_act [], idle_user]))"
  by (simp add: NewTemporaryScheduleCalculator_def sample_world_def world_eval Let_def idle_act_def idle_user_def nth_append list_update_append)

lemma sample_over:
  "NewOverrideCalculator id [] (sample_world subs h)
     = Inr (Suc (Suc (Suc (length h))), sample_world (subs @ [length h, Suc (length h), Suc (Suc (length h)), Suc (Suc (Suc (length h)))])
         (h @ [idle_user, idle_user, idle_user,
           OverObj \<lparr>oc_add = length h, oc_remove = Suc (length h), oc_replace = Suc (Suc (length h)), oc_userMap = Map.empty\<rparr>]))"
  by (simp add: NewOverrideCalculator_def sample_world_def world_eval Let_def idle_user_def nth_append list_update_append)

lemma sample_rules:
  "NewRulesCalculator id l [sample_rule] (rots, sample_world subs h)
     = Some (Inr (Suc (Suc (length h)), sample_world (subs @ [length h, Suc (length h), Suc (Suc (length h))])
         (h @ [idle_act [(600, True), (4260, False)],
           SingleObj \<lparr>src_act = length h, src_rot = None, src_rule = sample_rule, src_userID = '''', src_changed = False\<rparr>,
           RulesObj \<lparr>rc_rules = [Suc (length h)], rc_userIDs = [], rc_changed = False\<rparr>])))"
  by (simp add: NewRulesCalculator_def NewSingleRuleCalculator_def single_act_def single_rot_def sample_rule_def NewAlwaysActive_def AlwaysActive_def
     IsAlways_def sample_world_def world_eval Let_def idle_act_def nth_append list_update_append everyDay_def)

lemma sample_no_hist: "new_hist id (sample_state []) (sample_world [] []) = Inr (0, sample_world [0] [idle_user])"
  by (simp add: new_hist_def sample_world_def world_eval Let_def sample_state_def idle_user_def)

lemma sample_start: "\<lparr>w_iter = calc_iterator (sample_state hs) (600 * Second) (4200 * Second), w_heap = []\<rparr> = sample_world [] []"
  unfolding sample_iter sample_world_def ..

definition sample_subs :: "nat list" where
  "sample_subs = [0, 1, 2, 3, 4, 5, 6, 7, 8, 9]"

definition sample_heap :: "obj list" where
  "sample_heap = [idle_user, idle_act [], idle_user, idle_user, idle_user, idle_user,
     OverObj \<lparr>oc_add = 3, oc_remove = 4, oc_replace = 5, oc_userMap = Map.empty\<rparr>, idle_act [(600, True), (4260, False)],
     SingleObj \<lparr>src_act = 7, src_rot = None, src_rule = sample_rule, src_userID = '''', src_changed = False\<rparr>,
     RulesObj \<lparr>rc_rules = [8], rc_userIDs = [], rc_changed = False\<rparr>]"

lemma sample_calcs_no_hist:
  "new_calcs id [] (sample_state []) (600 * Second) (4200 * Second) =
     Some (Inr (\<lparr>c_hist = 0, c_tempAct = 1, c_tempUsr = 2, c_over = 6, c_rules = 9\<rparr>, sample_world sample_subs sample_heap))"
  unfolding new_calcs_def sample_start sample_no_hist rbind_simps prod.case
  by (simp add: sample_temp sample_over sample_rules sample_state_def sample_heap_def sample_subs_def eval_nat_numeral)

lemmas process_eval = Process_def obj_Process_def act_Process_def usr_Process_def single_Process_def rules_Process_def over_Process_def
  get_usr_def get_act_def get_single_def act_Active_def List.map_filter_simps

lemma sample_round:
  "sub_loop Process 600 4200 sample_subs 0 sample_heap = Inr (4200, sample_heap
     [7 := ActObj \<lparr>act_states = [(4260, False)], act_init = True, act_active = (600, True), act_changed = True\<rparr>,
      8 := SingleObj \<lparr>src_act = 7, src_rot = None, src_rule = sample_rule, src_userID = ''u'', src_changed = True\<rparr>,
      9 := RulesObj \<lparr>rc_rules = [8], rc_userIDs = [''u''], rc_changed = True\<rparr>])"
  by (simp add: sample_subs_def sample_heap_def process_eval idle_act_def idle_user_def sample_rule_def NewAlwaysActive_def)

definition sample_heap1 :: "bool \<Rightarrow> obj list" where
  "sample_heap1 b = sample_heap
     [7 := ActObj \<lparr>act_states = [(4260, False)], act_init = True, act_active = (600, True), act_changed = b\<rparr>,
      8 := SingleObj \<lparr>src_act = 7, src_rot = None, src_rule = sample_rule, src_userID = ''u'', src_changed = b\<rparr>,
      9 := RulesObj \<lparr>rc_rules = [8], rc_userIDs = [''u''], rc_changed = b\<rparr>]"

lemma sample_round2: "sub_loop Process 4200 4200 sample_subs 0 (sample_heap1 True) = Inr (4200, sample_heap1 False)"
  by (simp add: sample_subs_def sample_heap1_def sample_heap_def process_eval idle_act_def idle_user_def sample_rule_def NewAlwaysActive_def)

lemma sample_run:
  "iter_run (Suc (Suc (Suc n))) StartUnix Process (w_iter (sample_world sample_subs sample_heap)) sample_heap
     = Inr (Some [(600, sample_heap1 True), (4200, sample_heap1 False)])"
proof -
  have "start_loop (StartUnix sample_heap) 60 sample_subs 600 = Inr 600"
    by (simp add: sample_subs_def sample_heap_def StartUnix_def idle_act_def idle_user_def act_StartUnix_def signed_modulo_int_def)
  then show ?thesis
    by (simp add: iter_Next_def sample_world_def sample_round [folded sample_heap1_def [of True]] sample_round2)
qed


lemma sample_calcs:
  "new_calcs id [] (sample_state [sample_open]) (600 * Second) (4200 * Second) =
     Some (Inr (\<lparr>c_hist = 0, c_tempAct = 2, c_tempUsr = 3, c_over = 7, c_rules = 10\<rparr>, sample_world [1, 0, 2, 3, 4, 5, 6, 7, 8, 9, 10]
       [UserObj \<lparr>usr_m = [(''u'', 1)], usr_calc = [(''u'', 1)], usr_init = True, usr_active = [], usr_changed = False\<rparr>,
        idle_act [(60, True), (660, False)], idle_act [], idle_user, idle_user, idle_user, idle_user,
        OverObj \<lparr>oc_add = 4, oc_remove = 5, oc_replace = 6, oc_userMap = Map.empty\<rparr>, idle_act [(600, True), (4260, False)],
        SingleObj \<lparr>src_act = 8, src_rot = None, src_rule = sample_rule, src_userID = '''', src_changed = False\<rparr>,
        RulesObj \<lparr>rc_rules = [9], rc_userIDs = [], rc_changed = False\<rparr>]))"
  unfolding new_calcs_def sample_start sample_hist rbind_simps prod.case
  by (simp add: sample_temp sample_over sample_rules sample_state_def idle_act_def eval_nat_numeral)

lemma sample_cutoff_visited: "cutoff_visited (sample_state [sample_open]) (4200 * Second)"
proof -
  have "hist_on (sample_state [sample_open]) ''u'' 659" "\<not> hist_on (sample_state [sample_open]) ''u'' 660"
    unfolding hist_on_def sample_cutoff by (simp_all add: sample_state_def sample_open_def in_span_def Truncate_Minute IsZero_def)
  then show ?thesis unfolding cutoff_visited_def sample_cutoff by (intro disjI2 exI [of _ "''u''"]) (simp add: Unix_def)
qed

lemma sample_rule_user: "rule_user_at iter l t (sample_rule, rots) i \<longleftrightarrow> i = ''u''"
  by (simp add: rule_user_at_def rule_on_def sample_rule_def NewAlwaysActive_def AlwaysActive_def IsAlways_def)


end
