(* ===== verification/Throttle.thy ===== *)
theory Throttle
  imports GoTime
begin

section \<open>Messages and their rate limits: engine/message\<close>

text \<open>
  Outgoing messages, the rules that limit how many of them a destination gets, the builder that
  collects the rules and the throttle that counts.  Builders refer to each other by pointer: they
  live in a store, a list whose positions are the addresses.  The hash of a destination is a
  parameter (\<open>sha256\<close> of a string, and the JSON form of a destination), about which nothing is
  assumed: two destinations with one hash would only be limited together.
\<close>

subsection \<open>Messages: message.go, messagetype.go, status.go\<close>

definition MessageTypeAlert :: string where "MessageTypeAlert = ''alert_notification''"
definition MessageTypeAlertStatus :: string where "MessageTypeAlertStatus = ''alert_status_update''"
definition MessageTypeTest :: string where "MessageTypeTest = ''test_notification''"
definition MessageTypeVerification :: string where "MessageTypeVerification = ''verification_message''"
definition MessageTypeAlertBundle :: string where "MessageTypeAlertBundle = ''alert_notification_bundle''"
definition MessageTypeScheduleOnCallUsers :: string where
  "MessageTypeScheduleOnCallUsers = ''schedule_on_call_notification''"
definition MessageTypeSignalMessage :: string where "MessageTypeSignalMessage = ''signal_message''"

lemmas message_types = MessageTypeAlert_def MessageTypeAlertStatus_def MessageTypeTest_def
  MessageTypeVerification_def MessageTypeAlertBundle_def MessageTypeScheduleOnCallUsers_def
  MessageTypeSignalMessage_def

definition DestTypeTwilioVoice :: string where "DestTypeTwilioVoice = ''builtin-twilio-voice''"
definition DestTypeTwilioSMS :: string where "DestTypeTwilioSMS = ''builtin-twilio-sms''"
definition DestTypeEmail :: string where "DestTypeEmail = ''builtin-smtp-email''"

lemmas dest_types = DestTypeTwilioVoice_def DestTypeTwilioSMS_def DestTypeEmail_def

text \<open>A destination; \<open>None\<close> is the nil map of arguments.\<close>

record DestV1 =
  dst_Args :: "(string \<rightharpoonup> string) option"
  dst_Type :: string

text \<open>The row a message goes to; \<open>None\<close> is an invalid \<open>NullUUID\<close>.\<close>

record DestID =
  did_CMID :: "string option"
  did_NCID :: "string option"

record Message =
  msg_ID :: string
  msg_Type :: string
  msg_DestID :: DestID
  msg_Dest :: DestV1
  msg_AlertID :: int
  msg_AlertLogID :: int
  msg_VerifyID :: string
  msg_UserID :: string
  msg_ServiceID :: string
  msg_ScheduleID :: string
  msg_CreatedAt :: instant
  msg_SentAt :: instant
  msg_StatusAlertIDs :: "int list"

definition Status_IsSent :: "string \<Rightarrow> bool" where
  "Status_IsSent s \<longleftrightarrow> s \<in> {''queued_remotely'', ''delivered'', ''sent'', ''read''}"

subsection \<open>Rules and configurations: throttlerule.go, throttle.go\<close>

record ThrottleRule =
  rl_Count :: int
  rl_Per :: duration
  rl_Smooth :: bool

text \<open>The interface \<open>ThrottleConfig\<close>, as the record of its two methods.\<close>

record ThrottleConfig =
  cfg_Rules :: "Message \<Rightarrow> ThrottleRule list"
  cfg_MaxDuration :: duration

fun max_per :: "duration \<Rightarrow> ThrottleRule list \<Rightarrow> duration" where
  "max_per dur [] = dur"
| "max_per dur (r # rs) = max_per (if rl_Per r > dur then rl_Per r else dur) rs"

definition ThrottleRules :: "ThrottleRule list \<Rightarrow> ThrottleConfig" where
  "ThrottleRules rs = \<lparr>cfg_Rules = (\<lambda>msg. rs), cfg_MaxDuration = max_per 0 rs\<rparr>"

fun maxThrottleDuration_loop :: "duration \<Rightarrow> ThrottleConfig list \<Rightarrow> duration" where
  "maxThrottleDuration_loop m [] = m"
| "maxThrottleDuration_loop m (cfg # cfgs) =
     (let dur = cfg_MaxDuration cfg in maxThrottleDuration_loop (if dur > m then dur else m) cfgs)"

definition maxThrottleDuration :: "ThrottleConfig list \<Rightarrow> duration" where
  "maxThrottleDuration cfgs = maxThrottleDuration_loop 0 cfgs"

subsection \<open>The builder: throttleconfigbuilder.go\<close>

record builderRules =
  br_msgTypes :: "string list"
  br_dstTypes :: "string list"
  br_rules :: "ThrottleRule list"

record ThrottleConfigBuilder =
  tcb_parent :: "nat option"
  tcb_msgTypes :: "string list"
  tcb_dstTypes :: "string list"
  tcb_rules :: "builderRules list"
  tcb_max :: duration

type_synonym builders = "ThrottleConfigBuilder list"

definition empty_builder :: ThrottleConfigBuilder where
  "empty_builder = \<lparr>tcb_parent = None, tcb_msgTypes = [], tcb_dstTypes = [], tcb_rules = [], tcb_max = 0\<rparr>"

definition tcb_top :: "builders \<Rightarrow> nat \<Rightarrow> nat" where
  "tcb_top st b = (case tcb_parent (st ! b) of Some p \<Rightarrow> p | None \<Rightarrow> b)"

text \<open>A new builder takes the next free address.\<close>

definition WithMsgTypes :: "string list \<Rightarrow> builders \<Rightarrow> nat \<Rightarrow> builders \<times> nat" where
  "WithMsgTypes msgTypes st b =
     (st @ [\<lparr>tcb_parent = Some (tcb_top st b), tcb_msgTypes = msgTypes, tcb_dstTypes = tcb_dstTypes (st ! b),
              tcb_rules = [], tcb_max = 0\<rparr>], length st)"

definition WithDestTypes :: "string list \<Rightarrow> builders \<Rightarrow> nat \<Rightarrow> builders \<times> nat" where
  "WithDestTypes destTypes st b =
     (st @ [\<lparr>tcb_parent = Some (tcb_top st b), tcb_msgTypes = tcb_msgTypes (st ! b), tcb_dstTypes = destTypes,
              tcb_rules = [], tcb_max = 0\<rparr>], length st)"

definition setMax :: "ThrottleRule list \<Rightarrow> builders \<Rightarrow> nat \<Rightarrow> builders" where
  "setMax rules st b = st[b := (st ! b)\<lparr>tcb_max := max_per (tcb_max (st ! b)) rules\<rparr>]"

definition AddRules :: "ThrottleRule list \<Rightarrow> builders \<Rightarrow> nat \<Rightarrow> builders" where
  "AddRules rules st b =
     (let t = tcb_top st b;
          st1 = st[t := (st ! t)\<lparr>tcb_rules := tcb_rules (st ! t)
                  @ [\<lparr>br_msgTypes = tcb_msgTypes (st ! b), br_dstTypes = tcb_dstTypes (st ! b), br_rules = rules\<rparr>]\<rparr>]
      in setMax rules st1 (tcb_top st1 b))"

definition br_match :: "builderRules \<Rightarrow> Message \<Rightarrow> bool" where
  "br_match r msg =
     (if \<not> (br_msgTypes r = [] \<or> msg_Type msg \<in> set (br_msgTypes r)) then False
      else br_dstTypes r = [] \<or> dst_Type (msg_Dest msg) \<in> set (br_dstTypes r))"

fun builder_Rules :: "builderRules list \<Rightarrow> Message \<Rightarrow> ThrottleRule list" where
  "builder_Rules [] msg = []"
| "builder_Rules (s # sets) msg =
     (if \<not> br_match s msg then builder_Rules sets msg else br_rules s @ builder_Rules sets msg)"

definition builder_Config :: "builders \<Rightarrow> nat \<Rightarrow> ThrottleConfig" where
  "builder_Config st b =
     \<lparr>cfg_Rules = builder_Rules (tcb_rules (st ! tcb_top st b)), cfg_MaxDuration = tcb_max (st ! b)\<rparr>"

subsection \<open>The configured limits: ratelimit.go\<close>

definition GlobalCMThrottle :: ThrottleConfig where
  "GlobalCMThrottle = ThrottleRules [\<lparr>rl_Count = 5, rl_Per = 5 * Second, rl_Smooth = False\<rparr>]"

definition perCM_init :: builders where
  "perCM_init =
     (let st = [empty_builder]; perCM = 0;
          (st, b) = WithDestTypes [DestTypeTwilioVoice, DestTypeTwilioSMS, DestTypeEmail] st perCM;
          st = AddRules [\<lparr>rl_Count = 1, rl_Per = Minute, rl_Smooth = False\<rparr>] st b;
          (st, b) = WithMsgTypes [MessageTypeScheduleOnCallUsers] st perCM;
          st = AddRules [\<lparr>rl_Count = 3, rl_Per = 1 * Minute, rl_Smooth = False\<rparr>,
                         \<lparr>rl_Count = 20, rl_Per = 1 * Hour, rl_Smooth = True\<rparr>] st b;
          (st, b) = WithMsgTypes [MessageTypeAlertStatus] st perCM;
          (st, b) = WithDestTypes [DestTypeTwilioVoice, DestTypeTwilioSMS, DestTypeEmail] st b;
          st = AddRules [\<lparr>rl_Count = 1, rl_Per = 3 * Minute, rl_Smooth = False\<rparr>,
                         \<lparr>rl_Count = 3, rl_Per = 20 * Minute, rl_Smooth = False\<rparr>,
                         \<lparr>rl_Count = 8, rl_Per = 120 * Minute, rl_Smooth = True\<rparr>] st b;
          (st, alertMessages) = WithMsgTypes [MessageTypeAlert, MessageTypeAlertBundle] st perCM;
          (st, b) = WithDestTypes [DestTypeTwilioVoice] st alertMessages;
          st = AddRules [\<lparr>rl_Count = 3, rl_Per = 15 * Minute, rl_Smooth = False\<rparr>,
                         \<lparr>rl_Count = 7, rl_Per = Hour, rl_Smooth = True\<rparr>,
                         \<lparr>rl_Count = 15, rl_Per = 3 * Hour, rl_Smooth = True\<rparr>] st b;
          (st, b) = WithDestTypes [DestTypeTwilioSMS] st alertMessages
      in AddRules [\<lparr>rl_Count = 5, rl_Per = 15 * Minute, rl_Smooth = False\<rparr>,
                   \<lparr>rl_Count = 11, rl_Per = Hour, rl_Smooth = True\<rparr>,
                   \<lparr>rl_Count = 21, rl_Per = 3 * Hour, rl_Smooth = True\<rparr>] st b)"

definition PerCMThrottle :: ThrottleConfig where
  "PerCMThrottle = builder_Config perCM_init 0"

subsection \<open>The throttle: throttle.go\<close>

text \<open>
  The maps of a throttle with their zero defaults: the first message of a bucket, the number of
  messages in it, and the destinations in cooldown.  A bucket is a destination and a duration.
\<close>

record 'h Throttle =
  thr_cfg :: ThrottleConfig
  thr_typeOnly :: bool
  thr_now :: instant
  thr_first :: "'h \<times> duration \<Rightarrow> instant"
  thr_count :: "'h \<times> duration \<Rightarrow> int"
  thr_cooldown :: "'h \<Rightarrow> bool"

record 'h hashing =
  sha256 :: "string \<Rightarrow> 'h"
  marshal :: "DestV1 \<Rightarrow> string"

definition NewThrottle :: "ThrottleConfig \<Rightarrow> instant \<Rightarrow> bool \<Rightarrow> 'h Throttle" where
  "NewThrottle cfg now byTypeOnly =
     \<lparr>thr_cfg = cfg, thr_typeOnly = byTypeOnly, thr_now = now, thr_first = (\<lambda>k. time_zero),
      thr_count = (\<lambda>k. 0), thr_cooldown = (\<lambda>h. False)\<rparr>"

definition DestHash :: "'h hashing \<Rightarrow> DestV1 \<Rightarrow> 'h" where
  "DestHash H d = sha256 H (marshal H d)"

definition destKey :: "'h hashing \<Rightarrow> bool \<Rightarrow> DestV1 \<Rightarrow> 'h" where
  "destKey H typeOnly d = (if typeOnly then sha256 H (dst_Type d) else DestHash H d)"

definition zero_rule :: ThrottleRule where
  "zero_rule = \<lparr>rl_Count = 0, rl_Per = 0, rl_Smooth = False\<rparr>"

definition cool :: "'h \<Rightarrow> 'h Throttle \<Rightarrow> 'h Throttle" where
  "cool h tr = tr\<lparr>thr_cooldown := (thr_cooldown tr)(h := True)\<rparr>"

text \<open>One round of the loop over the rules, with the rule before it (the zero rule for the first).\<close>

definition bump :: "'h \<times> duration \<Rightarrow> instant \<Rightarrow> 'h Throttle \<Rightarrow> 'h Throttle" where
  "bump key sentAt tr = tr\<lparr>
     thr_count := (thr_count tr)(key := thr_count tr key + 1),
     thr_first := (if IsZero (thr_first tr key) \<or> sentAt < thr_first tr key
                   then (thr_first tr)(key := sentAt) else thr_first tr)\<rparr>"

definition record_rule ::
  "'h \<Rightarrow> instant \<Rightarrow> ThrottleRule \<Rightarrow> ThrottleRule \<Rightarrow> 'h Throttle \<Rightarrow> 'h Throttle outcome" where
  "record_rule keyHash sentAt prevRule rule tr =
     (if Sub (thr_now tr) sentAt \<ge> rl_Per rule then Inr tr
      else
        (let key = (keyHash, rl_Per rule);
             tr = bump key sentAt tr;
             count = thr_count tr key
         in if count \<ge> rl_Count rule then Inr (cool keyHash tr)
            else if \<not> rl_Smooth rule then Inr tr
            else if count < rl_Count prevRule \<or> count = 0 then Inr tr
            else
              (let count = count - rl_Count prevRule;
                   elapsed = Sub (thr_now tr) (thr_first tr key) - rl_Per prevRule;
                   per = rl_Per rule - rl_Per prevRule
               in if per = 0 then Inl (Panic ''runtime error: integer divide by zero'')
                  else if count > (elapsed * (rl_Count rule - rl_Count prevRule)) sdiv per
                  then Inr (cool keyHash tr) else Inr tr)))"

fun record_loop ::
  "'h \<Rightarrow> instant \<Rightarrow> ThrottleRule \<Rightarrow> ThrottleRule list \<Rightarrow> 'h Throttle \<Rightarrow> 'h Throttle outcome" where
  "record_loop keyHash sentAt prevRule [] tr = Inr tr"
| "record_loop keyHash sentAt prevRule (rule # rules) tr =
     obind (record_rule keyHash sentAt prevRule rule tr) (record_loop keyHash sentAt rule rules)"

definition Record :: "'h hashing \<Rightarrow> Message \<Rightarrow> 'h Throttle \<Rightarrow> 'h Throttle outcome" where
  "Record H msg tr =
     record_loop (destKey H (thr_typeOnly tr) (msg_Dest msg)) (msg_SentAt msg) zero_rule
       (cfg_Rules (thr_cfg tr) msg) tr"

definition InCooldown :: "'h hashing \<Rightarrow> 'h Throttle \<Rightarrow> Message \<Rightarrow> bool" where
  "InCooldown H tr msg = thr_cooldown tr (destKey H (thr_typeOnly tr) (msg_Dest msg))"

subsection \<open>What the interface \<open>ThrottleConfig\<close> promises\<close>

text \<open>
  A smooth rule divides by the difference of its duration and that of the rule before it, so the
  two must differ; and \<open>MaxDuration\<close> bounds every rule, so that older messages need not be loaded.
\<close>

fun smooth_ok :: "ThrottleRule \<Rightarrow> ThrottleRule list \<Rightarrow> bool" where
  "smooth_ok prev [] = True"
| "smooth_ok prev (r # rs) = ((rl_Smooth r \<longrightarrow> rl_Per r \<noteq> rl_Per prev) \<and> smooth_ok r rs)"

lemma record_rule_cases:
  assumes "rl_Smooth rule \<longrightarrow> rl_Per rule \<noteq> rl_Per prev"
  obtains "rl_Per rule \<le> Sub (thr_now tr) sentAt" "record_rule h sentAt prev rule tr = Inr tr"
  | tr' where "Sub (thr_now tr) sentAt < rl_Per rule" "record_rule h sentAt prev rule tr = Inr tr'"
      "tr' = bump (h, rl_Per rule) sentAt tr \<or> tr' = cool h (bump (h, rl_Per rule) sentAt tr)"
      "rl_Count rule \<le> thr_count tr (h, rl_Per rule) + 1 \<Longrightarrow> tr' = cool h (bump (h, rl_Per rule) sentAt tr)"
proof -
  let ?b = "bump (h, rl_Per rule) sentAt tr"
  have c: "thr_count ?b (h, rl_Per rule) = thr_count tr (h, rl_Per rule) + 1" by (simp add: bump_def)
  show ?thesis
  proof (cases "rl_Per rule \<le> Sub (thr_now tr) sentAt")
    case True
    then show ?thesis using that(1) by (simp add: record_rule_def)
  next
    case False
    then have "record_rule h sentAt prev rule tr \<in> {Inr ?b, Inr (cool h ?b)}
        \<and> (rl_Count rule \<le> thr_count tr (h, rl_Per rule) + 1 \<longrightarrow> record_rule h sentAt prev rule tr = Inr (cool h ?b))"
      using assms by (auto simp: record_rule_def Let_def c)
    then show ?thesis using that(2) False by (metis insertE linorder_not_le singletonD)
  qed
qed

lemma bump_simps [simp]:
  "thr_cfg (bump k t tr) = thr_cfg tr" "thr_now (bump k t tr) = thr_now tr"
  "thr_typeOnly (bump k t tr) = thr_typeOnly tr" "thr_cooldown (bump k t tr) = thr_cooldown tr"
  "thr_count (bump k t tr) = (thr_count tr)(k := thr_count tr k + 1)"
  "thr_cfg (cool h tr) = thr_cfg tr" "thr_now (cool h tr) = thr_now tr"
  "thr_typeOnly (cool h tr) = thr_typeOnly tr" "thr_count (cool h tr) = thr_count tr"
  "thr_cooldown (cool h tr) = (thr_cooldown tr)(h := True)"
  by (simp_all add: bump_def cool_def)

text \<open>What one message does to the throttle: counts and cooldowns only grow, every rule it falls
  under counts it, and reaching the limit of a rule puts the destination in cooldown.\<close>

definition recorded :: "'h \<Rightarrow> instant \<Rightarrow> ThrottleRule list \<Rightarrow> 'h Throttle \<Rightarrow> 'h Throttle \<Rightarrow> bool" where
  "recorded h sentAt rules tr tr' \<longleftrightarrow>
     thr_cfg tr' = thr_cfg tr \<and> thr_now tr' = thr_now tr \<and> thr_typeOnly tr' = thr_typeOnly tr
     \<and> (\<forall>k. thr_count tr k \<le> thr_count tr' k) \<and> (\<forall>g. thr_cooldown tr g \<longrightarrow> thr_cooldown tr' g)
     \<and> (\<forall>g. g \<noteq> h \<longrightarrow> thr_cooldown tr' g = thr_cooldown tr g)
     \<and> (\<forall>r \<in> set rules. Sub (thr_now tr) sentAt < rl_Per r \<longrightarrow>
          thr_count tr (h, rl_Per r) + 1 \<le> thr_count tr' (h, rl_Per r)
          \<and> (rl_Count r \<le> thr_count tr (h, rl_Per r) + 1 \<longrightarrow> thr_cooldown tr' h))"

lemma record_rule_recorded:
  assumes "rl_Smooth rule \<longrightarrow> rl_Per rule \<noteq> rl_Per prev"
  shows "\<exists>tr'. record_rule h sentAt prev rule tr = Inr tr' \<and> recorded h sentAt [rule] tr tr'"
  using assms
proof (cases rule: record_rule_cases [of rule prev tr sentAt h])
  case 1
  then show ?thesis by (simp add: recorded_def)
next
  case (2 tr')
  show ?thesis
  proof (intro exI conjI)
    show "recorded h sentAt [rule] tr tr'"
    proof (cases "rl_Count rule \<le> thr_count tr (h, rl_Per rule) + 1")
      case True
      with 2(4) show ?thesis by (simp add: recorded_def)
    next
      case False
      with 2(3) show ?thesis by (auto simp: recorded_def)
    qed
  qed (rule 2(2))
qed

lemma recorded_trans:
  assumes "recorded h sentAt xs a b" "recorded h sentAt ys b c"
  shows "recorded h sentAt (xs @ ys) a c"
proof -
  have mono: "thr_count a k \<le> thr_count c k" for k using assms unfolding recorded_def by (meson order.trans)
  have "thr_count a (h, rl_Per r) + 1 \<le> thr_count c (h, rl_Per r)
      \<and> (rl_Count r \<le> thr_count a (h, rl_Per r) + 1 \<longrightarrow> thr_cooldown c h)"
    if r: "r \<in> set (xs @ ys)" "Sub (thr_now a) sentAt < rl_Per r" for r
  proof -
  let ?k = "(h, rl_Per r)"
  have n: "thr_now b = thr_now a" and m: "thr_count a ?k \<le> thr_count b ?k" "thr_count b ?k \<le> thr_count c ?k"
    using assms unfolding recorded_def by blast+
  consider "r \<in> set xs" | "r \<in> set ys" using r(1) by auto
  then show ?thesis
  proof cases
    case 1
    then have "thr_count a ?k + 1 \<le> thr_count b ?k \<and> (rl_Count r \<le> thr_count a ?k + 1 \<longrightarrow> thr_cooldown b h)"
      using assms(1) r(2) unfolding recorded_def by blast
    then show ?thesis using m assms(2) unfolding recorded_def by (meson order.trans)
  next
    case 2
    then have "thr_count b ?k + 1 \<le> thr_count c ?k \<and> (rl_Count r \<le> thr_count b ?k + 1 \<longrightarrow> thr_cooldown c h)"
      using assms(2) r(2) n unfolding recorded_def by metis
    then show ?thesis using m by linarith
  qed
  qed
  with mono assms show ?thesis unfolding recorded_def by simp
qed

lemma record_loop_recorded:
  assumes "smooth_ok prev rules"
  shows "\<exists>tr'. record_loop h sentAt prev rules tr = Inr tr' \<and> recorded h sentAt rules tr tr'"
  using assms
proof (induction rules arbitrary: prev tr)
  case Nil
  then show ?case by (simp add: recorded_def)
next
  case (Cons r rules)
  from Cons.prems record_rule_recorded [of r prev h sentAt tr] obtain tr1
    where 1: "record_rule h sentAt prev r tr = Inr tr1" "recorded h sentAt [r] tr tr1" by auto
  from Cons.IH [of r tr1] Cons.prems obtain tr2
    where 2: "record_loop h sentAt r rules tr1 = Inr tr2" "recorded h sentAt rules tr1 tr2" by auto
  from recorded_trans [OF 1(2) 2(2)] 1(1) 2(1) show ?case by simp
qed

lemma record_loop_old:
  assumes "\<forall>r \<in> set rules. rl_Per r \<le> Sub (thr_now tr) sentAt"
  shows "record_loop h sentAt prev rules tr = Inr tr"
  using assms by (induction rules arbitrary: prev) (auto simp: record_rule_def)

locale throttle_config =
  fixes cfg :: ThrottleConfig
  assumes per_max: "r \<in> set (cfg_Rules cfg msg) \<Longrightarrow> rl_Per r \<le> cfg_MaxDuration cfg"
    and smooth: "smooth_ok zero_rule (cfg_Rules cfg msg)"
begin

lemma Record_recorded:
  assumes "thr_cfg tr = cfg"
  shows "\<exists>tr'. Record H msg tr = Inr tr'
    \<and> recorded (destKey H (thr_typeOnly tr) (msg_Dest msg)) (msg_SentAt msg) (cfg_Rules cfg msg) tr tr'"
  using record_loop_recorded [OF smooth] assms by (simp add: Record_def)

lemma Record_old:
  assumes "thr_cfg tr = cfg" "cfg_MaxDuration cfg \<le> Sub (thr_now tr) (msg_SentAt msg)"
  shows "Record H msg tr = Inr tr"
  unfolding Record_def using assms per_max by (intro record_loop_old) force

end

lemma global_rules: "cfg_Rules GlobalCMThrottle msg = [\<lparr>rl_Count = 5, rl_Per = 5 * Second, rl_Smooth = False\<rparr>]"
  "cfg_MaxDuration GlobalCMThrottle = 5 * Second"
  by (simp_all add: GlobalCMThrottle_def ThrottleRules_def)

interpretation global_cm: throttle_config GlobalCMThrottle
  by unfold_locales (auto simp: global_rules)

text \<open>A store with its top builder first: what a call through one of its children does.\<close>

definition child :: "string list \<Rightarrow> string list \<Rightarrow> ThrottleConfigBuilder" where
  "child m d = \<lparr>tcb_parent = Some 0, tcb_msgTypes = m, tcb_dstTypes = d, tcb_rules = [], tcb_max = 0\<rparr>"

definition topb :: "builderRules list \<Rightarrow> duration \<Rightarrow> ThrottleConfigBuilder" where
  "topb rs m = empty_builder\<lparr>tcb_rules := rs, tcb_max := m\<rparr>"

lemma builder_steps:
  "WithDestTypes d (topb rs m # cs) 0 = (topb rs m # (cs @ [child [] d]), Suc (length cs))"
  "WithMsgTypes t (topb rs m # cs) 0 = (topb rs m # (cs @ [child t []]), Suc (length cs))"
  "cs ! i = child t0 d0 \<Longrightarrow> WithDestTypes d (topb rs m # cs) (Suc i) = (topb rs m # (cs @ [child t0 d]), Suc (length cs))"
  "cs ! i = child t0 d0 \<Longrightarrow> AddRules rules (topb rs m # cs) (Suc i)
     = topb (rs @ [\<lparr>br_msgTypes = t0, br_dstTypes = d0, br_rules = rules\<rparr>]) (max_per m rules) # cs"
  "Let (topb rs m # cs) f = f (topb rs m # cs)"
  by (simp_all add: WithDestTypes_def WithMsgTypes_def AddRules_def setMax_def tcb_top_def topb_def child_def empty_builder_def Let_def)

lemma perCM_rules:
  "tcb_rules (perCM_init ! 0) =
     [\<lparr>br_msgTypes = [], br_dstTypes = [DestTypeTwilioVoice, DestTypeTwilioSMS, DestTypeEmail],
       br_rules = [\<lparr>rl_Count = 1, rl_Per = Minute, rl_Smooth = False\<rparr>]\<rparr>,
      \<lparr>br_msgTypes = [MessageTypeScheduleOnCallUsers], br_dstTypes = [],
       br_rules = [\<lparr>rl_Count = 3, rl_Per = Minute, rl_Smooth = False\<rparr>, \<lparr>rl_Count = 20, rl_Per = Hour, rl_Smooth = True\<rparr>]\<rparr>,
      \<lparr>br_msgTypes = [MessageTypeAlertStatus], br_dstTypes = [DestTypeTwilioVoice, DestTypeTwilioSMS, DestTypeEmail],
       br_rules = [\<lparr>rl_Count = 1, rl_Per = 3 * Minute, rl_Smooth = False\<rparr>,
                   \<lparr>rl_Count = 3, rl_Per = 20 * Minute, rl_Smooth = False\<rparr>, \<lparr>rl_Count = 8, rl_Per = 120 * Minute, rl_Smooth = True\<rparr>]\<rparr>,
      \<lparr>br_msgTypes = [MessageTypeAlert, MessageTypeAlertBundle], br_dstTypes = [DestTypeTwilioVoice],
       br_rules = [\<lparr>rl_Count = 3, rl_Per = 15 * Minute, rl_Smooth = False\<rparr>,
                   \<lparr>rl_Count = 7, rl_Per = Hour, rl_Smooth = True\<rparr>, \<lparr>rl_Count = 15, rl_Per = 3 * Hour, rl_Smooth = True\<rparr>]\<rparr>,
      \<lparr>br_msgTypes = [MessageTypeAlert, MessageTypeAlertBundle], br_dstTypes = [DestTypeTwilioSMS],
       br_rules = [\<lparr>rl_Count = 5, rl_Per = 15 * Minute, rl_Smooth = False\<rparr>,
                   \<lparr>rl_Count = 11, rl_Per = Hour, rl_Smooth = True\<rparr>, \<lparr>rl_Count = 21, rl_Per = 3 * Hour, rl_Smooth = True\<rparr>]\<rparr>]" (is "_ = ?rules")
  "tcb_max (perCM_init ! 0) = 3 * Hour" "tcb_parent (perCM_init ! 0) = None"
proof -
  have e: "[empty_builder] = [topb [] 0]" by (simp add: topb_def empty_builder_def)
  show "tcb_rules (perCM_init ! 0) = ?rules" "tcb_max (perCM_init ! 0) = 3 * Hour" "tcb_parent (perCM_init ! 0) = None"
    unfolding perCM_init_def e by (simp_all add: builder_steps) (simp_all add: topb_def empty_builder_def)
qed

lemma PerCMThrottle_simps:
  "cfg_Rules PerCMThrottle = builder_Rules (tcb_rules (perCM_init ! 0))" "cfg_MaxDuration PerCMThrottle = 3 * Hour"
  by (simp_all add: PerCMThrottle_def builder_Config_def tcb_top_def perCM_rules)

interpretation per_cm: throttle_config PerCMThrottle
proof
  fix r msg assume "r \<in> set (cfg_Rules PerCMThrottle msg)"
  then show "rl_Per r \<le> cfg_MaxDuration PerCMThrottle"
    by (auto simp: PerCMThrottle_simps perCM_rules split: if_splits)
next
  fix msg
  have "smooth_ok zero_rule (builder_Rules (tcb_rules (perCM_init ! 0)) msg)"
  proof (cases "msg_Type msg = MessageTypeScheduleOnCallUsers")
    case True
    then show ?thesis by (simp add: perCM_rules br_match_def zero_rule_def message_types)
  next
    case False
    then show ?thesis
      by (cases "dst_Type (msg_Dest msg) = DestTypeTwilioVoice")
        (auto simp: perCM_rules br_match_def zero_rule_def message_types dest_types)
  qed
  then show "smooth_ok zero_rule (cfg_Rules PerCMThrottle msg)" by (simp add: PerCMThrottle_simps)
qed

text \<open>
  A configuration taken from a derived builder has all the rules but not their maximal duration:
  \<open>Config\<close> reads the field of the builder itself, which only \<open>top\<close> ever sets.
\<close>

lemma child_Config:
  assumes "cs ! i = child t d"
  shows "cfg_Rules (builder_Config (topb rs m # cs) (Suc i)) = builder_Rules rs"
    and "cfg_MaxDuration (builder_Config (topb rs m # cs) (Suc i)) = 0"
    and "cfg_MaxDuration (builder_Config (topb rs m # cs) 0) = m"
  using assms by (simp_all add: builder_Config_def tcb_top_def child_def topb_def empty_builder_def)

end
