(* ===== verification/MessageQueue.thy ===== *)
theory MessageQueue
  imports Throttle "HOL-Library.Product_Lexorder"
begin

section \<open>The queue of outgoing messages: engine/message/queue.go\<close>

text \<open>
  The queue orders the pending messages of each destination type and remembers what was sent.
  Its maps are functions with the zero defaults Go gives to missing keys (\<open>pending\<close> keeps its keys:
  \<open>Types\<close> reads them).  \<open>rand.Shuffle\<close> is a parameter, any permutation.  The comparisons passed to
  \<open>sort.SliceStable\<close> return \<open>i < j\<close> for equal elements; the sort only ever compares a later element
  with an earlier one, so that this is \<open>false\<close>, and the sort is stable.
\<close>

subsection \<open>Definitions\<close>

definition typePriority :: "string \<Rightarrow> int" where
  "typePriority t =
     (if t = MessageTypeVerification then 1
      else if t = MessageTypeTest then 2
      else if t = MessageTypeScheduleOnCallUsers then 3
      else if t = MessageTypeAlert then 4
      else if t = MessageTypeAlertBundle then 4
      else if t = MessageTypeAlertStatus then 5
      else if t = MessageTypeSignalMessage then 99
      else 0)"

record 'h queue =
  q_sent :: "Message list"
  q_pending :: "string \<rightharpoonup> Message list"
  q_now :: instant
  q_firstAlert :: "(string \<times> string) set"
  q_serviceSent :: "string \<Rightarrow> instant"
  q_userSent :: "string \<Rightarrow> instant"
  q_destSent :: "DestID \<Rightarrow> instant"
  q_cmThrottle :: "'h Throttle"
  q_globalThrottle :: "'h Throttle"

definition pending_of :: "'h queue \<Rightarrow> string \<Rightarrow> Message list" where
  "pending_of q t = (case q_pending q t of None \<Rightarrow> [] | Some ms \<Rightarrow> ms)"

definition later :: "('k \<Rightarrow> instant) \<Rightarrow> 'k \<Rightarrow> instant \<Rightarrow> 'k \<Rightarrow> instant" where
  "later m k t = (if m k < t then m(k := t) else m)"

definition addSent :: "'h hashing \<Rightarrow> Message \<Rightarrow> 'h queue \<Rightarrow> 'h queue outcome" where
  "addSent H m q =
     (let m = (if IsZero (msg_SentAt m) then m\<lparr>msg_SentAt := q_now q\<rparr> else m)
      in obind (Record H m (q_cmThrottle q)) (\<lambda>cm.
         obind (Record H m (q_globalThrottle q)) (\<lambda>gl.
           Inr (q\<lparr>q_cmThrottle := cm, q_globalThrottle := gl,
             q_firstAlert := insert (msg_ServiceID m, dst_Type (msg_Dest m)) (q_firstAlert q),
             q_serviceSent := later (q_serviceSent q) (msg_ServiceID m) (msg_SentAt m),
             q_userSent := later (q_userSent q) (msg_UserID m) (msg_SentAt m),
             q_destSent := later (q_destSent q) (msg_DestID m) (msg_SentAt m),
             q_sent := q_sent q @ [m]\<rparr>))))"

definition empty_queue :: "instant \<Rightarrow> 'h queue" where
  "empty_queue now =
     \<lparr>q_sent = [], q_pending = Map.empty, q_now = now, q_firstAlert = {}, q_serviceSent = (\<lambda>s. time_zero),
      q_userSent = (\<lambda>u. time_zero), q_destSent = (\<lambda>d. time_zero),
      q_cmThrottle = NewThrottle PerCMThrottle now False, q_globalThrottle = NewThrottle GlobalCMThrottle now True\<rparr>"

definition queue_message :: "'h hashing \<Rightarrow> Message \<Rightarrow> 'h queue \<Rightarrow> 'h queue outcome" where
  "queue_message H m q =
     (if IsZero (msg_SentAt m)
      then Inr (q\<lparr>q_pending := (q_pending q)(dst_Type (msg_Dest m) \<mapsto> pending_of q (dst_Type (msg_Dest m)) @ [m])\<rparr>)
      else addSent H m q)"

definition newQueue :: "'h hashing \<Rightarrow> Message list \<Rightarrow> instant \<Rightarrow> 'h queue outcome" where
  "newQueue H msgs now = ofold (queue_message H) msgs (empty_queue now)"

text \<open>The result of the comparison and whether it decides.\<close>

definition userPriority :: "'h queue \<Rightarrow> string \<Rightarrow> string \<Rightarrow> bool \<times> bool" where
  "userPriority q a b =
     (if q_userSent q a = q_userSent q b then (False, False) else (q_userSent q a < q_userSent q b, True))"

definition servicePriority :: "'h queue \<Rightarrow> string \<Rightarrow> string \<Rightarrow> bool \<times> bool" where
  "servicePriority q a b =
     (if q_serviceSent q a = q_serviceSent q b then (False, False)
      else (q_serviceSent q a < q_serviceSent q b, True))"

definition filterPending :: "'h hashing \<Rightarrow> string \<Rightarrow> 'h queue \<Rightarrow> 'h queue" where
  "filterPending H destType q =
     (let pending = pending_of q destType
      in if pending = [] then q
         else q\<lparr>q_pending := (q_pending q)(destType \<mapsto>
                  filter (\<lambda>p. \<not> InCooldown H (q_globalThrottle q) p \<and> \<not> InCooldown H (q_cmThrottle q) p) pending)\<rparr>)"

definition created_less :: "Message \<Rightarrow> Message \<Rightarrow> bool" where
  "created_less mi mj = (if msg_CreatedAt mi = msg_CreatedAt mj then False else msg_CreatedAt mi < msg_CreatedAt mj)"

definition priority_of :: "'h queue \<Rightarrow> Message \<Rightarrow> int" where
  "priority_of q p =
     (if (msg_Type p = MessageTypeAlert \<or> msg_Type p = MessageTypeAlertBundle)
         \<and> (msg_ServiceID p, dst_Type (msg_Dest p)) \<notin> q_firstAlert q
      then 0 else typePriority (msg_Type p))"

definition pending_less :: "'h queue \<Rightarrow> Message \<Rightarrow> Message \<Rightarrow> bool" where
  "pending_less q mi mj =
     (if priority_of q mi \<noteq> priority_of q mj then priority_of q mi < priority_of q mj
      else case userPriority q (msg_UserID mi) (msg_UserID mj) of
             (isLess, True) \<Rightarrow> isLess
           | (_, False) \<Rightarrow>
               (case servicePriority q (msg_ServiceID mi) (msg_ServiceID mj) of
                  (isLess, True) \<Rightarrow> isLess
                | (_, False) \<Rightarrow> False))"

definition sortPending :: "(Message list \<Rightarrow> Message list) \<Rightarrow> string \<Rightarrow> 'h queue \<Rightarrow> 'h queue" where
  "sortPending shuffle destType q =
     (let pending = pending_of q destType
      in if pending = [] then q
         else q\<lparr>q_pending := (q_pending q)(destType \<mapsto>
                  sort_by (pending_less q) (sort_by created_less (shuffle pending)))\<rparr>)"

definition NextByType ::
  "'h hashing \<Rightarrow> (Message list \<Rightarrow> Message list) \<Rightarrow> string \<Rightarrow> 'h queue \<Rightarrow> (Message option \<times> 'h queue) outcome" where
  "NextByType H shuffle destType q =
     (let q = sortPending shuffle destType (filterPending H destType q)
      in case pending_of q destType of
           [] \<Rightarrow> Inr (None, q)
         | m # rest \<Rightarrow>
             obind (addSent H m (q\<lparr>q_pending := (q_pending q)(destType \<mapsto> rest)\<rparr>)) (\<lambda>q.
               Inr (Some m, q)))"

definition SentByType :: "'h queue \<Rightarrow> string \<Rightarrow> duration \<Rightarrow> nat" where
  "SentByType q destType dur =
     length (filter (\<lambda>m. q_now q + (- dur) < msg_SentAt m \<and> dst_Type (msg_Dest m) = destType) (q_sent q))"

text \<open>\<open>Types\<close> returns these in the order of Go's map iteration.\<close>

definition Types :: "'h queue \<Rightarrow> string set" where
  "Types q = {t. \<exists>ms. q_pending q t = Some ms \<and> ms \<noteq> []}"

text \<open>
  \<open>sendMessagesByType\<close> takes messages until none is left.  The fuel is more than the number of
  pending messages; each round has its own shuffle.
\<close>

fun drain ::
  "nat \<Rightarrow> 'h hashing \<Rightarrow> (nat \<Rightarrow> Message list \<Rightarrow> Message list) \<Rightarrow> string \<Rightarrow> 'h queue \<Rightarrow> (Message list \<times> 'h queue) option outcome" where
  "drain 0 H shuffle typ q = Inr None"
| "drain (Suc n) H shuffle typ q =
     obind (NextByType H (shuffle n) typ q) (\<lambda>(msg, q1).
       case msg of
         None \<Rightarrow> Inr (Some ([], q1))
       | Some m \<Rightarrow> obind (drain n H shuffle typ q1) (\<lambda>r.
           Inr (case r of None \<Rightarrow> None | Some (ms, q2) \<Rightarrow> Some (m # ms, q2))))"

subsection \<open>The order of sending\<close>

definition pending_key :: "'h queue \<Rightarrow> Message \<Rightarrow> int \<times> instant \<times> instant" where
  "pending_key q m = (priority_of q m, q_userSent q (msg_UserID m), q_serviceSent q (msg_ServiceID m))"

lemma pending_less_key: "pending_less q = (\<lambda>x y. pending_key q x < pending_key q y)"
  by (rule ext, rule ext)
    (auto simp: pending_less_def pending_key_def userPriority_def servicePriority_def less_prod_def)

lemma created_less_key: "created_less = (\<lambda>x y. msg_CreatedAt x < msg_CreatedAt y)"
  by (rule ext, rule ext) (auto simp: created_less_def)

interpretation created: less_fun created_less
  unfolding created_less_key by (rule less_fun_key)

interpretation pending: less_fun "pending_less q" for q
  unfolding pending_less_key by (rule less_fun_key)

text \<open>Two stable sorts, the more important one last: the head is minimal in both keys together.\<close>

lemma stable_head:
  fixes f :: "'a \<Rightarrow> 'b::linorder" and g :: "'a \<Rightarrow> 'c::linorder"
  assumes "sort_key f (sort_key g xs) = x # ys" "y \<in> set xs"
  shows "(f x, g x) \<le> (f y, g y)"
proof -
  let ?zs = "sort_key f (sort_key g xs)"
  have y: "y \<in> set ?zs" using assms(2) by simp
  have "sorted (map f ?zs)" by (rule sorted_sort_key)
  then have le: "f x \<le> f y" using assms(1) y by auto
  show ?thesis
  proof (cases "f y = f x")
    case True
    have "filter (\<lambda>z. f z = f x) ?zs = filter (\<lambda>z. f z = f x) (sort_key g xs)"
      using sort_key_stable [where f = f and k = "f x"] by blast
    then have "x # filter (\<lambda>z. f z = f x) ys = filter (\<lambda>z. f z = f x) (sort_key g xs)"
      by (simp add: assms(1))
    moreover have "sorted (map g (filter (\<lambda>z. f z = f x) (sort_key g xs)))"
      by (rule sorted_filter) (rule sorted_sort_key)
    moreover have "y \<in> set (filter (\<lambda>z. f z = f x) (sort_key g xs))" using True assms(2) by simp
    ultimately have "sorted (map g (x # filter (\<lambda>z. f z = f x) ys))" "y \<in> set (x # filter (\<lambda>z. f z = f x) ys)"
      by simp_all
    then have "g x \<le> g y" by auto
    with True show ?thesis by simp
  qed (use le in auto)
qed

lemma sort_pending_head:
  assumes "sort_by (pending_less q) (sort_by created_less xs) = x # ys" "y \<in> set xs"
  shows "(pending_key q x, msg_CreatedAt x) \<le> (pending_key q y, msg_CreatedAt y)"
  using assms stable_head [of "pending_key q" msg_CreatedAt xs x ys y]
  unfolding pending_less_key created_less_key sort_by_key by blast

subsection \<open>One step of the queue\<close>

text \<open>A message may be sent when its destination is in neither cooldown.\<close>

definition sendable :: "'h hashing \<Rightarrow> 'h queue \<Rightarrow> Message \<Rightarrow> bool" where
  "sendable H q p \<longleftrightarrow> \<not> InCooldown H (q_globalThrottle q) p \<and> \<not> InCooldown H (q_cmThrottle q) p"

lemma pending_of_upd [simp]:
  "pending_of (q\<lparr>q_pending := (q_pending q)(t \<mapsto> ms)\<rparr>) s = (if s = t then ms else pending_of q s)"
  by (simp add: pending_of_def)

lemma filterPending_pending:
  "pending_of (filterPending H t q) s = (if s = t then filter (sendable H q) (pending_of q t) else pending_of q s)"
  by (simp add: filterPending_def Let_def sendable_def [abs_def])

lemma sortPending_pending:
  "pending_of (sortPending sh t q) s = (if s = t then
     (if pending_of q t = [] then [] else sort_by (pending_less q) (sort_by created_less (sh (pending_of q t))))
     else pending_of q s)"
  by (simp add: sortPending_def Let_def)

text \<open>Filtering and sorting touch nothing but the pending messages.\<close>

definition same_sent :: "'h queue \<Rightarrow> 'h queue \<Rightarrow> bool" where
  "same_sent q q' \<longleftrightarrow> (\<exists>p. q' = q\<lparr>q_pending := p\<rparr>)"

lemma same_sent_filterSort: "same_sent q (sortPending sh t (filterPending H t q))"
proof -
  have "same_sent q (filterPending H t q)" unfolding same_sent_def
    by (cases "pending_of q t = []") (auto simp: filterPending_def Let_def intro: exI [of _ "q_pending q"])
  moreover have "same_sent r (sortPending sh t r)" for r :: "'a queue" unfolding same_sent_def
    by (cases "pending_of r t = []") (auto simp: sortPending_def Let_def intro: exI [of _ "q_pending r"])
  moreover have "same_sent a b \<Longrightarrow> same_sent b c \<Longrightarrow> same_sent a c" for a b c :: "'a queue"
    unfolding same_sent_def by auto
  ultimately show ?thesis by blast
qed

subsection \<open>The throttles count what was sent\<close>

text \<open>The messages sent to a destination within the time of a rule that applies to them.\<close>

definition sent_under ::
  "'h hashing \<Rightarrow> ThrottleConfig \<Rightarrow> bool \<Rightarrow> instant \<Rightarrow> 'h \<Rightarrow> ThrottleRule \<Rightarrow> Message list \<Rightarrow> Message list" where
  "sent_under H cfg typeOnly now h rule sent =
     filter (\<lambda>m. destKey H typeOnly (msg_Dest m) = h \<and> Sub now (msg_SentAt m) < rl_Per rule
                 \<and> rule \<in> set (cfg_Rules cfg m)) sent"

abbreviation sent_thr :: "'h hashing \<Rightarrow> 'h Throttle \<Rightarrow> 'h \<Rightarrow> ThrottleRule \<Rightarrow> Message list \<Rightarrow> Message list" where
  "sent_thr H tr \<equiv> sent_under H (thr_cfg tr) (thr_typeOnly tr) (thr_now tr)"

definition counted :: "'h hashing \<Rightarrow> 'h Throttle \<Rightarrow> Message list \<Rightarrow> bool" where
  "counted H tr sent \<longleftrightarrow>
     (\<forall>h rule. int (length (sent_thr H tr h rule sent)) \<le> thr_count tr (h, rl_Per rule))
     \<and> (\<forall>h rule. sent_thr H tr h rule sent \<noteq> [] \<longrightarrow> rl_Count rule \<le> int (length (sent_thr H tr h rule sent))
          \<longrightarrow> thr_cooldown tr h)"

lemma counted_new: "counted H (NewThrottle cfg now b) []"
  by (simp add: counted_def NewThrottle_def sent_under_def)

lemma counted_limit:
  assumes "counted H tr sent" "\<not> thr_cooldown tr h" "0 < rl_Count rule"
  shows "int (length (sent_thr H tr h rule sent)) < rl_Count rule"
proof (cases "sent_thr H tr h rule sent = []")
  case True
  with assms(3) show ?thesis by simp
next
  case False
  with assms(1,2) show ?thesis unfolding counted_def by (meson not_le)
qed

lemma counted_recorded:
  assumes "counted H tr sent"
    and r: "recorded (destKey H (thr_typeOnly tr) (msg_Dest m)) (msg_SentAt m) (cfg_Rules (thr_cfg tr) m) tr tr'"
  shows "counted H tr' (sent @ [m])"
proof -
  let ?k = "destKey H (thr_typeOnly tr) (msg_Dest m)"
  have s: "sent_thr H tr' = sent_thr H tr" using r by (simp add: recorded_def)
  have "int (length (sent_thr H tr h rule (sent @ [m]))) \<le> thr_count tr' (h, rl_Per rule)
      \<and> (sent_thr H tr h rule (sent @ [m]) \<noteq> [] \<longrightarrow>
         rl_Count rule \<le> int (length (sent_thr H tr h rule (sent @ [m]))) \<longrightarrow> thr_cooldown tr' h)" for h rule
  proof -
    have c: "int (length (sent_thr H tr h rule sent)) \<le> thr_count tr (h, rl_Per rule)"
      and d: "sent_thr H tr h rule sent \<noteq> [] \<longrightarrow> rl_Count rule \<le> int (length (sent_thr H tr h rule sent)) \<longrightarrow> thr_cooldown tr h"
      using assms(1) unfolding counted_def by blast+
    show ?thesis
    proof (cases "?k = h \<and> Sub (thr_now tr) (msg_SentAt m) < rl_Per rule \<and> rule \<in> set (cfg_Rules (thr_cfg tr) m)")
      case True
      then have a: "sent_thr H tr h rule (sent @ [m]) = sent_thr H tr h rule sent @ [m]" by (simp add: sent_under_def)
      have "thr_count tr (h, rl_Per rule) + 1 \<le> thr_count tr' (h, rl_Per rule)"
        "rl_Count rule \<le> thr_count tr (h, rl_Per rule) + 1 \<longrightarrow> thr_cooldown tr' h"
        using True r unfolding recorded_def by blast+
      with c show ?thesis unfolding a by simp
    next
      case False
      then have a: "sent_thr H tr h rule (sent @ [m]) = sent_thr H tr h rule sent" by (auto simp: sent_under_def)
      have "thr_count tr (h, rl_Per rule) \<le> thr_count tr' (h, rl_Per rule)" "thr_cooldown tr h \<longrightarrow> thr_cooldown tr' h"
        using r unfolding recorded_def by blast+
      with c d show ?thesis unfolding a by (meson order.trans)
    qed
  qed
  then show ?thesis unfolding counted_def s by blast
qed

text \<open>The invariant of the queue.\<close>

definition throttle_ok :: "'h hashing \<Rightarrow> ThrottleConfig \<Rightarrow> bool \<Rightarrow> instant \<Rightarrow> Message list \<Rightarrow> 'h Throttle \<Rightarrow> bool" where
  "throttle_ok H cfg typeOnly now sent tr \<longleftrightarrow>
     thr_cfg tr = cfg \<and> thr_typeOnly tr = typeOnly \<and> thr_now tr = now \<and> counted H tr sent"

context throttle_config
begin

lemma Record_ok:
  assumes "throttle_ok H cfg typeOnly now sent tr"
  shows "\<exists>tr'. Record H m tr = Inr tr' \<and> throttle_ok H cfg typeOnly now (sent @ [m]) tr'"
proof -
  from assms have t: "thr_cfg tr = cfg" "counted H tr sent" by (simp_all add: throttle_ok_def)
  from Record_recorded [OF t(1), of H m] obtain tr' where
    r: "Record H m tr = Inr tr'" "recorded (destKey H (thr_typeOnly tr) (msg_Dest m)) (msg_SentAt m) (cfg_Rules cfg m) tr tr'"
    by blast
  then have "counted H tr' (sent @ [m])" using counted_recorded [OF t(2)] t(1) by metis
  moreover from r(2) have "thr_cfg tr' = thr_cfg tr" "thr_typeOnly tr' = thr_typeOnly tr" "thr_now tr' = thr_now tr"
    by (simp_all add: recorded_def)
  ultimately show ?thesis using r(1) assms by (auto simp: throttle_ok_def)
qed

end

definition queue_ok :: "'h hashing \<Rightarrow> 'h queue \<Rightarrow> bool" where
  "queue_ok H q \<longleftrightarrow>
     throttle_ok H PerCMThrottle False (q_now q) (q_sent q) (q_cmThrottle q)
     \<and> throttle_ok H GlobalCMThrottle True (q_now q) (q_sent q) (q_globalThrottle q)
     \<and> (\<forall>t. \<forall>m \<in> set (pending_of q t). dst_Type (msg_Dest m) = t \<and> IsZero (msg_SentAt m))"

definition as_sent :: "instant \<Rightarrow> Message \<Rightarrow> Message" where
  "as_sent now m = (if IsZero (msg_SentAt m) then m\<lparr>msg_SentAt := now\<rparr> else m)"

lemma addSent_ok:
  assumes "queue_ok H q"
  shows "\<exists>q'. addSent H m q = Inr q' \<and> queue_ok H q' \<and> q_sent q' = q_sent q @ [as_sent (q_now q) m]
    \<and> q_pending q' = q_pending q \<and> q_now q' = q_now q"
proof -
  let ?m = "as_sent (q_now q) m"
  from assms have ok: "throttle_ok H PerCMThrottle False (q_now q) (q_sent q) (q_cmThrottle q)"
    "throttle_ok H GlobalCMThrottle True (q_now q) (q_sent q) (q_globalThrottle q)"
    by (simp_all add: queue_ok_def)
  from per_cm.Record_ok [OF ok(1), of ?m] obtain cm where cm: "Record H ?m (q_cmThrottle q) = Inr cm"
    "throttle_ok H PerCMThrottle False (q_now q) (q_sent q @ [?m]) cm" by blast
  from global_cm.Record_ok [OF ok(2), of ?m] obtain gl where gl: "Record H ?m (q_globalThrottle q) = Inr gl"
    "throttle_ok H GlobalCMThrottle True (q_now q) (q_sent q @ [?m]) gl" by blast
  from cm gl assms show ?thesis
    by (simp add: addSent_def as_sent_def [symmetric] queue_ok_def pending_of_def Let_def)
qed

lemma queue_message_ok:
  assumes "queue_ok H q"
  shows "\<exists>q'. queue_message H m q = Inr q' \<and> queue_ok H q' \<and> q_now q' = q_now q
    \<and> (\<forall>t. pending_of q' t = pending_of q t @ filter (\<lambda>m. IsZero (msg_SentAt m) \<and> dst_Type (msg_Dest m) = t) [m])
    \<and> q_sent q' = q_sent q @ filter (\<lambda>m. \<not> IsZero (msg_SentAt m)) [m]"
proof (cases "IsZero (msg_SentAt m)")
  case True
  with assms show ?thesis by (auto simp: queue_message_def queue_ok_def)
next
  case False
  from addSent_ok [OF assms, of m] obtain q' where q': "addSent H m q = Inr q'" "queue_ok H q'"
    "q_sent q' = q_sent q @ [as_sent (q_now q) m]" "q_pending q' = q_pending q" "q_now q' = q_now q" by blast
  then show ?thesis using False by (auto simp: queue_message_def as_sent_def pending_of_def)
qed

lemma ofold_queue_ok:
  assumes "queue_ok H q"
  shows "\<exists>q'. ofold (queue_message H) ms q = Inr q' \<and> queue_ok H q' \<and> q_now q' = q_now q
    \<and> (\<forall>t. pending_of q' t = pending_of q t @ filter (\<lambda>m. IsZero (msg_SentAt m) \<and> dst_Type (msg_Dest m) = t) ms)
    \<and> q_sent q' = q_sent q @ filter (\<lambda>m. \<not> IsZero (msg_SentAt m)) ms"
  using assms
proof (induction ms arbitrary: q)
  case Nil
  then show ?case by simp
next
  case (Cons m ms)
  from queue_message_ok [OF Cons.prems, of m] obtain q1 where q1: "queue_message H m q = Inr q1" "queue_ok H q1"
    "q_now q1 = q_now q"
    "\<forall>t. pending_of q1 t = pending_of q t @ filter (\<lambda>m. IsZero (msg_SentAt m) \<and> dst_Type (msg_Dest m) = t) [m]"
    "q_sent q1 = q_sent q @ filter (\<lambda>m. \<not> IsZero (msg_SentAt m)) [m]" by blast
  from Cons.IH [OF q1(2)] q1 show ?case by auto
qed

lemma empty_queue_ok: "queue_ok H (empty_queue now)"
  by (simp add: queue_ok_def empty_queue_def throttle_ok_def counted_new pending_of_def)
    (simp add: NewThrottle_def)

text \<open>What a new queue holds: it never panics and splits the messages into sent and pending ones.\<close>

lemma newQueue_spec:
  "\<exists>q. newQueue H msgs now = Inr q \<and> queue_ok H q \<and> q_now q = now
    \<and> (\<forall>t. pending_of q t = filter (\<lambda>m. IsZero (msg_SentAt m) \<and> dst_Type (msg_Dest m) = t) msgs)
    \<and> q_sent q = filter (\<lambda>m. \<not> IsZero (msg_SentAt m)) msgs"
proof -
  have "pending_of (empty_queue now :: 'a queue) t = []" "q_sent (empty_queue now :: 'a queue) = []"
    "q_now (empty_queue now :: 'a queue) = now" for t
    by (simp_all add: empty_queue_def pending_of_def)
  with ofold_queue_ok [OF empty_queue_ok [of H now], of msgs] show ?thesis by (simp add: newQueue_def)
qed

lemma queue_ok_pending:
  assumes "queue_ok H q" "\<And>t. set (p t) \<subseteq> set (pending_of q t)" "\<And>t. pending_of (q\<lparr>q_pending := m\<rparr>) t = p t"
  shows "queue_ok H (q\<lparr>q_pending := m\<rparr>)"
proof -
  have "m' \<in> set (pending_of q t)" if "m' \<in> set (pending_of (q\<lparr>q_pending := m\<rparr>) t)" for t m'
    using that assms(2) [of t] unfolding assms(3) by blast
  with assms(1) show ?thesis unfolding queue_ok_def by simp blast
qed

text \<open>
  One call of \<open>NextByType\<close> on a good queue: nothing is left to send for the type, or the message
  returned may be sent, comes first in the order, and is now recorded as sent.
\<close>

definition next_none :: "'h hashing \<Rightarrow> string \<Rightarrow> 'h queue \<Rightarrow> 'h queue \<Rightarrow> bool" where
  "next_none H t q q' \<longleftrightarrow> q_sent q' = q_sent q \<and> filter (sendable H q) (pending_of q t) = [] \<and> pending_of q' t = []"

definition next_some :: "'h hashing \<Rightarrow> string \<Rightarrow> 'h queue \<Rightarrow> Message \<Rightarrow> 'h queue \<Rightarrow> bool" where
  "next_some H t q m q' \<longleftrightarrow>
     m \<in> set (pending_of q t) \<and> sendable H q m
     \<and> (\<forall>x \<in> set (pending_of q t). sendable H q x \<longrightarrow> (pending_key q m, msg_CreatedAt m) \<le> (pending_key q x, msg_CreatedAt x))
     \<and> q_sent q' = q_sent q @ [m\<lparr>msg_SentAt := q_now q\<rparr>]
     \<and> add_mset m (mset (pending_of q' t)) = filter_mset (sendable H q) (mset (pending_of q t))"

lemma pending_key_pending [simp]: "pending_key (q\<lparr>q_pending := p\<rparr>) = pending_key q"
  by (rule ext) (simp add: pending_key_def priority_of_def)

lemma NextByType_spec:
  assumes "queue_ok H q" and sh: "\<forall>ms. mset (sh ms) = mset ms"
  shows "\<exists>r q'. NextByType H sh t q = Inr (r, q') \<and> queue_ok H q' \<and> q_now q' = q_now q
    \<and> (\<forall>s. s \<noteq> t \<longrightarrow> pending_of q' s = pending_of q s)
    \<and> (case r of None \<Rightarrow> next_none H t q q' | Some m \<Rightarrow> next_some H t q m q')"
proof -
  let ?q = "sortPending sh t (filterPending H t q)"
  let ?f = "filter (sendable H q) (pending_of q t)"
  from same_sent_filterSort [of q sh t H] obtain p where q1: "?q = q\<lparr>q_pending := p\<rparr>" by (auto simp: same_sent_def)
  have q2: "\<exists>p. filterPending H t q = q\<lparr>q_pending := p\<rparr>"
    by (cases "pending_of q t = []") (auto simp: filterPending_def Let_def intro: exI [of _ "q_pending q"])
  then have less: "pending_less (filterPending H t q) = pending_less q"
    unfolding pending_less_key by auto
  have pen: "pending_of ?q s = (if s = t then (if ?f = [] then [] else sort_by (pending_less q) (sort_by created_less (sh ?f)))
      else pending_of q s)" for s
    by (simp add: sortPending_pending filterPending_pending less)
  have set_sh: "set (sh ms) = set ms" for ms using sh by (metis set_mset_mset)
  have ok: "queue_ok H ?q" unfolding q1
    by (rule queue_ok_pending [OF assms(1), where p = "pending_of ?q"]) (auto simp: pen set_sh q1 [symmetric])
  show ?thesis
  proof (cases "pending_of ?q t")
    case Nil
    then have "?f = []" unfolding pen by (auto simp: split: if_splits) (metis sh mset_zero_iff_right)
    then have "next_none H t q ?q" unfolding next_none_def using Nil q1 by simp
    moreover have "NextByType H sh t q = Inr (None, ?q)" using Nil by (simp add: NextByType_def Let_def)
    moreover have "q_now ?q = q_now q" by (simp add: q1)
    ultimately show ?thesis using ok pen by (intro exI [of _ None] exI [of _ ?q]) auto
  next
    case (Cons m rest)
    let ?q3 = "?q\<lparr>q_pending := (q_pending ?q)(t \<mapsto> rest)\<rparr>"
    have ne: "?f \<noteq> []" and st: "sort_by (pending_less q) (sort_by created_less (sh ?f)) = m # rest"
      using Cons unfolding pen by (auto split: if_splits)
    have ms: "add_mset m (mset rest) = mset ?f" using arg_cong [OF st, of mset] by (simp add: sh)
    have sub: "m \<in> set ?f" by (metis ms set_mset_mset union_single_eq_member set_mset_mset)
    have ok3: "queue_ok H ?q3"
      by (rule queue_ok_pending [OF ok, where p = "(pending_of ?q)(t := rest)"]) (auto simp: Cons)
    from addSent_ok [OF ok3, of m] obtain q' where q': "addSent H m ?q3 = Inr q'" "queue_ok H q'"
      "q_sent q' = q_sent ?q3 @ [as_sent (q_now ?q3) m]" "q_pending q' = q_pending ?q3" "q_now q' = q_now ?q3" by blast
    have z: "IsZero (msg_SentAt m)" using sub assms(1) by (auto simp: queue_ok_def)
    have pq': "pending_of q' s = pending_of ?q3 s" for s using q'(4) by (simp add: pending_of_def)
    have "next_some H t q m q'" unfolding next_some_def
    proof (intro conjI ballI impI)
      fix x assume "x \<in> set (pending_of q t)" "sendable H q x"
      then have "x \<in> set (sh ?f)" by (simp add: set_sh)
      then show "(pending_key q m, msg_CreatedAt m) \<le> (pending_key q x, msg_CreatedAt x)"
        by (rule sort_pending_head [OF st])
    next
      show "q_sent q' = q_sent q @ [m\<lparr>msg_SentAt := q_now q\<rparr>]" using q'(3) z by (simp add: q1 as_sent_def)
    next
      show "add_mset m (mset (pending_of q' t)) = filter_mset (sendable H q) (mset (pending_of q t))"
        using ms by (simp add: pq')
    qed (use sub in auto)
    moreover have "NextByType H sh t q = Inr (Some m, q')" using Cons q'(1) by (simp add: NextByType_def Let_def)
    moreover have "q_now q' = q_now q" using q'(5) by (simp add: q1)
    moreover have "pending_of q' s = pending_of q s" if "s \<noteq> t" for s using that by (simp add: pq' pen)
    ultimately show ?thesis using q'(2) by (intro exI [of _ "Some m"] exI [of _ q']) simp
  qed
qed

subsection \<open>Sending\<close>

text \<open>
  The goroutines that send the messages of the destination types share the queue; its mutex makes
  every call of \<open>NextByType\<close> one step.  A run of the queue is any sequence of such calls, of any types
  and with any shuffles.
\<close>

inductive queue_run :: "'h hashing \<Rightarrow> 'h queue \<Rightarrow> 'h queue \<Rightarrow> bool" for H q where
  start: "queue_run H q q"
| call: "queue_run H q q1 \<Longrightarrow> (\<forall>ms. mset (sh ms) = mset ms) \<Longrightarrow> NextByType H sh t q1 = Inr (r, q2) \<Longrightarrow> queue_run H q q2"

lemma queue_run_ok:
  assumes "queue_run H q q'" "queue_ok H q"
  shows "queue_ok H q' \<and> q_now q' = q_now q"
  using assms
proof (induction rule: queue_run.induct)
  case start
  then show ?case by simp
next
  case (call q1 sh t r q2)
  with NextByType_spec [of H q1 sh t] show ?case by auto
qed

lemma sendable_under_limit:
  assumes "queue_ok H q" "sendable H q m" "0 < rl_Count rule"
  shows "int (length (sent_under H PerCMThrottle False (q_now q) (DestHash H (msg_Dest m)) rule (q_sent q))) < rl_Count rule"
    and "int (length (sent_under H GlobalCMThrottle True (q_now q) (sha256 H (dst_Type (msg_Dest m))) rule (q_sent q))) < rl_Count rule"
proof -
  from assms have
    cm: "counted H (q_cmThrottle q) (q_sent q)" "thr_cfg (q_cmThrottle q) = PerCMThrottle"
      "\<not> thr_typeOnly (q_cmThrottle q)" "thr_now (q_cmThrottle q) = q_now q" and
    gl: "counted H (q_globalThrottle q) (q_sent q)" "thr_cfg (q_globalThrottle q) = GlobalCMThrottle"
      "thr_typeOnly (q_globalThrottle q)" "thr_now (q_globalThrottle q) = q_now q"
    by (auto simp: queue_ok_def throttle_ok_def)
  have "\<not> thr_cooldown (q_cmThrottle q) (DestHash H (msg_Dest m))"
    using assms(2) cm(3) by (simp add: sendable_def InCooldown_def destKey_def)
  from counted_limit [OF cm(1) this assms(3)] cm
  show "int (length (sent_under H PerCMThrottle False (q_now q) (DestHash H (msg_Dest m)) rule (q_sent q))) < rl_Count rule"
    by simp
  have "\<not> thr_cooldown (q_globalThrottle q) (sha256 H (dst_Type (msg_Dest m)))"
    using assms(2) gl(3) by (simp add: sendable_def InCooldown_def destKey_def)
  from counted_limit [OF gl(1) this assms(3)] gl
  show "int (length (sent_under H GlobalCMThrottle True (q_now q) (sha256 H (dst_Type (msg_Dest m))) rule (q_sent q))) < rl_Count rule"
    by simp
qed

lemma SentByType_under:
  assumes "d \<le> 5 * Second"
  shows "SentByType q t d \<le> length (sent_under H GlobalCMThrottle True (q_now q) (sha256 H t)
    \<lparr>rl_Count = 5, rl_Per = 5 * Second, rl_Smooth = False\<rparr> (q_sent q))"
  unfolding SentByType_def sent_under_def
proof (induction "q_sent q" arbitrary: q)
  case Nil
  then show ?case by simp
next
  case (Cons m ms)
  have "Sub (q_now q) (msg_SentAt m) < 5 * Second" if "q_now q + - d < msg_SentAt m"
    using that assms by (auto simp: Sub_def min_def max_def)
  moreover have "length (filter (\<lambda>m. q_now q + - d < msg_SentAt m \<and> dst_Type (msg_Dest m) = t) ms)
    \<le> length (filter (\<lambda>m. destKey H True (msg_Dest m) = sha256 H t \<and> Sub (q_now q) (msg_SentAt m) < 5 * Second
        \<and> \<lparr>rl_Count = 5, rl_Per = 5 * Second, rl_Smooth = False\<rparr> \<in> set (cfg_Rules GlobalCMThrottle m)) ms)"
    using Cons(1) [of "q\<lparr>q_sent := ms\<rparr>"] by simp
  ultimately show ?case
    unfolding Cons(2) [symmetric] by (auto simp: global_rules destKey_def)
qed

lemma SentByType_step:
  assumes "queue_ok H q" "next_some H s q m q'" "q_now q' = q_now q"
  shows "SentByType q' t (5 * Second) \<le> max 5 (SentByType q t (5 * Second))"
proof (cases "s = t")
  case True
  have m: "sendable H q m" "dst_Type (msg_Dest m) = s" "q_sent q' = q_sent q @ [m\<lparr>msg_SentAt := q_now q\<rparr>]"
    using assms(1,2) by (auto simp: next_some_def queue_ok_def)
  have "SentByType q t (5 * Second) < 5"
    using sendable_under_limit(2) [OF assms(1) m(1), of "\<lparr>rl_Count = 5, rl_Per = 5 * Second, rl_Smooth = False\<rparr>"]
      SentByType_under [of "5 * Second" q t H] True m(2) by simp
  then show ?thesis using m(3) assms(3) by (simp add: SentByType_def)
next
  case False
  have "dst_Type (msg_Dest m) = s" "q_sent q' = q_sent q @ [m\<lparr>msg_SentAt := q_now q\<rparr>]"
    using assms(1,2) by (auto simp: next_some_def queue_ok_def)
  then show ?thesis using False assms(3) by (simp add: SentByType_def)
qed

text \<open>C14: whatever the goroutines send in a cycle, no destination type gets more than five messages
  within five seconds, unless it already had when the queue was loaded.\<close>

theorem queue_global_limit:
  assumes "newQueue H msgs now = Inr q" "queue_run H q q'"
  shows "SentByType q' t (5 * Second) \<le> max 5 (SentByType q t (5 * Second))"
proof -
  have ok: "queue_ok H q" using newQueue_spec [of H msgs now] assms(1) by auto
  from assms(2) show ?thesis
  proof (induction rule: queue_run.induct)
    case start
    then show ?case by simp
  next
    case (call q1 sh s r q2)
    from queue_run_ok [OF call.hyps(1) ok] have ok1: "queue_ok H q1" ..
    from NextByType_spec [OF ok1 call.hyps(2), of s] call.hyps(3) have
      n: "q_now q2 = q_now q1" and c: "case r of None \<Rightarrow> next_none H s q1 q2 | Some m \<Rightarrow> next_some H s q1 m q2" by auto
    have "SentByType q2 t (5 * Second) \<le> max 5 (SentByType q1 t (5 * Second))"
    proof (cases r)
      case None
      with c n show ?thesis by (simp add: next_none_def SentByType_def)
    next
      case (Some m)
      with c n show ?thesis using SentByType_step [OF ok1, of s m q2 t] by simp
    qed
    with call.IH show ?case by linarith
  qed
qed


text \<open>C16: the next message of a type is first in the order of priority (a service's first alert, then
  by type), the user and the service longest without a message, and age, among the pending
  messages of the type whose destination is in no cooldown; it is recorded as sent now, the
  messages in cooldown are dropped, and the queue does not panic.\<close>

theorem NextByType_correct:
  assumes "newQueue H msgs now = Inr q" "queue_run H q q1" "\<forall>ms. mset (sh ms) = mset ms"
  shows "\<exists>r q2. NextByType H sh t q1 = Inr (r, q2) \<and>
    (case r of
       None \<Rightarrow> (\<forall>x \<in> set (pending_of q1 t). \<not> sendable H q1 x) \<and> q_sent q2 = q_sent q1
     | Some m \<Rightarrow> m \<in> set (pending_of q1 t) \<and> sendable H q1 m
         \<and> (\<forall>x \<in> set (pending_of q1 t). sendable H q1 x \<longrightarrow>
              (pending_key q1 m, msg_CreatedAt m) \<le> (pending_key q1 x, msg_CreatedAt x))
         \<and> q_sent q2 = q_sent q1 @ [m\<lparr>msg_SentAt := now\<rparr>]
         \<and> add_mset m (mset (pending_of q2 t)) = filter_mset (sendable H q1) (mset (pending_of q1 t)))"
proof -
  have ok: "queue_ok H q" "q_now q = now" using newQueue_spec [of H msgs now] assms(1) by auto
  from queue_run_ok [OF assms(2) ok(1)] have ok1: "queue_ok H q1" "q_now q1 = now" using ok(2) by auto
  from NextByType_spec [OF ok1(1) assms(3), of t] obtain r q2 where
    s: "NextByType H sh t q1 = Inr (r, q2)" "case r of None \<Rightarrow> next_none H t q1 q2 | Some m \<Rightarrow> next_some H t q1 m q2"
    by blast
  then show ?thesis using ok1(2)
    by (intro exI [of _ r] exI [of _ q2]) (auto simp: next_none_def next_some_def filter_empty_conv split: option.splits)
qed

lemma drain_total:
  assumes "queue_ok H q" "\<forall>n ms. mset (sh n ms) = mset ms" "length (pending_of q t) < n"
  shows "\<exists>ms q'. drain n H sh t q = Inr (Some (ms, q')) \<and> queue_run H q q' \<and> mset ms \<subseteq># mset (pending_of q t)
    \<and> pending_of q' t = [] \<and> q_sent q' = q_sent q @ map (\<lambda>m. m\<lparr>msg_SentAt := q_now q\<rparr>) ms"
  using assms(1,3)
proof (induction n arbitrary: q)
  case 0
  then show ?case by simp
next
  case (Suc n)
  have sh: "\<forall>ms. mset (sh n ms) = mset ms" using assms(2) by blast
  from NextByType_spec [OF Suc.prems(1) sh, of t] obtain r q1 where
    r: "NextByType H (sh n) t q = Inr (r, q1)" "queue_ok H q1" "q_now q1 = q_now q"
      "case r of None \<Rightarrow> next_none H t q q1 | Some m \<Rightarrow> next_some H t q m q1" by blast
  have run: "queue_run H q q1" using call [OF start sh r(1)] .
  show ?case
  proof (cases r)
    case None
    with r run show ?thesis by (auto simp: next_none_def)
  next
    case (Some m)
    with r(4) have m: "add_mset m (mset (pending_of q1 t)) = filter_mset (sendable H q) (mset (pending_of q t))"
      "q_sent q1 = q_sent q @ [m\<lparr>msg_SentAt := q_now q\<rparr>]" by (simp_all add: next_some_def)
    from m(1) have le: "add_mset m (mset (pending_of q1 t)) \<subseteq># mset (pending_of q t)" by simp
    then have "length (pending_of q1 t) < length (pending_of q t)"
      using size_mset_mono [OF le] by simp
    with Suc.IH [OF r(2)] Suc.prems(2) obtain ms q2 where
      i: "drain n H sh t q1 = Inr (Some (ms, q2))" "queue_run H q1 q2" "mset ms \<subseteq># mset (pending_of q1 t)"
        "pending_of q2 t = []" "q_sent q2 = q_sent q1 @ map (\<lambda>m. m\<lparr>msg_SentAt := q_now q1\<rparr>) ms" by auto
    have "queue_run H q q2" using i(2) run
    proof (induction rule: queue_run.induct)
      case (call qa sha ta ra qb)
      then show ?case by (metis queue_run.call)
    qed
    moreover have "mset (m # ms) \<subseteq># mset (pending_of q t)"
      using i(3) le by (simp) (metis mset_subset_eq_add_mset_cancel subset_mset.order_trans)
    moreover have "drain (Suc n) H sh t q = Inr (Some (m # ms, q2))" using r(1) Some i(1) by simp
    ultimately show ?thesis using i m r(3) by (intro exI [of _ "m # ms"] exI [of _ q2]) simp
  qed
qed


subsection \<open>A sample queue\<close>

definition sample_hashing :: "string hashing" where
  "sample_hashing = \<lparr>sha256 = (\<lambda>s. s), marshal = dst_Type\<rparr>"

definition sample_msg :: "string \<Rightarrow> instant \<Rightarrow> instant \<Rightarrow> Message" where
  "sample_msg i created sent =
     \<lparr>msg_ID = i, msg_Type = MessageTypeAlert, msg_DestID = \<lparr>did_CMID = Some ''cm'', did_NCID = None\<rparr>,
      msg_Dest = \<lparr>dst_Args = None, dst_Type = DestTypeTwilioSMS\<rparr>, msg_AlertID = 1, msg_AlertLogID = 0, msg_VerifyID = '''',
      msg_UserID = ''u'', msg_ServiceID = ''s'', msg_ScheduleID = '''', msg_CreatedAt = created, msg_SentAt = sent,
      msg_StatusAlertIDs = []\<rparr>"

definition sample_queue :: "string queue" where
  "sample_queue = (empty_queue 100)\<lparr>q_pending := [DestTypeTwilioSMS \<mapsto> [sample_msg ''b'' 20 time_zero, sample_msg ''a'' 10 time_zero]]\<rparr>"

lemma sample_newQueue:
  "newQueue sample_hashing [sample_msg ''b'' 20 time_zero, sample_msg ''a'' 10 time_zero] 100 = Inr sample_queue"
  by (simp add: newQueue_def queue_message_def sample_queue_def empty_queue_def sample_msg_def IsZero_def pending_of_def)

lemma sample_pending: "pending_of sample_queue DestTypeTwilioSMS = [sample_msg ''b'' 20 time_zero, sample_msg ''a'' 10 time_zero]"
  by (simp add: sample_queue_def pending_of_def)

lemma sample_sendable: "sendable sample_hashing sample_queue m"
  by (simp add: sendable_def InCooldown_def sample_queue_def empty_queue_def NewThrottle_def)

lemma sample_shuffle: "\<forall>ms. mset (rev ms) = mset ms" "\<forall>n ms. mset ((\<lambda>n :: nat. rev) n ms) = mset ms"
  by simp_all

theorem NextByType_correct_witness:
  "\<exists>q2. NextByType sample_hashing rev DestTypeTwilioSMS sample_queue = Inr (Some (sample_msg ''a'' 10 time_zero), q2)
     \<and> q_sent q2 = [sample_msg ''a'' 10 100]"
proof -
  from NextByType_correct [OF sample_newQueue start sample_shuffle(1), of DestTypeTwilioSMS] obtain r q2 where
    r: "NextByType sample_hashing rev DestTypeTwilioSMS sample_queue = Inr (r, q2)" and
    c: "case r of
       None \<Rightarrow> (\<forall>x \<in> set (pending_of sample_queue DestTypeTwilioSMS). \<not> sendable sample_hashing sample_queue x) \<and> q_sent q2 = q_sent sample_queue
     | Some m \<Rightarrow> m \<in> set (pending_of sample_queue DestTypeTwilioSMS) \<and> sendable sample_hashing sample_queue m
         \<and> (\<forall>x \<in> set (pending_of sample_queue DestTypeTwilioSMS). sendable sample_hashing sample_queue x \<longrightarrow>
              (pending_key sample_queue m, msg_CreatedAt m) \<le> (pending_key sample_queue x, msg_CreatedAt x))
         \<and> q_sent q2 = q_sent sample_queue @ [m\<lparr>msg_SentAt := 100\<rparr>]
         \<and> add_mset m (mset (pending_of q2 DestTypeTwilioSMS)) = filter_mset (sendable sample_hashing sample_queue) (mset (pending_of sample_queue DestTypeTwilioSMS))"
    by blast
  then obtain m where m: "r = Some m" by (cases r) (auto simp: sample_pending sample_sendable)
  have "pending_key sample_queue (sample_msg ''b'' 20 time_zero) = pending_key sample_queue (sample_msg ''a'' 10 time_zero)"
    by (simp add: pending_key_def priority_of_def sample_msg_def)
  moreover have "msg_CreatedAt (sample_msg i t z) = t" for i t z by (simp add: sample_msg_def)
  ultimately have "m = sample_msg ''a'' 10 time_zero" using c m by (auto simp: sample_pending sample_sendable)
  with c m r show ?thesis by (simp add: sample_queue_def empty_queue_def sample_msg_def)
qed

lemma sample_next:
  obtains m q2 where "NextByType sample_hashing rev DestTypeTwilioSMS sample_queue = Inr (Some m, q2)"
proof -
  have ok: "queue_ok sample_hashing sample_queue"
    using newQueue_spec [of sample_hashing "[sample_msg ''b'' 20 time_zero, sample_msg ''a'' 10 time_zero]" 100] sample_newQueue by auto
  from NextByType_spec [OF ok sample_shuffle(1), of DestTypeTwilioSMS] obtain r q2 where
    r: "NextByType sample_hashing rev DestTypeTwilioSMS sample_queue = Inr (r, q2)"
      "case r of None \<Rightarrow> next_none sample_hashing DestTypeTwilioSMS sample_queue q2 | Some m \<Rightarrow> next_some sample_hashing DestTypeTwilioSMS sample_queue m q2"
    by blast
  then obtain m where "r = Some m" by (cases r) (auto simp: next_none_def sample_pending sample_sendable)
  with r(1) that show ?thesis by blast
qed


theorem queue_global_limit_witness:
  "\<exists>m q2. NextByType sample_hashing rev DestTypeTwilioSMS sample_queue = Inr (Some m, q2)
     \<and> SentByType q2 DestTypeTwilioSMS 5000000000 \<le> 5"
proof -
  obtain m q2 where n: "NextByType sample_hashing rev DestTypeTwilioSMS sample_queue = Inr (Some m, q2)"
    by (rule sample_next)
  have "SentByType sample_queue DestTypeTwilioSMS 5000000000 = 0" by (simp add: SentByType_def sample_queue_def empty_queue_def)
  with queue_global_limit [OF sample_newQueue call [OF start sample_shuffle(1) n], of DestTypeTwilioSMS] n
  show ?thesis by auto
qed


end
