(* ===== verification/MessageDedup.thy ===== *)
theory MessageDedup
  imports MessageQueue
begin

section \<open>Dropping duplicates and bundling: engine/message\<close>

text \<open>
  Before the queue is built, pending messages that repeat each other are dropped or bundled.
  \<open>sort.Slice\<close> is not stable: it is a parameter \<open>srt\<close> that returns some sorted permutation
  (\<open>is_sort\<close>), and the order of Go's map iteration is a parameter \<open>elems\<close> that lists the keys.
  The callbacks that write to the database are modelled by the calls made so far and a function that
  says whether a call fails.
\<close>

subsection \<open>Definitions\<close>

definition weak_order_on :: "'a set \<Rightarrow> ('a \<Rightarrow> 'a \<Rightarrow> bool) \<Rightarrow> bool" where
  "weak_order_on A lt \<longleftrightarrow> (\<forall>x \<in> A. \<forall>y \<in> A. lt x y \<longrightarrow> \<not> lt y x)
     \<and> (\<forall>x \<in> A. \<forall>y \<in> A. \<forall>z \<in> A. lt x z \<longrightarrow> lt x y \<or> lt y z)"

definition is_sort :: "((Message \<Rightarrow> Message \<Rightarrow> bool) \<Rightarrow> Message list \<Rightarrow> Message list) \<Rightarrow> bool" where
  "is_sort srt \<longleftrightarrow> (\<forall>lt xs. weak_order_on (set xs) lt \<longrightarrow>
     mset (srt lt xs) = mset xs \<and> sorted_wrt (\<lambda>x y. \<not> lt y x) (srt lt xs))"

fun splitPendingByType :: "string list \<Rightarrow> Message list \<Rightarrow> Message list \<times> Message list" where
  "splitPendingByType types [] = ([], [])"
| "splitPendingByType types (msg # messages) =
     (let (matching, remainder) = splitPendingByType types messages
      in if \<not> IsZero (msg_SentAt msg) then (matching, msg # remainder)
         else if msg_Type msg \<in> set types then (msg # matching, remainder)
         else (matching, msg # remainder))"

text \<open>The loop of the two functions that delete: the first message of each key is kept.\<close>

fun keep_first :: "(Message \<Rightarrow> 'k) \<Rightarrow> 'k set \<Rightarrow> Message list \<Rightarrow> Message list \<times> string list" where
  "keep_first key m [] = ([], [])"
| "keep_first key m (msg # msgs) =
     (if key msg \<in> m
      then (let (result, toDelete) = keep_first key m msgs in (result, msg_ID msg # toDelete))
      else (let (result, toDelete) = keep_first key (insert (key msg) m) msgs in (msg # result, toDelete)))"

definition created_after :: "Message \<Rightarrow> Message \<Rightarrow> bool" where
  "created_after x y \<longleftrightarrow> msg_CreatedAt y < msg_CreatedAt x"

definition log_after :: "Message \<Rightarrow> Message \<Rightarrow> bool" where
  "log_after x y \<longleftrightarrow> msg_AlertLogID x > msg_AlertLogID y"

definition onCall_key :: "Message \<Rightarrow> string \<times> DestID" where
  "onCall_key m = (msg_ScheduleID m, msg_DestID m)"

definition alert_key :: "Message \<Rightarrow> int \<times> DestID" where
  "alert_key m = (msg_AlertID m, msg_DestID m)"

definition dedupOnCallNotifications ::
  "((Message \<Rightarrow> Message \<Rightarrow> bool) \<Rightarrow> Message list \<Rightarrow> Message list) \<Rightarrow> Message list \<Rightarrow> Message list \<times> string list" where
  "dedupOnCallNotifications srt messages =
     (let (toProcess, result) = splitPendingByType [MessageTypeScheduleOnCallUsers] messages;
          (kept, toDelete) = keep_first onCall_key {} (srt created_after toProcess)
      in (result @ kept, toDelete))"

definition dedupStatusMessages ::
  "((Message \<Rightarrow> Message \<Rightarrow> bool) \<Rightarrow> Message list \<Rightarrow> Message list) \<Rightarrow> Message list \<Rightarrow> Message list \<times> string list" where
  "dedupStatusMessages srt messages =
     (let (toProcess, result) = splitPendingByType [MessageTypeAlertStatus] messages;
          (kept, toDelete) = keep_first alert_key {} (srt log_after toProcess)
      in (result @ kept, toDelete))"

text \<open>
  The loop of \<open>dedupAlerts\<close>: the ID of the first message of each key, and under that ID the
  duplicates met later.
\<close>

fun dedup_alerts_loop ::
  "(int \<times> DestID \<rightharpoonup> string) \<Rightarrow> (string \<rightharpoonup> string list) \<Rightarrow> Message list
     \<Rightarrow> Message list \<times> (string \<rightharpoonup> string list)" where
  "dedup_alerts_loop alerts duplicates [] = ([], duplicates)"
| "dedup_alerts_loop alerts duplicates (msg # msgs) =
     (case alerts (alert_key msg) of
        Some parentID \<Rightarrow>
          dedup_alerts_loop alerts
            (duplicates(parentID \<mapsto> (case duplicates parentID of None \<Rightarrow> [] | Some ids \<Rightarrow> ids) @ [msg_ID msg])) msgs
      | None \<Rightarrow>
          (let (result, dups) = dedup_alerts_loop (alerts(alert_key msg \<mapsto> msg_ID msg)) duplicates msgs
           in (msg # result, dups)))"

text \<open>What the callbacks were asked to write.\<close>

datatype bundle_call =
    NewBundle Message string
  | Bundle string "string list"

fun bundle_all ::
  "(string \<Rightarrow> string list \<Rightarrow> string option) \<Rightarrow> (string \<times> string list) list \<Rightarrow> string option \<times> bundle_call list" where
  "bundle_all bundleFunc [] = (None, [])"
| "bundle_all bundleFunc ((parentID, ids) # rest) =
     (case bundleFunc parentID ids of
        Some err \<Rightarrow> (Some err, [Bundle parentID ids])
      | None \<Rightarrow> (let (r, calls) = bundle_all bundleFunc rest in (r, Bundle parentID ids # calls)))"

definition dedupAlerts ::
  "((Message \<Rightarrow> Message \<Rightarrow> bool) \<Rightarrow> Message list \<Rightarrow> Message list) \<Rightarrow> (string set \<Rightarrow> string list)
     \<Rightarrow> (string \<Rightarrow> string list \<Rightarrow> string option) \<Rightarrow> Message list \<Rightarrow> (string + Message list) \<times> bundle_call list" where
  "dedupAlerts srt elems bundleFunc msgs =
     (if msgs = [] then (Inr msgs, [])
      else
        (let (toProcess, result) = splitPendingByType [MessageTypeAlert] msgs;
             (kept, duplicates) = dedup_alerts_loop Map.empty Map.empty (srt created_less toProcess);
             (err, calls) = bundle_all bundleFunc (map (\<lambda>p. (p, the (duplicates p))) (elems (dom duplicates)))
         in (case err of Some e \<Rightarrow> Inl e | None \<Rightarrow> Inr (result @ kept), calls)))"

definition typeOrder :: "Message \<Rightarrow> int" where
  "typeOrder msg = (if msg_Type msg = MessageTypeAlertBundle then 0 else 1)"

definition bundle_less :: "Message \<Rightarrow> Message \<Rightarrow> bool" where
  "bundle_less x y =
     (if msg_Type x \<noteq> msg_Type y then typeOrder x < typeOrder y else msg_CreatedAt x < msg_CreatedAt y)"

definition bundle_key :: "Message \<Rightarrow> DestID \<times> string" where
  "bundle_key m = (msg_DestID m, msg_ServiceID m)"

definition groups_of :: "Message list \<Rightarrow> (DestID \<times> string \<rightharpoonup> Message list)" where
  "groups_of msgs =
     fold (\<lambda>msg g. g(bundle_key msg \<mapsto> (case g (bundle_key msg) of None \<Rightarrow> [] | Some ms \<Rightarrow> ms) @ [msg])) msgs Map.empty"

text \<open>One group: a single message stays, several become one bundle.\<close>

definition bundle_group ::
  "(Message \<Rightarrow> string + string) \<Rightarrow> (string \<Rightarrow> string list \<Rightarrow> string option) \<Rightarrow> Message list
     \<Rightarrow> (string + Message) \<times> bundle_call list" where
  "bundle_group newBundleFunc bundleFunc msgs =
     (if length msgs = 1 then (Inr (hd msgs), [])
      else
        (let ids = map msg_ID msgs;
             first = hd msgs
         in if msg_Type first \<noteq> MessageTypeAlertBundle then
              (case newBundleFunc first of
                 Inl err \<Rightarrow> (Inl err, [])
               | Inr bundleID \<Rightarrow>
                   (case bundleFunc bundleID ids of
                      Some err \<Rightarrow> (Inl err, [NewBundle first bundleID, Bundle bundleID ids])
                    | None \<Rightarrow> (Inr (first\<lparr>msg_Type := MessageTypeAlertBundle, msg_ID := bundleID, msg_AlertID := 0\<rparr>),
                               [NewBundle first bundleID, Bundle bundleID ids])))
            else
              (case bundleFunc (msg_ID first) (tl ids) of
                 Some err \<Rightarrow> (Inl err, [Bundle (msg_ID first) (tl ids)])
               | None \<Rightarrow> (Inr first, [Bundle (msg_ID first) (tl ids)]))))"

fun bundle_groups ::
  "(Message \<Rightarrow> string + string) \<Rightarrow> (string \<Rightarrow> string list \<Rightarrow> string option) \<Rightarrow> Message list list
     \<Rightarrow> (string + Message list) \<times> bundle_call list" where
  "bundle_groups newBundleFunc bundleFunc [] = (Inr [], [])"
| "bundle_groups newBundleFunc bundleFunc (msgs # rest) =
     (case bundle_group newBundleFunc bundleFunc msgs of
        (Inl err, calls) \<Rightarrow> (Inl err, calls)
      | (Inr m, calls) \<Rightarrow>
          (let (r, calls') = bundle_groups newBundleFunc bundleFunc rest
           in (case r of Inl err \<Rightarrow> Inl err | Inr ms \<Rightarrow> Inr (m # ms), calls @ calls')))"

definition bundleAlertMessages ::
  "((Message \<Rightarrow> Message \<Rightarrow> bool) \<Rightarrow> Message list \<Rightarrow> Message list) \<Rightarrow> ((DestID \<times> string) set \<Rightarrow> (DestID \<times> string) list)
     \<Rightarrow> (Message \<Rightarrow> string + string) \<Rightarrow> (string \<Rightarrow> string list \<Rightarrow> string option) \<Rightarrow> Message list
     \<Rightarrow> (string + Message list) \<times> bundle_call list" where
  "bundleAlertMessages srt elems newBundleFunc bundleFunc messages =
     (let (toProcess, result) = splitPendingByType [MessageTypeAlert, MessageTypeAlertBundle] messages;
          groups = groups_of (srt bundle_less toProcess);
          (r, calls) = bundle_groups newBundleFunc bundleFunc (map (\<lambda>k. the (groups k)) (elems (dom groups)))
      in (case r of Inl err \<Rightarrow> Inl err | Inr ms \<Rightarrow> Inr (result @ ms), calls))"

subsection \<open>Sorting and splitting\<close>

lemma weak_order_key: "(\<And>x y. x \<in> A \<Longrightarrow> y \<in> A \<Longrightarrow> lt x y \<longleftrightarrow> (f x :: 'b::linorder) < f y) \<Longrightarrow> weak_order_on A lt"
  unfolding weak_order_on_def by auto

lemma insert_by_sorted_on:
  assumes "weak_order_on (insert x (set xs)) lt" "sorted_wrt (\<lambda>x y. \<not> lt y x) xs"
  shows "sorted_wrt (\<lambda>x y. \<not> lt y x) (insert_by lt x xs)"
  using assms
proof (induction xs)
  case Nil
  then show ?case by simp
next
  case (Cons y ys)
  have w: "weak_order_on (insert x (set ys)) lt"
    using Cons.prems(1) unfolding weak_order_on_def by auto
  show ?case
  proof (cases "lt y x")
    case True
    then have "\<not> lt x y" using Cons.prems(1) unfolding weak_order_on_def by auto
    with Cons w True show ?thesis by simp
  next
    case False
    have "\<not> lt z x" if "z \<in> set ys" for z
      using that Cons.prems False unfolding weak_order_on_def by (metis insert_iff list.set(2) sorted_wrt.simps(2))
    with Cons.prems False show ?thesis by auto
  qed
qed

lemma sort_by_sorted_on: "weak_order_on (set xs) lt \<Longrightarrow> sorted_wrt (\<lambda>x y. \<not> lt y x) (sort_by lt xs)"
proof (induction xs)
  case (Cons x xs)
  then have "weak_order_on (set xs) lt" unfolding weak_order_on_def by simp
  with Cons show ?case by (simp add: insert_by_sorted_on)
qed simp

lemma is_sort_sort_by: "is_sort sort_by"
  by (simp add: is_sort_def sort_by_sorted_on)

lemma is_sortD:
  assumes "is_sort srt" "weak_order_on (set xs) lt"
  shows "mset (srt lt xs) = mset xs" "set (srt lt xs) = set xs" "sorted_wrt (\<lambda>x y. \<not> lt y x) (srt lt xs)"
  using assms unfolding is_sort_def by (metis set_mset_mset)+

definition pending_in :: "string list \<Rightarrow> Message \<Rightarrow> bool" where
  "pending_in types m \<longleftrightarrow> IsZero (msg_SentAt m) \<and> msg_Type m \<in> set types"

lemma splitPendingByType_filter:
  "splitPendingByType types ms = (filter (pending_in types) ms, filter (\<lambda>m. \<not> pending_in types m) ms)"
  by (induction ms) (auto simp: pending_in_def)

subsection \<open>Keeping the newest\<close>

lemma keep_first_keys:
  assumes "keep_first key m xs = (kept, del)"
  shows "distinct (map key kept) \<and> (\<forall>x \<in> set kept. key x \<notin> m) \<and> set kept \<subseteq> set xs
    \<and> mset (map msg_ID kept) + mset del = mset (map msg_ID xs)"
  using assms
proof (induction xs arbitrary: m kept del)
  case Nil
  then show ?case by simp
next
  case (Cons x xs)
  show ?case
  proof (cases "key x \<in> m")
    case True
    then obtain d where "keep_first key m xs = (kept, d)" "del = msg_ID x # d"
      using Cons.prems by (auto split: prod.splits)
    with Cons.IH [of m kept d] show ?thesis by auto
  next
    case False
    then obtain k where "keep_first key (insert (key x) m) xs = (k, del)" "kept = x # k"
      using Cons.prems by (auto split: prod.splits)
    with Cons.IH [of "insert (key x) m" k del] False show ?thesis by fastforce
  qed
qed

text \<open>
  What is promised about the messages \<open>P\<close>: one of each key stays, no other is preferred to it, and
  the rest are the ones deleted; all other messages stay, in their order.
\<close>

definition best_kept ::
  "(Message \<Rightarrow> Message \<Rightarrow> bool) \<Rightarrow> (Message \<Rightarrow> 'k) \<Rightarrow> (Message \<Rightarrow> bool) \<Rightarrow> Message list \<Rightarrow> Message list \<Rightarrow> string list \<Rightarrow> bool" where
  "best_kept lt key P msgs res del \<longleftrightarrow>
     filter (\<lambda>m. \<not> P m) res = filter (\<lambda>m. \<not> P m) msgs
     \<and> set (filter P res) \<subseteq> set (filter P msgs) \<and> distinct (map key (filter P res))
     \<and> (\<forall>x \<in> set (filter P msgs). \<exists>y \<in> set (filter P res). key y = key x \<and> \<not> lt x y)
     \<and> mset (map msg_ID res) + mset del = mset (map msg_ID msgs)"

text \<open>
  The contract of the functions that drop repeated messages: \<open>lt\<close> says which of two messages is
  preferred, \<open>key\<close> which messages repeat each other.
\<close>

locale keep_best = less_fun lt for lt :: "Message \<Rightarrow> Message \<Rightarrow> bool" +
  fixes key :: "Message \<Rightarrow> 'k"
begin

lemma weak_order: "weak_order_on A lt"
  using less_asym less_cotrans unfolding weak_order_on_def by blast

lemma keep_first_best:
  assumes "keep_first key m xs = (kept, del)" "sorted_wrt (\<lambda>x y. \<not> lt y x) xs" "x \<in> set xs" "key x \<notin> m"
  shows "\<exists>y \<in> set kept. key y = key x \<and> \<not> lt x y"
  using assms
proof (induction xs arbitrary: m kept del)
  case Nil
  then show ?case by simp
next
  case (Cons z zs)
  have irr: "\<not> lt z z" using less_asym by blast
  show ?case
  proof (cases "key z \<in> m")
    case True
    with Cons show ?thesis by (auto split: prod.splits)
  next
    case False
    then obtain k where k: "keep_first key (insert (key z) m) zs = (k, del)" "kept = z # k"
      using Cons.prems(1) by (auto split: prod.splits)
    show ?thesis
    proof (cases "key x = key z")
      case True
      then show ?thesis using Cons.prems(2,3) k(2) irr by auto
    next
      case False
      then have "x \<in> set zs" "key x \<notin> insert (key z) m" using Cons.prems(3,4) by auto
      with Cons.IH [OF k(1)] Cons.prems(2) k(2) show ?thesis by auto
    qed
  qed
qed

lemma dedup_best:
  assumes "is_sort srt" "keep_first key {} (srt lt (filter P msgs)) = (kept, del)"
  shows "best_kept lt key P msgs (filter (\<lambda>m. \<not> P m) msgs @ kept) del"
proof -
  note s = is_sortD [OF assms(1) weak_order, of "filter P msgs"]
  note k = keep_first_keys [OF assms(2)]
  have P: "filter P kept = kept" "filter (\<lambda>m. \<not> P m) kept = []"
    using k s(2) by (auto simp: filter_empty_conv intro!: filter_True)
  have best: "\<exists>y \<in> set kept. key y = key x \<and> \<not> lt x y" if "x \<in> set (filter P msgs)" for x
    using keep_first_best [OF assms(2) s(3), of x] that s(2) by auto
  have "mset (map msg_ID (filter (\<lambda>m. \<not> P m) msgs)) + mset (map msg_ID (filter P msgs)) = mset (map msg_ID msgs)"
    by (simp add: image_mset_union [symmetric] union_commute)
  moreover have "mset (map msg_ID kept) + mset del = mset (map msg_ID (filter P msgs))"
    using k s(1) by simp
  ultimately have "mset (map msg_ID (filter (\<lambda>m. \<not> P m) msgs @ kept)) + mset del = mset (map msg_ID msgs)"
    by (metis map_append mset_append union_assoc)
  then show ?thesis unfolding best_kept_def using k s(2) P best by auto
qed

end

interpretation onCall_best: keep_best created_after onCall_key
  by unfold_locales (auto simp: created_after_def)

interpretation status_best: keep_best log_after alert_key
  by unfold_locales (auto simp: log_after_def)

interpretation alert_best: keep_best created_less alert_key
  by unfold_locales

lemma dedupOnCall_best:
  assumes "is_sort srt" "dedupOnCallNotifications srt msgs = (res, del)"
  shows "best_kept created_after onCall_key (pending_in [MessageTypeScheduleOnCallUsers]) msgs res del"
  using assms(2) onCall_best.dedup_best [OF assms(1)]
  by (auto simp: dedupOnCallNotifications_def splitPendingByType_filter split: prod.splits)

lemma dedupStatus_best:
  assumes "is_sort srt" "dedupStatusMessages srt msgs = (res, del)"
  shows "best_kept log_after alert_key (pending_in [MessageTypeAlertStatus]) msgs res del"
  using assms(2) status_best.dedup_best [OF assms(1)]
  by (auto simp: dedupStatusMessages_def splitPendingByType_filter split: prod.splits)

subsection \<open>Repeated alerts\<close>

abbreviation dup_list :: "(string \<rightharpoonup> string list) \<Rightarrow> string \<Rightarrow> string list" where
  "dup_list dups p \<equiv> (case dups p of None \<Rightarrow> [] | Some ids \<Rightarrow> ids)"

lemma dedup_alerts_kept:
  "fst (dedup_alerts_loop alerts dups xs) = fst (keep_first alert_key (dom alerts) xs)"
proof (induction xs arbitrary: alerts dups)
  case Nil
  then show ?case by simp
next
  case (Cons x xs)
  show ?case
  proof (cases "alerts (alert_key x)")
    case None
    define a where "a = alerts(alert_key x \<mapsto> msg_ID x)"
    have "dom a = insert (alert_key x) (dom alerts)" "alert_key x \<notin> dom alerts" using None by (auto simp: a_def)
    with Cons.IH [of a dups] None show ?thesis by (simp add: a_def [symmetric] split_beta Let_def)
  next
    case (Some p)
    then have "alert_key x \<in> dom alerts" by blast
    then have "fst (keep_first alert_key (dom alerts) (x # xs)) = fst (keep_first alert_key (dom alerts) xs)"
      by (simp add: split_beta Let_def)
    moreover have "dedup_alerts_loop alerts dups (x # xs)
        = dedup_alerts_loop alerts (dups(p \<mapsto> dup_list dups p @ [msg_ID x])) xs" using Some by simp
    ultimately show ?thesis by (simp only: Cons.IH)
  qed
qed

text \<open>A dropped alert is listed under the ID of the message that stands for it.\<close>

lemma dedup_alerts_grow:
  "set (dup_list dups p) \<subseteq> set (dup_list (snd (dedup_alerts_loop alerts dups xs)) p)"
proof (induction xs arbitrary: alerts dups)
  case Nil
  then show ?case by simp
next
  case (Cons x xs)
  show ?case
  proof (cases "alerts (alert_key x)")
    case None
    with Cons show ?thesis by (simp add: split_beta Let_def)
  next
    case (Some q)
    let ?d = "dups(q \<mapsto> dup_list dups q @ [msg_ID x])"
    have "set (dup_list dups p) \<subseteq> set (dup_list ?d p)" by auto
    also have "\<dots> \<subseteq> set (dup_list (snd (dedup_alerts_loop alerts ?d xs)) p)" by (rule Cons.IH)
    finally show ?thesis using Some by simp
  qed
qed

lemma dedup_alerts_listed:
  assumes "x \<in> set xs"
  shows "x \<in> set (fst (dedup_alerts_loop alerts dups xs))
    \<or> (\<exists>p. msg_ID x \<in> set (dup_list (snd (dedup_alerts_loop alerts dups xs)) p)
        \<and> (alerts (alert_key x) = Some p
           \<or> (\<exists>y \<in> set (fst (dedup_alerts_loop alerts dups xs)). msg_ID y = p \<and> alert_key y = alert_key x)))"
  using assms
proof (induction xs arbitrary: alerts dups)
  case Nil
  then show ?case by simp
next
  case (Cons z zs)
  show ?case
  proof (cases "alerts (alert_key z)")
    case None
    define a where "a = alerts(alert_key z \<mapsto> msg_ID z)"
    have l: "fst (dedup_alerts_loop alerts dups (z # zs)) = z # fst (dedup_alerts_loop a dups zs)"
      "snd (dedup_alerts_loop alerts dups (z # zs)) = snd (dedup_alerts_loop a dups zs)"
      using None by (simp_all add: a_def split_beta Let_def)
    have a: "a k = Some p \<Longrightarrow> alerts k = Some p \<or> (msg_ID z = p \<and> alert_key z = k)" for k p
      by (auto simp: a_def split: if_splits)
    show ?thesis
    proof (cases "x = z")
      case False
      then have "x \<in> set zs" using Cons.prems by simp
      from Cons.IH [OF this, of a dups] show ?thesis unfolding l
        using a [of "alert_key x"] by (metis list.set_intros)
    next
      case True
      then show ?thesis unfolding l by simp
    qed
  next
    case (Some q)
    let ?d = "dups(q \<mapsto> dup_list dups q @ [msg_ID z])"
    have l: "dedup_alerts_loop alerts dups (z # zs) = dedup_alerts_loop alerts ?d zs" using Some by simp
    show ?thesis
    proof (cases "x = z")
      case True
      have "msg_ID z \<in> set (dup_list ?d q)" by simp
      with dedup_alerts_grow [of ?d q alerts zs] have "msg_ID z \<in> set (dup_list (snd (dedup_alerts_loop alerts ?d zs)) q)" by blast
      with Some True show ?thesis unfolding l by blast
    next
      case False
      then have "x \<in> set zs" using Cons.prems by simp
      from Cons.IH [OF this, of alerts ?d] show ?thesis unfolding l .
    qed
  qed
qed

definition key_order :: "('k set \<Rightarrow> 'k list) \<Rightarrow> bool" where
  "key_order elems \<longleftrightarrow> (\<forall>A. finite A \<longrightarrow> set (elems A) = A \<and> distinct (elems A))"

lemma dedup_alerts_finite: "finite (dom dups) \<Longrightarrow> finite (dom (snd (dedup_alerts_loop alerts dups xs)))"
  by (induction xs arbitrary: alerts dups) (auto simp: split_beta Let_def split: option.splits)

lemma bundle_all_ok: "bundle_all f xs = (None, calls) \<Longrightarrow> calls = map (\<lambda>(p, ids). Bundle p ids) xs"
  by (induction xs arbitrary: calls) (auto split: option.splits prod.splits)

lemma dedupAlerts_best:
  assumes "is_sort srt" "key_order elems" "dedupAlerts srt elems bf msgs = (Inr res, calls)"
  shows "\<exists>del. best_kept created_less alert_key (pending_in [MessageTypeAlert]) msgs res del
    \<and> (\<forall>x \<in> set msgs. x \<in> set res
         \<or> (\<exists>y \<in> set res. \<exists>ids. alert_key y = alert_key x \<and> Bundle (msg_ID y) ids \<in> set calls \<and> msg_ID x \<in> set ids))"
proof (cases "msgs = []")
  case True
  then show ?thesis using assms(3) by (auto simp: dedupAlerts_def best_kept_def)
next
  case False
  let ?P = "pending_in [MessageTypeAlert]"
  let ?xs = "srt created_less (filter ?P msgs)"
  obtain kept dups where l: "dedup_alerts_loop Map.empty Map.empty ?xs = (kept, dups)" by fastforce
  obtain del where kf: "keep_first alert_key {} ?xs = (kept, del)"
    using dedup_alerts_kept [of Map.empty Map.empty ?xs] l by (metis dom_empty fst_conv surj_pair)
  from assms(3) False l have res: "res = filter (\<lambda>m. \<not> ?P m) msgs @ kept"
    and b: "bundle_all bf (map (\<lambda>p. (p, the (dups p))) (elems (dom dups))) = (None, calls)"
    by (auto simp: dedupAlerts_def splitPendingByType_filter Let_def split: option.splits prod.splits)
  have "finite (dom dups)" using dedup_alerts_finite [of Map.empty Map.empty ?xs] l by simp
  then have el: "set (elems (dom dups)) = dom dups" using assms(2) by (simp add: key_order_def)
  have set_xs: "set ?xs = set (filter ?P msgs)" by (rule is_sortD(2) [OF assms(1) alert_best.weak_order])
  have "x \<in> set res \<or> (\<exists>y \<in> set res. \<exists>ids. alert_key y = alert_key x \<and> Bundle (msg_ID y) ids \<in> set calls \<and> msg_ID x \<in> set ids)"
    if x: "x \<in> set msgs" for x
  proof (cases "?P x")
    case True
    then have "x \<in> set ?xs" using x set_xs by simp
    from dedup_alerts_listed [OF this, of Map.empty Map.empty] l have
      "x \<in> set kept \<or> (\<exists>y \<in> set kept. msg_ID x \<in> set (dup_list dups (msg_ID y)) \<and> alert_key y = alert_key x)" by auto
    moreover have "Bundle p (the (dups p)) \<in> set calls" if "i \<in> set (dup_list dups p)" for i p
    proof -
      from that have "p \<in> set (elems (dom dups))" using el by (auto split: option.splits)
      then show ?thesis using bundle_all_ok [OF b] by simp
    qed
    moreover have "dup_list dups p = the (dups p)" if "i \<in> set (dup_list dups p)" for i p
      using that by (cases "dups p") auto
    ultimately show ?thesis unfolding res by (metis Un_iff set_append)
  next
    case False
    then show ?thesis using res x by simp
  qed
  with alert_best.dedup_best [OF assms(1) kf] show ?thesis unfolding res by blast
qed

subsection \<open>Bundles\<close>

lemma groups_of_filter:
  "groups_of xs k = (let g = filter (\<lambda>m. bundle_key m = k) xs in if g = [] then None else Some g)"
proof -
  define f :: "Message \<Rightarrow> (DestID \<times> string \<rightharpoonup> Message list) \<Rightarrow> DestID \<times> string \<rightharpoonup> Message list" where
    "f = (\<lambda>msg g. g(bundle_key msg \<mapsto> (case g (bundle_key msg) of None \<Rightarrow> [] | Some ms \<Rightarrow> ms) @ [msg]))"
  have step: "f x g k = (if bundle_key x = k then Some ((case g k of None \<Rightarrow> [] | Some ms \<Rightarrow> ms) @ [x]) else g k)" for x g
    by (simp add: f_def)
  have "fold f xs g k = (let h = filter (\<lambda>m. bundle_key m = k) xs
      in if h = [] then g k else Some ((case g k of None \<Rightarrow> [] | Some ms \<Rightarrow> ms) @ h))" for g
  proof (induction xs arbitrary: g)
    case (Cons x xs)
    have "fold f (x # xs) g k = fold f xs (f x g) k" by simp
    then show ?case unfolding Cons.IH step by (auto simp: Let_def)
  qed simp
  then show ?thesis unfolding groups_of_def f_def [symmetric] by (simp add: Let_def)
qed

lemma groups_of_dom: "dom (groups_of xs) = bundle_key ` set xs"
  by (auto simp: groups_of_filter Let_def dom_def filter_empty_conv image_iff) metis

lemma bundle_order: "weak_order_on (set (filter (pending_in [MessageTypeAlert, MessageTypeAlertBundle]) xs)) bundle_less"
  by (rule weak_order_key [where f = "\<lambda>m. (typeOrder m, msg_CreatedAt m)"])
    (auto simp: bundle_less_def typeOrder_def pending_in_def message_types)

text \<open>What stands for a message after bundling: the message itself, or a bundle that lists it.\<close>

definition represents :: "bundle_call list \<Rightarrow> Message \<Rightarrow> Message \<Rightarrow> bool" where
  "represents calls y x \<longleftrightarrow> bundle_key y = bundle_key x
     \<and> (y = x \<or> (msg_Type y = MessageTypeAlertBundle \<and> (\<exists>ids. Bundle (msg_ID y) ids \<in> set calls \<and> msg_ID x \<in> set ids)))"

lemma represents_mono: "represents calls y x \<Longrightarrow> set calls \<subseteq> set calls' \<Longrightarrow> represents calls' y x"
  unfolding represents_def by blast

lemma bundle_group_represents:
  assumes "bundle_group nb bf g = (Inr y, calls)" "g \<noteq> []"
    and "\<forall>x \<in> set g. bundle_key x = k \<and> pending_in [MessageTypeAlert, MessageTypeAlertBundle] x"
  shows "pending_in [MessageTypeAlert, MessageTypeAlertBundle] y \<and> bundle_key y = k \<and> (\<forall>x \<in> set g. represents calls y x)"
proof -
  obtain f rest where g: "g = f # rest" using assms(2) by (cases g) auto
  have f: "bundle_key f = k" "pending_in [MessageTypeAlert, MessageTypeAlertBundle] f" using assms(3) g by auto
  consider "rest = []" "y = f"
    | b where "y = f\<lparr>msg_Type := MessageTypeAlertBundle, msg_ID := b, msg_AlertID := 0\<rparr>" "Bundle b (map msg_ID g) \<in> set calls"
    | "y = f" "msg_Type f = MessageTypeAlertBundle" "Bundle (msg_ID f) (map msg_ID rest) \<in> set calls"
    using assms(1) unfolding g by (auto simp: bundle_group_def Let_def split: if_splits sum.splits option.splits)
  then show ?thesis
  proof cases
    case 1
    then show ?thesis using f by (simp add: g represents_def)
  next
    case (2 b)
    have "represents calls y x" if "x \<in> set g" for x
      using that 2 assms(3) f(1) by (auto simp: represents_def bundle_key_def intro!: exI [of _ "map msg_ID g"])
    then show ?thesis using 2(1) f by (simp add: pending_in_def bundle_key_def)
  next
    case 3
    have "represents calls y x" if "x \<in> set g" for x
      using that 3 assms(3) f(1) unfolding g by (auto simp: represents_def intro!: exI [of _ "map msg_ID rest"])
    then show ?thesis using 3(1) f by simp
  qed
qed

lemma bundle_groups_represents:
  assumes "bundle_groups nb bf (map G ks) = (Inr ms, calls)"
    and "\<forall>k \<in> set ks. G k \<noteq> [] \<and> (\<forall>x \<in> set (G k). bundle_key x = k \<and> pending_in [MessageTypeAlert, MessageTypeAlertBundle] x)"
  shows "map bundle_key ms = ks \<and> (\<forall>y \<in> set ms. pending_in [MessageTypeAlert, MessageTypeAlertBundle] y)
    \<and> (\<forall>k \<in> set ks. \<forall>x \<in> set (G k). \<exists>y \<in> set ms. represents calls y x)"
  using assms
proof (induction ks arbitrary: ms calls)
  case Nil
  then show ?case by simp
next
  case (Cons k ks)
  from Cons.prems(1) obtain m c1 ms' c2 where
    g: "bundle_group nb bf (G k) = (Inr m, c1)" "bundle_groups nb bf (map G ks) = (Inr ms', c2)"
      "ms = m # ms'" "calls = c1 @ c2"
    by (auto split: prod.splits sum.splits)
  from bundle_group_represents [OF g(1), of k] Cons.prems(2) have
    m: "pending_in [MessageTypeAlert, MessageTypeAlertBundle] m" "bundle_key m = k" "\<forall>x \<in> set (G k). represents c1 m x" by auto
  from Cons.IH [OF g(2)] Cons.prems(2) have
    i: "map bundle_key ms' = ks" "\<forall>y \<in> set ms'. pending_in [MessageTypeAlert, MessageTypeAlertBundle] y"
      "\<forall>k \<in> set ks. \<forall>x \<in> set (G k). \<exists>y \<in> set ms'. represents c2 y x" by auto
  have mono: "represents c1 y x \<Longrightarrow> represents calls y x" "represents c2 y x \<Longrightarrow> represents calls y x" for x y
    using represents_mono g(4) by (metis Un_upper1 set_append) (metis represents_mono g(4) Un_upper2 set_append)
  show ?case using m i mono g(3) by (auto) blast+
qed

definition bundled :: "Message list \<Rightarrow> Message list \<Rightarrow> bundle_call list \<Rightarrow> bool" where
  "bundled msgs res calls \<longleftrightarrow>
     (let P = pending_in [MessageTypeAlert, MessageTypeAlertBundle]
      in filter (\<lambda>m. \<not> P m) res = filter (\<lambda>m. \<not> P m) msgs \<and> distinct (map bundle_key (filter P res))
         \<and> (\<forall>x \<in> set (filter P msgs). \<exists>y \<in> set (filter P res). represents calls y x))"

lemma bundleAlertMessages_bundled:
  assumes "is_sort srt" "key_order elems" "bundleAlertMessages srt elems nb bf msgs = (Inr res, calls)"
  shows "bundled msgs res calls"
proof -
  let ?P = "pending_in [MessageTypeAlert, MessageTypeAlertBundle]"
  let ?xs = "srt bundle_less (filter ?P msgs)"
  let ?G = "\<lambda>k. filter (\<lambda>m. bundle_key m = k) ?xs"
  have set_xs: "set ?xs = set (filter ?P msgs)" by (rule is_sortD(2) [OF assms(1) bundle_order])
  let ?ks = "elems (bundle_key ` set ?xs)"
  have ks: "set ?ks = bundle_key ` set ?xs" "distinct ?ks" using assms(2) by (simp_all add: key_order_def)
  have G: "the (groups_of ?xs k) = ?G k" if "k \<in> set ?ks" for k
    using that ks(1) by (auto simp: groups_of_filter Let_def filter_empty_conv)
  then have Gm: "map (\<lambda>k. the (groups_of ?xs k)) ?ks = map ?G ?ks" by simp
  from assms(3) obtain ms where ms: "bundle_groups nb bf (map ?G ?ks) = (Inr ms, calls)"
    "res = filter (\<lambda>m. \<not> ?P m) msgs @ ms"
    by (auto simp: bundleAlertMessages_def splitPendingByType_filter groups_of_dom Gm Let_def split: prod.splits sum.splits)
  have "\<forall>k \<in> set ?ks. ?G k \<noteq> [] \<and> (\<forall>x \<in> set (?G k). bundle_key x = k \<and> ?P x)"
    using ks(1) set_xs by (auto simp: filter_empty_conv)
  from bundle_groups_represents [OF ms(1) this] have
    r: "map bundle_key ms = ?ks" "\<forall>y \<in> set ms. ?P y" "\<forall>k \<in> set ?ks. \<forall>x \<in> set (?G k). \<exists>y \<in> set ms. represents calls y x" by auto
  have f: "filter ?P ms = ms" "filter (\<lambda>m. \<not> ?P m) ms = []" using r(2) by (auto simp: filter_empty_conv)
  have "\<exists>y \<in> set ms. represents calls y x" if "x \<in> set (filter ?P msgs)" for x
    using r(3) ks(1) that set_xs by auto
  then show ?thesis unfolding bundled_def Let_def ms(2) using f r(1) ks(2) by auto
qed

end
