(* ===== verification/MessageDB.thy ===== *)
theory MessageDB
  imports MessageDedup "HOL-Library.List_Lexorder" "HOL-Library.Char_ord" "HOL-Library.Option_ord"
begin

section \<open>Loading the queue: \<open>DB.currentQueue\<close> of engine/message/db.go\<close>

text \<open>
  The queue of a cycle is built from the rows of the database and the sent messages remembered from
  earlier cycles.  The queries and statements are parameters, collected in a record with the sorting
  function and the orders of map iteration; the statements made are returned.
\<close>

subsection \<open>Definitions\<close>

record pending_row =
  row_ID :: string
  row_MessageType :: string
  row_CmID :: "string option"
  row_ChanID :: "string option"
  row_Dest :: "DestV1 option"
  row_AlertID :: "int option"
  row_AlertLogID :: "int option"
  row_UserVerificationCodeID :: "string option"
  row_UserID :: "string option"
  row_ServiceID :: "string option"
  row_CreatedAt :: instant
  row_SentAt :: "instant option"
  row_StatusAlertIds :: "int list"
  row_ScheduleID :: "string option"

record message_db =
  db_sentMessages :: "string \<rightharpoonup> Message"
  db_lastSent :: instant

record msg_env =
  env_pending :: "instant \<Rightarrow> string + pending_row list"
  env_delete :: "string list \<Rightarrow> string option"
  env_newBundle :: "Message \<Rightarrow> string + string"
  env_bundle :: "string \<Rightarrow> string list \<Rightarrow> string option"
  env_sort :: "(Message \<Rightarrow> Message \<Rightarrow> bool) \<Rightarrow> Message list \<Rightarrow> Message list"
  env_ids :: "string set \<Rightarrow> string list"
  env_keys :: "(DestID \<times> string) set \<Rightarrow> (DestID \<times> string) list"

datatype msg_stmt = DeleteAny "string list" | Call bundle_call

definition or_zero :: "'a \<Rightarrow> 'a option \<Rightarrow> 'a" where
  "or_zero z x = (case x of None \<Rightarrow> z | Some v \<Rightarrow> v)"

definition message_of_row :: "pending_row \<Rightarrow> Message" where
  "message_of_row row =
     \<lparr>msg_ID = row_ID row, msg_Type = row_MessageType row,
      msg_DestID = \<lparr>did_CMID = row_CmID row, did_NCID = row_ChanID row\<rparr>,
      msg_Dest = or_zero \<lparr>dst_Args = None, dst_Type = ''''\<rparr> (row_Dest row),
      msg_AlertID = or_zero 0 (row_AlertID row), msg_AlertLogID = or_zero 0 (row_AlertLogID row),
      msg_VerifyID = or_zero '''' (row_UserVerificationCodeID row), msg_UserID = or_zero '''' (row_UserID row),
      msg_ServiceID = or_zero '''' (row_ServiceID row), msg_ScheduleID = or_zero '''' (row_ScheduleID row),
      msg_CreatedAt = row_CreatedAt row, msg_SentAt = or_zero time_zero (row_SentAt row),
      msg_StatusAlertIDs = row_StatusAlertIds row\<rparr>"

text \<open>The rows: messages without a destination are skipped, sent ones remembered.\<close>

fun load_rows :: "(string \<rightharpoonup> Message) \<Rightarrow> pending_row list \<Rightarrow> Message list \<times> (string \<rightharpoonup> Message)" where
  "load_rows sm [] = ([], sm)"
| "load_rows sm (row # rows) =
     (let msg = message_of_row row
      in if dst_Type (msg_Dest msg) = '''' then load_rows sm rows
         else if \<not> IsZero (msg_SentAt msg) then load_rows (sm(msg_ID msg \<mapsto> msg)) rows
         else (let (result, sm') = load_rows sm rows in (msg # result, sm')))"

definition queue_cutoff :: "instant \<Rightarrow> instant" where
  "queue_cutoff now = now + - maxThrottleDuration [PerCMThrottle, GlobalCMThrottle]"

definition load_messages :: "msg_env \<Rightarrow> instant \<Rightarrow> message_db \<Rightarrow> string + Message list \<times> message_db" where
  "load_messages E now db =
     (let cutoff = queue_cutoff now;
          sentSince = (if IsZero (db_lastSent db) then cutoff else db_lastSent db)
      in case env_pending E sentSince of
           Inl e \<Rightarrow> Inl e
         | Inr rows \<Rightarrow>
             (let (result, sm) = load_rows (db_sentMessages db) rows;
                  ids = filter (\<lambda>i. \<not> msg_SentAt (the (sm i)) < cutoff) (env_ids E (dom sm))
              in Inr (result @ map (\<lambda>i. the (sm i)) ids, \<lparr>db_sentMessages = sm |` set ids, db_lastSent = now\<rparr>)))"

definition run_delete :: "msg_env \<Rightarrow> string list \<Rightarrow> string option \<times> msg_stmt list" where
  "run_delete E toDelete = (if toDelete \<noteq> [] then (env_delete E toDelete, [DeleteAny toDelete]) else (None, []))"

definition currentQueue ::
  "'h hashing \<Rightarrow> msg_env \<Rightarrow> bool \<Rightarrow> instant \<Rightarrow> message_db
     \<Rightarrow> (string + 'h queue outcome) \<times> message_db \<times> msg_stmt list" where
  "currentQueue H E disableBundles now db =
     (case load_messages E now db of
        Inl e \<Rightarrow> (Inl e, db, [])
      | Inr (result, db) \<Rightarrow>
          (let (result, toDelete) = dedupOnCallNotifications (env_sort E) result;
               (err, s1) = run_delete E toDelete
           in case err of
                Some e \<Rightarrow> (Inl e, db, s1)
              | None \<Rightarrow>
                  (let (result, toDelete) = dedupStatusMessages (env_sort E) result;
                       (err, s2) = run_delete E toDelete
                   in case err of
                        Some e \<Rightarrow> (Inl e, db, s1 @ s2)
                      | None \<Rightarrow>
                          (case dedupAlerts (env_sort E) (env_ids E) (env_bundle E) result of
                             (Inl e, c1) \<Rightarrow> (Inl e, db, s1 @ s2 @ map Call c1)
                           | (Inr result, c1) \<Rightarrow>
                               if disableBundles then (Inr (newQueue H result now), db, s1 @ s2 @ map Call c1)
                               else
                                 (case bundleAlertMessages (env_sort E) (env_keys E) (env_newBundle E) (env_bundle E) result of
                                    (Inl e, c2) \<Rightarrow> (Inl e, db, s1 @ s2 @ map Call c1 @ map Call c2)
                                  | (Inr result, c2) \<Rightarrow>
                                      (Inr (newQueue H result now), db, s1 @ s2 @ map Call c1 @ map Call c2))))))"

subsection \<open>Nothing is lost, nothing repeated\<close>

abbreviation ids_of :: "Message list \<Rightarrow> string set" where
  "ids_of ms \<equiv> msg_ID ` set ms"

text \<open>The messages a list of statements deletes or puts into a bundle.\<close>

fun stmt_ids :: "msg_stmt \<Rightarrow> string set" where
  "stmt_ids (DeleteAny ids) = set ids"
| "stmt_ids (Call (Bundle p ids)) = set ids"
| "stmt_ids (Call (NewBundle m i)) = {}"

definition accounted :: "msg_stmt list \<Rightarrow> string set" where
  "accounted stmts = (\<Union>s \<in> set stmts. stmt_ids s)"

lemma accounted_simps [simp]:
  "accounted [] = {}" "accounted (s # ss) = stmt_ids s \<union> accounted ss" "accounted (xs @ ys) = accounted xs \<union> accounted ys"
  by (auto simp: accounted_def)

lemma accounted_Bundle: "Bundle p ids \<in> set calls \<Longrightarrow> i \<in> set ids \<Longrightarrow> i \<in> accounted (map Call calls)"
  by (force simp: accounted_def)

lemma filter_other:
  assumes "filter (\<lambda>m. \<not> P m) a = filter (\<lambda>m. \<not> P m) b" "\<And>m. Q m \<Longrightarrow> \<not> P m"
  shows "filter Q a = filter Q b"
proof -
  have "filter Q xs = filter Q (filter (\<lambda>m. \<not> P m) xs)" for xs
    using assms(2) by (auto intro!: filter_cong)
  with assms(1) show ?thesis by metis
qed

lemma best_kept_ids:
  assumes "best_kept lt key P msgs res del"
  shows "ids_of msgs = ids_of res \<union> set del"
proof -
  have "mset (map msg_ID res @ del) = mset (map msg_ID msgs)" using assms by (simp add: best_kept_def)
  then have "set (map msg_ID res @ del) = set (map msg_ID msgs)" by (metis set_mset_mset)
  then show ?thesis by auto
qed

lemma best_kept_other:
  "best_kept lt key P msgs res del \<Longrightarrow> (\<And>m. Q m \<Longrightarrow> \<not> P m) \<Longrightarrow> filter Q res = filter Q msgs"
  by (rule filter_other [of P]) (simp_all add: best_kept_def)

lemma run_delete_accounted: "accounted (snd (run_delete E del)) = set del"
  by (simp add: run_delete_def)

lemma bundled_ids:
  assumes "bundled msgs res calls"
  shows "ids_of msgs \<subseteq> ids_of res \<union> accounted (map Call calls)"
proof
  let ?P = "pending_in [MessageTypeAlert, MessageTypeAlertBundle]"
  fix i assume "i \<in> ids_of msgs"
  then obtain x where x: "x \<in> set msgs" "msg_ID x = i" by blast
  show "i \<in> ids_of res \<union> accounted (map Call calls)"
  proof (cases "?P x")
    case True
    with x assms obtain y where "y \<in> set res" "represents calls y x" by (auto simp: bundled_def Let_def)
    with x show ?thesis unfolding represents_def using accounted_Bundle by blast
  next
    case False
    with x have "x \<in> set (filter (\<lambda>m. \<not> ?P m) msgs)" by simp
    with assms have "x \<in> set (filter (\<lambda>m. \<not> ?P m) res)" by (simp add: bundled_def Let_def)
    with x show ?thesis by auto
  qed
qed

lemma bundled_other:
  "bundled msgs res calls \<Longrightarrow> (\<And>m. Q m \<Longrightarrow> \<not> pending_in [MessageTypeAlert, MessageTypeAlertBundle] m)
    \<Longrightarrow> filter Q res = filter Q msgs"
  by (rule filter_other [of "pending_in [MessageTypeAlert, MessageTypeAlertBundle]"]) (simp_all add: bundled_def Let_def)
lemma account_chain:
  "R3 \<subseteq> R4 \<union> C2 \<Longrightarrow> R2 \<subseteq> R3 \<union> C1 \<Longrightarrow> M = R1 \<union> S1 \<Longrightarrow> R1 = R2 \<union> S2 \<Longrightarrow> M \<subseteq> R4 \<union> (S1 \<union> (S2 \<union> (C1 \<union> C2)))"
  by blast

definition env_ok :: "msg_env \<Rightarrow> bool" where
  "env_ok E \<longleftrightarrow> is_sort (env_sort E) \<and> key_order (env_ids E) \<and> key_order (env_keys E)"

text \<open>The stages of a successful load.\<close>

lemma currentQueue_stages:
  assumes "currentQueue H E dis now db = (Inr oq, db', stmts)"
  obtains msgs r1 d1 s1 r2 d2 s2 r3 c1 r4 c2 where
    "load_messages E now db = Inr (msgs, db')"
    "dedupOnCallNotifications (env_sort E) msgs = (r1, d1)" "run_delete E d1 = (None, s1)"
    "dedupStatusMessages (env_sort E) r1 = (r2, d2)" "run_delete E d2 = (None, s2)"
    "dedupAlerts (env_sort E) (env_ids E) (env_bundle E) r2 = (Inr r3, c1)"
    "if dis then r4 = r3 \<and> c2 = []
     else bundleAlertMessages (env_sort E) (env_keys E) (env_newBundle E) (env_bundle E) r3 = (Inr r4, c2)"
    "oq = newQueue H r4 now" "stmts = s1 @ s2 @ map Call c1 @ map Call c2"
proof -
  from assms obtain msgs where l: "load_messages E now db = Inr (msgs, db')"
    by (auto simp: currentQueue_def split_beta Let_def split: sum.splits option.splits if_splits)
  obtain r1 d1 where o: "dedupOnCallNotifications (env_sort E) msgs = (r1, d1)" by fastforce
  from assms l o obtain s1 where s1: "run_delete E d1 = (None, s1)"
    by (auto simp: currentQueue_def split_beta Let_def split: option.splits) (metis prod.collapse)
  obtain r2 d2 where t: "dedupStatusMessages (env_sort E) r1 = (r2, d2)" by fastforce
  from assms l o s1 t obtain s2 where s2: "run_delete E d2 = (None, s2)"
    by (auto simp: currentQueue_def split_beta Let_def split: option.splits) (metis prod.collapse)
  from assms l o s1 t s2 obtain r3 c1 where a: "dedupAlerts (env_sort E) (env_ids E) (env_bundle E) r2 = (Inr r3, c1)"
    by (auto simp: currentQueue_def split: prod.splits sum.splits)
  show ?thesis
  proof (cases dis)
    case True
    with assms l o s1 t s2 a that [of msgs r1 d1 s1 r2 d2 s2 r3 c1 r3 "[]"] show ?thesis by (simp add: currentQueue_def)
  next
    case False
    with assms l o s1 t s2 a obtain r4 c2 where
      "bundleAlertMessages (env_sort E) (env_keys E) (env_newBundle E) (env_bundle E) r3 = (Inr r4, c2)"
      "oq = newQueue H r4 now" "stmts = s1 @ s2 @ map Call c1 @ map Call c2"
      by (auto simp: currentQueue_def split: prod.splits sum.splits)
    with False l o s1 t s2 a that show ?thesis by auto
  qed
qed


subsection \<open>Old messages\<close>

lemma maxThrottle_value: "maxThrottleDuration [PerCMThrottle, GlobalCMThrottle] = 3 * Hour"
  by (simp add: maxThrottleDuration_def PerCMThrottle_simps global_rules)

text \<open>C19: a sent message from before the cutoff is not needed: recording it would leave both
  throttles as they are.\<close>

theorem expired_not_throttled:
  assumes "newQueue H msgs now = Inr q" "msg_SentAt m < queue_cutoff now" "\<not> IsZero (msg_SentAt m)"
  shows "\<exists>q'. addSent H m q = Inr q' \<and> q_cmThrottle q' = q_cmThrottle q \<and> q_globalThrottle q' = q_globalThrottle q"
proof -
  have q: "queue_ok H q" "q_now q = now" using newQueue_spec [of H msgs now] assms(1) by auto
  then have c: "thr_cfg (q_cmThrottle q) = PerCMThrottle" "thr_cfg (q_globalThrottle q) = GlobalCMThrottle"
    "thr_now (q_cmThrottle q) = now" "thr_now (q_globalThrottle q) = now"
    by (simp_all add: queue_ok_def throttle_ok_def)
  have "3 * Hour \<le> Sub now (msg_SentAt m)"
    using assms(2) by (simp add: queue_cutoff_def maxThrottle_value Sub_def)
  then have "Record H m (q_cmThrottle q) = Inr (q_cmThrottle q)" "Record H m (q_globalThrottle q) = Inr (q_globalThrottle q)"
    using per_cm.Record_old [OF c(1), of m H] global_cm.Record_old [OF c(2), of m H] c(3,4)
    by (simp_all add: PerCMThrottle_simps(2) global_rules(2))
  with assms(3) show ?thesis by (simp add: addSent_def Let_def)
qed

theorem expired_not_throttled_witness:
  "\<exists>q'. addSent sample_hashing (sample_msg ''c'' 0 (- 20000000000000)) sample_queue = Inr q'
     \<and> q_cmThrottle q' = q_cmThrottle sample_queue"
proof -
  have "msg_SentAt (sample_msg ''c'' 0 (- 20000000000000)) < queue_cutoff 100"
    "\<not> IsZero (msg_SentAt (sample_msg ''c'' 0 (- 20000000000000)))"
    by (simp_all add: sample_msg_def queue_cutoff_def maxThrottle_value IsZero_def time_zero_def)
  from expired_not_throttled [OF sample_newQueue this] show ?thesis by blast
qed

subsection \<open>A sample load\<close>

instantiation DestID_ext :: (linorder) linorder
begin

definition less_eq_DestID_ext :: "'a DestID_ext \<Rightarrow> 'a DestID_ext \<Rightarrow> bool" where
  "less_eq_DestID_ext x y \<longleftrightarrow>
     (did_CMID x, did_NCID x, DestID.more x) \<le> (did_CMID y, did_NCID y, DestID.more y)"

definition less_DestID_ext :: "'a DestID_ext \<Rightarrow> 'a DestID_ext \<Rightarrow> bool" where
  "less_DestID_ext x y \<longleftrightarrow>
     (did_CMID x, did_NCID x, DestID.more x) < (did_CMID y, did_NCID y, DestID.more y)"

instance
  by intro_classes (auto simp: less_eq_DestID_ext_def less_DestID_ext_def DestID.equality)

end

definition sample_row :: "string \<Rightarrow> instant \<Rightarrow> pending_row" where
  "sample_row i created =
     \<lparr>row_ID = i, row_MessageType = MessageTypeScheduleOnCallUsers, row_CmID = None, row_ChanID = Some ''chan'',
      row_Dest = Some \<lparr>dst_Args = None, dst_Type = ''slack''\<rparr>, row_AlertID = None, row_AlertLogID = None,
      row_UserVerificationCodeID = None, row_UserID = None, row_ServiceID = None, row_CreatedAt = created,
      row_SentAt = None, row_StatusAlertIds = [], row_ScheduleID = Some ''sched''\<rparr>"

definition sample_env :: msg_env where
  "sample_env =
     \<lparr>env_pending = (\<lambda>t. Inr [sample_row ''old'' 1, sample_row ''new'' 2]), env_delete = (\<lambda>ids. None),
      env_newBundle = (\<lambda>m. Inr ''bundle''), env_bundle = (\<lambda>p ids. None), env_sort = sort_by,
      env_ids = sorted_list_of_set, env_keys = sorted_list_of_set\<rparr>"

lemma sample_env_ok: "env_ok sample_env"
  by (simp add: env_ok_def sample_env_def is_sort_sort_by key_order_def)

lemma sample_currentQueue:
  "\<exists>q. currentQueue sample_hashing sample_env False 100 \<lparr>db_sentMessages = Map.empty, db_lastSent = time_zero\<rparr>
     = (Inr (Inr q), \<lparr>db_sentMessages = Map.empty, db_lastSent = 100\<rparr>, [DeleteAny [''old'']])"
proof -
  have l: "load_messages sample_env 100 \<lparr>db_sentMessages = Map.empty, db_lastSent = time_zero\<rparr>
      = Inr ([message_of_row (sample_row ''old'' 1), message_of_row (sample_row ''new'' 2)], \<lparr>db_sentMessages = Map.empty, db_lastSent = 100\<rparr>)"
    by (simp add: load_messages_def sample_env_def Let_def message_of_row_def sample_row_def or_zero_def IsZero_def)
  have o: "dedupOnCallNotifications sort_by [message_of_row (sample_row ''old'' 1), message_of_row (sample_row ''new'' 2)]
      = ([message_of_row (sample_row ''new'' 2)], [''old''])"
    by (simp add: dedupOnCallNotifications_def message_of_row_def sample_row_def or_zero_def IsZero_def created_after_def onCall_key_def)
  have t: "dedupStatusMessages sort_by [message_of_row (sample_row ''new'' 2)] = ([message_of_row (sample_row ''new'' 2)], [])"
    "dedupAlerts sort_by sorted_list_of_set (\<lambda>p ids. None) [message_of_row (sample_row ''new'' 2)] = (Inr [message_of_row (sample_row ''new'' 2)], [])"
    "bundleAlertMessages sort_by sorted_list_of_set (\<lambda>m. Inr ''bundle'') (\<lambda>p ids. None) [message_of_row (sample_row ''new'' 2)]
       = (Inr [message_of_row (sample_row ''new'' 2)], [])"
    by (simp_all add: dedupStatusMessages_def dedupAlerts_def bundleAlertMessages_def message_of_row_def sample_row_def or_zero_def
        IsZero_def message_types groups_of_def)
  obtain q where "newQueue sample_hashing [message_of_row (sample_row ''new'' 2)] 100 = Inr q"
    using newQueue_spec [of sample_hashing "[message_of_row (sample_row ''new'' 2)]" 100] by auto
  then show ?thesis unfolding currentQueue_def l
    by (simp add: sample_env_def o t run_delete_def)
qed


end
