(* ===== verification/CtxLock.thy ===== *)
theory CtxLock
  imports Prelude
begin

section \<open>Locks with a limit and a queue: ctxlock\<close>

text \<open>
  An \<open>IDLocker\<close> lets up to \<open>MaxHeld\<close> goroutines hold the lock of an ID and queues the others.  Its
  operations are modelled as the sections they run under the mutex; the goroutines interleave
  between them.  A goroutine that waits offers to send on its own channel; \<open>Unlock\<close> takes the first
  channel of the queue and, still holding the mutex, receives from it, which either meets the waiting
  goroutine or finds the channel closed by one that gave up.  A context may end at any time, by
  cancellation or by the timeout of the configuration.
\<close>

subsection \<open>The locker: config.go, idlocker.go, lock.go, unlock.go\<close>

record Config =
  cfg_MaxHeld :: int
  cfg_MaxWait :: int
  cfg_Timeout :: int

text \<open>The maps of the locker with their zero defaults; a channel is a number.\<close>

record 'k IDLocker =
  lk_cfg :: Config
  lk_count :: "'k \<Rightarrow> int"
  lk_queue :: "'k \<Rightarrow> nat list"

definition NewIDLocker :: "Config \<Rightarrow> 'k IDLocker outcome" where
  "NewIDLocker cfg =
     (let cfg = (if cfg_MaxHeld cfg = 0 then cfg\<lparr>cfg_MaxHeld := 1\<rparr> else cfg)
      in if cfg_MaxHeld cfg < 0 then Inl (Panic ''MaxHeld must be >= 0'')
         else Inr \<lparr>lk_cfg = cfg, lk_count = (\<lambda>k. 0), lk_queue = (\<lambda>k. [])\<rparr>)"

text \<open>\<open>Lock\<close> up to the point where it returns or waits on its channel \<open>ch\<close>.\<close>

datatype lock_result = LockAcquired | ErrQueueFull | LockQueued

definition Lock_enter :: "'k \<Rightarrow> nat \<Rightarrow> 'k IDLocker \<Rightarrow> lock_result \<times> 'k IDLocker" where
  "Lock_enter k ch l =
     (if lk_count l k < cfg_MaxHeld (lk_cfg l)
      then (LockAcquired, l\<lparr>lk_count := (lk_count l)(k := lk_count l k + 1)\<rparr>)
      else if cfg_MaxWait (lk_cfg l) \<noteq> -1 \<and> int (length (lk_queue l k)) \<ge> cfg_MaxWait (lk_cfg l)
      then (ErrQueueFull, l)
      else (LockQueued, l\<lparr>lk_queue := (lk_queue l)(k := lk_queue l k @ [ch])\<rparr>))"

text \<open>The clean-up of a \<open>Lock\<close> whose context ended, after it closed its channel.\<close>

definition Lock_abandon :: "'k \<Rightarrow> nat \<Rightarrow> 'k IDLocker \<Rightarrow> 'k IDLocker" where
  "Lock_abandon k ch l = l\<lparr>lk_queue := (lk_queue l)(k := remove1 ch (lk_queue l k))\<rparr>"

text \<open>
  One round of the loop of \<open>Unlock\<close> up to the receive: nobody waits and the count goes down
  (\<open>None\<close>), or the first channel of the queue is taken.
\<close>

definition Unlock_round :: "'k \<Rightarrow> 'k IDLocker \<Rightarrow> (nat option \<times> 'k IDLocker) outcome" where
  "Unlock_round k l =
     (case lk_queue l k of
        [] \<Rightarrow>
          (let n = lk_count l k - 1
           in if n < 0 then Inl (Panic ''count < 0'') else Inr (None, l\<lparr>lk_count := (lk_count l)(k := n)\<rparr>))
      | ch # rest \<Rightarrow> Inr (Some ch, l\<lparr>lk_queue := (lk_queue l)(k := rest)\<rparr>))"

subsection \<open>Goroutines\<close>

text \<open>
  Where a goroutine is: outside, waiting in \<open>select\<close>, between \<open>close(ch)\<close> and the clean-up, holding
  the lock, and in \<open>Unlock\<close> with the mutex, before a round or receiving.
\<close>

datatype 'k pc = Idle | Waiting 'k nat | Abandoning 'k nat | Holding 'k | Unlocking 'k | Receiving 'k nat

record 'k sys =
  sys_lk :: "'k IDLocker"
  sys_mx :: "nat option"
  sys_pc :: "nat \<Rightarrow> 'k pc"
  sys_closed :: "nat set"
  sys_fresh :: nat

definition sys_init :: "'k IDLocker \<Rightarrow> 'k sys" where
  "sys_init l = \<lparr>sys_lk = l, sys_mx = None, sys_pc = (\<lambda>g. Idle), sys_closed = {}, sys_fresh = 0\<rparr>"

abbreviation goto :: "nat \<Rightarrow> 'k pc \<Rightarrow> 'k sys \<Rightarrow> 'k sys" where
  "goto g p s \<equiv> s\<lparr>sys_pc := (sys_pc s)(g := p)\<rparr>"

inductive lock_step :: "'k sys \<Rightarrow> 'k sys \<Rightarrow> bool" where
  acquire: "sys_pc s g = Idle \<Longrightarrow> sys_mx s = None \<Longrightarrow> Lock_enter k (sys_fresh s) (sys_lk s) = (LockAcquired, l)
     \<Longrightarrow> lock_step s (goto g (Holding k) (s\<lparr>sys_lk := l\<rparr>))"
| full: "sys_pc s g = Idle \<Longrightarrow> sys_mx s = None \<Longrightarrow> Lock_enter k (sys_fresh s) (sys_lk s) = (ErrQueueFull, l)
     \<Longrightarrow> lock_step s (s\<lparr>sys_lk := l\<rparr>)"
| enqueue: "sys_pc s g = Idle \<Longrightarrow> sys_mx s = None \<Longrightarrow> Lock_enter k (sys_fresh s) (sys_lk s) = (LockQueued, l)
     \<Longrightarrow> lock_step s (goto g (Waiting k (sys_fresh s)) (s\<lparr>sys_lk := l, sys_fresh := sys_fresh s + 1\<rparr>))"
| give_up: "sys_pc s g = Waiting k ch
     \<Longrightarrow> lock_step s (goto g (Abandoning k ch) (s\<lparr>sys_closed := insert ch (sys_closed s)\<rparr>))"
| clean: "sys_pc s g = Abandoning k ch \<Longrightarrow> sys_mx s = None
     \<Longrightarrow> lock_step s (goto g Idle (s\<lparr>sys_lk := Lock_abandon k ch (sys_lk s)\<rparr>))"
| unlock: "sys_pc s g = Holding k \<Longrightarrow> sys_mx s = None
     \<Longrightarrow> lock_step s (goto g (Unlocking k) (s\<lparr>sys_mx := Some g\<rparr>))"
| release: "sys_pc s g = Unlocking k \<Longrightarrow> Unlock_round k (sys_lk s) = Inr (None, l)
     \<Longrightarrow> lock_step s (goto g Idle (s\<lparr>sys_mx := None, sys_lk := l\<rparr>))"
| take: "sys_pc s g = Unlocking k \<Longrightarrow> Unlock_round k (sys_lk s) = Inr (Some ch, l)
     \<Longrightarrow> lock_step s (goto g (Receiving k ch) (s\<lparr>sys_lk := l\<rparr>))"
| handover: "sys_pc s g = Receiving k ch \<Longrightarrow> sys_pc s w = Waiting k ch
     \<Longrightarrow> lock_step s (goto w (Holding k) (goto g Idle (s\<lparr>sys_mx := None\<rparr>)))"
| retry: "sys_pc s g = Receiving k ch \<Longrightarrow> ch \<in> sys_closed s
     \<Longrightarrow> lock_step s (goto g (Unlocking k) s)"

inductive lock_reach :: "'k sys \<Rightarrow> 'k sys \<Rightarrow> bool" for s where
  here: "lock_reach s s"
| there: "lock_reach s s1 \<Longrightarrow> lock_step s1 s2 \<Longrightarrow> lock_reach s s2"

text \<open>The ID a goroutine holds a lock of; it does until \<open>Unlock\<close> gave the lock back or away.\<close>

fun slot :: "'k pc \<Rightarrow> 'k option" where
  "slot (Holding k) = Some k"
| "slot (Unlocking k) = Some k"
| "slot (Receiving k ch) = Some k"
| "slot _ = None"

definition holders :: "'k sys \<Rightarrow> 'k \<Rightarrow> nat set" where
  "holders s k = {g. slot (sys_pc s g) = Some k}"

fun chan_of :: "'k pc \<Rightarrow> ('k \<times> nat) option" where
  "chan_of (Waiting k ch) = Some (k, ch)"
| "chan_of (Abandoning k ch) = Some (k, ch)"
| "chan_of _ = None"

fun in_unlock :: "'k pc \<Rightarrow> bool" where
  "in_unlock (Unlocking k) = True"
| "in_unlock (Receiving k ch) = True"
| "in_unlock _ = False"

subsection \<open>The invariant\<close>

text \<open>Counting: the count of an ID is the number of its holders and at most \<open>MaxHeld\<close>.\<close>

definition count_ok :: "'k sys \<Rightarrow> bool" where
  "count_ok s \<longleftrightarrow> finite {g. sys_pc s g \<noteq> Idle}
     \<and> (\<forall>k. int (card (holders s k)) = lk_count (sys_lk s) k) \<and> (\<forall>k. lk_count (sys_lk s) k \<le> cfg_MaxHeld (lk_cfg (sys_lk s)))"

lemma remove1_in: "x \<in> set (remove1 y xs) \<Longrightarrow> x \<in> set xs"
  by (rule subsetD [OF set_remove1_subset])

lemma remove1_nonempty: "remove1 y xs \<noteq> [] \<Longrightarrow> xs \<noteq> []"
  by auto

lemma holders_goto:
  "holders (s\<lparr>sys_pc := (sys_pc s)(g := p)\<rparr>) k = (if slot p = Some k then insert g (holders s k) else holders s k - {g})"
  by (auto simp: holders_def)

lemma holders_other [simp]:
  "holders (s\<lparr>sys_lk := l\<rparr>) = holders s" "holders (s\<lparr>sys_mx := m\<rparr>) = holders s"
  "holders (s\<lparr>sys_closed := c\<rparr>) = holders s" "holders (s\<lparr>sys_fresh := n\<rparr>) = holders s"
  by (auto simp: holders_def fun_eq_iff)

lemma holders_finite: "finite {g. sys_pc s g \<noteq> Idle} \<Longrightarrow> finite (holders s k)"
  by (rule finite_subset [of _ "{g. sys_pc s g \<noteq> Idle}"]) (auto simp: holders_def)

lemma busy_goto: "finite {h. sys_pc s h \<noteq> Idle} \<Longrightarrow> finite {h. ((sys_pc s)(g := p)) h \<noteq> Idle}"
  by (rule finite_subset [of _ "insert g {h. sys_pc s h \<noteq> Idle}"]) auto

lemma card_holders_goto:
  assumes "finite {h. sys_pc s h \<noteq> Idle}"
  shows "int (card (holders (s\<lparr>sys_pc := (sys_pc s)(g := p)\<rparr>) k))
    = int (card (holders s k)) + (if slot p = Some k then 1 else 0) - (if slot (sys_pc s g) = Some k then 1 else 0)"
proof -
  have f: "finite (holders s k)" by (rule holders_finite [OF assms])
  have m: "g \<in> holders s k \<longleftrightarrow> slot (sys_pc s g) = Some k" by (simp add: holders_def)
  have c: "0 < card (holders s k)" if "g \<in> holders s k" using that f by (auto simp: card_gt_0_iff)
  show ?thesis unfolding holders_goto using f m c
    by (cases "g \<in> holders s k") (simp_all add: card_insert_if of_nat_diff card_Diff_singleton_if)
qed

lemma count_ok_goto:
  assumes "count_ok s"
    and "\<And>k. lk_count l k = lk_count (sys_lk s) k + (if slot p = Some k then 1 else 0) - (if slot (sys_pc s g) = Some k then 1 else 0)"
    and "\<And>k. lk_count l k \<le> cfg_MaxHeld (lk_cfg (sys_lk s))" "lk_cfg l = lk_cfg (sys_lk s)"
  shows "count_ok (goto g p (s\<lparr>sys_lk := l\<rparr>))"
  using assms busy_goto [of s g p] card_holders_goto [of s g p] unfolding count_ok_def by (simp add: holders_def)

lemma Lock_enter_simps:
  "Lock_enter k ch l = (LockAcquired, l') \<longleftrightarrow> lk_count l k < cfg_MaxHeld (lk_cfg l) \<and> l' = l\<lparr>lk_count := (lk_count l)(k := lk_count l k + 1)\<rparr>"
  "Lock_enter k ch l = (ErrQueueFull, l') \<Longrightarrow> l' = l"
  "Lock_enter k ch l = (LockQueued, l') \<Longrightarrow> \<not> lk_count l k < cfg_MaxHeld (lk_cfg l) \<and> l' = l\<lparr>lk_queue := (lk_queue l)(k := lk_queue l k @ [ch])\<rparr>"
  by (auto simp: Lock_enter_def split: if_splits)

lemma Unlock_round_simps:
  "Unlock_round k l = Inr (None, l') \<longleftrightarrow> lk_queue l k = [] \<and> 0 < lk_count l k \<and> l' = l\<lparr>lk_count := (lk_count l)(k := lk_count l k - 1)\<rparr>"
  "Unlock_round k l = Inr (Some ch, l') \<longleftrightarrow> (\<exists>rest. lk_queue l k = ch # rest \<and> l' = l\<lparr>lk_queue := (lk_queue l)(k := rest)\<rparr>)"
  by (auto simp: Unlock_round_def Let_def split: list.splits if_splits)

lemma count_ok_pc:
  assumes "count_ok s" "slot p = slot (sys_pc s g)"
  shows "count_ok (goto g p s)"
  using count_ok_goto [OF assms(1), of "sys_lk s" p g] assms by (simp add: count_ok_def)

lemma count_ok_other [simp]:
  "count_ok (s\<lparr>sys_mx := m\<rparr>) = count_ok s" "count_ok (s\<lparr>sys_closed := c\<rparr>) = count_ok s" "count_ok (s\<lparr>sys_fresh := n\<rparr>) = count_ok s"
  by (simp_all add: count_ok_def)

lemma count_ok_lk:
  assumes "count_ok s" "lk_count l = lk_count (sys_lk s)" "lk_cfg l = lk_cfg (sys_lk s)"
  shows "count_ok (s\<lparr>sys_lk := l\<rparr>)"
  using assms by (simp add: count_ok_def)

lemma count_ok_handover:
  assumes "count_ok s" "sys_pc s g = Receiving k ch" "sys_pc s w = Waiting k ch"
  shows "count_ok (goto w (Holding k) (goto g Idle s))"
proof -
  let ?s = "goto g Idle s"
  have f: "finite {h. sys_pc s h \<noteq> Idle}" using assms(1) by (simp add: count_ok_def)
  have ne: "w \<noteq> g" using assms by auto
  have f': "finite {h. sys_pc ?s h \<noteq> Idle}" using busy_goto [OF f, of g Idle] by simp
  have "int (card (holders (goto w (Holding k) ?s) j)) = int (card (holders s j))" for j
    using card_holders_goto [OF f', of w "Holding k" j] card_holders_goto [OF f, of g Idle j] ne assms(2,3) by simp
  then show ?thesis using assms(1) busy_goto [OF f', of w "Holding k"] unfolding count_ok_def by simp
qed

lemma count_ok_step:
  assumes "lock_step s s'" "count_ok s"
  shows "count_ok s'"
  using assms
proof (induction rule: lock_step.induct)
  case (acquire s g k l)
  then have l: "lk_count (sys_lk s) k < cfg_MaxHeld (lk_cfg (sys_lk s))"
    "l = (sys_lk s)\<lparr>lk_count := (lk_count (sys_lk s))(k := lk_count (sys_lk s) k + 1)\<rparr>"
    by (auto simp: Lock_enter_simps)
  show ?case by (rule count_ok_goto [OF acquire.prems]) (use l acquire.prems acquire.hyps(1) in \<open>auto simp: count_ok_def\<close>)
next
  case (full s g k l)
  then show ?case by (auto dest: Lock_enter_simps(2))
next
  case (enqueue s g k l)
  from Lock_enter_simps(3) [OF enqueue.hyps(3)] have "lk_count l = lk_count (sys_lk s)" "lk_cfg l = lk_cfg (sys_lk s)" by auto
  then have "count_ok (s\<lparr>sys_lk := l, sys_fresh := sys_fresh s + 1\<rparr>)" using count_ok_lk [OF enqueue.prems] by simp
  from count_ok_pc [OF this, of "Waiting k (sys_fresh s)" g] enqueue.hyps(1) show ?case by simp
next
  case (give_up s g k ch)
  then show ?case using count_ok_pc [of "s\<lparr>sys_closed := insert ch (sys_closed s)\<rparr>" "Abandoning k ch" g] by simp
next
  case (clean s g k ch)
  have "count_ok (s\<lparr>sys_lk := Lock_abandon k ch (sys_lk s)\<rparr>)"
    by (rule count_ok_lk [OF clean.prems]) (simp_all add: Lock_abandon_def)
  from count_ok_pc [OF this, of Idle g] clean.hyps(1) show ?case by simp
next
  case (unlock s g k)
  then show ?case using count_ok_pc [of "s\<lparr>sys_mx := Some g\<rparr>" "Unlocking k" g] by simp
next
  case (release s g k l)
  then have l: "l = (sys_lk s)\<lparr>lk_count := (lk_count (sys_lk s))(k := lk_count (sys_lk s) k - 1)\<rparr>"
    by (simp add: Unlock_round_simps)
  have c: "lk_count (sys_lk s) j \<le> cfg_MaxHeld (lk_cfg (sys_lk s))" for j using release.prems by (simp add: count_ok_def)
  have c1: "lk_count (sys_lk s) k - 1 \<le> cfg_MaxHeld (lk_cfg (sys_lk s))" using c [of k] by linarith
  show ?case
    by (rule count_ok_goto [of "s\<lparr>sys_mx := None\<rparr>" l Idle g]) (use l c c1 release.hyps(1) release.prems in auto)
next
  case (take s g k ch l)
  then have "lk_count l = lk_count (sys_lk s)" "lk_cfg l = lk_cfg (sys_lk s)" by (auto simp: Unlock_round_simps)
  from count_ok_lk [OF take.prems this] have "count_ok (s\<lparr>sys_lk := l\<rparr>)" .
  from count_ok_pc [OF this, of "Receiving k ch" g] take.hyps(1) show ?case by simp
next
  case (handover s g k ch w)
  then show ?case using count_ok_handover [of "s\<lparr>sys_mx := None\<rparr>" g k ch w] by simp
next
  case (retry s g k ch)
  then show ?case using count_ok_pc [of s "Unlocking k" g] by simp
qed

text \<open>The parts of the queueing invariant, each kept by every step.\<close>

definition mx_inv :: "'k sys \<Rightarrow> bool" where
  "mx_inv s \<longleftrightarrow> (\<forall>g. in_unlock (sys_pc s g) \<longleftrightarrow> sys_mx s = Some g)"

definition chan_inv :: "'k sys \<Rightarrow> bool" where
  "chan_inv s \<longleftrightarrow>
     (\<forall>g h i j ch. chan_of (sys_pc s g) = Some (i, ch) \<longrightarrow> chan_of (sys_pc s h) = Some (j, ch) \<longrightarrow> g = h)
     \<and> (\<forall>g k ch. chan_of (sys_pc s g) = Some (k, ch) \<longrightarrow> ch < sys_fresh s)
     \<and> (\<forall>g k ch. sys_pc s g = Receiving k ch \<longrightarrow> ch < sys_fresh s)
     \<and> (\<forall>k. \<forall>ch \<in> set (lk_queue (sys_lk s) k). ch < sys_fresh s)
     \<and> (\<forall>ch \<in> sys_closed s. ch < sys_fresh s)
     \<and> (\<forall>g k ch. sys_pc s g = Abandoning k ch \<longrightarrow> ch \<in> sys_closed s)
     \<and> (\<forall>g k ch. sys_pc s g = Waiting k ch \<longrightarrow> ch \<notin> sys_closed s)"

lemma mx_inv_step: "lock_step s s' \<Longrightarrow> mx_inv s \<Longrightarrow> mx_inv s'"
proof (induction rule: lock_step.induct)
  case (release s g k l)
  then have "sys_mx s = Some g" by (simp add: mx_inv_def) (metis in_unlock.simps(1))
  with release show ?case by (auto simp: mx_inv_def)
next
  case (take s g k ch l)
  then have "sys_mx s = Some g" by (simp add: mx_inv_def) (metis in_unlock.simps(1))
  with take show ?case by (auto simp: mx_inv_def)
next
  case (handover s g k ch w)
  then have "sys_mx s = Some g" by (simp add: mx_inv_def) (metis in_unlock.simps(2))
  with handover show ?case by (auto simp: mx_inv_def)
next
  case (retry s g k ch)
  then have "sys_mx s = Some g" by (simp add: mx_inv_def) (metis in_unlock.simps(2))
  with retry show ?case by (auto simp: mx_inv_def)
next
  case (give_up s g k ch)
  then have "sys_mx s \<noteq> Some g" by (simp add: mx_inv_def) (metis in_unlock.simps(4))
  with give_up show ?case by (auto simp: mx_inv_def)
qed (auto simp: mx_inv_def)

lemma chan_inv_step: "lock_step s s' \<Longrightarrow> chan_inv s \<Longrightarrow> chan_inv s'"
proof (induction rule: lock_step.induct)
  case (acquire s g k l)
  then show ?case by (auto simp: chan_inv_def Lock_enter_simps)
next
  case (full s g k l)
  then show ?case by (auto simp: chan_inv_def dest: Lock_enter_simps(2))
next
  case (enqueue s g k l)
  then show ?case by (fastforce simp: chan_inv_def dest!: Lock_enter_simps(3))
next
  case (give_up s g k ch)
  have c: "chan_of (if h = g then Abandoning k ch else sys_pc s h) = chan_of (sys_pc s h)" for h
    using give_up.hyps by simp
  have g: "chan_of (sys_pc s g) = Some (k, ch)" using give_up.hyps by simp
  then have "ch < sys_fresh s" using give_up.prems unfolding chan_inv_def by blast
  moreover have "h = g" if "sys_pc s h = Waiting j ch" for h j
  proof -
    from that have "chan_of (sys_pc s h) = Some (j, ch)" by simp
    with g give_up.prems show ?thesis unfolding chan_inv_def by blast
  qed
  ultimately show ?case using give_up.prems unfolding chan_inv_def
    by (auto simp: c)
next
  case (clean s g k ch)
  then show ?case unfolding chan_inv_def Lock_abandon_def by (auto dest: remove1_in split: if_splits)
next
  case (unlock s g k)
  then show ?case by (auto simp: chan_inv_def)
next
  case (release s g k l)
  then show ?case by (auto simp: chan_inv_def Unlock_round_simps)
next
  case (take s g k ch l)
  then obtain rest where q: "lk_queue (sys_lk s) k = ch # rest" "l = (sys_lk s)\<lparr>lk_queue := (lk_queue (sys_lk s))(k := rest)\<rparr>"
    by (auto simp: Unlock_round_simps)
  have lt: "c < sys_fresh s" if "c \<in> set (lk_queue (sys_lk s) j)" for c j
    using that take.prems unfolding chan_inv_def by blast
  have "ch < sys_fresh s" "\<forall>c \<in> set rest. c < sys_fresh s" using lt [of _ k] q(1) by auto
  with q(2) take show ?case unfolding chan_inv_def by auto
next
  case (handover s g k ch w)
  then show ?case by (auto simp: chan_inv_def)
next
  case (retry s g k ch)
  then show ?case by (auto simp: chan_inv_def)
qed

definition full_inv :: "'k sys \<Rightarrow> bool" where
  "full_inv s \<longleftrightarrow>
     (\<forall>k. lk_queue (sys_lk s) k \<noteq> [] \<longrightarrow> lk_count (sys_lk s) k = cfg_MaxHeld (lk_cfg (sys_lk s)))
     \<and> (\<forall>g k ch. sys_pc s g = Receiving k ch \<longrightarrow> lk_count (sys_lk s) k = cfg_MaxHeld (lk_cfg (sys_lk s)))"

definition wait_inv :: "'k sys \<Rightarrow> bool" where
  "wait_inv s \<longleftrightarrow>
     (\<forall>k. distinct (lk_queue (sys_lk s) k))
     \<and> (\<forall>k. \<forall>ch \<in> set (lk_queue (sys_lk s) k). \<exists>g. chan_of (sys_pc s g) = Some (k, ch))
     \<and> (\<forall>g k ch. sys_pc s g = Waiting k ch \<longrightarrow> ch \<in> set (lk_queue (sys_lk s) k) \<or> (\<exists>h. sys_pc s h = Receiving k ch))
     \<and> (\<forall>g k ch. sys_pc s g = Receiving k ch \<longrightarrow> ch \<notin> set (lk_queue (sys_lk s) k)
          \<and> (ch \<in> sys_closed s \<or> (\<exists>w. sys_pc s w = Waiting k ch)))"

lemma mx_one:
  assumes "mx_inv s" "in_unlock (sys_pc s g)" "in_unlock (sys_pc s h)"
  shows "h = g"
  using assms by (simp add: mx_inv_def)

lemma mx_none: "mx_inv s \<Longrightarrow> sys_mx s = None \<Longrightarrow> \<not> in_unlock (sys_pc s g)"
  by (simp add: mx_inv_def)

lemma receiving_in_unlock: "sys_pc s g = Receiving k ch \<Longrightarrow> in_unlock (sys_pc s g)"
  by simp

lemma full_inv_step:
  assumes "lock_step s s'" "full_inv s" "mx_inv s" "count_ok s"
  shows "full_inv s'"
  using assms
proof (induction rule: lock_step.induct)
  case (acquire s g k l)
  then have "lk_queue (sys_lk s) k = []" by (auto simp: full_inv_def Lock_enter_simps)
  with acquire mx_none [OF acquire.prems(2)] show ?case
    by (auto simp: full_inv_def Lock_enter_simps dest: receiving_in_unlock)
next
  case (full s g k l)
  then show ?case by (auto dest: Lock_enter_simps(2))
next
  case (enqueue s g k l)
  from Lock_enter_simps(3) [OF enqueue.hyps(3)] have l: "\<not> lk_count (sys_lk s) k < cfg_MaxHeld (lk_cfg (sys_lk s))"
    "l = (sys_lk s)\<lparr>lk_queue := (lk_queue (sys_lk s))(k := lk_queue (sys_lk s) k @ [sys_fresh s])\<rparr>" by auto
  have "lk_count (sys_lk s) k \<le> cfg_MaxHeld (lk_cfg (sys_lk s))" using enqueue.prems(3) by (simp add: count_ok_def)
  with l enqueue.prems(1) show ?case by (auto simp: full_inv_def)
next
  case (clean s g k ch)
  then show ?case by (auto simp: full_inv_def Lock_abandon_def dest: remove1_nonempty)
next
  case (release s g k l)
  have u: "in_unlock (sys_pc s g)" using release.hyps(1) by simp
  have "sys_pc s h \<noteq> Receiving j ch" for h j ch
    using mx_one [OF release.prems(2) u, of h] release.hyps(1) by (metis pc.distinct(29) receiving_in_unlock)
  with release show ?case by (auto simp: full_inv_def Unlock_round_simps)
next
  case (take s g k ch l)
  then obtain rest where q: "lk_queue (sys_lk s) k = ch # rest" "l = (sys_lk s)\<lparr>lk_queue := (lk_queue (sys_lk s))(k := rest)\<rparr>"
    by (auto simp: Unlock_round_simps)
  then have "lk_queue (sys_lk s) k \<noteq> []" by simp
  then have "lk_count (sys_lk s) k = cfg_MaxHeld (lk_cfg (sys_lk s))" using take.prems(1) unfolding full_inv_def by blast
  with q take.prems(1) show ?case unfolding full_inv_def by simp
qed (auto simp: full_inv_def)

lemma chan_unique:
  assumes "chan_inv s" "chan_of (sys_pc s g) = Some (i, ch)" "chan_of (sys_pc s h) = Some (j, ch)"
  shows "h = g" and "j = i"
proof -
  show hg: "h = g" using assms unfolding chan_inv_def by blast
  from assms(2,3) show "j = i" unfolding hg by simp
qed

lemma wait_invI:
  assumes "\<And>k. distinct (lk_queue (sys_lk s) k)"
    and "\<And>k ch. ch \<in> set (lk_queue (sys_lk s) k) \<Longrightarrow> \<exists>g. chan_of (sys_pc s g) = Some (k, ch)"
    and "\<And>g k ch. sys_pc s g = Waiting k ch \<Longrightarrow> ch \<in> set (lk_queue (sys_lk s) k) \<or> (\<exists>h. sys_pc s h = Receiving k ch)"
    and "\<And>g k ch. sys_pc s g = Receiving k ch \<Longrightarrow> ch \<notin> set (lk_queue (sys_lk s) k) \<and> (ch \<in> sys_closed s \<or> (\<exists>w. sys_pc s w = Waiting k ch))"
  shows "wait_inv s"
  unfolding wait_inv_def using assms by blast

lemma wait_invD:
  assumes "wait_inv s"
  shows "distinct (lk_queue (sys_lk s) k)"
    and "ch \<in> set (lk_queue (sys_lk s) k) \<Longrightarrow> \<exists>g. chan_of (sys_pc s g) = Some (k, ch)"
    and "sys_pc s g = Waiting k ch \<Longrightarrow> ch \<in> set (lk_queue (sys_lk s) k) \<or> (\<exists>h. sys_pc s h = Receiving k ch)"
    and "sys_pc s g = Receiving k ch \<Longrightarrow> ch \<notin> set (lk_queue (sys_lk s) k)"
    and "sys_pc s g = Receiving k ch \<Longrightarrow> ch \<in> sys_closed s \<or> (\<exists>w. sys_pc s w = Waiting k ch)"
  using assms unfolding wait_inv_def by blast+

text \<open>Steps that neither touch the queue nor start or end a wait or a receive.\<close>

lemma wait_inv_frame:
  assumes "wait_inv s" "lk_queue (sys_lk s') = lk_queue (sys_lk s)" "sys_closed s \<subseteq> sys_closed s'"
    and "\<And>h. chan_of (sys_pc s' h) = chan_of (sys_pc s h)"
    and "\<And>h k ch. sys_pc s' h = Waiting k ch \<Longrightarrow> sys_pc s h = Waiting k ch"
    and "\<And>h k ch. sys_pc s' h = Receiving k ch \<longleftrightarrow> sys_pc s h = Receiving k ch"
    and "\<And>h k ch. sys_pc s h = Waiting k ch \<Longrightarrow> sys_pc s' h = Waiting k ch \<or> ch \<in> sys_closed s'"
  shows "wait_inv s'"
proof (rule wait_invI)
  fix g k ch assume r: "sys_pc s' g = Receiving k ch"
  then have r0: "sys_pc s g = Receiving k ch" by (simp add: assms(6))
  show "ch \<notin> set (lk_queue (sys_lk s') k) \<and> (ch \<in> sys_closed s' \<or> (\<exists>w. sys_pc s' w = Waiting k ch))"
    using wait_invD(4,5) [OF assms(1) r0] assms(2) assms(3) assms(7) by (metis subsetD)
next
  fix g k ch assume "sys_pc s' g = Waiting k ch"
  then have "sys_pc s g = Waiting k ch" by (rule assms(5))
  from wait_invD(3) [OF assms(1) this]
  show "ch \<in> set (lk_queue (sys_lk s') k) \<or> (\<exists>h. sys_pc s' h = Receiving k ch)" by (simp add: assms(2,6))
qed (use wait_invD(1,2) [OF assms(1)] in \<open>simp_all add: assms(2,4)\<close>)

lemma wait_inv_enqueue:
  assumes "wait_inv s" "chan_inv s" "mx_inv s" "sys_mx s = None" "sys_pc s g = Idle"
    and "lk_queue l = (lk_queue (sys_lk s))(k := lk_queue (sys_lk s) k @ [sys_fresh s])"
  shows "wait_inv (goto g (Waiting k (sys_fresh s)) (s\<lparr>sys_lk := l, sys_fresh := sys_fresh s + 1\<rparr>))"
proof (rule wait_invI)
  have nr: "sys_pc s h \<noteq> Receiving j c" for h j c using mx_none [OF assms(3,4), of h] by auto
  have fr: "sys_fresh s \<notin> set (lk_queue (sys_lk s) j)" for j using assms(2) unfolding chan_inv_def by blast
  fix j
  show "distinct (lk_queue (sys_lk (goto g (Waiting k (sys_fresh s)) (s\<lparr>sys_lk := l, sys_fresh := sys_fresh s + 1\<rparr>))) j)"
    using wait_invD(1) [OF assms(1)] fr by (simp add: assms(6))
  fix c
  show "\<exists>h. chan_of (sys_pc (goto g (Waiting k (sys_fresh s)) (s\<lparr>sys_lk := l, sys_fresh := sys_fresh s + 1\<rparr>)) h) = Some (j, c)"
    if "c \<in> set (lk_queue (sys_lk (goto g (Waiting k (sys_fresh s)) (s\<lparr>sys_lk := l, sys_fresh := sys_fresh s + 1\<rparr>))) j)"
  proof (cases "c = sys_fresh s \<and> j = k")
    case True
    then show ?thesis by (intro exI [of _ g]) simp
  next
    case False
    with that fr [of j] have "c \<in> set (lk_queue (sys_lk s) j)" by (auto simp: assms(6) split: if_splits)
    from wait_invD(2) [OF assms(1) this] obtain h where h: "chan_of (sys_pc s h) = Some (j, c)" ..
    then have "h \<noteq> g" using assms(5) by auto
    with h show ?thesis by (intro exI [of _ h]) simp
  qed
  fix h
  show "c \<in> set (lk_queue (sys_lk (goto g (Waiting k (sys_fresh s)) (s\<lparr>sys_lk := l, sys_fresh := sys_fresh s + 1\<rparr>))) j)
      \<or> (\<exists>h. sys_pc (goto g (Waiting k (sys_fresh s)) (s\<lparr>sys_lk := l, sys_fresh := sys_fresh s + 1\<rparr>)) h = Receiving j c)"
    if "sys_pc (goto g (Waiting k (sys_fresh s)) (s\<lparr>sys_lk := l, sys_fresh := sys_fresh s + 1\<rparr>)) h = Waiting j c"
    using that wait_invD(3) [OF assms(1), of h j c] nr by (auto simp: assms(6) split: if_splits)
  show "c \<notin> set (lk_queue (sys_lk (goto g (Waiting k (sys_fresh s)) (s\<lparr>sys_lk := l, sys_fresh := sys_fresh s + 1\<rparr>))) j)
      \<and> (c \<in> sys_closed (goto g (Waiting k (sys_fresh s)) (s\<lparr>sys_lk := l, sys_fresh := sys_fresh s + 1\<rparr>))
        \<or> (\<exists>w. sys_pc (goto g (Waiting k (sys_fresh s)) (s\<lparr>sys_lk := l, sys_fresh := sys_fresh s + 1\<rparr>)) w = Waiting j c))"
    if "sys_pc (goto g (Waiting k (sys_fresh s)) (s\<lparr>sys_lk := l, sys_fresh := sys_fresh s + 1\<rparr>)) h = Receiving j c"
    using that nr by (simp split: if_splits)
qed

lemma wait_inv_clean:
  assumes "wait_inv s" "chan_inv s" "mx_inv s" "sys_mx s = None" and g: "sys_pc s g = Abandoning k ch"
  shows "wait_inv (goto g Idle (s\<lparr>sys_lk := Lock_abandon k ch (sys_lk s)\<rparr>))" (is "wait_inv ?s")
proof (rule wait_invI)
  have c: "chan_of (sys_pc s g) = Some (k, ch)" using g by simp
  have nr: "sys_pc s h \<noteq> Receiving j c" for h j c using mx_none [OF assms(3,4), of h] by auto
  have q: "lk_queue (sys_lk ?s) = (lk_queue (sys_lk s))(k := remove1 ch (lk_queue (sys_lk s) k))"
    by (simp add: Lock_abandon_def)
  fix j
  show "distinct (lk_queue (sys_lk ?s) j)" using wait_invD(1) [OF assms(1)] unfolding q by simp
  fix c'
  show "\<exists>h. chan_of (sys_pc ?s h) = Some (j, c')" if "c' \<in> set (lk_queue (sys_lk ?s) j)"
  proof -
    have "c' \<in> set (lk_queue (sys_lk s) j)" and n: "j = k \<longrightarrow> c' \<noteq> ch"
      using that wait_invD(1) [OF assms(1), of k] unfolding q by (auto split: if_splits)
    from wait_invD(2) [OF assms(1) this(1)] obtain h where h: "chan_of (sys_pc s h) = Some (j, c')" ..
    then have "h \<noteq> g" using c n by auto
    with h show ?thesis by (intro exI [of _ h]) simp
  qed
  fix h
  show "c' \<in> set (lk_queue (sys_lk ?s) j) \<or> (\<exists>h. sys_pc ?s h = Receiving j c')" if "sys_pc ?s h = Waiting j c'"
  proof -
    have w: "sys_pc s h = Waiting j c'" "h \<noteq> g" using that by (simp_all split: if_splits)
    then have "c' \<noteq> ch" using chan_unique(1) [OF assms(2) c, of h j] by auto
    then show ?thesis using wait_invD(3) [OF assms(1) w(1)] nr unfolding q by auto
  qed
  show "c' \<notin> set (lk_queue (sys_lk ?s) j) \<and> (c' \<in> sys_closed ?s \<or> (\<exists>w. sys_pc ?s w = Waiting j c'))"
    if "sys_pc ?s h = Receiving j c'"
    using that nr by (simp split: if_splits)
qed

lemma wait_inv_take:
  assumes "wait_inv s" "chan_inv s" "mx_inv s" and g: "sys_pc s g = Unlocking k"
    and q: "lk_queue (sys_lk s) k = ch # rest" "lk_queue l = (lk_queue (sys_lk s))(k := rest)"
  shows "wait_inv (goto g (Receiving k ch) (s\<lparr>sys_lk := l\<rparr>))" (is "wait_inv ?s")
proof (rule wait_invI)
  have only: "h = g" if "sys_pc s h = Receiving j c" for h j c
    using mx_one [OF assms(3), of g h] g that by simp
  have nr: "sys_pc s h \<noteq> Receiving j c" for h j c using only [of h j c] g by auto
  have d: "distinct (ch # rest)" using wait_invD(1) [OF assms(1), of k] q(1) by simp
  fix j
  show "distinct (lk_queue (sys_lk ?s) j)" using wait_invD(1) [OF assms(1)] d by (simp add: q(2))
  fix c
  show "\<exists>h. chan_of (sys_pc ?s h) = Some (j, c)" if "c \<in> set (lk_queue (sys_lk ?s) j)"
  proof -
    have "c \<in> set (lk_queue (sys_lk s) j)" using that q by (auto split: if_splits)
    from wait_invD(2) [OF assms(1) this] obtain h where h: "chan_of (sys_pc s h) = Some (j, c)" ..
    then have "h \<noteq> g" using g by auto
    with h show ?thesis by (intro exI [of _ h]) simp
  qed
  fix h
  show "c \<in> set (lk_queue (sys_lk ?s) j) \<or> (\<exists>h. sys_pc ?s h = Receiving j c)" if "sys_pc ?s h = Waiting j c"
  proof -
    have "sys_pc s h = Waiting j c" using that by (simp split: if_splits)
    from wait_invD(3) [OF assms(1) this] nr have "c \<in> set (lk_queue (sys_lk s) j)" by blast
    then have "c \<in> set (lk_queue (sys_lk ?s) j) \<or> j = k \<and> c = ch" using q by (cases "j = k") auto
    then show ?thesis by auto
  qed
  show "c \<notin> set (lk_queue (sys_lk ?s) j) \<and> (c \<in> sys_closed ?s \<or> (\<exists>w. sys_pc ?s w = Waiting j c))"
    if "sys_pc ?s h = Receiving j c"
  proof -
    have e: "j = k" "c = ch" using that nr by (auto split: if_splits)
    from wait_invD(2) [OF assms(1), of ch k] q(1) obtain w where w: "chan_of (sys_pc s w) = Some (k, ch)" by auto
    then have "w \<noteq> g" using g by auto
    from w consider "sys_pc s w = Waiting k ch" | "sys_pc s w = Abandoning k ch" by (cases "sys_pc s w") auto
    then have "ch \<in> sys_closed s \<or> sys_pc s w = Waiting k ch" using assms(2) unfolding chan_inv_def by cases blast+
    with \<open>w \<noteq> g\<close> d e show ?thesis by (auto simp: q(2))
  qed
qed

lemma wait_inv_handover:
  assumes "wait_inv s" "chan_inv s" "mx_inv s" and g: "sys_pc s g = Receiving k ch" and w: "sys_pc s w = Waiting k ch"
  shows "wait_inv (goto w (Holding k) (goto g Idle (s\<lparr>sys_mx := None\<rparr>)))" (is "wait_inv ?s")
proof (rule wait_invI)
  have only: "h = g" if "sys_pc s h = Receiving j c" for h j c
    using mx_one [OF assms(3), of g h] g that by simp
  have cw: "chan_of (sys_pc s w) = Some (k, ch)" using w by simp
  fix j
  show "distinct (lk_queue (sys_lk ?s) j)" using wait_invD(1) [OF assms(1)] by simp
  fix c
  show "\<exists>h. chan_of (sys_pc ?s h) = Some (j, c)" if "c \<in> set (lk_queue (sys_lk ?s) j)"
  proof -
    have c: "c \<in> set (lk_queue (sys_lk s) j)" using that by simp
    from wait_invD(2) [OF assms(1) c] obtain h where h: "chan_of (sys_pc s h) = Some (j, c)" ..
    have "h \<noteq> w"
    proof
      assume "h = w"
      with h cw have "j = k" "c = ch" by auto
      with c wait_invD(4) [OF assms(1) g] show False by simp
    qed
    moreover have "h \<noteq> g" using h g by auto
    ultimately show ?thesis using h by (intro exI [of _ h]) simp
  qed
  fix h
  show "c \<in> set (lk_queue (sys_lk ?s) j) \<or> (\<exists>h. sys_pc ?s h = Receiving j c)" if "sys_pc ?s h = Waiting j c"
  proof -
    have h: "sys_pc s h = Waiting j c" "h \<noteq> w" using that by (simp_all split: if_splits)
    then have ne: "\<not> (j = k \<and> c = ch)" using chan_unique(1) [OF assms(2) cw, of h j] by auto
    have "sys_pc s r \<noteq> Receiving j c" for r using only [of r j c] g ne by auto
    with wait_invD(3) [OF assms(1) h(1)] show ?thesis by simp
  qed
  show "c \<notin> set (lk_queue (sys_lk ?s) j) \<and> (c \<in> sys_closed ?s \<or> (\<exists>w. sys_pc ?s w = Waiting j c))"
    if "sys_pc ?s h = Receiving j c"
    using that only [of h j c] by (auto split: if_splits)
qed

lemma wait_inv_retry:
  assumes "wait_inv s" "chan_inv s" "mx_inv s" and g: "sys_pc s g = Receiving k ch" and cl: "ch \<in> sys_closed s"
  shows "wait_inv (goto g (Unlocking k) s)" (is "wait_inv ?s")
proof (rule wait_invI)
  have only: "h = g" if "sys_pc s h = Receiving j c" for h j c
    using mx_one [OF assms(3), of g h] g that by simp
  fix j
  show "distinct (lk_queue (sys_lk ?s) j)" using wait_invD(1) [OF assms(1)] by simp
  fix c
  show "\<exists>h. chan_of (sys_pc ?s h) = Some (j, c)" if "c \<in> set (lk_queue (sys_lk ?s) j)"
  proof -
    have "c \<in> set (lk_queue (sys_lk s) j)" using that by simp
    from wait_invD(2) [OF assms(1) this] obtain h where h: "chan_of (sys_pc s h) = Some (j, c)" ..
    then have "h \<noteq> g" using g by auto
    with h show ?thesis by (intro exI [of _ h]) simp
  qed
  fix h
  show "c \<in> set (lk_queue (sys_lk ?s) j) \<or> (\<exists>h. sys_pc ?s h = Receiving j c)" if "sys_pc ?s h = Waiting j c"
  proof -
    have h: "sys_pc s h = Waiting j c" using that by (simp split: if_splits)
    then have "c \<notin> sys_closed s" using assms(2) unfolding chan_inv_def by blast
    then have "sys_pc s r \<noteq> Receiving j c" for r using only [of r j c] g cl by auto
    with wait_invD(3) [OF assms(1) h] show ?thesis by simp
  qed
  show "c \<notin> set (lk_queue (sys_lk ?s) j) \<and> (c \<in> sys_closed ?s \<or> (\<exists>w. sys_pc ?s w = Waiting j c))"
    if "sys_pc ?s h = Receiving j c"
    using that only [of h j c] by (auto split: if_splits)
qed

lemma wait_inv_step:
  assumes "lock_step s s'" "wait_inv s" "mx_inv s" "chan_inv s"
  shows "wait_inv s'"
  using assms
proof (induction rule: lock_step.induct)
  case (acquire s g k l)
  show ?case by (rule wait_inv_frame [OF acquire.prems(1)]) (use acquire.hyps in \<open>auto simp: Lock_enter_simps split: if_splits\<close>)
next
  case (full s g k l)
  then show ?case by (auto dest: Lock_enter_simps(2))
next
  case (enqueue s g k l)
  from Lock_enter_simps(3) [OF enqueue.hyps(3)]
  have "lk_queue l = (lk_queue (sys_lk s))(k := lk_queue (sys_lk s) k @ [sys_fresh s])" by auto
  then show ?case using enqueue by (intro wait_inv_enqueue) auto
next
  case (give_up s g k ch)
  show ?case by (rule wait_inv_frame [OF give_up.prems(1)]) (use give_up.hyps in \<open>auto split: if_splits\<close>)
next
  case (clean s g k ch)
  then show ?case by (intro wait_inv_clean)
next
  case (unlock s g k)
  show ?case by (rule wait_inv_frame [OF unlock.prems(1)]) (use unlock.hyps in \<open>auto split: if_splits\<close>)
next
  case (release s g k l)
  show ?case by (rule wait_inv_frame [OF release.prems(1)]) (use release.hyps in \<open>auto simp: Unlock_round_simps split: if_splits\<close>)
next
  case (take s g k ch l)
  then obtain rest where q: "lk_queue (sys_lk s) k = ch # rest" "lk_queue l = (lk_queue (sys_lk s))(k := rest)"
    by (auto simp: Unlock_round_simps)
  show ?case by (rule wait_inv_take [OF take.prems(1,3,2) take.hyps(1) q])
next
  case (handover s g k ch w)
  then show ?case by (intro wait_inv_handover)
next
  case (retry s g k ch)
  then show ?case by (intro wait_inv_retry)
qed

definition len_inv :: "'k sys \<Rightarrow> bool" where
  "len_inv s \<longleftrightarrow> cfg_MaxWait (lk_cfg (sys_lk s)) \<noteq> -1 \<longrightarrow>
     (\<forall>k. int (length (lk_queue (sys_lk s) k)) \<le> max 0 (cfg_MaxWait (lk_cfg (sys_lk s))))"

lemma len_inv_step: "lock_step s s' \<Longrightarrow> len_inv s \<Longrightarrow> len_inv s'"
proof (induction rule: lock_step.induct)
  case (enqueue s g k l)
  have l: "l = (sys_lk s)\<lparr>lk_queue := (lk_queue (sys_lk s))(k := lk_queue (sys_lk s) k @ [sys_fresh s])\<rparr>"
    "cfg_MaxWait (lk_cfg (sys_lk s)) = -1 \<or> int (length (lk_queue (sys_lk s) k)) < cfg_MaxWait (lk_cfg (sys_lk s))"
    using enqueue.hyps(3) by (auto simp: Lock_enter_def split: if_splits)
  show ?case using enqueue.prems l(2) unfolding len_inv_def l(1) by auto
next
  case (clean s g k ch)
  have "length (remove1 ch xs) \<le> length xs" for xs by (simp add: length_remove1)
  with clean.prems show ?case unfolding len_inv_def Lock_abandon_def by (auto intro: order.trans [OF of_nat_mono])
next
  case (take s g k ch l)
  then obtain rest where q: "lk_queue (sys_lk s) k = ch # rest" "l = (sys_lk s)\<lparr>lk_queue := (lk_queue (sys_lk s))(k := rest)\<rparr>"
    by (auto simp: Unlock_round_simps)
  have "int (length rest) \<le> max 0 (cfg_MaxWait (lk_cfg (sys_lk s)))" if "cfg_MaxWait (lk_cfg (sys_lk s)) \<noteq> -1"
    using take.prems that unfolding len_inv_def by (auto dest: spec [of _ k] simp: q(1))
  with take.prems q(2) show ?case unfolding len_inv_def by auto
qed (auto simp: len_inv_def Lock_enter_simps Unlock_round_simps dest: Lock_enter_simps(2))

definition lock_inv :: "'k sys \<Rightarrow> bool" where
  "lock_inv s \<longleftrightarrow> count_ok s \<and> mx_inv s \<and> chan_inv s \<and> full_inv s \<and> wait_inv s \<and> len_inv s"

lemma lock_inv_init: "NewIDLocker cfg = Inr l \<Longrightarrow> lock_inv (sys_init l)"
  by (auto simp: lock_inv_def count_ok_def mx_inv_def chan_inv_def full_inv_def wait_inv_def len_inv_def
      sys_init_def NewIDLocker_def holders_def Let_def split: if_splits)

lemma lock_inv_step: "lock_step s s' \<Longrightarrow> lock_inv s \<Longrightarrow> lock_inv s'"
  unfolding lock_inv_def
  using count_ok_step mx_inv_step chan_inv_step full_inv_step wait_inv_step len_inv_step by blast

lemma lock_step_cfg: "lock_step s s' \<Longrightarrow> lk_cfg (sys_lk s') = lk_cfg (sys_lk s)"
  by (induction rule: lock_step.induct)
    (auto simp: Lock_enter_simps Unlock_round_simps Lock_abandon_def dest: Lock_enter_simps(2,3))

lemma lock_reach_inv:
  assumes "lock_reach (sys_init l) s" "NewIDLocker cfg = Inr l"
  shows "lock_inv s \<and> cfg_MaxHeld (lk_cfg (sys_lk s)) = max 1 (cfg_MaxHeld cfg) \<and> cfg_MaxWait (lk_cfg (sys_lk s)) = cfg_MaxWait cfg"
  using assms(1)
proof (induction rule: lock_reach.induct)
  case here
  then show ?case using lock_inv_init [OF assms(2)] assms(2)
    by (auto simp: sys_init_def NewIDLocker_def Let_def split: if_splits)
next
  case (there s1 s2)
  then show ?case using lock_inv_step lock_step_cfg by metis
qed

text \<open>C24: whatever the goroutines do and whenever their contexts end, at most \<open>MaxHeld\<close> of them hold the
  lock of an ID, and at most \<open>MaxWait\<close> are queued for it (unless that is -1).\<close>

theorem IDLocker_limits:
  assumes "NewIDLocker cfg = Inr l" "lock_reach (sys_init l) s"
  shows "int (card (holders s k)) \<le> max 1 (cfg_MaxHeld cfg)
    \<and> (cfg_MaxWait cfg \<noteq> -1 \<longrightarrow> int (length (lk_queue (sys_lk s) k)) \<le> max 0 (cfg_MaxWait cfg))"
  using lock_reach_inv [OF assms(2,1)] unfolding lock_inv_def count_ok_def len_inv_def by auto

text \<open>C25: no wake-up is lost and nobody is stuck: while a goroutine waits for an ID all its locks are
  held, the goroutine that has the mutex can always go on, and \<open>Unlock\<close> does not panic.\<close>

theorem IDLocker_no_lost_wakeup:
  assumes "NewIDLocker cfg = Inr l" "lock_reach (sys_init l) s"
  shows "(sys_pc s g = Waiting k ch \<longrightarrow> int (card (holders s k)) = max 1 (cfg_MaxHeld cfg))
    \<and> (sys_pc s g = Unlocking k \<longrightarrow> (\<exists>r. Unlock_round k (sys_lk s) = Inr r))
    \<and> (sys_mx s = Some g \<longrightarrow> (\<exists>s'. lock_step s s' \<and> sys_pc s' g \<noteq> sys_pc s g))"
proof -
  from lock_reach_inv [OF assms(2,1)] have i: "count_ok s" "mx_inv s" "full_inv s" "wait_inv s"
    "cfg_MaxHeld (lk_cfg (sys_lk s)) = max 1 (cfg_MaxHeld cfg)" by (simp_all add: lock_inv_def)
  have cnt: "int (card (holders s j)) = lk_count (sys_lk s) j" for j using i(1) by (simp add: count_ok_def)
  have w: "int (card (holders s k)) = max 1 (cfg_MaxHeld cfg)" if "sys_pc s g = Waiting k ch"
    using wait_invD(3) [OF i(4) that] i(3,5) cnt unfolding full_inv_def by (metis empty_iff empty_set)
  have u: "\<exists>r. Unlock_round j (sys_lk s) = Inr r" if "sys_pc s h = Unlocking j" for h j
  proof -
    have "h \<in> holders s j" using that by (simp add: holders_def)
    then have "0 < card (holders s j)" using holders_finite [of s j] i(1) by (auto simp: card_gt_0_iff count_ok_def)
    then have "0 < lk_count (sys_lk s) j" using cnt [of j] by simp
    then show ?thesis by (cases "lk_queue (sys_lk s) j") (auto simp: Unlock_round_def)
  qed
  have m: "\<exists>s'. lock_step s s' \<and> sys_pc s' g \<noteq> sys_pc s g" if "sys_mx s = Some g"
  proof -
    have "in_unlock (sys_pc s g)" using i(2) that by (simp add: mx_inv_def)
    then consider j where "sys_pc s g = Unlocking j" | j c where "sys_pc s g = Receiving j c" by (cases "sys_pc s g") auto
    then show ?thesis
    proof cases
      case (1 j)
      from u [OF 1] obtain r where r: "Unlock_round j (sys_lk s) = Inr r" ..
      obtain x l' where x: "r = (x, l')" by fastforce
      show ?thesis
      proof (cases x)
        case None
        from release [OF 1 r [unfolded x None]] 1 show ?thesis by (intro exI conjI) auto
      next
        case (Some c)
        from take [OF 1 r [unfolded x Some]] 1 show ?thesis by (intro exI conjI) auto
      qed
    next
      case (2 j c)
      from wait_invD(5) [OF i(4) 2] consider "c \<in> sys_closed s" | v where "sys_pc s v = Waiting j c" by blast
      then show ?thesis
      proof cases
        case 1
        from retry [OF 2 1] 2 show ?thesis by (intro exI conjI) auto
      next
        case (2 v)
        from handover [OF \<open>sys_pc s g = Receiving j c\<close> 2] \<open>sys_pc s g = Receiving j c\<close> show ?thesis
          by (intro exI conjI) (auto split: if_splits)
      qed
    qed
  qed
  from w u m show ?thesis by blast
qed

subsection \<open>A sample run\<close>

definition sample_cfg :: Config where
  "sample_cfg = \<lparr>cfg_MaxHeld = 0, cfg_MaxWait = 2, cfg_Timeout = 0\<rparr>"

definition sample_locker :: "string IDLocker" where
  "sample_locker = \<lparr>lk_cfg = \<lparr>cfg_MaxHeld = 1, cfg_MaxWait = 2, cfg_Timeout = 0\<rparr>, lk_count = (\<lambda>k. 0), lk_queue = (\<lambda>k. [])\<rparr>"

lemma sample_new: "NewIDLocker sample_cfg = Inr sample_locker"
  by (simp add: NewIDLocker_def sample_cfg_def sample_locker_def)

text \<open>Goroutine 0 has the lock and goroutine 1 waits for it.\<close>

definition sample_sys :: "string sys" where
  "sample_sys = \<lparr>sys_lk = sample_locker\<lparr>lk_count := (\<lambda>k. 0)(''a'' := 1), lk_queue := (\<lambda>k. [])(''a'' := [0])\<rparr>,
     sys_mx = None, sys_pc = (\<lambda>g. Idle)(0 := Holding ''a'', 1 := Waiting ''a'' 0), sys_closed = {}, sys_fresh = 1\<rparr>"

lemma sample_reach: "lock_reach (sys_init sample_locker) sample_sys"
proof -
  let ?l1 = "sample_locker\<lparr>lk_count := (\<lambda>k. 0)(''a'' := 1)\<rparr>"
  let ?l2 = "?l1\<lparr>lk_queue := (\<lambda>k. [])(''a'' := [0])\<rparr>"
  let ?s0 = "sys_init sample_locker"
  have e1: "Lock_enter ''a'' (sys_fresh ?s0) (sys_lk ?s0) = (LockAcquired, ?l1)"
    by (simp add: Lock_enter_def sys_init_def sample_locker_def)
  have s1: "lock_step ?s0 (goto 0 (Holding ''a'') (?s0\<lparr>sys_lk := ?l1\<rparr>))" (is "lock_step _ ?s1")
    by (rule acquire [OF _ _ e1]) (simp_all add: sys_init_def)
  have e2: "Lock_enter ''a'' (sys_fresh ?s1) (sys_lk ?s1) = (LockQueued, ?l2)"
    by (simp add: Lock_enter_def sys_init_def sample_locker_def)
  have "lock_step ?s1 (goto 1 (Waiting ''a'' (sys_fresh ?s1)) (?s1\<lparr>sys_lk := ?l2, sys_fresh := sys_fresh ?s1 + 1\<rparr>))"
    by (rule enqueue [OF _ _ e2]) (simp_all add: sys_init_def)
  moreover have "goto 1 (Waiting ''a'' (sys_fresh ?s1)) (?s1\<lparr>sys_lk := ?l2, sys_fresh := sys_fresh ?s1 + 1\<rparr>) = sample_sys"
    by (simp add: sample_sys_def sys_init_def)
  ultimately show ?thesis using there [OF there [OF here s1]] by simp
qed

theorem IDLocker_limits_witness:
  "int (card (holders sample_sys ''a'')) \<le> 1 \<and> lk_queue (sys_lk sample_sys) ''a'' = [0]"
  using IDLocker_limits [OF sample_new sample_reach, of "''a''"] by (simp add: sample_cfg_def) (simp add: sample_sys_def)

theorem IDLocker_no_lost_wakeup_witness:
  "sys_pc sample_sys 1 = Waiting ''a'' 0 \<and> int (card (holders sample_sys ''a'')) = 1"
proof -
  have "sys_pc sample_sys 1 = Waiting ''a'' 0" by (simp add: sample_sys_def)
  with IDLocker_no_lost_wakeup [OF sample_new sample_reach, of 1 "''a''" 0] show ?thesis by (simp add: sample_cfg_def)
qed

end
