(* ===== verification/Lifecycle.thy ===== *)
theory Lifecycle
  imports Prelude
begin

section \<open>The lifecycle of the application: app/lifecycle/manager.go\<close>

text \<open>
  The manager wraps the start-up, run and shutdown functions of the application and a \<open>PauseResumer\<close>.
  Its status is the value in a channel of capacity one: who has received it is alone until it is
  sent back.  A goroutine is a program counter; one step is what a call does between two points where
  another goroutine can act: with the status in hand, in a wrapped function, or at a closed channel.
  The wrapped functions may return any error.  Contexts may end at any time, so that a cancel function
  adds no behaviour; only whether it is set is kept, since calling a nil function panics.
\<close>

subsection \<open>The manager\<close>

datatype lc_Status = StatusUnknown | StatusStarting | StatusReady | StatusShutdown | StatusPausing | StatusPaused

datatype lc_error =
    ErrAlreadyStarted | ErrShutdown | ErrNotStarted | ErrPauseUnsupported
  | ErrDuringPause | CtxErr | FuncErr string

text \<open>
  The status is \<open>None\<close> while a call holds it during a wrapped function.  The channels that are made once
  are given by whether they are closed.  The channels \<open>pauseDone\<close> are numbered from 1, 0 being nil, with
  the set of the closed ones; \<open>pauseStart\<close> is a number with whether the latest is closed, as the ones
  before it were when they were replaced.
\<close>

record Manager =
  m_status :: "lc_Status option"
  m_startupFunc :: bool
  m_pauseResume :: bool
  m_startupCancel :: bool
  m_startupDone :: bool
  m_startupErr :: "lc_error option"
  m_runCancel :: bool
  m_runDone :: bool
  m_shutdownCancel :: bool
  m_shutdownDone :: bool
  m_shutdownErr :: "lc_error option"
  m_pauseCancel :: bool
  m_pauseDone :: nat
  m_closed :: "nat set"
  m_next :: nat
  m_pauseStart :: nat
  m_pauseStartClosed :: bool
  m_pauseErr :: "lc_error option"
  m_isPausing :: bool

definition NewManager :: Manager where
  "NewManager = \<lparr>m_status = Some StatusUnknown, m_startupFunc = False, m_pauseResume = False, m_startupCancel = False,
     m_startupDone = False, m_startupErr = None, m_runCancel = False, m_runDone = False, m_shutdownCancel = False,
     m_shutdownDone = False, m_shutdownErr = None, m_pauseCancel = False, m_pauseDone = 0, m_closed = {}, m_next = 1,
     m_pauseStart = 0, m_pauseStartClosed = False, m_pauseErr = None, m_isPausing = False\<rparr>"

text \<open>The operations that only need the status for a moment; \<open>None\<close> when it is not there.\<close>

definition SetStartupFunc :: "bool \<Rightarrow> Manager \<Rightarrow> (Manager \<times> lc_error option) option" where
  "SetStartupFunc fn m = map_option (\<lambda>s. case s of
       StatusShutdown \<Rightarrow> (m, Some ErrShutdown)
     | StatusUnknown \<Rightarrow> (m\<lparr>m_startupFunc := fn\<rparr>, None)
     | _ \<Rightarrow> (m, Some ErrAlreadyStarted)) (m_status m)"

definition SetPauseResumer :: "bool \<Rightarrow> Manager \<Rightarrow> (Manager \<times> lc_error option) option" where
  "SetPauseResumer pr m = map_option (\<lambda>s.
       if m_isPausing m \<or> s = StatusPausing \<or> s = StatusPaused then (m, Some ErrDuringPause)
       else (m\<lparr>m_pauseResume := pr\<rparr>, None)) (m_status m)"

definition IsPausing :: "Manager \<Rightarrow> bool option" where
  "IsPausing m = map_option (\<lambda>s. s \<in> {StatusPausing, StatusPaused, StatusShutdown} \<or> m_isPausing m) (m_status m)"

definition PauseWait :: "Manager \<Rightarrow> nat option" where
  "PauseWait m = map_option (\<lambda>s. m_pauseStart m) (m_status m)"

definition GetStatus :: "Manager \<Rightarrow> lc_Status option" where
  "GetStatus m = m_status m"

text \<open>Receiving from a channel that \<open>PauseWait\<close> returned is possible once it is closed.\<close>

definition pause_began :: "Manager \<Rightarrow> nat \<Rightarrow> bool" where
  "pause_began m g \<longleftrightarrow> g < m_pauseStart m \<or> g = m_pauseStart m \<and> m_pauseStartClosed m"

definition WaitForStartup :: "bool \<Rightarrow> Manager \<Rightarrow> lc_error option option" where
  "WaitForStartup ctxDone m =
     (if ctxDone then Some (Some CtxErr)
      else if m_startupDone m then Some (m_startupErr m) else None)"

subsection \<open>Goroutines\<close>

datatype panic = UnexpectedState | DoubleClose | NilFunc

datatype lc_pc =
    LcIdle
  | RunBegin | RunStartup bool | RunStarted | RunFailed | RunRunning | RunCheck "lc_error option" | RunWait "lc_error option"
  | ShBegin | ShJoin | ShJoinCanceled | ShWaitStartup | ShUnknown1 | ShUnknown2 | ShUnknown3 | ShWaitPause
  | ShCall bool | ShWaitRun "lc_error option" | ShEnd "lc_error option"
  | PaBegin | PaWait nat | PaStartup nat | PaGiveUp nat | PaStarted nat | PaEnter nat | PaCall nat | PaCalled nat "lc_error option"
  | PaEnd nat "lc_error option"
  | ReBegin | ReWait nat | ReResuming
  | Return "lc_error option"
  | Panic panic

text \<open>
  What decides a step: nothing, the end of the context, or what a wrapped function returns.  A step of
  a call gives the manager and the program counter after it, \<open>None\<close> when it cannot be made.
\<close>

datatype choice = Go | CtxDone | Ret "lc_error option"

type_synonym effect = "(Manager \<times> lc_pc) option"

definition with_status :: "Manager \<Rightarrow> (lc_Status \<Rightarrow> Manager \<times> lc_pc) \<Rightarrow> effect" where
  "with_status m f = map_option f (m_status m)"

definition close_startupDone :: "Manager \<Rightarrow> (Manager \<Rightarrow> Manager \<times> lc_pc) \<Rightarrow> Manager \<times> lc_pc" where
  "close_startupDone m k = (if m_startupDone m then (m, Panic DoubleClose) else k (m\<lparr>m_startupDone := True\<rparr>))"

definition close_runDone :: "Manager \<Rightarrow> (Manager \<Rightarrow> Manager \<times> lc_pc) \<Rightarrow> Manager \<times> lc_pc" where
  "close_runDone m k = (if m_runDone m then (m, Panic DoubleClose) else k (m\<lparr>m_runDone := True\<rparr>))"

definition close_shutdownDone :: "Manager \<Rightarrow> (Manager \<Rightarrow> Manager \<times> lc_pc) \<Rightarrow> Manager \<times> lc_pc" where
  "close_shutdownDone m k = (if m_shutdownDone m then (m, Panic DoubleClose) else k (m\<lparr>m_shutdownDone := True\<rparr>))"

definition close_pauseStart :: "Manager \<Rightarrow> (Manager \<Rightarrow> Manager \<times> lc_pc) \<Rightarrow> Manager \<times> lc_pc" where
  "close_pauseStart m k = (if m_pauseStartClosed m then (m, Panic DoubleClose) else k (m\<lparr>m_pauseStartClosed := True\<rparr>))"

definition close_pauseDone :: "nat \<Rightarrow> Manager \<Rightarrow> (Manager \<Rightarrow> Manager \<times> lc_pc) \<Rightarrow> Manager \<times> lc_pc" where
  "close_pauseDone ch m k = (if ch = 0 \<or> ch \<in> m_closed m then (m, Panic DoubleClose) else k (m\<lparr>m_closed := insert ch (m_closed m)\<rparr>))"

text \<open>A call of a cancel function, or of a method of the resumer, that panics when it is nil.\<close>

definition call_cancel :: "bool \<Rightarrow> Manager \<Rightarrow> (Manager \<Rightarrow> Manager \<times> lc_pc) \<Rightarrow> Manager \<times> lc_pc" where
  "call_cancel isSet m k = (if isSet then k m else (m, Panic NilFunc))"

definition new_pauseStart :: "Manager \<Rightarrow> Manager" where
  "new_pauseStart m = m\<lparr>m_pauseStart := m_pauseStart m + 1, m_pauseStartClosed := False\<rparr>"

subsection \<open>Run\<close>

definition Run_begin :: "Manager \<Rightarrow> effect" where
  "Run_begin m = with_status m (\<lambda>s. case s of
       StatusShutdown \<Rightarrow> (m, Return (Some ErrShutdown))
     | StatusUnknown \<Rightarrow> (m\<lparr>m_startupCancel := True, m_status := Some StatusStarting\<rparr>, RunStartup (m_startupFunc m))
     | _ \<Rightarrow> (m, Return (Some ErrAlreadyStarted)))"

definition Run_started :: "Manager \<Rightarrow> effect" where
  "Run_started m = with_status m (\<lambda>s. case s of
       StatusShutdown \<Rightarrow> close_startupDone m (\<lambda>m. (m, Return None))
     | StatusStarting \<Rightarrow>
         if m_startupErr m \<noteq> None then (m, RunFailed)
         else close_startupDone (m\<lparr>m_runCancel := True\<rparr>) (\<lambda>m. (m\<lparr>m_status := Some StatusReady\<rparr>, RunRunning))
     | _ \<Rightarrow> (m, Panic UnexpectedState))"

definition Run_check :: "lc_error option \<Rightarrow> Manager \<Rightarrow> effect" where
  "Run_check e m = with_status m (\<lambda>s. (m, if s = StatusShutdown then RunWait e else Return e))"

subsection \<open>Shutdown\<close>

definition initShutdown :: "Manager \<Rightarrow> Manager" where
  "initShutdown m = m\<lparr>m_shutdownCancel := True, m_status := Some StatusShutdown\<rparr>"

definition Shutdown_begin :: "Manager \<Rightarrow> effect" where
  "Shutdown_begin m = with_status m (\<lambda>s. case s of
       StatusShutdown \<Rightarrow> (m, ShJoin)
     | StatusStarting \<Rightarrow> call_cancel (m_startupCancel m) m (\<lambda>m. close_pauseStart m (\<lambda>m. (initShutdown m, ShWaitStartup)))
     | StatusUnknown \<Rightarrow> (initShutdown m, ShUnknown1)
     | StatusPausing \<Rightarrow> call_cancel (m_pauseCancel m) m (\<lambda>m. (initShutdown m, ShWaitPause))
     | StatusReady \<Rightarrow> close_pauseStart m (\<lambda>m. (initShutdown m, ShCall True))
     | StatusPaused \<Rightarrow> (initShutdown m, ShCall True))"

subsection \<open>Pause\<close>

definition Pause_begin :: "Manager \<Rightarrow> effect" where
  "Pause_begin m = with_status m (\<lambda>s.
     if \<not> m_pauseResume m then (m, Return (Some ErrPauseUnsupported))
     else if s = StatusShutdown then (m, Return (Some ErrShutdown))
     else if s = StatusPaused then (m, Return None)
     else if s = StatusPausing \<or> s \<in> {StatusStarting, StatusUnknown} \<and> m_isPausing m then (m, PaWait (m_pauseDone m))
     else
       (let ch = m_next m;
            m = m\<lparr>m_pauseCancel := True, m_pauseDone := ch, m_next := ch + 1, m_isPausing := True, m_pauseErr := None\<rparr>
        in if s \<noteq> StatusReady then (m, PaStartup ch)
           else close_pauseStart m (\<lambda>m. (m\<lparr>m_status := Some StatusPausing\<rparr>, PaEnter ch))))"

definition Pause_started :: "nat \<Rightarrow> Manager \<Rightarrow> effect" where
  "Pause_started ch m = with_status m (\<lambda>s. case s of
       StatusShutdown \<Rightarrow> (m\<lparr>m_isPausing := False\<rparr>, PaEnd ch (Some ErrShutdown))
     | StatusReady \<Rightarrow> close_pauseStart m (\<lambda>m. (m\<lparr>m_status := Some StatusPausing\<rparr>, PaEnter ch))
     | StatusStarting \<Rightarrow>
         if m_startupErr m \<noteq> None then (m\<lparr>m_isPausing := False\<rparr>, PaEnd ch (m_startupErr m))
         else (m, Panic UnexpectedState)
     | _ \<Rightarrow> (m, Panic UnexpectedState))"

definition Pause_called :: "nat \<Rightarrow> lc_error option \<Rightarrow> Manager \<Rightarrow> effect" where
  "Pause_called ch err m = with_status m (\<lambda>s. case s of
       StatusShutdown \<Rightarrow> (m\<lparr>m_pauseErr := Some ErrShutdown, m_isPausing := False\<rparr>, PaEnd ch (Some ErrShutdown))
     | StatusPausing \<Rightarrow>
         if err \<noteq> None
         then ((new_pauseStart m)\<lparr>m_pauseErr := err, m_isPausing := False, m_status := Some StatusReady\<rparr>, PaEnd ch err)
         else (m\<lparr>m_pauseErr := None, m_isPausing := False, m_status := Some StatusPaused\<rparr>, PaEnd ch None)
     | _ \<Rightarrow> (m\<lparr>m_isPausing := False\<rparr>, Panic UnexpectedState))"

subsection \<open>Resume\<close>

definition Resume_begin :: "Manager \<Rightarrow> effect" where
  "Resume_begin m = with_status m (\<lambda>s.
     if \<not> m_pauseResume m then (m, Return (Some ErrPauseUnsupported))
     else case s of
       StatusShutdown \<Rightarrow> (m, Return (Some ErrShutdown))
     | StatusPaused \<Rightarrow> ((new_pauseStart m)\<lparr>m_status := None\<rparr>, ReResuming)
     | StatusReady \<Rightarrow> (m, Return None)
     | _ \<Rightarrow> if s \<noteq> StatusPausing \<and> \<not> m_isPausing m then (m, Return None)
            else call_cancel (m_pauseCancel m) m (\<lambda>m. (m, ReWait (m_pauseDone m))))"

subsection \<open>Steps\<close>

definition on_go :: "choice \<Rightarrow> effect \<Rightarrow> effect" where
  "on_go c x = (if c = Go then x else None)"

definition on_ret :: "choice \<Rightarrow> (lc_error option \<Rightarrow> Manager \<times> lc_pc) \<Rightarrow> effect" where
  "on_ret c f = (case c of Ret e \<Rightarrow> Some (f e) | _ \<Rightarrow> None)"

text \<open>A select between a context and a channel.\<close>

definition on_select :: "choice \<Rightarrow> Manager \<times> lc_pc \<Rightarrow> effect \<Rightarrow> effect" where
  "on_select c done chan = (case c of CtxDone \<Rightarrow> Some done | Go \<Rightarrow> chan | _ \<Rightarrow> None)"

definition await :: "bool \<Rightarrow> Manager \<times> lc_pc \<Rightarrow> effect" where
  "await ready x = (if ready then Some x else None)"

definition lc_next :: "choice \<Rightarrow> lc_pc \<Rightarrow> Manager \<Rightarrow> effect" where
  "lc_next c p m = (case p of
     RunBegin \<Rightarrow> on_go c (Run_begin m)
   | RunStartup b \<Rightarrow> on_ret c (\<lambda>e. (if b then m\<lparr>m_startupErr := e\<rparr> else m, RunStarted))
   | RunStarted \<Rightarrow> on_go c (Run_started m)
   | RunFailed \<Rightarrow> on_go c (Some (close_startupDone m (\<lambda>m. (m, Return (m_startupErr m)))))
   | RunRunning \<Rightarrow> on_ret c (\<lambda>e. close_runDone m (\<lambda>m. (m, RunCheck e)))
   | RunCheck e \<Rightarrow> on_go c (Run_check e m)
   | RunWait e \<Rightarrow> on_go c (await (m_shutdownDone m) (m, Return e))
   | ShBegin \<Rightarrow> on_go c (Shutdown_begin m)
   | ShJoin \<Rightarrow> on_select c (call_cancel (m_shutdownCancel m) m (\<lambda>m. (m, ShJoinCanceled)))
                 (await (m_shutdownDone m) (m, Return (m_shutdownErr m)))
   | ShJoinCanceled \<Rightarrow> on_go c (await (m_shutdownDone m) (m, Return (m_shutdownErr m)))
   | ShWaitStartup \<Rightarrow> on_go c (await (m_startupDone m) (m, ShCall False))
   | ShUnknown1 \<Rightarrow> on_go c (Some (close_pauseStart m (\<lambda>m. (m, ShUnknown2))))
   | ShUnknown2 \<Rightarrow> on_go c (Some (close_startupDone m (\<lambda>m. (m, ShUnknown3))))
   | ShUnknown3 \<Rightarrow> on_go c (Some (close_shutdownDone m (\<lambda>m. (m, Return None))))
   | ShWaitPause \<Rightarrow> on_go c (await (m_pauseDone m \<in> m_closed m) (m, ShCall True))
   | ShCall isRunning \<Rightarrow>
       on_ret c (\<lambda>e. if isRunning then call_cancel (m_runCancel m) m (\<lambda>m. (m, ShWaitRun e)) else (m, ShEnd e))
   | ShWaitRun e \<Rightarrow> on_go c (await (m_runDone m) (m, ShEnd e))
   | ShEnd e \<Rightarrow> on_go c (Some (call_cancel (m_shutdownCancel m) m (\<lambda>m. close_shutdownDone m (\<lambda>m. (m, Return e)))))
   | PaBegin \<Rightarrow> on_go c (Pause_begin m)
   | PaWait ch \<Rightarrow> on_select c (m, Return (Some CtxErr)) (await (ch \<in> m_closed m) (m, PaBegin))
   | PaStartup ch \<Rightarrow> on_select c (m, PaGiveUp ch) (await (m_startupDone m) (m, PaStarted ch))
   | PaGiveUp ch \<Rightarrow> on_go c (with_status m (\<lambda>s. (m\<lparr>m_isPausing := False\<rparr>, PaEnd ch (Some CtxErr))))
   | PaStarted ch \<Rightarrow> on_go c (Pause_started ch m)
   | PaEnter ch \<Rightarrow> on_go c (Some (call_cancel (m_pauseResume m) m (\<lambda>m. (m, PaCall ch))))
   | PaCall ch \<Rightarrow> on_ret c (\<lambda>e. call_cancel (m_pauseCancel m) m (\<lambda>m. (m, PaCalled ch e)))
   | PaCalled ch e \<Rightarrow> on_go c (Pause_called ch e m)
   | PaEnd ch e \<Rightarrow> on_go c (Some (call_cancel (m_pauseCancel m) m (\<lambda>m. close_pauseDone ch m (\<lambda>m. (m, Return e)))))
   | ReBegin \<Rightarrow> on_go c (Resume_begin m)
   | ReWait ch \<Rightarrow> on_go c (await (ch \<in> m_closed m) (m, ReBegin))
   | ReResuming \<Rightarrow> on_ret c (\<lambda>e. (m\<lparr>m_status := Some StatusReady\<rparr>, Return e))
   | _ \<Rightarrow> None)"

text \<open>What the wrapped \<open>PauseResumer\<close> sees: \<open>None\<close> once its methods are called out of order.\<close>

datatype resumer = PrRunning | PrPausing | PrPaused | PrResuming

text \<open>The method that a goroutine is in, and how it leaves the resumer when it returns.\<close>

fun calling :: "lc_pc \<Rightarrow> resumer option" where
  "calling (PaCall ch) = Some PrPausing"
| "calling ReResuming = Some PrResuming"
| "calling _ = None"

fun outcome_of :: "lc_pc \<Rightarrow> resumer" where
  "outcome_of (PaCalled ch None) = PrPaused"
| "outcome_of _ = PrRunning"

definition observe :: "lc_pc \<Rightarrow> lc_pc \<Rightarrow> resumer option \<Rightarrow> resumer option" where
  "observe p p' r =
     (case calling p' of
        Some x \<Rightarrow> if r = Some (if x = PrPausing then PrRunning else PrPaused) then Some x else None
      | None \<Rightarrow> if calling p = None then r else if r = calling p then Some (outcome_of p') else None)"

record lc_sys =
  ls_m :: Manager
  ls_pc :: "nat \<Rightarrow> lc_pc"
  ls_pr :: "resumer option"

definition lc_init :: lc_sys where
  "lc_init = \<lparr>ls_m = NewManager, ls_pc = (\<lambda>_. LcIdle), ls_pr = Some PrRunning\<rparr>"

fun panicked :: "lc_pc \<Rightarrow> bool" where
  "panicked (Panic w) = True"
| "panicked _ = False"

text \<open>A panic ends the program.\<close>

definition alive :: "lc_sys \<Rightarrow> bool" where
  "alive s \<longleftrightarrow> (\<forall>j. \<not> panicked (ls_pc s j))"

inductive lc_step :: "lc_sys \<Rightarrow> lc_sys \<Rightarrow> bool" where
  call: "alive s \<Longrightarrow> ls_pc s i = LcIdle \<Longrightarrow> p \<in> {RunBegin, ShBegin, PaBegin, ReBegin}
    \<Longrightarrow> lc_step s (s\<lparr>ls_pc := (ls_pc s)(i := p)\<rparr>)"
| set_startup: "alive s \<Longrightarrow> SetStartupFunc b (ls_m s) = Some (m', e) \<Longrightarrow> lc_step s (s\<lparr>ls_m := m'\<rparr>)"
| set_resumer: "alive s \<Longrightarrow> SetPauseResumer b (ls_m s) = Some (m', e) \<Longrightarrow> lc_step s (s\<lparr>ls_m := m'\<rparr>)"
| move: "alive s \<Longrightarrow> lc_next c (ls_pc s i) (ls_m s) = Some (m', p')
    \<Longrightarrow> lc_step s (s\<lparr>ls_m := m', ls_pc := (ls_pc s)(i := p'), ls_pr := observe (ls_pc s i) p' (ls_pr s)\<rparr>)"

inductive lc_reach :: "lc_sys \<Rightarrow> bool" where
  init: "lc_reach lc_init"
| step: "lc_reach s \<Longrightarrow> lc_step s s' \<Longrightarrow> lc_reach s'"

end
