(* ===== verification/LifecycleInv.thy ===== *)
theory LifecycleInv
  imports Lifecycle
begin

section \<open>The invariant of the lifecycle\<close>

text \<open>
  The goroutines that matter to each other are few: the one in \<open>Run\<close>, the one that shuts down, the one
  in the \<open>Pause\<close> of the wrapped resumer and the one in its \<open>Resume\<close>.  \<open>phase\<close> relates the manager to where
  these four are, \<open>LcIdle\<close> if there is none, so that a step is a matter of cases without other goroutines.
\<close>

datatype role = Runner | Stopper | Pauser | Resumer

fun role_of :: "lc_pc \<Rightarrow> role option" where
  "role_of (RunStartup b) = Some Runner"
| "role_of RunStarted = Some Runner"
| "role_of RunFailed = Some Runner"
| "role_of RunRunning = Some Runner"
| "role_of ShWaitStartup = Some Stopper"
| "role_of ShUnknown1 = Some Stopper"
| "role_of ShUnknown2 = Some Stopper"
| "role_of ShUnknown3 = Some Stopper"
| "role_of ShWaitPause = Some Stopper"
| "role_of (ShCall b) = Some Stopper"
| "role_of (ShWaitRun e) = Some Stopper"
| "role_of (ShEnd e) = Some Stopper"
| "role_of (PaEnter ch) = Some Pauser"
| "role_of (PaCall ch) = Some Pauser"
| "role_of (PaCalled ch e) = Some Pauser"
| "role_of ReResuming = Some Resumer"
| "role_of _ = None"

text \<open>Where the runner can be, and what holds there.\<close>

fun runner_ok :: "lc_pc \<Rightarrow> Manager \<Rightarrow> bool" where
  "runner_ok (RunStartup b) m \<longleftrightarrow> \<not> m_startupDone m \<and> \<not> m_runDone m \<and> m_startupErr m = None"
| "runner_ok RunStarted m \<longleftrightarrow> \<not> m_startupDone m \<and> \<not> m_runDone m"
| "runner_ok RunFailed m \<longleftrightarrow> \<not> m_startupDone m \<and> \<not> m_runDone m \<and> m_startupErr m \<noteq> None"
| "runner_ok RunRunning m \<longleftrightarrow> m_startupDone m \<and> \<not> m_runDone m \<and> m_runCancel m \<and> m_startupErr m = None"
| "runner_ok LcIdle m \<longleftrightarrow> True"
| "runner_ok _ m \<longleftrightarrow> False"

text \<open>The application has not been started, is being started, or has started: it runs or has ended.\<close>

definition fresh :: "Manager \<Rightarrow> lc_pc \<Rightarrow> bool" where
  "fresh m r \<longleftrightarrow> r = LcIdle \<and> \<not> m_startupDone m \<and> \<not> m_runDone m \<and> m_startupErr m = None"

definition starting :: "Manager \<Rightarrow> lc_pc \<Rightarrow> bool" where
  "starting m r \<longleftrightarrow> m_startupCancel m \<and> r \<noteq> RunRunning \<and> (r = LcIdle \<longrightarrow> m_startupDone m \<and> m_startupErr m \<noteq> None)"

definition started :: "Manager \<Rightarrow> lc_pc \<Rightarrow> bool" where
  "started m r \<longleftrightarrow> m_startupDone m \<and> m_startupErr m = None \<and> m_runCancel m \<and> (r = RunRunning \<or> r = LcIdle \<and> m_runDone m)"

text \<open>While the application shuts down, by where the stopper is.\<close>

fun stopper_ok :: "lc_pc \<Rightarrow> Manager \<Rightarrow> lc_pc \<Rightarrow> lc_pc \<Rightarrow> bool" where
  "stopper_ok ShUnknown1 m r p \<longleftrightarrow> fresh m r \<and> p = LcIdle \<and> \<not> m_shutdownDone m \<and> \<not> m_pauseStartClosed m"
| "stopper_ok ShUnknown2 m r p \<longleftrightarrow> fresh m r \<and> p = LcIdle \<and> \<not> m_shutdownDone m"
| "stopper_ok ShUnknown3 m r p \<longleftrightarrow> m_startupDone m \<and> r = LcIdle \<and> p = LcIdle \<and> \<not> m_shutdownDone m"
| "stopper_ok ShWaitStartup m r p \<longleftrightarrow> (r = LcIdle \<longrightarrow> m_startupDone m) \<and> r \<noteq> RunRunning \<and> p = LcIdle \<and> \<not> m_shutdownDone m"
| "stopper_ok ShWaitPause m r p \<longleftrightarrow> started m r \<and> \<not> m_shutdownDone m \<and> 0 < m_pauseDone m"
| "stopper_ok (ShCall b) m r p \<longleftrightarrow>
     (if b then started m r else m_startupDone m \<and> r = LcIdle \<and> p = LcIdle) \<and> \<not> m_shutdownDone m"
| "stopper_ok (ShWaitRun e) m r p \<longleftrightarrow> started m r \<and> \<not> m_shutdownDone m"
| "stopper_ok (ShEnd e) m r p \<longleftrightarrow> m_startupDone m \<and> r = LcIdle \<and> \<not> m_shutdownDone m"
| "stopper_ok LcIdle m r p \<longleftrightarrow> m_startupDone m \<and> r = LcIdle \<and> m_shutdownDone m"
| "stopper_ok _ m r p \<longleftrightarrow> False"

fun resumer_ok :: "lc_pc \<Rightarrow> resumer option \<Rightarrow> bool" where
  "resumer_ok (PaEnter ch) pr \<longleftrightarrow> pr = Some PrRunning"
| "resumer_ok (PaCall ch) pr \<longleftrightarrow> pr = Some PrPausing"
| "resumer_ok (PaCalled ch e) pr \<longleftrightarrow> pr = Some (if e = None then PrPaused else PrRunning)"
| "resumer_ok LcIdle pr \<longleftrightarrow> pr \<noteq> None"
| "resumer_ok _ pr \<longleftrightarrow> False"

text \<open>The four by the status, with what holds in each.\<close>

fun status_ok :: "lc_Status option \<Rightarrow> Manager \<Rightarrow> lc_pc \<Rightarrow> lc_pc \<Rightarrow> lc_pc \<Rightarrow> lc_pc \<Rightarrow> resumer option \<Rightarrow> bool" where
  "status_ok None m r s p q pr \<longleftrightarrow> started m r \<and> s = LcIdle \<and> p = LcIdle \<and> q = ReResuming \<and> pr = Some PrResuming
     \<and> \<not> m_pauseStartClosed m \<and> \<not> m_shutdownDone m"
| "status_ok (Some StatusUnknown) m r s p q pr \<longleftrightarrow> fresh m r \<and> s = LcIdle \<and> p = LcIdle \<and> q = LcIdle \<and> pr = Some PrRunning
     \<and> \<not> m_pauseStartClosed m \<and> \<not> m_shutdownDone m"
| "status_ok (Some StatusStarting) m r s p q pr \<longleftrightarrow> starting m r \<and> s = LcIdle \<and> p = LcIdle \<and> q = LcIdle \<and> pr = Some PrRunning
     \<and> \<not> m_pauseStartClosed m \<and> \<not> m_shutdownDone m"
| "status_ok (Some StatusReady) m r s p q pr \<longleftrightarrow> started m r \<and> s = LcIdle \<and> p = LcIdle \<and> q = LcIdle \<and> pr = Some PrRunning
     \<and> \<not> m_pauseStartClosed m \<and> \<not> m_shutdownDone m"
| "status_ok (Some StatusPausing) m r s p q pr \<longleftrightarrow> started m r \<and> s = LcIdle \<and> p \<noteq> LcIdle \<and> q = LcIdle \<and> m_pauseStartClosed m
     \<and> m_pauseCancel m \<and> 0 < m_pauseDone m \<and> \<not> m_shutdownDone m"
| "status_ok (Some StatusPaused) m r s p q pr \<longleftrightarrow> started m r \<and> s = LcIdle \<and> p = LcIdle \<and> q = LcIdle \<and> pr = Some PrPaused
     \<and> m_pauseStartClosed m \<and> \<not> m_shutdownDone m"
| "status_ok (Some StatusShutdown) m r s p q pr \<longleftrightarrow> stopper_ok s m r p \<and> m_shutdownCancel m \<and> q = LcIdle"

definition phase :: "Manager \<Rightarrow> lc_pc \<Rightarrow> lc_pc \<Rightarrow> lc_pc \<Rightarrow> lc_pc \<Rightarrow> resumer option \<Rightarrow> bool" where
  "phase m r s p q pr \<longleftrightarrow> runner_ok r m \<and> resumer_ok p pr \<and> (p \<noteq> LcIdle \<longrightarrow> m_pauseCancel m)
     \<and> (m_isPausing m \<longrightarrow> m_pauseCancel m \<and> 0 < m_pauseDone m) \<and> status_ok (m_status m) m r s p q pr"

text \<open>The goroutine of each role after a step from \<open>p\<close> to \<open>p'\<close>.\<close>

definition sub :: "role \<Rightarrow> lc_pc \<Rightarrow> lc_pc \<Rightarrow> lc_pc \<Rightarrow> lc_pc" where
  "sub k p p' x = (if role_of p' = Some k then p' else if role_of p = Some k then LcIdle else x)"

lemmas effect_defs = with_status_def close_startupDone_def close_runDone_def close_shutdownDone_def close_pauseStart_def
  close_pauseDone_def call_cancel_def new_pauseStart_def on_go_def on_ret_def on_select_def await_def Run_begin_def Run_started_def
  Run_check_def initShutdown_def Shutdown_begin_def Pause_begin_def Pause_started_def Pause_called_def Resume_begin_def

lemmas stage_defs = started_def fresh_def starting_def

text \<open>What the program counters of a pause, and of those who wait for a shutdown, carry along.\<close>

fun local_ok :: "lc_pc \<Rightarrow> Manager \<Rightarrow> bool" where
  "local_ok (PaStartup ch) m \<longleftrightarrow> m_pauseCancel m \<and> 0 < m_pauseDone m"
| "local_ok (PaGiveUp ch) m \<longleftrightarrow> m_pauseCancel m"
| "local_ok (PaStarted ch) m \<longleftrightarrow> m_pauseCancel m \<and> m_startupDone m \<and> 0 < m_pauseDone m"
| "local_ok (PaEnd ch e) m \<longleftrightarrow> m_pauseCancel m"
| "local_ok ShJoin m \<longleftrightarrow> m_shutdownCancel m \<and> m_status m = Some StatusShutdown"
| "local_ok ShJoinCanceled m \<longleftrightarrow> m_status m = Some StatusShutdown"
| "local_ok (RunWait e) m \<longleftrightarrow> m_status m = Some StatusShutdown"
| "local_ok _ m \<longleftrightarrow> True"

text \<open>One lemma for each program counter of \<open>Run\<close>.\<close>

lemma stopper_starting: "stopper_ok s m r p \<Longrightarrow> runner_ok r m \<Longrightarrow> r \<noteq> LcIdle \<Longrightarrow> r \<noteq> RunRunning \<Longrightarrow> s = ShWaitStartup"
  by (cases s) (auto simp: stage_defs split: if_splits)

lemma with_statusE:
  assumes "with_status m f = Some x"
  obtains st where "m_status m = Some st" "x = f st"
  using assms by (auto simp: with_status_def)

text \<open>
  What a step from \<open>p\<close> to \<open>p'\<close> has to keep, with the goroutines of the four roles before it: nobody takes a
  role that is taken, and the phase fits.
\<close>

definition keeps :: "lc_pc \<Rightarrow> Manager \<Rightarrow> lc_pc \<Rightarrow> lc_pc \<Rightarrow> lc_pc \<Rightarrow> lc_pc \<Rightarrow> lc_pc \<Rightarrow> resumer option \<Rightarrow> bool" where
  "keeps p m' p' r s pa q pr \<longleftrightarrow> \<not> panicked p' \<and> (role_of p' \<noteq> None \<and> role_of p' \<noteq> role_of p \<longrightarrow>
       (case the (role_of p') of Runner \<Rightarrow> r | Stopper \<Rightarrow> s | Pauser \<Rightarrow> pa | Resumer \<Rightarrow> q) = LcIdle)
     \<and> phase m' (sub Runner p p' r) (sub Stopper p p' s) (sub Pauser p p' pa) (sub Resumer p p' q) (observe p p' pr)"

lemmas keeps_defs = keeps_def phase_def stage_defs sub_def observe_def

lemma stopper_frame [simp]:
  "stopper_ok s (m\<lparr>m_isPausing := b\<rparr>) r p = stopper_ok s m r p" "stopper_ok s (m\<lparr>m_pauseErr := e\<rparr>) r p = stopper_ok s m r p"
  "stopper_ok s (m\<lparr>m_closed := c\<rparr>) r p = stopper_ok s m r p" "stopper_ok s (m\<lparr>m_startupFunc := b\<rparr>) r p = stopper_ok s m r p"
  "stopper_ok s (m\<lparr>m_pauseResume := b\<rparr>) r p = stopper_ok s m r p"
  by (cases s; simp add: stage_defs)+

lemma stopper_pause_end: "stopper_ok s m r p \<Longrightarrow> stopper_ok s m r LcIdle"
  by (cases s) (auto split: if_splits)

lemma stopper_run_end: "stopper_ok s m RunRunning p \<Longrightarrow> stopper_ok s (m\<lparr>m_runDone := True\<rparr>) LcIdle p"
  by (cases s) (auto simp: stage_defs split: if_splits)

lemma status_frame [simp]:
  "status_ok st (m\<lparr>m_isPausing := b\<rparr>) r s p q pr = status_ok st m r s p q pr"
  "status_ok st (m\<lparr>m_closed := c\<rparr>) r s p q pr = status_ok st m r s p q pr"
  "status_ok st (m\<lparr>m_startupFunc := b\<rparr>) r s p q pr = status_ok st m r s p q pr"
  "status_ok st (m\<lparr>m_pauseResume := b\<rparr>) r s p q pr = status_ok st m r s p q pr"
  by (cases "(st, m, r, s, p, q, pr)" rule: status_ok.cases; simp add: stage_defs)+

lemma runner_frame [simp]:
  "runner_ok r (m\<lparr>m_isPausing := x0\<rparr>) = runner_ok r m"
  "runner_ok r (m\<lparr>m_closed := x1\<rparr>) = runner_ok r m"
  "runner_ok r (m\<lparr>m_startupFunc := x2\<rparr>) = runner_ok r m"
  "runner_ok r (m\<lparr>m_pauseResume := x3\<rparr>) = runner_ok r m"
  "runner_ok r (m\<lparr>m_status := x4\<rparr>) = runner_ok r m"
  "runner_ok r (m\<lparr>m_startupCancel := x5\<rparr>) = runner_ok r m"
  "runner_ok r (m\<lparr>m_shutdownCancel := x6\<rparr>) = runner_ok r m"
  "runner_ok r (m\<lparr>m_shutdownDone := x7\<rparr>) = runner_ok r m"
  "runner_ok r (m\<lparr>m_pauseCancel := x8\<rparr>) = runner_ok r m"
  "runner_ok r (m\<lparr>m_pauseDone := x9\<rparr>) = runner_ok r m"
  "runner_ok r (m\<lparr>m_next := x10\<rparr>) = runner_ok r m"
  "runner_ok r (m\<lparr>m_pauseStart := x11\<rparr>) = runner_ok r m"
  "runner_ok r (m\<lparr>m_pauseStartClosed := x12\<rparr>) = runner_ok r m"
  "runner_ok r (m\<lparr>m_pauseErr := x13\<rparr>) = runner_ok r m"
  by (cases r; simp)+

lemma phase_RunBegin:
  assumes "Run_begin m = Some (m', p')" "phase m r s pa q pr"
  shows "keeps RunBegin m' p' r s pa q pr"
proof -
  from assms(1) obtain st where st: "m_status m = Some st" by (auto simp: Run_begin_def with_status_def)
  show ?thesis
    by (cases st; use assms st in \<open>clarsimp simp: Run_begin_def with_status_def\<close>; simp add: keeps_defs)
qed

lemma phase_RunStartup:
  assumes "phase m (RunStartup b) s pa q pr"
  shows "keeps (RunStartup b) (if b then m\<lparr>m_startupErr := e\<rparr> else m) RunStarted (RunStartup b) s pa q pr"
proof (cases "m_status m")
  case None
  with assms show ?thesis by (simp add: keeps_defs)
next
  case (Some st)
  then show ?thesis using assms stopper_starting [of s m "RunStartup b" pa] by (cases st) (auto simp: keeps_defs)
qed

lemma phase_RunStarted:
  assumes "Run_started m = Some (m', p')" "phase m RunStarted s pa q pr"
  shows "keeps RunStarted m' p' RunStarted s pa q pr"
proof -
  from assms(1) obtain st where st: "m_status m = Some st" by (auto simp: Run_started_def with_status_def)
  show ?thesis using stopper_starting [of s m RunStarted pa]
    by (cases st) (use assms st in \<open>auto simp: Run_started_def with_status_def close_startupDone_def keeps_defs split: if_splits\<close>)
qed

lemma phase_RunFailed:
  assumes "phase m RunFailed s pa q pr" "close_startupDone m (\<lambda>m. (m, Return (m_startupErr m))) = (m', p')"
  shows "keeps RunFailed m' p' RunFailed s pa q pr"
proof (cases "m_status m")
  case None
  with assms show ?thesis by (simp add: keeps_defs)
next
  case (Some st)
  then show ?thesis using assms stopper_starting [of s m RunFailed pa]
    by (cases st) (auto simp: keeps_defs close_startupDone_def split: if_splits)
qed

lemma phase_RunRunning:
  assumes "phase m RunRunning s pa q pr" "close_runDone m (\<lambda>m. (m, RunCheck e)) = (m', p')"
  shows "keeps RunRunning m' p' RunRunning s pa q pr"
proof -
  have *: "m' = m\<lparr>m_runDone := True\<rparr>" "p' = RunCheck e" using assms by (auto simp: phase_def close_runDone_def)
  have "status_ok (m_status m) m RunRunning s pa q pr \<Longrightarrow> status_ok (m_status m) (m\<lparr>m_runDone := True\<rparr>) LcIdle s pa q pr"
    using stopper_run_end [of s m pa]
    by (cases "(m_status m, m, RunRunning, s, pa, q, pr)" rule: status_ok.cases) (simp_all add: stage_defs)
  then show ?thesis using assms(1) unfolding * keeps_def phase_def by (simp add: sub_def observe_def)
qed

text \<open>Steps that change nothing and begin and end without a role.\<close>

lemma phase_silent:
  assumes "phase m r s pa q pr" "role_of p = None" "role_of p' = None" "calling p = None" "calling p' = None" "\<not> panicked p'"
  shows "keeps p m p' r s pa q pr"
  using assms by (simp add: keeps_def sub_def observe_def)

lemma stopper_startup: "stopper_ok ShWaitStartup m r pa \<Longrightarrow> m_startupDone m \<Longrightarrow> runner_ok r m \<Longrightarrow> r = LcIdle \<and> pa = LcIdle"
  by (cases r) auto

lemma phase_ShBegin:
  assumes "Shutdown_begin m = Some (m', p')" "phase m r s pa q pr"
  shows "keeps ShBegin m' p' r s pa q pr"
proof -
  from assms(1) obtain st where st: "m_status m = Some st" by (auto simp: Shutdown_begin_def with_status_def)
  have "st = StatusStarting \<Longrightarrow> m_startupCancel m \<and> \<not> m_pauseStartClosed m" "st = StatusPausing \<Longrightarrow> m_pauseCancel m"
    "st = StatusReady \<Longrightarrow> \<not> m_pauseStartClosed m" using assms(2) st by (auto simp: phase_def starting_def)
  then show ?thesis
    by (cases st; use assms st in \<open>clarsimp simp: Shutdown_begin_def with_status_def call_cancel_def close_pauseStart_def initShutdown_def\<close>;
        simp add: keeps_defs)
qed

lemma phase_stopper:
  assumes "phase m r s pa q pr" "role_of s = Some Stopper"
  shows "m_status m = Some StatusShutdown" "stopper_ok s m r pa" "runner_ok r m" "q = LcIdle" "m_shutdownCancel m"
    "resumer_ok pa pr" "pa \<noteq> LcIdle \<longrightarrow> m_pauseCancel m" "m_isPausing m \<longrightarrow> m_pauseCancel m \<and> 0 < m_pauseDone m"
  using assms by (cases "(m_status m, m, r, s, pa, q, pr)" rule: status_ok.cases; simp add: phase_def; fail)+

text \<open>A step of the stopper changes channels only.\<close>

lemma keeps_stopper:
  assumes "phase m r s pa q pr" "role_of s = Some Stopper" "\<not> panicked s'" "role_of s' \<in> {None, Some Stopper}"
    and "stopper_ok (sub Stopper s s' s) m' r pa" "runner_ok r m'" "m_status m' = m_status m" "m_shutdownCancel m' = m_shutdownCancel m"
    "m_pauseCancel m' = m_pauseCancel m" "m_isPausing m' = m_isPausing m" "m_pauseDone m' = m_pauseDone m" "calling s' = None"
  shows "keeps s m' s' r s pa q pr"
proof -
  have "calling s = None" using assms(2) by (cases s) auto
  then show ?thesis using assms phase_stopper [OF assms(1,2)] by (auto simp: keeps_def phase_def sub_def observe_def)
qed

lemma phase_ShWaitStartup:
  assumes "phase m r ShWaitStartup pa q pr" "m_startupDone m"
  shows "keeps ShWaitStartup m (ShCall False) r ShWaitStartup pa q pr"
proof -
  note s = phase_stopper [OF assms(1), simplified]
  have "r = LcIdle" "pa = LcIdle" using stopper_startup [of m r pa] s assms(2) by auto
  then show ?thesis by (intro keeps_stopper [OF assms(1)]) (use s assms(2) in \<open>auto simp: sub_def\<close>)
qed

lemma phase_ShWaitPause:
  assumes "phase m r ShWaitPause pa q pr"
  shows "keeps ShWaitPause m (ShCall True) r ShWaitPause pa q pr"
  by (rule keeps_stopper [OF assms]) (use phase_stopper [OF assms, simplified] in \<open>auto simp: sub_def\<close>)

lemma phase_ShWaitRun:
  assumes "phase m r (ShWaitRun e) pa q pr" "m_runDone m"
  shows "keeps (ShWaitRun e) m (ShEnd e) r (ShWaitRun e) pa q pr"
proof -
  note s = phase_stopper [OF assms(1), simplified]
  have "r = LcIdle" using s assms(2) by (auto simp: started_def)
  then show ?thesis by (intro keeps_stopper [OF assms(1)]) (use s in \<open>auto simp: sub_def started_def\<close>)
qed

lemma phase_ShCall:
  assumes "phase m r (ShCall b) pa q pr"
    "(if b then call_cancel (m_runCancel m) m (\<lambda>m. (m, ShWaitRun e)) else (m, ShEnd e)) = (m', p')"
  shows "keeps (ShCall b) m' p' r (ShCall b) pa q pr"
proof -
  note s = phase_stopper [OF assms(1), simplified]
  have "m' = m" "p' = (if b then ShWaitRun e else ShEnd e)" using assms(2) s by (auto simp: call_cancel_def started_def split: if_splits)
  then show ?thesis by (intro keeps_stopper [OF assms(1)]) (use s in \<open>auto simp: sub_def\<close>)
qed

lemma phase_ShEnd:
  assumes "phase m r (ShEnd e) pa q pr"
    "call_cancel (m_shutdownCancel m) m (\<lambda>m. close_shutdownDone m (\<lambda>m. (m, Return e))) = (m', p')"
  shows "keeps (ShEnd e) m' p' r (ShEnd e) pa q pr"
proof -
  note s = phase_stopper [OF assms(1), simplified]
  have "m' = m\<lparr>m_shutdownDone := True\<rparr>" "p' = Return e" using assms(2) s by (auto simp: call_cancel_def close_shutdownDone_def split: if_splits)
  then show ?thesis by (intro keeps_stopper [OF assms(1)]) (use s in \<open>auto simp: sub_def\<close>)
qed

lemma phase_ShUnknown1:
  assumes "phase m r ShUnknown1 pa q pr" "close_pauseStart m (\<lambda>m. (m, ShUnknown2)) = (m', p')"
  shows "keeps ShUnknown1 m' p' r ShUnknown1 pa q pr"
proof -
  note s = phase_stopper [OF assms(1), simplified]
  have "m' = m\<lparr>m_pauseStartClosed := True\<rparr>" "p' = ShUnknown2" using assms(2) s by (auto simp: close_pauseStart_def)
  then show ?thesis by (intro keeps_stopper [OF assms(1)]) (use s in \<open>auto simp: sub_def fresh_def\<close>)
qed

lemma phase_ShUnknown2:
  assumes "phase m r ShUnknown2 pa q pr" "close_startupDone m (\<lambda>m. (m, ShUnknown3)) = (m', p')"
  shows "keeps ShUnknown2 m' p' r ShUnknown2 pa q pr"
proof -
  note s = phase_stopper [OF assms(1), simplified]
  have "m' = m\<lparr>m_startupDone := True\<rparr>" "p' = ShUnknown3" using assms(2) s by (auto simp: close_startupDone_def fresh_def)
  then show ?thesis by (intro keeps_stopper [OF assms(1)]) (use s in \<open>auto simp: sub_def fresh_def\<close>)
qed

lemma phase_ShUnknown3:
  assumes "phase m r ShUnknown3 pa q pr" "close_shutdownDone m (\<lambda>m. (m, Return None)) = (m', p')"
  shows "keeps ShUnknown3 m' p' r ShUnknown3 pa q pr"
proof -
  note s = phase_stopper [OF assms(1), simplified]
  have "m' = m\<lparr>m_shutdownDone := True\<rparr>" "p' = Return None" using assms(2) s by (auto simp: close_shutdownDone_def)
  then show ?thesis by (intro keeps_stopper [OF assms(1)]) (use s in \<open>auto simp: sub_def\<close>)
qed

text \<open>One lemma for each program counter of \<open>Pause\<close> and \<open>Resume\<close>.\<close>

lemma phase_PaBegin:
  assumes "Pause_begin m = Some (m', p')" "phase m r s pa q pr" "0 < m_next m"
  shows "keeps PaBegin m' p' r s pa q pr"
proof -
  from assms(1) obtain st where st: "m_status m = Some st" by (auto simp: Pause_begin_def with_status_def)
  have "st = StatusReady \<Longrightarrow> \<not> m_pauseStartClosed m" using assms(2) st by (simp add: phase_def)
  then show ?thesis
    by (cases st; use assms st in \<open>clarsimp simp: Pause_begin_def with_status_def close_pauseStart_def Let_def split: if_splits\<close>;
        simp add: keeps_defs)
qed

lemma phase_PaGiveUp:
  assumes "phase m r s pa q pr"
  shows "keeps (PaGiveUp ch) (m\<lparr>m_isPausing := False\<rparr>) (PaEnd ch e) r s pa q pr"
  using assms by (simp add: keeps_def phase_def sub_def observe_def)

lemma phase_PaStarted:
  assumes "Pause_started ch m = Some (m', p')" "phase m r s pa q pr" "local_ok (PaStarted ch) m"
  shows "m_status m \<in> {Some StatusPausing, Some StatusPaused} \<and> p' = Panic UnexpectedState \<or> keeps (PaStarted ch) m' p' r s pa q pr"
proof -
  from assms(1) obtain st where st: "m_status m = Some st" by (auto simp: Pause_started_def with_status_def)
  have *: "st = StatusReady \<Longrightarrow> \<not> m_pauseStartClosed m" "st \<noteq> StatusUnknown" using assms(2,3) st by (auto simp: phase_def fresh_def)
  have "m_startupErr m \<noteq> None" if "st = StatusStarting"
    using assms(2,3) st that by (cases r) (auto simp: phase_def starting_def)
  with * show ?thesis
    by (cases st; use assms st in \<open>clarsimp simp: Pause_started_def with_status_def close_pauseStart_def\<close>; simp add: keeps_defs; fail)
qed

text \<open>The pauser moves on.\<close>

lemma keeps_pauser:
  assumes "phase m r s p q pr" "role_of p = Some Pauser" "role_of p' = Some Pauser" "resumer_ok p' (observe p p' pr)"
  shows "keeps p m p' r s p q pr"
proof -
  have "p \<noteq> LcIdle" "p' \<noteq> LcIdle" using assms(2,3) by auto
  then have "stopper_ok s m r p \<Longrightarrow> stopper_ok s m r p'" by (cases s) (auto split: if_splits)
  then have "status_ok (m_status m) m r s p q pr \<Longrightarrow> status_ok (m_status m) m r s p' q (observe p p' pr)"
    using \<open>p \<noteq> LcIdle\<close> \<open>p' \<noteq> LcIdle\<close> by (cases "(m_status m, m, r, s, p, q, pr)" rule: status_ok.cases) auto
  then show ?thesis using assms \<open>p \<noteq> LcIdle\<close> by (auto simp: keeps_def phase_def sub_def elim: panicked.elims)
qed

lemma phase_PaEnter:
  assumes "call_cancel (m_pauseResume m) m (\<lambda>m. (m, PaCall ch)) = (m', p')" "phase m r s (PaEnter ch) q pr"
  shows "\<not> m_pauseResume m \<and> p' = Panic NilFunc \<or> keeps (PaEnter ch) m' p' r s (PaEnter ch) q pr"
proof (cases "m_pauseResume m")
  case True
  then have *: "m' = m" "p' = PaCall ch" using assms by (auto simp: call_cancel_def)
  show ?thesis unfolding * by (intro disjI2 keeps_pauser [OF assms(2)]) (use assms(2) in \<open>simp_all add: phase_def observe_def\<close>)
qed (use assms in \<open>auto simp: call_cancel_def\<close>)

lemma phase_PaCall:
  assumes "call_cancel (m_pauseCancel m) m (\<lambda>m. (m, PaCalled ch e)) = (m', p')" "phase m r s (PaCall ch) q pr"
  shows "keeps (PaCall ch) m' p' r s (PaCall ch) q pr"
proof -
  have *: "m' = m" "p' = PaCalled ch e" using assms by (auto simp: call_cancel_def phase_def)
  show ?thesis unfolding * by (intro keeps_pauser [OF assms(2)]) (use assms(2) in \<open>auto simp: phase_def observe_def\<close>)
qed

lemma phase_PaCalled:
  assumes "Pause_called ch e m = Some (m', p')" "phase m r s (PaCalled ch e) q pr"
  shows "keeps (PaCalled ch e) m' p' r s (PaCalled ch e) q pr"
proof -
  from assms(1) obtain st where st: "m_status m = Some st" by (auto simp: Pause_called_def with_status_def)
  show ?thesis using stopper_pause_end [of s m r "PaCalled ch e"]
    by (cases st; use assms st in \<open>clarsimp simp: Pause_called_def with_status_def new_pauseStart_def split: if_splits\<close>;
        simp add: keeps_defs; fail)
qed

lemma phase_PaEnd:
  assumes "call_cancel (m_pauseCancel m) m (\<lambda>m. close_pauseDone ch m (\<lambda>m. (m, Return e))) = (m', p')"
    "phase m r s pa q pr" "m_pauseCancel m" "0 < ch" "ch \<notin> m_closed m"
  shows "keeps (PaEnd ch e) m' p' r s pa q pr"
proof -
  have "m' = m\<lparr>m_closed := insert ch (m_closed m)\<rparr>" "p' = Return e" using assms by (auto simp: call_cancel_def close_pauseDone_def)
  then show ?thesis using assms(2) by (simp add: keeps_def phase_def sub_def observe_def)
qed

lemma phase_ReBegin:
  assumes "Resume_begin m = Some (m', p')" "phase m r s pa q pr"
  shows "keeps ReBegin m' p' r s pa q pr"
proof -
  from assms(1) obtain st where st: "m_status m = Some st" by (auto simp: Resume_begin_def with_status_def)
  have "st = StatusPausing \<or> m_isPausing m \<Longrightarrow> m_pauseCancel m" using assms(2) st by (auto simp: phase_def)
  then show ?thesis
    by (cases st; use assms st in \<open>clarsimp simp: Resume_begin_def with_status_def call_cancel_def new_pauseStart_def split: if_splits\<close>;
        simp add: keeps_defs)
qed

lemma phase_ReResuming:
  assumes "phase m r s pa ReResuming pr"
  shows "keeps ReResuming (m\<lparr>m_status := Some StatusReady\<rparr>) (Return e) r s pa ReResuming pr"
proof -
  have "m_status m = None" using assms
    by (cases "(m_status m, m, r, s, pa, ReResuming, pr)" rule: status_ok.cases) (auto simp: phase_def)
  then show ?thesis using assms by (simp add: keeps_defs)
qed

end
