(* ===== verification/LifecycleSafe.thy ===== *)
theory LifecycleSafe
  imports LifecycleInv
begin

section \<open>The lifecycle with any number of goroutines\<close>

text \<open>
  The steps of \<open>LifecycleInv\<close> put together, for any number of goroutines: an invariant of every reachable
  state over the four roles, the channels that the pauses make, and what the other goroutines carry along; and
  what it says of the wrapped functions.
\<close>

text \<open>The channel \<open>pauseDone\<close> that a pause has made and not yet closed.\<close>

fun chan :: "lc_pc \<Rightarrow> nat option" where
  "chan (PaStartup ch) = Some ch"
| "chan (PaGiveUp ch) = Some ch"
| "chan (PaStarted ch) = Some ch"
| "chan (PaEnter ch) = Some ch"
| "chan (PaCall ch) = Some ch"
| "chan (PaCalled ch e) = Some ch"
| "chan (PaEnd ch e) = Some ch"
| "chan _ = None"

text \<open>The channel that a goroutine waits for.\<close>

fun awaits :: "lc_pc \<Rightarrow> nat option" where
  "awaits (PaWait ch) = Some ch"
| "awaits (ReWait ch) = Some ch"
| "awaits _ = None"

text \<open>A pause that waited for the start-up finds that another one got in first.\<close>

definition race_panic :: "lc_pc \<Rightarrow> Manager \<Rightarrow> lc_pc \<Rightarrow> bool" where
  "race_panic p m p' \<longleftrightarrow>
     (\<exists>ch. p = PaStarted ch \<and> m_status m \<in> {Some StatusPausing, Some StatusPaused} \<and> p' = Panic UnexpectedState)
     \<or> (\<exists>ch. p = PaEnter ch \<and> \<not> m_pauseResume m \<and> p' = Panic NilFunc)"

lemma phase_step:
  assumes "lc_next c p m = Some (m', p')" "phase m r s pa q pr" "local_ok p m" "0 < m_next m"
    and "\<And>ch. chan p = Some ch \<Longrightarrow> 0 < ch \<and> ch \<notin> m_closed m"
    and "role_of p = Some Runner \<Longrightarrow> p = r" "role_of p = Some Stopper \<Longrightarrow> p = s" "role_of p = Some Pauser \<Longrightarrow> p = pa"
    "role_of p = Some Resumer \<Longrightarrow> p = q"
  shows "race_panic p m p' \<or> keeps p m' p' r s pa q pr"
proof (cases p)
  case RunBegin then show ?thesis using assms phase_RunBegin by (simp add: lc_next_def on_go_def split: if_splits)
next case (RunStartup b) then show ?thesis using assms phase_RunStartup by (auto simp: lc_next_def on_ret_def split: choice.splits)
next case RunStarted then show ?thesis using assms phase_RunStarted by (simp add: lc_next_def on_go_def split: if_splits)
next case RunFailed then show ?thesis using assms phase_RunFailed by (simp add: lc_next_def on_go_def split: if_splits)
next case RunRunning then show ?thesis using assms phase_RunRunning by (simp add: lc_next_def on_ret_def split: choice.splits)
next case (RunCheck e) then show ?thesis using assms phase_silent [OF assms(2)]
    by (auto simp: lc_next_def on_go_def Run_check_def with_status_def split: if_splits)
next case (RunWait e) then show ?thesis using assms phase_silent [OF assms(2)] by (auto simp: lc_next_def on_go_def await_def split: if_splits)
next case ShBegin then show ?thesis using assms phase_ShBegin by (simp add: lc_next_def on_go_def split: if_splits)
next case ShJoin then show ?thesis using assms phase_silent [OF assms(2)]
    by (auto simp: lc_next_def on_select_def await_def call_cancel_def split: if_splits choice.splits)
next case ShJoinCanceled then show ?thesis using assms phase_silent [OF assms(2)]
    by (auto simp: lc_next_def on_go_def await_def split: if_splits)
next case ShWaitStartup then show ?thesis using assms phase_ShWaitStartup by (auto simp: lc_next_def on_go_def await_def split: if_splits)
next case ShUnknown1 then show ?thesis using assms phase_ShUnknown1 by (simp add: lc_next_def on_go_def split: if_splits)
next case ShUnknown2 then show ?thesis using assms phase_ShUnknown2 by (simp add: lc_next_def on_go_def split: if_splits)
next case ShUnknown3 then show ?thesis using assms phase_ShUnknown3 by (simp add: lc_next_def on_go_def split: if_splits)
next case ShWaitPause then show ?thesis using assms phase_ShWaitPause by (auto simp: lc_next_def on_go_def await_def split: if_splits)
next case (ShCall b) then show ?thesis using assms phase_ShCall [of m r b pa q pr] by (simp add: lc_next_def on_ret_def split: choice.splits)
next case (ShWaitRun e) then show ?thesis using assms phase_ShWaitRun by (auto simp: lc_next_def on_go_def await_def split: if_splits)
next case (ShEnd e) then show ?thesis using assms phase_ShEnd [of m r e pa q pr] by (auto simp: lc_next_def on_go_def split: if_splits)
next case PaBegin then show ?thesis using assms phase_PaBegin by (simp add: lc_next_def on_go_def split: if_splits)
next case (PaWait ch) then show ?thesis using assms phase_silent [OF assms(2)]
    by (auto simp: lc_next_def on_select_def await_def split: if_splits choice.splits)
next case (PaStartup ch) then show ?thesis using assms phase_silent [OF assms(2)]
    by (auto simp: lc_next_def on_select_def await_def split: if_splits choice.splits)
next case (PaGiveUp ch) then show ?thesis using assms phase_PaGiveUp by (auto simp: lc_next_def on_go_def with_status_def split: if_splits)
next case (PaStarted ch) then show ?thesis using assms phase_PaStarted [of ch m m' p' r s pa q pr]
    by (simp add: lc_next_def on_go_def race_panic_def split: if_splits)
next case (PaEnter ch) then show ?thesis using assms phase_PaEnter [of m ch m' p' r s q pr]
    by (auto simp: lc_next_def on_go_def race_panic_def split: if_splits)
next case (PaCall ch) then show ?thesis using assms phase_PaCall [of m ch _ m' p' r s q pr]
    by (auto simp: lc_next_def on_ret_def split: choice.splits)
next case (PaCalled ch e) then show ?thesis using assms phase_PaCalled [of ch e m m' p' r s q pr]
    by (auto simp: lc_next_def on_go_def split: if_splits)
next case (PaEnd ch e) then show ?thesis using assms phase_PaEnd by (simp add: lc_next_def on_go_def split: if_splits)
next case ReBegin then show ?thesis using assms phase_ReBegin by (simp add: lc_next_def on_go_def split: if_splits)
next case (ReWait ch) then show ?thesis using assms phase_silent [OF assms(2)] by (auto simp: lc_next_def on_go_def await_def split: if_splits)
next case ReResuming then show ?thesis using assms phase_ReResuming by (auto simp: lc_next_def on_ret_def split: choice.splits)
qed (use assms in \<open>simp_all add: lc_next_def\<close>)

text \<open>What a step does to the channels, and what it never takes back.\<close>

definition chan_step :: "lc_pc \<Rightarrow> Manager \<Rightarrow> Manager \<times> lc_pc \<Rightarrow> bool" where
  "chan_step p m x = (case x of (m', p') \<Rightarrow> m_shutdownErr m' = m_shutdownErr m
     \<and> (p \<noteq> ReResuming \<longrightarrow> m_status m = Some StatusShutdown \<longrightarrow> m_status m' = Some StatusShutdown) \<and>
     (m_pauseCancel m \<longrightarrow> m_pauseCancel m') \<and> (m_startupDone m \<longrightarrow> m_startupDone m') \<and> (m_shutdownCancel m \<longrightarrow> m_shutdownCancel m')
     \<and> (case awaits p' of None \<Rightarrow> True | Some ch \<Rightarrow> ch = m_pauseDone m \<and> (m_status m = Some StatusPausing \<or> m_isPausing m))
     \<and> (panicked p'
       \<or> chan p' = chan p \<and> m_next m' = m_next m \<and> m_closed m' = m_closed m \<and> m_pauseDone m' = m_pauseDone m
       \<or> chan p = None \<and> chan p' = Some (m_next m) \<and> m_next m' = m_next m + 1 \<and> m_closed m' = m_closed m \<and> m_pauseDone m' = m_next m
       \<or> chan p \<noteq> None \<and> chan p' = None \<and> m_next m' = m_next m \<and> m_closed m' = insert (the (chan p)) (m_closed m)
           \<and> m_pauseDone m' = m_pauseDone m))"

lemma all_with_status: "pred_option P (with_status m f) \<longleftrightarrow> (\<forall>st. m_status m = Some st \<longrightarrow> P (f st))"
  by (cases "m_status m") (auto simp: with_status_def)

lemma all_choices:
  "pred_option P (on_go c x) \<longleftrightarrow> (c = Go \<longrightarrow> pred_option P x)"
  "pred_option P (on_ret c f) \<longleftrightarrow> (\<forall>e. c = Ret e \<longrightarrow> P (f e))"
  "pred_option P (on_select c y x) \<longleftrightarrow> (c = CtxDone \<longrightarrow> P y) \<and> (c = Go \<longrightarrow> pred_option P x)"
  "pred_option P (await b y) \<longleftrightarrow> (b \<longrightarrow> P y)"
  by (auto simp: on_go_def on_ret_def on_select_def await_def split: choice.splits)

lemma chan_step_begins:
  "pred_option (chan_step PaBegin m) (Pause_begin m)" "pred_option (chan_step ReBegin m) (Resume_begin m)"
  "pred_option (chan_step ShBegin m) (Shutdown_begin m)" "pred_option (chan_step RunBegin m) (Run_begin m)"
  unfolding Pause_begin_def Resume_begin_def Shutdown_begin_def Run_begin_def all_with_status Let_def
  by (auto simp: chan_step_def close_pauseStart_def call_cancel_def new_pauseStart_def initShutdown_def split: lc_Status.split)

lemma chan_step_ends:
  "pred_option (chan_step RunStarted m) (Run_started m)" "pred_option (chan_step (PaStarted ch) m) (Pause_started ch m)"
  "pred_option (chan_step (PaCalled ch e) m) (Pause_called ch e m)" "pred_option (chan_step (RunCheck e) m) (Run_check e m)"
  unfolding Run_started_def Pause_started_def Pause_called_def Run_check_def all_with_status
  by (auto simp: chan_step_def close_pauseStart_def close_startupDone_def new_pauseStart_def split: lc_Status.split)

lemma lc_next_chan: "pred_option (chan_step p m) (lc_next c p m)"
  by (cases p) (simp_all add: lc_next_def all_choices chan_step_begins chan_step_ends all_with_status,
    simp_all add: chan_step_def close_startupDone_def close_runDone_def close_shutdownDone_def close_pauseStart_def close_pauseDone_def call_cancel_def)

subsection \<open>The invariant of all goroutines\<close>

definition holds :: "(nat \<Rightarrow> lc_pc) \<Rightarrow> role \<Rightarrow> nat option \<Rightarrow> bool" where
  "holds pcs k X \<longleftrightarrow> (\<forall>i. role_of (pcs i) = Some k \<longleftrightarrow> X = Some i)"

definition at_pc :: "(nat \<Rightarrow> lc_pc) \<Rightarrow> nat option \<Rightarrow> lc_pc" where
  "at_pc pcs X = (case X of None \<Rightarrow> LcIdle | Some i \<Rightarrow> pcs i)"

definition roles_inv :: "lc_sys \<Rightarrow> bool" where
  "roles_inv s \<longleftrightarrow> (\<exists>R S P Q. holds (ls_pc s) Runner R \<and> holds (ls_pc s) Stopper S \<and> holds (ls_pc s) Pauser P \<and> holds (ls_pc s) Resumer Q
     \<and> phase (ls_m s) (at_pc (ls_pc s) R) (at_pc (ls_pc s) S) (at_pc (ls_pc s) P) (at_pc (ls_pc s) Q) (ls_pr s))"

text \<open>Channels up to \<open>n\<close> have been made; each is closed or belongs to one goroutine.\<close>

definition chan_ok :: "nat \<Rightarrow> nat set \<Rightarrow> (nat \<Rightarrow> nat option) \<Rightarrow> bool" where
  "chan_ok n cl f \<longleftrightarrow> 0 < n \<and> (\<forall>ch\<in>cl. ch < n)
     \<and> (\<forall>i ch. f i = Some ch \<longrightarrow> 0 < ch \<and> ch < n \<and> ch \<notin> cl \<and> (\<forall>j. f j = Some ch \<longrightarrow> i = j))
     \<and> (\<forall>ch. 0 < ch \<longrightarrow> ch < n \<longrightarrow> ch \<in> cl \<or> (\<exists>i. f i = Some ch))"

lemma chan_okD:
  assumes "chan_ok n cl f"
  shows "0 < n" "ch \<in> cl \<Longrightarrow> ch < n" "f i = Some ch \<Longrightarrow> 0 < ch \<and> ch < n \<and> ch \<notin> cl" "f i = Some ch \<Longrightarrow> f j = Some ch \<Longrightarrow> i = j"
    "0 < ch \<Longrightarrow> ch < n \<Longrightarrow> ch \<notin> cl \<Longrightarrow> \<exists>i. f i = Some ch"
  using assms unfolding chan_ok_def by blast+

lemma chan_okI:
  assumes "0 < n" "\<And>ch. ch \<in> cl \<Longrightarrow> ch < n" "\<And>i ch. f i = Some ch \<Longrightarrow> 0 < ch \<and> ch < n \<and> ch \<notin> cl"
    "\<And>i j ch. f i = Some ch \<Longrightarrow> f j = Some ch \<Longrightarrow> i = j" "\<And>ch. 0 < ch \<Longrightarrow> ch < n \<Longrightarrow> ch \<notin> cl \<Longrightarrow> \<exists>i. f i = Some ch"
  shows "chan_ok n cl f"
  using assms unfolding chan_ok_def by blast

lemma chan_ok_new:
  assumes "chan_ok n cl f" "f i = None"
  shows "chan_ok (n + 1) cl (f(i := Some n))"
proof (rule chan_okI)
  note d = chan_okD [OF assms(1)]
  have new: "n \<notin> cl" "f j \<noteq> Some n" for j using d(2) [of n] d(3) [of j n] by auto
  show "ch < n + 1" if "ch \<in> cl" for ch using d(2) [OF that] by simp
  show "0 < ch \<and> ch < n + 1 \<and> ch \<notin> cl" if "(f(i := Some n)) j = Some ch" for j ch
    using that d(1) d(3) [of j ch] new(1) by (auto split: if_splits)
  show "j = k" if "(f(i := Some n)) j = Some ch" "(f(i := Some n)) k = Some ch" for j k ch
    using that d(4) [of j ch k] new(2) [of j] new(2) [of k] by (auto split: if_splits)
  show "\<exists>j. (f(i := Some n)) j = Some ch" if "0 < ch" "ch < n + 1" "ch \<notin> cl" for ch
  proof (cases "ch = n")
    case False
    with that d(5) [of ch] obtain j where "f j = Some ch" by auto
    with assms(2) show ?thesis by (intro exI [of _ j]) auto
  qed auto
qed simp

lemma chan_ok_close:
  assumes "chan_ok n cl f" "f i = Some ch"
  shows "chan_ok n (insert ch cl) (f(i := None))"
proof (rule chan_okI)
  note d = chan_okD [OF assms(1)]
  show "0 < n" by (rule d(1))
  show "k < n" if "k \<in> insert ch cl" for k using that d(2) [of k] d(3) [OF assms(2)] by auto
  show "0 < k \<and> k < n \<and> k \<notin> insert ch cl" if "(f(i := None)) j = Some k" for j k
    using that d(3) [of j k] d(4) [OF assms(2), of j] by (auto split: if_splits)
  show "j = j'" if "(f(i := None)) j = Some k" "(f(i := None)) j' = Some k" for j j' k
    using that d(4) [of j k j'] by (auto split: if_splits)
  show "\<exists>j. (f(i := None)) j = Some k" if "0 < k" "k < n" "k \<notin> insert ch cl" for k
  proof -
    from that d(5) [of k] obtain j where "f j = Some k" by auto
    with that assms(2) show ?thesis by (intro exI [of _ j]) auto
  qed
qed

definition chan_inv :: "lc_sys \<Rightarrow> bool" where
  "chan_inv s \<longleftrightarrow> chan_ok (m_next (ls_m s)) (m_closed (ls_m s)) (chan \<circ> ls_pc s) \<and> m_pauseDone (ls_m s) < m_next (ls_m s)
     \<and> (\<forall>i ch. awaits (ls_pc s i) = Some ch \<longrightarrow> 0 < ch \<and> ch < m_next (ls_m s))"

lemma chan_invD: "chan_inv s \<Longrightarrow> 0 < m_next (ls_m s)" "chan_inv s \<Longrightarrow> chan (ls_pc s i) = Some ch \<Longrightarrow> 0 < ch \<and> ch \<notin> m_closed (ls_m s)"
  by (auto simp: chan_inv_def chan_ok_def)

definition lc_inv :: "lc_sys \<Rightarrow> bool" where
  "lc_inv s \<longleftrightarrow> roles_inv s \<and> chan_inv s \<and> (\<forall>i. local_ok (ls_pc s i) (ls_m s))"

lemma holds_at: "holds pcs k X \<Longrightarrow> role_of (pcs i) = Some k \<Longrightarrow> pcs i = at_pc pcs X"
  by (auto simp: holds_def at_pc_def)

lemma holds_idle:
  assumes "holds pcs k X" "at_pc pcs X = LcIdle"
  shows "X = None"
proof (cases X)
  case (Some i)
  then have "role_of (pcs i) = Some k" using assms(1) by (simp only: holds_def)
  moreover have "pcs i = LcIdle" using assms(2) Some by (simp add: at_pc_def)
  ultimately show ?thesis by simp
qed

lemma holds_move:
  assumes "holds pcs k X" "role_of p' = Some k \<Longrightarrow> role_of (pcs i) \<noteq> Some k \<Longrightarrow> at_pc pcs X = LcIdle"
  shows "\<exists>X'. holds (pcs(i := p')) k X' \<and> at_pc (pcs(i := p')) X' = sub k (pcs i) p' (at_pc pcs X)"
proof -
  consider "role_of p' = Some k" | "role_of p' \<noteq> Some k" "role_of (pcs i) = Some k" | "role_of p' \<noteq> Some k" "role_of (pcs i) \<noteq> Some k"
    by blast
  then show ?thesis
  proof cases
    case 1
    then have "X = None \<or> X = Some i" using assms holds_idle [OF assms(1)] by (cases "role_of (pcs i) = Some k") (auto simp: holds_def)
    with 1 assms(1) have "holds (pcs(i := p')) k (Some i)" by (auto simp: holds_def)
    with 1 show ?thesis by (intro exI [of _ "Some i"]) (simp add: at_pc_def sub_def)
  next
    case 2
    then have "holds (pcs(i := p')) k None" using assms(1) by (auto simp: holds_def)
    with 2 show ?thesis by (intro exI [of _ None]) (simp add: at_pc_def sub_def)
  next
    case 3
    then have "X \<noteq> Some i" using assms(1) by (auto simp: holds_def)
    with 3 assms(1) have "holds (pcs(i := p')) k X" "at_pc (pcs(i := p')) X = at_pc pcs X"
      by (auto simp: holds_def at_pc_def split: option.split)
    with 3 show ?thesis by (intro exI [of _ X]) (simp add: sub_def)
  qed
qed

lemma local_ok_mono:
  assumes "local_ok p m" "chan_step p0 m (m', p')" "0 < m_next m" "\<not> panicked p'" "p0 = ReResuming \<Longrightarrow> m_status m = None"
  shows "local_ok p m'"
proof -
  have "m_status m = Some StatusShutdown \<longrightarrow> m_status m' = Some StatusShutdown"
    using assms(2,5) unfolding chan_step_def by (cases "p0 = ReResuming") auto
  moreover
  have "m_pauseCancel m \<longrightarrow> m_pauseCancel m'" "m_startupDone m \<longrightarrow> m_startupDone m'" "m_shutdownCancel m \<longrightarrow> m_shutdownCancel m'"
    "0 < m_pauseDone m \<longrightarrow> 0 < m_pauseDone m'" using assms(2-4) unfolding chan_step_def by auto
  ultimately show ?thesis using assms(1) by (cases p) auto
qed

lemma roles_move:
  assumes "roles_inv s" "chan_inv s" "local_ok (ls_pc s i) (ls_m s)" "lc_next c (ls_pc s i) (ls_m s) = Some (m', p')"
    and "\<not> race_panic (ls_pc s i) (ls_m s) p'"
  shows "\<not> panicked p' \<and> roles_inv (s\<lparr>ls_m := m', ls_pc := (ls_pc s)(i := p'), ls_pr := observe (ls_pc s i) p' (ls_pr s)\<rparr>)"
proof -
  let ?pcs = "ls_pc s" and ?p = "ls_pc s i"
  from assms(1) obtain R S P Q where h: "holds ?pcs Runner R" "holds ?pcs Stopper S" "holds ?pcs Pauser P" "holds ?pcs Resumer Q"
    and ph: "phase (ls_m s) (at_pc ?pcs R) (at_pc ?pcs S) (at_pc ?pcs P) (at_pc ?pcs Q) (ls_pr s)" unfolding roles_inv_def by blast
  have "race_panic ?p (ls_m s) p' \<or> keeps ?p m' p' (at_pc ?pcs R) (at_pc ?pcs S) (at_pc ?pcs P) (at_pc ?pcs Q) (ls_pr s)"
    by (rule phase_step [OF assms(4) ph assms(3)])
      (use assms(2) holds_at [OF h(1)] holds_at [OF h(2)] holds_at [OF h(3)] holds_at [OF h(4)] chan_invD [OF assms(2)] in auto)
  with assms(5) have k: "keeps ?p m' p' (at_pc ?pcs R) (at_pc ?pcs S) (at_pc ?pcs P) (at_pc ?pcs Q) (ls_pr s)" by blast
  have enter: "role_of p' = Some x \<Longrightarrow> role_of ?p \<noteq> Some x \<Longrightarrow>
      (case x of Runner \<Rightarrow> at_pc ?pcs R | Stopper \<Rightarrow> at_pc ?pcs S | Pauser \<Rightarrow> at_pc ?pcs P | Resumer \<Rightarrow> at_pc ?pcs Q) = LcIdle" for x
    using k by (auto simp: keeps_def)
  obtain R' where R': "holds (?pcs(i := p')) Runner R'" "at_pc (?pcs(i := p')) R' = sub Runner ?p p' (at_pc ?pcs R)"
    using holds_move [OF h(1), of p' i] enter [of Runner] by auto
  obtain S' where S': "holds (?pcs(i := p')) Stopper S'" "at_pc (?pcs(i := p')) S' = sub Stopper ?p p' (at_pc ?pcs S)"
    using holds_move [OF h(2), of p' i] enter [of Stopper] by auto
  obtain P' where P': "holds (?pcs(i := p')) Pauser P'" "at_pc (?pcs(i := p')) P' = sub Pauser ?p p' (at_pc ?pcs P)"
    using holds_move [OF h(3), of p' i] enter [of Pauser] by auto
  obtain Q' where Q': "holds (?pcs(i := p')) Resumer Q'" "at_pc (?pcs(i := p')) Q' = sub Resumer ?p p' (at_pc ?pcs Q)"
    using holds_move [OF h(4), of p' i] enter [of Resumer] by auto
  have "roles_inv (s\<lparr>ls_m := m', ls_pc := ?pcs(i := p'), ls_pr := observe ?p p' (ls_pr s)\<rparr>)"
    unfolding roles_inv_def
    by (rule exI [of _ R'], rule exI [of _ S'], rule exI [of _ P'], rule exI [of _ Q']) (use R' S' P' Q' k in \<open>simp add: keeps_def\<close>)
  with k show ?thesis by (simp add: keeps_def)
qed

lemma roles_awaited:
  assumes "roles_inv s" "m_status (ls_m s) = Some StatusPausing \<or> m_isPausing (ls_m s)"
  shows "0 < m_pauseDone (ls_m s)"
  using assms by (auto simp: roles_inv_def phase_def)

lemma chan_move:
  assumes c: "chan_inv s" and r: "roles_inv s" and n: "lc_next c (ls_pc s i) (ls_m s) = Some (m', p')" "\<not> panicked p'"
  shows "chan_inv (s\<lparr>ls_m := m', ls_pc := (ls_pc s)(i := p'), ls_pr := x\<rparr>)"
proof -
  let ?p = "ls_pc s i" and ?m = "ls_m s"
  have st: "chan_step ?p ?m (m', p')" using lc_next_chan [of ?p ?m c] n(1) by simp
  have aw: "0 < ch \<and> ch < m_next m'" if "awaits p' = Some ch" for ch
  proof -
    have "ch = m_pauseDone ?m" "m_status ?m = Some StatusPausing \<or> m_isPausing ?m" "m_next ?m \<le> m_next m'"
      using st that n(2) by (auto simp: chan_step_def)
    then show ?thesis using roles_awaited [OF r] c by (auto simp: chan_inv_def)
  qed
  have "chan_ok (m_next m') (m_closed m') (chan \<circ> (ls_pc s)(i := p')) \<and> m_pauseDone m' < m_next m'"
    using st n(2) c chan_ok_new [of "m_next ?m" "m_closed ?m" "chan \<circ> ls_pc s" i]
      chan_ok_close [of "m_next ?m" "m_closed ?m" "chan \<circ> ls_pc s" i]
    by (auto simp: chan_step_def chan_inv_def fun_upd_comp fun_upd_idem)
  moreover have "m_next ?m \<le> m_next m'" using st n(2) by (auto simp: chan_step_def)
  ultimately show ?thesis using c aw unfolding chan_inv_def by (auto intro: less_le_trans)
qed

text \<open>What a pause or a shutdown that joins another carries along is so.\<close>

definition local_step :: "Manager \<times> lc_pc \<Rightarrow> bool" where
  "local_step x = (case x of (m', p') \<Rightarrow> panicked p' \<or> local_ok p' m')"

lemma local_begins:
  "0 < m_next m \<Longrightarrow> pred_option local_step (Pause_begin m)" "pred_option local_step (Resume_begin m)" "pred_option local_step (Run_begin m)"
  "(m_status m = Some StatusShutdown \<Longrightarrow> m_shutdownCancel m) \<Longrightarrow> pred_option local_step (Shutdown_begin m)"
  unfolding Pause_begin_def Resume_begin_def Run_begin_def Shutdown_begin_def all_with_status Let_def
  by (auto simp: local_step_def close_pauseStart_def call_cancel_def new_pauseStart_def initShutdown_def split: lc_Status.split)

lemma local_ends:
  "pred_option local_step (Run_started m)" "pred_option local_step (Run_check e m)"
  "m_pauseCancel m \<Longrightarrow> pred_option local_step (Pause_started ch m)" "m_pauseCancel m \<Longrightarrow> pred_option local_step (Pause_called ch e m)"
  unfolding Run_started_def Run_check_def Pause_started_def Pause_called_def all_with_status
  by (auto simp: local_step_def close_pauseStart_def new_pauseStart_def close_startupDone_def split: lc_Status.split)

lemma lc_next_local:
  assumes "local_ok p m" "0 < m_next m" "m_status m = Some StatusShutdown \<Longrightarrow> m_shutdownCancel m" "role_of p = Some Pauser \<Longrightarrow> m_pauseCancel m"
  shows "pred_option local_step (lc_next c p m)"
  using assms
  by (cases p) (simp_all add: lc_next_def all_choices local_begins local_ends all_with_status,
    simp_all add: local_step_def close_startupDone_def close_runDone_def close_shutdownDone_def close_pauseStart_def close_pauseDone_def call_cancel_def)

lemma roles_shutdown: "roles_inv s \<Longrightarrow> m_status (ls_m s) = Some StatusShutdown \<Longrightarrow> m_shutdownCancel (ls_m s)"
  by (auto simp: roles_inv_def phase_def)

lemma roles_pauser:
  assumes "roles_inv s" "role_of (ls_pc s i) = Some Pauser"
  shows "m_pauseCancel (ls_m s)"
proof -
  from assms(1) obtain R S P Q where h: "holds (ls_pc s) Pauser P" and
    "phase (ls_m s) (at_pc (ls_pc s) R) (at_pc (ls_pc s) S) (at_pc (ls_pc s) P) (at_pc (ls_pc s) Q) (ls_pr s)"
    unfolding roles_inv_def by blast
  moreover have "at_pc (ls_pc s) P \<noteq> LcIdle" using holds_at [OF h assms(2)] assms(2) by auto
  ultimately show ?thesis by (simp add: phase_def)
qed

lemma roles_resumer:
  assumes "roles_inv s" "ls_pc s i = ReResuming"
  shows "m_status (ls_m s) = None"
proof -
  from assms(1) obtain R S P Q where h: "holds (ls_pc s) Resumer Q" and
    ph: "phase (ls_m s) (at_pc (ls_pc s) R) (at_pc (ls_pc s) S) (at_pc (ls_pc s) P) (at_pc (ls_pc s) Q) (ls_pr s)"
    unfolding roles_inv_def by blast
  have "at_pc (ls_pc s) Q = ReResuming" using holds_at [OF h, of i] assms(2) by simp
  with ph show ?thesis
    by (cases "(m_status (ls_m s), ls_m s, at_pc (ls_pc s) R, at_pc (ls_pc s) S, at_pc (ls_pc s) P, at_pc (ls_pc s) Q, ls_pr s)"
        rule: status_ok.cases) (simp_all add: phase_def)
qed

lemma lc_inv_move:
  assumes "lc_inv s" "lc_next c (ls_pc s i) (ls_m s) = Some (m', p')" "\<not> race_panic (ls_pc s i) (ls_m s) p'"
  shows "\<not> panicked p' \<and> lc_inv (s\<lparr>ls_m := m', ls_pc := (ls_pc s)(i := p'), ls_pr := observe (ls_pc s i) p' (ls_pr s)\<rparr>)"
proof -
  have inv: "roles_inv s" "chan_inv s" "\<And>j. local_ok (ls_pc s j) (ls_m s)" using assms(1) by (auto simp: lc_inv_def)
  note r = roles_move [OF inv assms(2,3)]
  have "chan_step (ls_pc s i) (ls_m s) (m', p')" "local_step (m', p')"
    using lc_next_chan [of "ls_pc s i" "ls_m s" c] lc_next_local [OF inv(3) chan_invD(1) [OF inv(2)], of i c] assms(2)
      roles_shutdown [OF inv(1)] roles_pauser [OF inv(1)] by auto
  then have "local_ok (((ls_pc s)(i := p')) j) m'" for j
    using local_ok_mono [OF inv(3)] chan_invD(1) [OF inv(2)] r roles_resumer [OF inv(1)] by (auto simp: local_step_def)
  moreover have "chan_inv (s\<lparr>ls_m := m', ls_pc := (ls_pc s)(i := p'), ls_pr := observe (ls_pc s i) p' (ls_pr s)\<rparr>)"
    using chan_move [OF inv(2,1) assms(2)] r by blast
  ultimately show ?thesis using r by (simp add: lc_inv_def)
qed

lemma holds_none: "(\<And>i. role_of (pcs i) = None) \<Longrightarrow> holds pcs k None"
  by (simp add: holds_def)

lemma lc_inv_init: "lc_inv lc_init"
proof -
  have "roles_inv lc_init" unfolding roles_inv_def
    by (intro exI [of _ None]) (simp add: holds_def at_pc_def lc_init_def NewManager_def phase_def fresh_def)
  moreover have "chan_inv lc_init" by (auto simp: chan_inv_def chan_ok_def lc_init_def NewManager_def)
  ultimately show ?thesis by (simp add: lc_inv_def lc_init_def)
qed

lemma holds_call:
  assumes "holds pcs k X" "pcs i = LcIdle" "role_of p = None"
  shows "holds (pcs(i := p)) k X \<and> at_pc (pcs(i := p)) X = at_pc pcs X"
proof -
  have "X \<noteq> Some i" using assms(1) [unfolded holds_def, THEN spec, of i] assms(2) by auto
  with assms show ?thesis by (auto simp: holds_def at_pc_def split: option.split)
qed

lemma lc_inv_call:
  assumes "lc_inv s" "ls_pc s i = LcIdle" "p \<in> {RunBegin, ShBegin, PaBegin, ReBegin}"
  shows "lc_inv (s\<lparr>ls_pc := (ls_pc s)(i := p)\<rparr>)"
proof -
  have p: "role_of p = None" "chan p = None" "awaits p = None" "\<And>m. local_ok p m" using assms(3) by auto
  from assms(1) obtain R S P Q where h: "holds (ls_pc s) Runner R" "holds (ls_pc s) Stopper S" "holds (ls_pc s) Pauser P" "holds (ls_pc s) Resumer Q"
    and ph: "phase (ls_m s) (at_pc (ls_pc s) R) (at_pc (ls_pc s) S) (at_pc (ls_pc s) P) (at_pc (ls_pc s) Q) (ls_pr s)"
    unfolding lc_inv_def roles_inv_def by blast
  have "roles_inv (s\<lparr>ls_pc := (ls_pc s)(i := p)\<rparr>)" unfolding roles_inv_def
    by (rule exI [of _ R], rule exI [of _ S], rule exI [of _ P], rule exI [of _ Q])
      (use ph holds_call [OF h(1) assms(2) p(1)] holds_call [OF h(2) assms(2) p(1)] holds_call [OF h(3) assms(2) p(1)]
        holds_call [OF h(4) assms(2) p(1)] in simp)
  moreover have "chan \<circ> (ls_pc s)(i := p) = chan \<circ> ls_pc s" using assms(2) p(2) by (auto simp: fun_eq_iff)
  then have "chan_inv (s\<lparr>ls_pc := (ls_pc s)(i := p)\<rparr>)" using assms(1) p(3) by (auto simp: lc_inv_def chan_inv_def)
  ultimately show ?thesis using assms(1) p(4) by (simp add: lc_inv_def)
qed

lemma local_frame: "local_ok p (m\<lparr>m_startupFunc := b\<rparr>) = local_ok p m" "local_ok p (m\<lparr>m_pauseResume := b\<rparr>) = local_ok p m"
  by (cases p; simp)+

lemma lc_inv_set:
  assumes "lc_inv s"
  shows "lc_inv (s\<lparr>ls_m := (ls_m s)\<lparr>m_startupFunc := b\<rparr>\<rparr>)" "lc_inv (s\<lparr>ls_m := (ls_m s)\<lparr>m_pauseResume := b\<rparr>\<rparr>)"
  using assms by (auto simp: lc_inv_def roles_inv_def chan_inv_def phase_def local_frame)

lemma lc_inv_step:
  assumes "lc_step s s'" "lc_inv s" "alive s'"
  shows "lc_inv s'"
  using assms(1)
proof cases
  case (call i p)
  then show ?thesis using lc_inv_call [OF assms(2)] by simp
next
  case (set_startup b m' e)
  then have "m' = ls_m s \<or> m' = (ls_m s)\<lparr>m_startupFunc := b\<rparr>" by (cases "the (m_status (ls_m s))") (auto simp: SetStartupFunc_def)
  then show ?thesis using set_startup(1) assms(2) lc_inv_set(1) [OF assms(2)] by auto
next
  case (set_resumer b m' e)
  then have "m' = ls_m s \<or> m' = (ls_m s)\<lparr>m_pauseResume := b\<rparr>" by (auto simp: SetPauseResumer_def split: if_splits)
  then show ?thesis using set_resumer(1) assms(2) lc_inv_set(2) [OF assms(2)] by auto
next
  case (move c i m' p')
  then have "\<not> panicked p'" using assms(3) unfolding alive_def by (auto dest: spec [of _ i])
  then have "\<not> race_panic (ls_pc s i) (ls_m s) p'" by (auto simp: race_panic_def)
  then show ?thesis using lc_inv_move [OF assms(2) move(3)] move(1) by simp
qed

lemma lc_reach_inv: "lc_reach s \<Longrightarrow> alive s \<Longrightarrow> lc_inv s"
proof (induction rule: lc_reach.induct)
  case (step s s')
  have "alive s" using step.hyps(2) by cases auto
  with step show ?case using lc_inv_step by blast
qed (simp add: lc_inv_init)

subsection \<open>Safety\<close>

text \<open>The wrapped functions, and which of them never run at the same time.\<close>

datatype wrapped = StartupFunc | RunFunc | ShutdownFunc | PauseFunc | ResumeFunc

fun inside :: "lc_pc \<Rightarrow> wrapped option" where
  "inside (RunStartup b) = Some StartupFunc"
| "inside RunRunning = Some RunFunc"
| "inside (ShCall b) = Some ShutdownFunc"
| "inside (PaCall ch) = Some PauseFunc"
| "inside ReResuming = Some ResumeFunc"
| "inside _ = None"

definition exclusive :: "wrapped \<Rightarrow> wrapped \<Rightarrow> bool" where
  "exclusive f g \<longleftrightarrow> f = g \<or> f = StartupFunc \<or> g = StartupFunc
     \<or> (f = ResumeFunc \<or> g = ResumeFunc) \<and> {f, g} \<inter> {PauseFunc, ShutdownFunc} \<noteq> {}"

fun role_in :: "wrapped \<Rightarrow> role" where
  "role_in StartupFunc = Runner"
| "role_in RunFunc = Runner"
| "role_in ShutdownFunc = Stopper"
| "role_in PauseFunc = Pauser"
| "role_in ResumeFunc = Resumer"

lemma inside_role: "inside p = Some f \<Longrightarrow> role_of p = Some (role_in f)"
  by (cases p) auto

lemma stopper_pausing: "stopper_ok s m r p \<Longrightarrow> inside r = Some StartupFunc \<Longrightarrow> p = LcIdle \<and> inside s = None"
  by (cases s; cases r) (auto simp: stage_defs split: if_splits)

lemma phase_exclusive:
  assumes "phase m r s p q pr"
  shows "inside r = Some StartupFunc \<Longrightarrow> inside s = None \<and> p = LcIdle \<and> q = LcIdle"
    and "inside q = Some ResumeFunc \<Longrightarrow> s = LcIdle \<and> p = LcIdle"
    and "inside r = Some RunFunc \<Longrightarrow> m_startupDone m \<and> m_startupErr m = None \<and> \<not> m_runDone m"
  using assms
  by (cases "(m_status m, m, r, s, p, q, pr)" rule: status_ok.cases; cases r; auto simp: phase_def stage_defs dest: stopper_pausing; fail)+

lemma phase_shutdown:
  assumes "phase m r s p q pr" "inside s = Some ShutdownFunc"
  shows "m_status m = Some StatusShutdown \<and> \<not> m_shutdownDone m"
  using phase_stopper(1,2) [OF assms(1)] inside_role [OF assms(2)] assms(2) by (cases s) auto

text \<open>The goroutines inside wrapped functions, by the four roles.\<close>

lemma lc_inv_roles:
  assumes "lc_inv s"
  obtains R S P Q where "holds (ls_pc s) Runner R" "holds (ls_pc s) Stopper S" "holds (ls_pc s) Pauser P" "holds (ls_pc s) Resumer Q"
    "phase (ls_m s) (at_pc (ls_pc s) R) (at_pc (ls_pc s) S) (at_pc (ls_pc s) P) (at_pc (ls_pc s) Q) (ls_pr s)"
  using assms unfolding lc_inv_def roles_inv_def by blast

lemma inside_exclusive:
  assumes "lc_inv s" "inside (ls_pc s i) = Some f" "inside (ls_pc s j) = Some g" "exclusive f g"
  shows "i = j"
proof (rule lc_inv_roles [OF assms(1)])
  fix R S P Q assume h: "holds (ls_pc s) Runner R" "holds (ls_pc s) Stopper S" "holds (ls_pc s) Pauser P" "holds (ls_pc s) Resumer Q"
    and ph: "phase (ls_m s) (at_pc (ls_pc s) R) (at_pc (ls_pc s) S) (at_pc (ls_pc s) P) (at_pc (ls_pc s) Q) (ls_pr s)"
  define X where "X k = (case k of Runner \<Rightarrow> R | Stopper \<Rightarrow> S | Pauser \<Rightarrow> P | Resumer \<Rightarrow> Q)" for k
  have X: "holds (ls_pc s) k (X k)" for k using h by (cases k) (simp_all add: X_def)
  have own: "X (role_in w) = Some l" if "inside (ls_pc s l) = Some w" for l w
    using X [of "role_in w", unfolded holds_def, THEN spec, of l] inside_role [OF that] by simp
  show ?thesis
  proof (cases "role_in f = role_in g")
    case True
    then show ?thesis using own [OF assms(2)] own [OF assms(3)] by simp
  next
    case False
    have "inside (at_pc (ls_pc s) (X (role_in f))) = Some f" "inside (at_pc (ls_pc s) (X (role_in g))) = Some g"
      using own [OF assms(2)] own [OF assms(3)] assms(2,3) by (simp_all add: at_pc_def)
    then have False using phase_exclusive(1,2) [OF ph] False assms(4)
      by (cases f; cases g) (auto simp: exclusive_def X_def)
    then show ?thesis ..
  qed
qed

lemma resumer_protocol: "lc_inv s \<Longrightarrow> ls_pr s \<noteq> None"
proof (erule lc_inv_roles)
  fix R S P Q assume "phase (ls_m s) (at_pc (ls_pc s) R) (at_pc (ls_pc s) S) (at_pc (ls_pc s) P) (at_pc (ls_pc s) Q) (ls_pr s)"
  then have "resumer_ok (at_pc (ls_pc s) P) (ls_pr s)" by (simp add: phase_def)
  then show ?thesis by (cases "at_pc (ls_pc s) P") auto
qed

text \<open>What the status says.\<close>

definition status_true :: "lc_sys \<Rightarrow> bool" where
  "status_true s = (case m_status (ls_m s) of
     Some StatusUnknown \<Rightarrow> \<not> m_startupDone (ls_m s) \<and> (\<forall>i. inside (ls_pc s i) = None)
   | Some StatusReady \<Rightarrow> ls_pr s = Some PrRunning \<and> m_startupErr (ls_m s) = None \<and> (m_runDone (ls_m s) \<or> (\<exists>i. inside (ls_pc s i) = Some RunFunc))
   | Some StatusPaused \<Rightarrow> ls_pr s = Some PrPaused
   | None \<Rightarrow> ls_pr s = Some PrResuming \<and> (\<exists>i. inside (ls_pc s i) = Some ResumeFunc)
   | _ \<Rightarrow> True)"

lemma at_SomeE: "at_pc pcs X = p \<Longrightarrow> p \<noteq> LcIdle \<Longrightarrow> (\<And>i. pcs i = p \<Longrightarrow> thesis) \<Longrightarrow> thesis"
  by (cases X) (auto simp: at_pc_def)

lemma status_true_inv:
  assumes "lc_inv s"
  shows "status_true s"
proof (rule lc_inv_roles [OF assms])
  fix R S P Q assume h: "holds (ls_pc s) Runner R" "holds (ls_pc s) Stopper S" "holds (ls_pc s) Pauser P" "holds (ls_pc s) Resumer Q"
    and ph: "phase (ls_m s) (at_pc (ls_pc s) R) (at_pc (ls_pc s) S) (at_pc (ls_pc s) P) (at_pc (ls_pc s) Q) (ls_pr s)"
  have none: "inside (ls_pc s i) = None" if "R = None" "S = None" "P = None" "Q = None" for i
  proof (cases "inside (ls_pc s i)")
    case (Some f)
    then show ?thesis using inside_role [OF Some] h that by (cases f) (auto simp: holds_def)
  qed
  have run: "\<exists>i. inside (ls_pc s i) = Some RunFunc" if "at_pc (ls_pc s) R = RunRunning"
    using that by (rule at_SomeE) (simp, metis inside.simps(2))
  have resume: "\<exists>i. inside (ls_pc s i) = Some ResumeFunc" if "at_pc (ls_pc s) Q = ReResuming"
    using that by (rule at_SomeE) (simp, metis inside.simps(5))
  show ?thesis
  proof (cases "m_status (ls_m s)")
    case None
    then show ?thesis using ph resume by (simp add: status_true_def phase_def)
  next
    case (Some st)
    then show ?thesis using ph run none holds_idle [OF h(1)] holds_idle [OF h(2)] holds_idle [OF h(3)] holds_idle [OF h(4)]
      by (cases st) (auto simp: status_true_def phase_def stage_defs)
  qed
qed

end
