(* ===== verification/LifecycleLive.thy ===== *)
theory LifecycleLive
  imports LifecycleSafe
begin

section \<open>The lifecycle: what holds, who waits for whom, and the races of two pauses\<close>

text \<open>
  A goroutine inside a call of the manager that cannot go on waits for another one that has not yet done its
  part, and the chain of those ends at one that can go on.  Then an executable schedule; the theorems; and
  the interleavings in which pauses that overlap during the start-up break what the manager promises.
\<close>

fun in_call :: "lc_pc \<Rightarrow> bool" where
  "in_call LcIdle = False"
| "in_call (Return e) = False"
| "in_call (Panic w) = False"
| "in_call _ = True"

text \<open>Nothing but the end of its context makes the goroutine go on; a wrapped function may always return.\<close>

definition stuck :: "lc_pc \<Rightarrow> Manager \<Rightarrow> bool" where
  "stuck p m \<longleftrightarrow> lc_next Go p m = None \<and> (\<forall>e. lc_next (Ret e) p m = None)"

text \<open>Whether a goroutine at \<open>q\<close> has yet to provide what one at \<open>p\<close> waits for: the status or a closed channel.\<close>

fun provides :: "lc_pc \<Rightarrow> lc_pc \<Rightarrow> Manager \<Rightarrow> bool" where
  "provides q (PaWait ch) m \<longleftrightarrow> chan q = Some ch"
| "provides q (ReWait ch) m \<longleftrightarrow> chan q = Some ch"
| "provides q (PaStartup ch) m \<longleftrightarrow> role_of q = Some Runner \<or> q = ShUnknown1 \<or> q = ShUnknown2"
| "provides q ShWaitStartup m \<longleftrightarrow> role_of q = Some Runner"
| "provides q ShWaitPause m \<longleftrightarrow> chan q = Some (m_pauseDone m)"
| "provides q (ShWaitRun e) m \<longleftrightarrow> q = RunRunning"
| "provides q (RunWait e) m \<longleftrightarrow> role_of q = Some Stopper"
| "provides q ShJoin m \<longleftrightarrow> role_of q = Some Stopper"
| "provides q ShJoinCanceled m \<longleftrightarrow> role_of q = Some Stopper"
| "provides q p m \<longleftrightarrow> q = ReResuming"

text \<open>Why a goroutine can be stuck.\<close>

fun waits :: "lc_pc \<Rightarrow> Manager \<Rightarrow> bool" where
  "waits (PaWait ch) m \<longleftrightarrow> ch \<notin> m_closed m"
| "waits (ReWait ch) m \<longleftrightarrow> ch \<notin> m_closed m"
| "waits (PaStartup ch) m \<longleftrightarrow> \<not> m_startupDone m"
| "waits ShWaitStartup m \<longleftrightarrow> \<not> m_startupDone m"
| "waits ShWaitPause m \<longleftrightarrow> m_pauseDone m \<notin> m_closed m"
| "waits (ShWaitRun e) m \<longleftrightarrow> \<not> m_runDone m"
| "waits (RunWait e) m \<longleftrightarrow> \<not> m_shutdownDone m"
| "waits ShJoin m \<longleftrightarrow> \<not> m_shutdownDone m"
| "waits ShJoinCanceled m \<longleftrightarrow> \<not> m_shutdownDone m"
| "waits p m \<longleftrightarrow> m_status m = None"

lemma with_status_None: "with_status m f = None \<longleftrightarrow> m_status m = None"
  by (simp add: with_status_def)

lemma stuck_waits: "in_call p \<Longrightarrow> stuck p m \<Longrightarrow> waits p m"
  by (cases p) (auto simp: stuck_def lc_next_def on_go_def on_ret_def on_select_def await_def Run_begin_def Run_started_def Run_check_def
    Shutdown_begin_def Pause_begin_def Pause_started_def Pause_called_def Resume_begin_def with_status_None split: if_splits)

subsection \<open>The goroutine that is waited for\<close>

lemma at_role:
  assumes "holds pcs k X" "at_pc pcs X \<noteq> LcIdle"
  shows "\<exists>j. pcs j = at_pc pcs X \<and> role_of (pcs j) = Some k"
proof (cases X)
  case (Some j)
  then show ?thesis using assms(1) [unfolded holds_def, THEN spec, of j] by (intro exI [of _ j]) (simp add: at_pc_def)
qed (use assms(2) in \<open>simp add: at_pc_def\<close>)

lemma phase_waits:
  assumes "phase m r s p q pr"
  shows "m_status m = None \<Longrightarrow> q = ReResuming"
    and "\<not> m_startupDone m \<Longrightarrow> m_status m \<noteq> Some StatusUnknown \<Longrightarrow> runner_ok r m \<and> r \<notin> {LcIdle, RunRunning} \<or> s \<in> {ShUnknown1, ShUnknown2}"
    and "m_status m = Some StatusShutdown \<Longrightarrow> \<not> m_shutdownDone m \<Longrightarrow> s \<noteq> LcIdle"
    and "s = ShWaitStartup \<Longrightarrow> \<not> m_startupDone m \<Longrightarrow> r \<noteq> LcIdle"
    and "s = ShWaitPause \<Longrightarrow> 0 < m_pauseDone m \<and> m_startupDone m"
    and "s = ShWaitRun e \<Longrightarrow> \<not> m_runDone m \<Longrightarrow> r = RunRunning"
proof -
  show "m_status m = None \<Longrightarrow> q = ReResuming" using assms by (simp add: phase_def)
  show "s \<noteq> LcIdle" if "m_status m = Some StatusShutdown" "\<not> m_shutdownDone m" using assms that by (auto simp: phase_def)
  show "r \<noteq> LcIdle" if "s = ShWaitStartup" "\<not> m_startupDone m"
    using phase_stopper(2) [OF assms] that by auto
  show "0 < m_pauseDone m \<and> m_startupDone m" if "s = ShWaitPause"
    using phase_stopper(2) [OF assms] that by (auto simp: started_def)
  show "r = RunRunning" if "s = ShWaitRun e" "\<not> m_runDone m"
    using phase_stopper(2) [OF assms] that by (auto simp: started_def)
  show "runner_ok r m \<and> r \<notin> {LcIdle, RunRunning} \<or> s \<in> {ShUnknown1, ShUnknown2}" if "\<not> m_startupDone m" "m_status m \<noteq> Some StatusUnknown"
  proof -
    have "stopper_ok s m r p \<Longrightarrow> r = LcIdle \<Longrightarrow> s \<in> {ShUnknown1, ShUnknown2}"
      using that(1) by (cases s) (auto simp: started_def split: if_splits)
    then show ?thesis using assms that
      by (cases "(m_status m, m, r, s, p, q, pr)" rule: status_ok.cases) (auto simp: phase_def stage_defs)
  qed
qed

lemma chan_owner: "chan_inv s \<Longrightarrow> 0 < ch \<Longrightarrow> ch < m_next (ls_m s) \<Longrightarrow> ch \<notin> m_closed (ls_m s) \<Longrightarrow> \<exists>j. chan (ls_pc s j) = Some ch"
  using chan_okD(5) [of "m_next (ls_m s)" "m_closed (ls_m s)" "chan \<circ> ls_pc s" ch] by (simp add: chan_inv_def)

text \<open>Each of the things that are waited for is owed by somebody.\<close>

lemma owed:
  assumes "lc_inv s"
  shows "m_status (ls_m s) = None \<Longrightarrow> \<exists>j. ls_pc s j = ReResuming"
    and "\<not> m_startupDone (ls_m s) \<Longrightarrow> m_status (ls_m s) \<noteq> Some StatusUnknown
      \<Longrightarrow> \<exists>j. role_of (ls_pc s j) = Some Runner \<and> ls_pc s j \<noteq> RunRunning \<or> ls_pc s j = ShUnknown1 \<or> ls_pc s j = ShUnknown2"
    and "m_status (ls_m s) = Some StatusShutdown \<Longrightarrow> \<not> m_shutdownDone (ls_m s) \<Longrightarrow> \<exists>j. role_of (ls_pc s j) = Some Stopper"
    and "ls_pc s i = ShWaitStartup \<Longrightarrow> \<not> m_startupDone (ls_m s) \<Longrightarrow> \<exists>j. role_of (ls_pc s j) = Some Runner"
    and "ls_pc s i = ShWaitPause \<Longrightarrow> m_pauseDone (ls_m s) \<notin> m_closed (ls_m s) \<Longrightarrow> \<exists>j. chan (ls_pc s j) = Some (m_pauseDone (ls_m s))"
    and "ls_pc s i = ShWaitRun e \<Longrightarrow> \<not> m_runDone (ls_m s) \<Longrightarrow> \<exists>j. ls_pc s j = RunRunning"
    and "awaits (ls_pc s i) = Some ch \<Longrightarrow> ch \<notin> m_closed (ls_m s) \<Longrightarrow> \<exists>j. chan (ls_pc s j) = Some ch"
proof -
  obtain R S P Q where h: "holds (ls_pc s) Runner R" "holds (ls_pc s) Stopper S" "holds (ls_pc s) Pauser P" "holds (ls_pc s) Resumer Q"
    and ph: "phase (ls_m s) (at_pc (ls_pc s) R) (at_pc (ls_pc s) S) (at_pc (ls_pc s) P) (at_pc (ls_pc s) Q) (ls_pr s)"
    by (rule lc_inv_roles [OF assms])
  note w = phase_waits [OF ph] and a = at_role [OF h(1)] at_role [OF h(2)] at_role [OF h(4)] and at = holds_at [OF h(2), of i]
  have c: "chan_inv s" using assms by (simp add: lc_inv_def)
  show "\<exists>j. ls_pc s j = ReResuming" if "m_status (ls_m s) = None"
    using w(1) [OF that] a(3) by auto
  show "\<exists>j. role_of (ls_pc s j) = Some Runner \<and> ls_pc s j \<noteq> RunRunning \<or> ls_pc s j = ShUnknown1 \<or> ls_pc s j = ShUnknown2"
    if "\<not> m_startupDone (ls_m s)" "m_status (ls_m s) \<noteq> Some StatusUnknown"
    using w(2) [OF that]
  proof
    assume "runner_ok (at_pc (ls_pc s) R) (ls_m s) \<and> at_pc (ls_pc s) R \<notin> {LcIdle, RunRunning}"
    then show ?thesis using a(1) by (metis insertCI)
  next
    assume "at_pc (ls_pc s) S \<in> {ShUnknown1, ShUnknown2}"
    then have "at_pc (ls_pc s) S = ShUnknown1 \<or> at_pc (ls_pc s) S = ShUnknown2" by simp
    then show ?thesis using a(2) by (metis lc_pc.distinct)
  qed
  show "\<exists>j. role_of (ls_pc s j) = Some Stopper" if "m_status (ls_m s) = Some StatusShutdown" "\<not> m_shutdownDone (ls_m s)"
    using w(3) [OF that] a(2) by blast
  show "\<exists>j. role_of (ls_pc s j) = Some Runner" if "ls_pc s i = ShWaitStartup" "\<not> m_startupDone (ls_m s)"
    using w(4) that a(1) at by auto
  show "\<exists>j. chan (ls_pc s j) = Some (m_pauseDone (ls_m s))" if "ls_pc s i = ShWaitPause" "m_pauseDone (ls_m s) \<notin> m_closed (ls_m s)"
    using w(5) that at c by (intro chan_owner) (auto simp: chan_inv_def)
  show "\<exists>j. ls_pc s j = RunRunning" if "ls_pc s i = ShWaitRun e" "\<not> m_runDone (ls_m s)"
    using w(6) that a(1) at by auto
  show "\<exists>j. chan (ls_pc s j) = Some ch" if "awaits (ls_pc s i) = Some ch" "ch \<notin> m_closed (ls_m s)"
    using c that by (intro chan_owner) (auto simp: chan_inv_def)
qed

lemma waits_provided:
  assumes "lc_inv s" "waits (ls_pc s i) (ls_m s)" "in_call (ls_pc s i)"
    and "\<And>ch. ls_pc s i = PaStartup ch \<Longrightarrow> m_status (ls_m s) \<noteq> Some StatusUnknown"
  shows "\<exists>j. provides (ls_pc s j) (ls_pc s i) (ls_m s)"
proof -
  note o = owed [OF assms(1)]
  have l: "local_ok (ls_pc s i) (ls_m s)" using assms(1) by (simp add: lc_inv_def)
  show ?thesis
  proof (cases "ls_pc s i")
    case (PaStartup ch)
    then have "\<exists>j. role_of (ls_pc s j) = Some Runner \<and> ls_pc s j \<noteq> RunRunning \<or> ls_pc s j = ShUnknown1 \<or> ls_pc s j = ShUnknown2"
      using o(2) assms(2,4) by simp
    with PaStartup show ?thesis by auto
  qed (use o(1,3) o(4) [of i] o(5) [of i] o(6) [of i] o(7) [of i] assms(2,3) l in simp_all)
qed

subsection \<open>Somebody can go on\<close>

text \<open>Goroutines that are not stuck once the status is there.\<close>

lemma not_stuck:
  "\<not> stuck ReResuming m" "\<not> stuck ShUnknown1 m" "\<not> stuck ShUnknown2 m" "\<not> stuck RunRunning m"
  by (simp_all add: stuck_def lc_next_def on_go_def on_ret_def)

lemma not_stuck_role:
  "role_of p = Some Runner \<Longrightarrow> m_status m \<noteq> None \<Longrightarrow> \<not> stuck p m"
  "chan p \<noteq> None \<Longrightarrow> m_status m \<noteq> None \<Longrightarrow> (\<And>ch. p = PaStartup ch \<Longrightarrow> m_startupDone m) \<Longrightarrow> \<not> stuck p m"
  using stuck_waits [of p m]
  by (cases p; auto; fail)+

definition goes_on :: "lc_sys \<Rightarrow> bool" where
  "goes_on s \<longleftrightarrow> (\<exists>j. in_call (ls_pc s j) \<and> \<not> stuck (ls_pc s j) (ls_m s))"

lemma goes_onI: "\<not> stuck (ls_pc s j) (ls_m s) \<Longrightarrow> in_call (ls_pc s j) \<Longrightarrow> goes_on s"
  by (auto simp: goes_on_def)

lemma in_call_role: "role_of p \<noteq> None \<Longrightarrow> in_call p" "chan p \<noteq> None \<Longrightarrow> in_call p"
  by (cases p; simp)+

lemma startup_goes_on:
  assumes "lc_inv s" "m_status (ls_m s) \<noteq> None" "\<not> m_startupDone (ls_m s)" "m_status (ls_m s) \<noteq> Some StatusUnknown"
  shows "goes_on s"
proof -
  obtain j where "role_of (ls_pc s j) = Some Runner \<or> ls_pc s j = ShUnknown1 \<or> ls_pc s j = ShUnknown2"
    using owed(2) [OF assms(1,3,4)] by blast
  then show ?thesis using not_stuck(2,3) not_stuck_role(1) [OF _ assms(2)] using in_call_role(1) [of "ls_pc s j"] by (intro goes_onI [of s j]) auto
qed

lemma pause_goes_on:
  assumes "lc_inv s" "m_status (ls_m s) \<notin> {None, Some StatusUnknown}" "chan (ls_pc s j) = Some ch"
  shows "goes_on s"
proof (cases "\<exists>ch. ls_pc s j = PaStartup ch \<and> \<not> m_startupDone (ls_m s)")
  case True
  then show ?thesis using startup_goes_on [OF assms(1)] assms(2) by auto
next
  case False
  then show ?thesis using not_stuck_role(2) [of "ls_pc s j" "ls_m s"] assms(2,3) in_call_role(2) by (intro goes_onI [of s j]) auto
qed

lemma stopper_goes_on:
  assumes "lc_inv s" "role_of (ls_pc s j) = Some Stopper"
  shows "goes_on s"
proof (rule ccontr)
  assume n: "\<not> goes_on s"
  have "m_status (ls_m s) = Some StatusShutdown"
  proof (rule lc_inv_roles [OF assms(1)])
    fix R S P Q assume h: "holds (ls_pc s) Stopper S"
      and ph: "phase (ls_m s) (at_pc (ls_pc s) R) (at_pc (ls_pc s) S) (at_pc (ls_pc s) P) (at_pc (ls_pc s) Q) (ls_pr s)"
    show ?thesis using phase_stopper(1) [OF ph] holds_at [OF h assms(2)] assms(2) by simp
  qed
  then have st: "m_status (ls_m s) \<notin> {None, Some StatusUnknown}" by simp
  have "waits (ls_pc s j) (ls_m s)" using stuck_waits n in_call_role(1) assms(2) by (auto simp: goes_on_def)
  moreover have "m_startupDone (ls_m s)" using startup_goes_on [OF assms(1)] st n by auto
  ultimately show False
    using assms(2) st owed(5,6) [OF assms(1), of j] pause_goes_on [OF assms(1) st] goes_onI [of s] n not_stuck(4) [of "ls_m s"]
    by (cases "ls_pc s j") (simp_all, (metis in_call.simps)+)
qed

lemma lc_goes_on:
  assumes "lc_inv s" "in_call (ls_pc s i)"
    and "m_status (ls_m s) = Some StatusUnknown \<Longrightarrow> \<forall>j ch. ls_pc s j \<noteq> PaStartup ch"
  shows "goes_on s"
proof (rule ccontr)
  assume n: "\<not> goes_on s"
  have w: "waits (ls_pc s i) (ls_m s)" using stuck_waits n assms(2) by (auto simp: goes_on_def)
  obtain j where p: "provides (ls_pc s j) (ls_pc s i) (ls_m s)" using waits_provided [OF assms(1) w assms(2)] assms(3) by blast
  show False
  proof (cases "m_status (ls_m s)")
    case None
    then show False using owed(1) [OF assms(1)] goes_onI [of s] not_stuck(1) n by (metis in_call_role(1) option.distinct(1) role_of.simps)
  next
    case (Some st)
    have own: "chan (ls_pc s k) = None" for k
    proof (cases "st = StatusUnknown")
      case True
      then show ?thesis using assms(3) Some not_stuck_role(2) [of "ls_pc s k" "ls_m s"] n in_call_role(2) goes_onI by force
    next
      case False
      then show ?thesis using pause_goes_on [OF assms(1), of k] Some n by (cases "chan (ls_pc s k)") auto
    qed
    have run: "role_of (ls_pc s k) \<noteq> Some Runner" for k
      using not_stuck_role(1) [of "ls_pc s k" "ls_m s"] Some n in_call_role(1) goes_onI [of s k] by auto
    have "role_of (ls_pc s j) \<noteq> Some Stopper" using stopper_goes_on [OF assms(1)] n by blast
    then show False using p w own [of j] run [of j] Some \<open>in_call (ls_pc s i)\<close> by (cases "ls_pc s i") auto
  qed
qed

subsection \<open>Schedules\<close>

text \<open>A schedule that runs without a panic leads to a state that can be reached.\<close>

datatype lc_act = CallOp nat lc_pc | SetStartup bool | SetResumer bool | Move nat choice

fun lc_do :: "lc_act \<Rightarrow> lc_sys \<Rightarrow> lc_sys option" where
  "lc_do (CallOp i p) s =
     (if ls_pc s i = LcIdle \<and> p \<in> {RunBegin, ShBegin, PaBegin, ReBegin} then Some (s\<lparr>ls_pc := (ls_pc s)(i := p)\<rparr>) else None)"
| "lc_do (SetStartup b) s = map_option (\<lambda>(m', e). s\<lparr>ls_m := m'\<rparr>) (SetStartupFunc b (ls_m s))"
| "lc_do (SetResumer b) s = map_option (\<lambda>(m', e). s\<lparr>ls_m := m'\<rparr>) (SetPauseResumer b (ls_m s))"
| "lc_do (Move i c) s =
     (case lc_next c (ls_pc s i) (ls_m s) of
        None \<Rightarrow> None
      | Some (m', p') \<Rightarrow> if panicked p' then None
          else Some (s\<lparr>ls_m := m', ls_pc := (ls_pc s)(i := p'), ls_pr := observe (ls_pc s i) p' (ls_pr s)\<rparr>))"

fun lc_run :: "lc_act list \<Rightarrow> lc_sys \<Rightarrow> lc_sys option" where
  "lc_run [] s = Some s"
| "lc_run (a # as) s = Option.bind (lc_do a s) (lc_run as)"

lemma lc_do_reach:
  assumes "lc_do a s = Some s'" "lc_reach s" "alive s"
  shows "lc_reach s' \<and> alive s'"
proof -
  have "lc_step s s' \<and> alive s'"
  proof (cases a)
    case (Move i c)
    then obtain m' p' where n: "lc_next c (ls_pc s i) (ls_m s) = Some (m', p')" "\<not> panicked p'"
      and s': "s' = s\<lparr>ls_m := m', ls_pc := (ls_pc s)(i := p'), ls_pr := observe (ls_pc s i) p' (ls_pr s)\<rparr>"
      using assms(1) by (auto split: if_splits option.splits)
    show ?thesis unfolding s' using lc_step.move [OF assms(3) n(1)] n(2) assms(3) by (simp add: alive_def)
  qed (use assms(1,3) in \<open>auto simp: alive_def split: if_splits intro: lc_step.intros\<close>)
  then show ?thesis using assms(2) by (auto intro: lc_reach.step)
qed

lemma lc_run_reach: "lc_run as s = Some s' \<Longrightarrow> lc_reach s \<Longrightarrow> alive s \<Longrightarrow> lc_reach s' \<and> alive s'"
proof (induction as arbitrary: s)
  case (Cons a as)
  then obtain s1 where "lc_do a s = Some s1" "lc_run as s1 = Some s'" by (auto split: bind_splits)
  with Cons show ?case using lc_do_reach by blast
qed simp

lemma lc_run_init: "lc_run as lc_init = Some s \<Longrightarrow> lc_reach s \<and> alive s"
  using lc_run_reach [OF _ lc_reach.init] by (simp add: alive_def lc_init_def)

text \<open>The manager with a resumer, and two pauses of which the first has begun before the start-up is over.\<close>

definition two_pauses :: "lc_act list" where
  "two_pauses = [SetResumer True, CallOp 0 RunBegin, CallOp 1 PaBegin, Move 0 Go, Move 1 Go, Move 0 (Ret None), Move 0 Go,
     CallOp 2 PaBegin, Move 2 Go]"

lemmas lc_eval = lc_init_def NewManager_def SetPauseResumer_def lc_next_def on_go_def on_ret_def on_select_def await_def
  Run_begin_def Run_started_def Pause_begin_def Pause_started_def Pause_called_def Resume_begin_def Shutdown_begin_def
  with_status_def close_startupDone_def close_pauseStart_def close_pauseDone_def call_cancel_def new_pauseStart_def
  initShutdown_def Let_def observe_def

lemma race_unexpected:
  "\<exists>s. lc_run (two_pauses @ [Move 1 Go]) lc_init = Some s \<and> lc_next Go (ls_pc s 1) (ls_m s) = Some (ls_m s, Panic UnexpectedState)"
  by (simp add: two_pauses_def lc_eval)

text \<open>C26: Whatever the goroutines that call the manager do: the start-up function runs alone, the resumer's
  \<open>Resume\<close> neither with its \<open>Pause\<close> nor with the shutdown function, and no wrapped function twice at a time;
  the run function only after a start-up without error and until it has returned, the shutdown function
  until the shutdown is done; \<open>Pause\<close> and \<open>Resume\<close> of the resumer are called in turns, the one after the other has
  succeeded; a status of ready or paused is true of the run function and of the resumer; and the only panics
  are those of \<open>race_panic\<close>: a pause that has waited for the start-up finds that another one got in first, or a
  pause is overtaken by a shutdown after which the resumer is unset.\<close>

theorem lifecycle_safe:
  assumes "lc_reach s" "alive s"
  shows "(\<forall>i j f g. inside (ls_pc s i) = Some f \<longrightarrow> inside (ls_pc s j) = Some g \<longrightarrow> exclusive f g \<longrightarrow> i = j)
    \<and> (\<forall>i. inside (ls_pc s i) = Some RunFunc \<longrightarrow> m_startupDone (ls_m s) \<and> m_startupErr (ls_m s) = None \<and> \<not> m_runDone (ls_m s))
    \<and> (\<forall>i. inside (ls_pc s i) = Some ShutdownFunc \<longrightarrow> m_status (ls_m s) = Some StatusShutdown \<and> \<not> m_shutdownDone (ls_m s))
    \<and> ls_pr s \<noteq> None \<and> status_true s
    \<and> (\<forall>i c m' w. lc_next c (ls_pc s i) (ls_m s) = Some (m', Panic w) \<longrightarrow> race_panic (ls_pc s i) (ls_m s) (Panic w))"
proof -
  have inv: "lc_inv s" by (rule lc_reach_inv [OF assms])
  obtain R S P Q where h: "holds (ls_pc s) Runner R" "holds (ls_pc s) Stopper S"
    and ph: "phase (ls_m s) (at_pc (ls_pc s) R) (at_pc (ls_pc s) S) (at_pc (ls_pc s) P) (at_pc (ls_pc s) Q) (ls_pr s)"
    by (rule lc_inv_roles [OF inv])
  have "inside (at_pc (ls_pc s) R) = Some RunFunc" if "inside (ls_pc s i) = Some RunFunc" for i
    using holds_at [OF h(1), of i] inside_role [OF that] that by simp
  moreover have "inside (at_pc (ls_pc s) S) = Some ShutdownFunc" if "inside (ls_pc s i) = Some ShutdownFunc" for i
    using holds_at [OF h(2), of i] inside_role [OF that] that by simp
  ultimately show ?thesis
    using inside_exclusive [OF inv] phase_exclusive(3) [OF ph] phase_shutdown [OF ph] resumer_protocol [OF inv] status_true_inv [OF inv]
      lc_inv_move [OF inv] by (intro conjI allI impI) (blast | fastforce)+
qed

theorem lifecycle_safe_witness:
  "\<exists>s. lc_run two_pauses lc_init = Some s \<and> inside (ls_pc s 0) = Some RunFunc
     \<and> m_startupErr (ls_m s) = None \<and> \<not> m_runDone (ls_m s) \<and> ls_pr s \<noteq> None \<and> status_true s"
proof -
  obtain s where s: "lc_run two_pauses lc_init = Some s" "inside (ls_pc s 0) = Some RunFunc" by (simp add: two_pauses_def lc_eval)
  then show ?thesis using lifecycle_safe [of s] lc_run_init [OF s(1)] by blast
qed

text \<open>A pause that waits for the start-up.\<close>

definition one_pause :: "lc_act list" where
  "one_pause = [SetResumer True, CallOp 0 RunBegin, CallOp 1 PaBegin, Move 0 Go, Move 1 Go]"

text \<open>C27: Nobody waits in vain.  In every state that the goroutines can reach without a panic, one that is inside a
  call and cannot go on waits for another one that has yet to provide what it waits for: the resuming
  goroutine for the status, the pause that made a \<open>pauseDone\<close> channel, the goroutine that starts, runs or
  shuts down the application.  And there is then one that can go on, so that the calls cannot deadlock.  The
  only exception is a pause that has come before \<open>Run\<close>: it waits for \<open>Run\<close> or \<open>Shutdown\<close> to be called, or for the end of
  its context.\<close>

theorem lifecycle_no_deadlock:
  assumes "lc_reach s" "alive s" "in_call (ls_pc s i)"
    and "m_status (ls_m s) = Some StatusUnknown \<Longrightarrow> \<forall>j ch. ls_pc s j \<noteq> PaStartup ch"
  shows "(stuck (ls_pc s i) (ls_m s) \<longrightarrow> (\<exists>j. provides (ls_pc s j) (ls_pc s i) (ls_m s)))
    \<and> (\<exists>j c m' p'. c \<noteq> CtxDone \<and> lc_next c (ls_pc s j) (ls_m s) = Some (m', p'))"
proof -
  have inv: "lc_inv s" by (rule lc_reach_inv [OF assms(1,2)])
  have "stuck (ls_pc s i) (ls_m s) \<longrightarrow> (\<exists>j. provides (ls_pc s j) (ls_pc s i) (ls_m s))"
    using waits_provided [OF inv _ assms(3)] stuck_waits [OF assms(3)] assms(4) by blast
  moreover obtain j where "\<not> stuck (ls_pc s j) (ls_m s)" using lc_goes_on [OF inv assms(3,4)] by (auto simp: goes_on_def)
  then have "\<exists>c m' p'. c \<noteq> CtxDone \<and> lc_next c (ls_pc s j) (ls_m s) = Some (m', p')"
    unfolding stuck_def by (metis choice.distinct(1,5) not_None_eq surj_pair)
  ultimately show ?thesis by blast
qed

theorem lifecycle_no_deadlock_witness:
  "\<exists>s. lc_run one_pause lc_init = Some s \<and> stuck (ls_pc s 1) (ls_m s) \<and> (\<exists>j. provides (ls_pc s j) (ls_pc s 1) (ls_m s))"
proof -
  obtain s where s: "lc_run one_pause lc_init = Some s" "ls_pc s 1 = PaStartup 1" "\<not> m_startupDone (ls_m s)" "m_status (ls_m s) = Some StatusStarting"
    by (simp add: one_pause_def lc_eval)
  then have "stuck (ls_pc s 1) (ls_m s)" by (simp add: stuck_def lc_next_def on_select_def await_def)
  then show ?thesis using lifecycle_no_deadlock [of s 1] lc_run_init [OF s(1)] s by simp
qed

subsection \<open>The races\<close>

text \<open>The second pause ends and is resumed before the first one has noticed that the start-up is over.\<close>

definition overtaken :: "lc_act list" where
  "overtaken = [Move 1 Go, Move 2 Go, Move 2 (Ret None), Move 2 Go, Move 2 Go, CallOp 3 ReBegin, Move 3 Go, Move 3 (Ret None),
     Move 1 Go, Move 1 Go, CallOp 4 ShBegin, Move 4 Go, Move 4 Go]"

text \<open>The first pause gives up, and the second one is overtaken by a shutdown and the end of the resumer.\<close>

definition unset :: "lc_act list" where
  "unset = [Move 1 CtxDone, Move 1 Go, CallOp 4 ShBegin, Move 4 Go, SetResumer False]"

lemma race_overlap:
  "\<exists>s. lc_run (two_pauses @ overtaken) lc_init = Some s \<and> inside (ls_pc s 1) = Some PauseFunc \<and> inside (ls_pc s 4) = Some ShutdownFunc"
  by (simp add: two_pauses_def overtaken_def lc_eval)

lemma race_nil:
  "\<exists>s. lc_run (two_pauses @ unset) lc_init = Some s \<and> lc_next Go (ls_pc s 2) (ls_m s) = Some (ls_m s, Panic NilFunc)"
  by (simp add: two_pauses_def unset_def lc_eval)

text \<open>C28: What the manager does not promise.  While one pause waits for the start-up, a second one may begin
  as soon as the application is ready.  Then the first one can find the manager pausing or paused and panic; if the
  second one is resumed first, the first one pauses with the \<open>pauseDone\<close> channel of the second one in the
  manager, so that a shutdown does not wait for it and the shutdown function runs while the resumer
  pauses; and if the first one gives up, the resumer can be unset while the second one is about to call it,
  which is a nil dereference.\<close>

theorem lifecycle_races:
  "(\<exists>s i. lc_reach s \<and> alive s \<and> lc_next Go (ls_pc s i) (ls_m s) = Some (ls_m s, Panic UnexpectedState))
   \<and> (\<exists>s i j. lc_reach s \<and> alive s \<and> inside (ls_pc s i) = Some PauseFunc \<and> inside (ls_pc s j) = Some ShutdownFunc)
   \<and> (\<exists>s i. lc_reach s \<and> alive s \<and> lc_next Go (ls_pc s i) (ls_m s) = Some (ls_m s, Panic NilFunc))"
  using race_unexpected race_overlap race_nil lc_run_init by meson

text \<open>The field that a shutdown which joins another one returns is never set.\<close>

lemma shutdownErr_unset: "lc_reach s \<Longrightarrow> m_shutdownErr (ls_m s) = None"
proof (induction rule: lc_reach.induct)
  case init
  show ?case by (simp add: lc_init_def NewManager_def)
next
  case (step s s')
  from step.hyps(2) show ?case
  proof cases
    case (call i p)
    with step show ?thesis by simp
  next
    case (set_startup b m' e)
    with step show ?thesis by (cases "the (m_status (ls_m s))") (auto simp: SetStartupFunc_def)
  next
    case (set_resumer b m' e)
    with step show ?thesis by (auto simp: SetPauseResumer_def split: if_splits)
  next
    case (move c i m' p')
    with step show ?thesis using lc_next_chan [of "ls_pc s i" "ls_m s" c] by (auto simp: chan_step_def)
  qed
qed

end
