(* ===== verification/LifecycleMulti.thy ===== *)
theory LifecycleMulti
  imports Lifecycle
begin

section \<open>Joined resumers: app/lifecycle/pauseresumer.go\<close>

text \<open>
  \<open>MultiPauseResume\<close> pauses all its members or none.  Its \<open>Pause\<close> and \<open>Resume\<close> are modelled as the steps of
  the calling goroutine and of one goroutine per member.  A member keeps the contract of the interface
  \<open>PauseResumer\<close>: \<open>Pause\<close> without an error leaves it paused, with one it runs on; after \<open>Resume\<close> it runs.  The
  theorem is that the joined resumer keeps the contract too, and that both calls return.
\<close>

subsection \<open>Pause\<close>

text \<open>A goroutine of \<open>doPause\<close>, with the error of its member's \<open>Pause\<close>, and the caller with the number of
  receives that remain; the result is the list of errors, empty for nil.\<close>

datatype mp_worker =
    MwPausing | MwSend "lc_error option" | MwSelect "lc_error option" | MwResuming
  | MwReport "lc_error option" "lc_error option" | MwDone "lc_error option"

datatype mp_main = MpCollect nat | MpJoin nat | MpReturn "lc_error list" | MpPanic

record mp =
  mp_w :: "mp_worker list"
  mp_pr :: "resumer list"
  mp_pass :: bool
  mp_fail :: bool
  mp_errCh :: "lc_error option list"
  mp_resumeErrCh :: "lc_error option list"
  mp_main :: mp_main
  mp_hasErr :: bool
  mp_errs :: "lc_error list"

definition mp_start :: "nat \<Rightarrow> mp" where
  "mp_start n = \<lparr>mp_w = replicate n MwPausing, mp_pr = replicate n PrPausing, mp_pass = False, mp_fail = False, mp_errCh = [],
     mp_resumeErrCh = [], mp_main = MpCollect n, mp_hasErr = False, mp_errs = []\<rparr>"

text \<open>What a goroutine does next: it sends, it takes a case of the select, or its member returns.\<close>

datatype mp_choice = MpSend | MpPass | MpFail | MpRet "lc_error option"

definition mp_set :: "nat \<Rightarrow> mp_worker \<Rightarrow> resumer \<Rightarrow> mp \<Rightarrow> mp" where
  "mp_set i w r s = s\<lparr>mp_w := (mp_w s)[i := w], mp_pr := (mp_pr s)[i := r]\<rparr>"

definition after_pause :: "lc_error option \<Rightarrow> resumer" where
  "after_pause err = (if err = None then PrPaused else PrRunning)"

definition doPause :: "mp_choice \<Rightarrow> nat \<Rightarrow> mp \<Rightarrow> mp option" where
  "doPause c i s = (case (mp_w s ! i, c) of
     (MwPausing, MpRet err) \<Rightarrow> Some (mp_set i (MwSend err) (after_pause err) s)
   | (MwSend err, MpSend) \<Rightarrow>
       if length (mp_errCh s) < length (mp_w s)
       then Some ((mp_set i (MwSelect err) (mp_pr s ! i) s)\<lparr>mp_errCh := mp_errCh s @ [err]\<rparr>) else None
   | (MwSelect err, MpPass) \<Rightarrow> if mp_pass s then Some (mp_set i (MwReport err None) (mp_pr s ! i) s) else None
   | (MwSelect err, MpFail) \<Rightarrow>
       if \<not> mp_fail s then None
       else if err = None then Some (mp_set i MwResuming PrResuming s)
       else Some (mp_set i (MwReport err None) (mp_pr s ! i) s)
   | (MwResuming, MpRet e) \<Rightarrow> Some (mp_set i (MwReport None e) PrRunning s)
   | (MwReport err e, MpSend) \<Rightarrow>
       if length (mp_resumeErrCh s) < length (mp_w s)
       then Some ((mp_set i (MwDone err) (mp_pr s ! i) s)\<lparr>mp_resumeErrCh := mp_resumeErrCh s @ [e]\<rparr>) else None
   | _ \<Rightarrow> None)"

definition mp_collect :: "mp \<Rightarrow> lc_error option \<Rightarrow> mp" where
  "mp_collect s err = (case err of
     None \<Rightarrow> s
   | Some e \<Rightarrow>
       (let s = s\<lparr>mp_errs := mp_errs s @ [e]\<rparr>
        in if mp_hasErr s then s
           else if mp_fail s then s\<lparr>mp_main := MpPanic\<rparr>
           else s\<lparr>mp_fail := True, mp_hasErr := True\<rparr>))"

definition mp_caller :: "mp \<Rightarrow> mp option" where
  "mp_caller s = (case mp_main s of
     MpCollect (Suc k) \<Rightarrow>
       (case mp_errCh s of [] \<Rightarrow> None | err # es \<Rightarrow> Some (mp_collect (s\<lparr>mp_errCh := es, mp_main := MpCollect k\<rparr>) err))
   | MpCollect 0 \<Rightarrow>
       Some (if mp_hasErr s then s\<lparr>mp_main := MpJoin (length (mp_w s))\<rparr>
             else if mp_pass s then s\<lparr>mp_main := MpPanic\<rparr>
             else s\<lparr>mp_pass := True, mp_main := MpJoin (length (mp_w s))\<rparr>)
   | MpJoin (Suc k) \<Rightarrow>
       (case mp_resumeErrCh s of [] \<Rightarrow> None
        | err # es \<Rightarrow> Some (s\<lparr>mp_resumeErrCh := es, mp_main := MpJoin k,
            mp_errs := mp_errs s @ (case err of None \<Rightarrow> [] | Some e \<Rightarrow> [e])\<rparr>))
   | MpJoin 0 \<Rightarrow> Some (s\<lparr>mp_main := MpReturn (mp_errs s)\<rparr>)
   | _ \<Rightarrow> None)"

inductive mp_step :: "mp \<Rightarrow> mp \<Rightarrow> bool" where
  member: "i < length (mp_w s) \<Longrightarrow> doPause c i s = Some s' \<Longrightarrow> mp_step s s'"
| caller: "mp_caller s = Some s' \<Longrightarrow> mp_step s s'"

inductive mp_reach :: "nat \<Rightarrow> mp \<Rightarrow> bool" for n where
  mp_init: "mp_reach n (mp_start n)"
| mp_next: "mp_reach n s \<Longrightarrow> mp_step s s' \<Longrightarrow> mp_reach n s'"

subsection \<open>Resume\<close>

text \<open>The goroutines of \<open>res\<close> send on a channel without a buffer.\<close>

datatype mr_worker = MrResuming | MrSend "lc_error option" | MrDone "lc_error option"

record mr =
  mr_w :: "mr_worker list"
  mr_pr :: "resumer list"
  mr_left :: nat
  mr_errs :: "lc_error list"
  mr_result :: "lc_error list option"

definition mr_start :: "nat \<Rightarrow> mr" where
  "mr_start n = \<lparr>mr_w = replicate n MrResuming, mr_pr = replicate n PrResuming, mr_left = n, mr_errs = [], mr_result = None\<rparr>"

inductive mr_step :: "mr \<Rightarrow> mr \<Rightarrow> bool" where
  ret: "i < length (mr_w s) \<Longrightarrow> mr_w s ! i = MrResuming
    \<Longrightarrow> mr_step s (s\<lparr>mr_w := (mr_w s)[i := MrSend e], mr_pr := (mr_pr s)[i := PrRunning]\<rparr>)"
| receive: "i < length (mr_w s) \<Longrightarrow> mr_w s ! i = MrSend e \<Longrightarrow> mr_left s = Suc k
    \<Longrightarrow> mr_step s (s\<lparr>mr_w := (mr_w s)[i := MrDone e], mr_left := k, mr_errs := mr_errs s @ (case e of None \<Rightarrow> [] | Some x \<Rightarrow> [x])\<rparr>)"
| finish: "mr_left s = 0 \<Longrightarrow> mr_result s = None \<Longrightarrow> mr_step s (s\<lparr>mr_result := Some (mr_errs s)\<rparr>)"

inductive mr_reach :: "nat \<Rightarrow> mr \<Rightarrow> bool" for n where
  mr_init: "mr_reach n (mr_start n)"
| mr_next: "mr_reach n s \<Longrightarrow> mr_step s s' \<Longrightarrow> mr_reach n s'"

subsection \<open>Counting goroutines\<close>

definition num :: "('a \<Rightarrow> bool) \<Rightarrow> 'a list \<Rightarrow> nat" where
  "num P xs = length (filter P xs)"

lemma num_update: "i < length xs \<Longrightarrow> num P (xs[i := x]) + (if P (xs ! i) then 1 else 0) = num P xs + (if P x then 1 else 0)"
proof (induction xs arbitrary: i)
  case (Cons y ys)
  then show ?case by (cases i) (auto simp: num_def)
qed simp

lemma num_simps [simp]: "num P [] = 0" "num P (x # xs) = (if P x then 1 else 0) + num P xs" "num P (xs @ ys) = num P xs + num P ys"
  by (simp_all add: num_def)

lemma num_le: "num P xs \<le> length xs"
  by (simp add: num_def)

lemma num_all: "num P xs = length xs \<longleftrightarrow> (\<forall>x\<in>set xs. P x)"
  using length_filter_less [of _ xs P] by (force simp: num_def)

lemma num_zero: "num P xs = 0 \<longleftrightarrow> (\<forall>x\<in>set xs. \<not> P x)"
  by (simp add: num_def filter_empty_conv)

lemma num_lessE:
  assumes "num P xs < length xs"
  obtains i where "i < length xs" "\<not> P (xs ! i)"
  using assms num_all [of P xs] by (auto simp: in_set_conv_nth)

subsection \<open>The invariant of a pause\<close>

text \<open>The error that a goroutine has sent, and what is true of its member.\<close>

fun sent :: "mp_worker \<Rightarrow> lc_error option option" where
  "sent MwPausing = None"
| "sent (MwSend err) = None"
| "sent (MwSelect err) = Some err"
| "sent MwResuming = Some None"
| "sent (MwReport err e) = Some err"
| "sent (MwDone err) = Some err"

definition failed :: "mp_worker \<Rightarrow> bool" where
  "failed w \<longleftrightarrow> (\<exists>e. sent w = Some (Some e))"

fun is_done :: "mp_worker \<Rightarrow> bool" where
  "is_done (MwDone err) = True"
| "is_done _ = False"

fun member_ok :: "bool \<Rightarrow> bool \<Rightarrow> mp_worker \<Rightarrow> resumer \<Rightarrow> bool" where
  "member_ok p f MwPausing r \<longleftrightarrow> r = PrPausing"
| "member_ok p f (MwSend err) r \<longleftrightarrow> r = after_pause err"
| "member_ok p f (MwSelect err) r \<longleftrightarrow> r = after_pause err"
| "member_ok p f MwResuming r \<longleftrightarrow> f \<and> r = PrResuming"
| "member_ok p f (MwReport err e) r \<longleftrightarrow> p \<and> e = None \<and> r = PrPaused \<or> f \<and> r = PrRunning"
| "member_ok p f (MwDone err) r \<longleftrightarrow> p \<and> r = PrPaused \<or> f \<and> r = PrRunning"

lemma member_ok_mono: "member_ok p f w r \<Longrightarrow> (p \<longrightarrow> p') \<Longrightarrow> (f \<longrightarrow> f') \<Longrightarrow> member_ok p' f' w r"
  by (cases w) auto

fun main_ok :: "mp_main \<Rightarrow> mp \<Rightarrow> bool" where
  "main_ok (MpCollect k) s \<longleftrightarrow> \<not> mp_pass s \<and> mp_hasErr s = mp_fail s \<and> mp_fail s = (mp_errs s \<noteq> [])
     \<and> num (\<lambda>w. sent w \<noteq> None) (mp_w s) + k = length (mp_errCh s) + length (mp_w s)
     \<and> num failed (mp_w s) = num (\<lambda>e. e \<noteq> None) (mp_errCh s) + length (mp_errs s)
     \<and> num is_done (mp_w s) = length (mp_resumeErrCh s)"
| "main_ok (MpJoin k) s \<longleftrightarrow> mp_pass s = (\<not> mp_fail s) \<and> (\<forall>w\<in>set (mp_w s). sent w \<noteq> None)
     \<and> num is_done (mp_w s) + k = length (mp_resumeErrCh s) + length (mp_w s)
     \<and> (if mp_pass s then mp_errs s = [] \<and> (\<forall>e\<in>set (mp_resumeErrCh s). e = None) \<and> (\<forall>w\<in>set (mp_w s). sent w = Some None)
        else mp_errs s \<noteq> [])"
| "main_ok (MpReturn es) s \<longleftrightarrow> mp_pass s = (\<not> mp_fail s) \<and> (\<forall>w\<in>set (mp_w s). is_done w) \<and> (es = []) = mp_pass s"
| "main_ok MpPanic s \<longleftrightarrow> False"

definition mp_inv :: "nat \<Rightarrow> mp \<Rightarrow> bool" where
  "mp_inv n s \<longleftrightarrow> length (mp_w s) = n \<and> length (mp_pr s) = n
     \<and> (\<forall>i<n. member_ok (mp_pass s) (mp_fail s) (mp_w s ! i) (mp_pr s ! i)) \<and> main_ok (mp_main s) s"

lemma num_replicate [simp]: "num P (replicate n x) = (if P x then n else 0)"
  by (induction n) auto

lemma mp_inv_start: "mp_inv n (mp_start n)"
  by (simp add: mp_inv_def mp_start_def failed_def)

text \<open>What a member's goroutine does: the ways it can move, with the channel it sends on.\<close>

lemma doPause_cases:
  assumes "doPause c i s = Some s'"
  obtains (pause) err where "mp_w s ! i = MwPausing" "s' = mp_set i (MwSend err) (after_pause err) s"
  | (send) err where "mp_w s ! i = MwSend err" "s' = (mp_set i (MwSelect err) (mp_pr s ! i) s)\<lparr>mp_errCh := mp_errCh s @ [err]\<rparr>"
  | (pass) err where "mp_w s ! i = MwSelect err" "mp_pass s" "s' = mp_set i (MwReport err None) (mp_pr s ! i) s"
  | (resume) "mp_w s ! i = MwSelect None" "mp_fail s" "s' = mp_set i MwResuming PrResuming s"
  | (fail) e where "mp_w s ! i = MwSelect (Some e)" "mp_fail s" "s' = mp_set i (MwReport (Some e) None) (mp_pr s ! i) s"
  | (resumed) e where "mp_w s ! i = MwResuming" "s' = mp_set i (MwReport None e) PrRunning s"
  | (report) err e where "mp_w s ! i = MwReport err e"
      "s' = (mp_set i (MwDone err) (mp_pr s ! i) s)\<lparr>mp_resumeErrCh := mp_resumeErrCh s @ [e]\<rparr>"
  using assms by (auto simp: doPause_def split: mp_worker.splits mp_choice.splits if_splits)

text \<open>The members other than the one that moves are as they were.\<close>

lemma members_set:
  assumes "\<forall>j<n. member_ok p f (ws ! j) (rs ! j)" "length ws = n" "length rs = n" "i < n" "member_ok p f w r"
  shows "\<forall>j<n. member_ok p f (ws[i := w] ! j) (rs[i := r] ! j)"
  using assms by (auto simp: nth_list_update)

lemma main_ok_move:
  assumes "main_ok (mp_main s) s" "i < length (mp_w s)"
    and "mp_w s' = (mp_w s)[i := w]" "mp_pass s' = mp_pass s" "mp_fail s' = mp_fail s" "mp_hasErr s' = mp_hasErr s"
      "mp_errs s' = mp_errs s" "mp_main s' = mp_main s"
    and "mp_errCh s' = mp_errCh s \<and> sent w = sent (mp_w s ! i)
      \<or> (\<exists>err. mp_errCh s' = mp_errCh s @ [err] \<and> sent (mp_w s ! i) = None \<and> sent w = Some err)"
    and "mp_resumeErrCh s' = mp_resumeErrCh s \<and> \<not> is_done w
      \<or> (\<exists>e. mp_resumeErrCh s' = mp_resumeErrCh s @ [e] \<and> is_done w \<and> (mp_pass s \<longrightarrow> e = None))"
    and "\<not> is_done (mp_w s ! i)"
  shows "main_ok (mp_main s') s'"
proof -
  note n = num_update [OF assms(2), of _ w]
  have at: "mp_w s ! i \<in> set (mp_w s)" using assms(2) by simp
  have sub: "w' \<in> set (mp_w s') \<Longrightarrow> w' = w \<or> w' \<in> set (mp_w s)" for w' using assms(3) set_update_subset_insert by fastforce
  show ?thesis
  proof (cases "mp_main s")
    case (MpCollect k)
    then show ?thesis using assms n [of "\<lambda>w. sent w \<noteq> None"] n [of failed] n [of is_done]
      by (auto simp: failed_def split: if_splits)
  next
    case (MpJoin k)
    then have same: "sent w = sent (mp_w s ! i)" using assms(1,9) at by auto
    have keep: "\<forall>w'\<in>set (mp_w s'). Q (sent w')" if "\<forall>w'\<in>set (mp_w s). Q (sent w')" for Q
      using that sub at same by metis
    show ?thesis using MpJoin assms(1,3-8,10,11) n [of is_done] keep [of "\<lambda>x. x \<noteq> None"] keep [of "\<lambda>x. x = Some None"]
      by (auto split: if_splits)
  next
    case (MpReturn es)
    then show ?thesis using assms at by auto
  qed (use assms(1) in simp)
qed

lemma mp_inv_member:
  assumes "mp_inv n s" "i < n" "doPause c i s = Some s'"
  shows "mp_inv n s'"
proof -
  have inv: "length (mp_w s) = n" "length (mp_pr s) = n" "\<forall>j<n. member_ok (mp_pass s) (mp_fail s) (mp_w s ! j) (mp_pr s ! j)"
    "main_ok (mp_main s) s" using assms(1) by (auto simp: mp_inv_def)
  note m = members_set [OF inv(3,1,2) assms(2)] and at = inv(3) [THEN spec, THEN mp, OF assms(2)]
  have ok: "mp_inv n s'" if "mp_w s' = (mp_w s)[i := w]" "(mp_pr s)[i := r] = mp_pr s'" "member_ok (mp_pass s) (mp_fail s) w r"
    "mp_pass s' = mp_pass s" "mp_fail s' = mp_fail s" "mp_hasErr s' = mp_hasErr s" "mp_errs s' = mp_errs s" "mp_main s' = mp_main s"
    "mp_errCh s' = mp_errCh s \<and> sent w = sent (mp_w s ! i)
      \<or> (\<exists>err. mp_errCh s' = mp_errCh s @ [err] \<and> sent (mp_w s ! i) = None \<and> sent w = Some err)"
    "mp_resumeErrCh s' = mp_resumeErrCh s \<and> \<not> is_done w
      \<or> (\<exists>e. mp_resumeErrCh s' = mp_resumeErrCh s @ [e] \<and> is_done w \<and> (mp_pass s \<longrightarrow> e = None))"
    "\<not> is_done (mp_w s ! i)" for w r
    using main_ok_move [OF inv(4) _ that(1,4-11)] that(1,3-5) that(2) [symmetric] inv assms(2) m [of w r] by (simp add: mp_inv_def)
  have passed: "mp_pass s \<Longrightarrow> \<not> mp_fail s \<and> mp_w s ! i \<noteq> MwSelect (Some e)" for e
    using inv(1,4) assms(2) by (cases "mp_main s") (force dest: nth_mem split: if_splits)+
  from assms(3) show ?thesis
  proof (cases rule: doPause_cases)
    case (pause err)
    show ?thesis by (rule ok) (use pause at passed inv(2) assms(2) in \<open>auto simp: mp_set_def after_pause_def list_update_same_conv\<close>)
  next
    case (send err)
    show ?thesis by (rule ok) (use send at passed inv(2) assms(2) in \<open>auto simp: mp_set_def after_pause_def list_update_same_conv\<close>)
  next
    case (pass err)
    show ?thesis by (rule ok) (use pass at passed inv(2) assms(2) in \<open>auto simp: mp_set_def after_pause_def list_update_same_conv\<close>)
  next
    case resume
    show ?thesis by (rule ok) (use resume at passed inv(2) assms(2) in \<open>auto simp: mp_set_def after_pause_def list_update_same_conv\<close>)
  next
    case (fail e)
    show ?thesis by (rule ok) (use fail at passed inv(2) assms(2) in \<open>auto simp: mp_set_def after_pause_def list_update_same_conv\<close>)
  next
    case (resumed e)
    show ?thesis by (rule ok) (use resumed at passed inv(2) assms(2) in \<open>auto simp: mp_set_def after_pause_def list_update_same_conv\<close>)
  next
    case (report err e)
    show ?thesis by (rule ok) (use report at passed inv(2) assms(2) in \<open>auto simp: mp_set_def after_pause_def list_update_same_conv\<close>)
  qed
qed

lemma all_sent:
  assumes "main_ok (MpCollect 0) s"
  shows "\<forall>w\<in>set (mp_w s). sent w \<noteq> None" "mp_errCh s = []" "\<not> mp_fail s \<Longrightarrow> \<forall>w\<in>set (mp_w s). sent w = Some None"
proof -
  have *: "num (\<lambda>w. sent w \<noteq> None) (mp_w s) = length (mp_w s)" "length (mp_errCh s) = 0"
    using assms num_le [of "\<lambda>w. sent w \<noteq> None" "mp_w s"] by auto
  show all: "\<forall>w\<in>set (mp_w s). sent w \<noteq> None" using *(1) unfolding num_all .
  show "mp_errCh s = []" using *(2) by simp
  show "\<forall>w\<in>set (mp_w s). sent w = Some None" if "\<not> mp_fail s"
  proof -
    have "num failed (mp_w s) = 0" using assms that * by auto
    then have "\<not> failed w" if "w \<in> set (mp_w s)" for w using that by (simp add: num_zero)
    then show ?thesis using all unfolding failed_def by (metis option.exhaust)
  qed
qed

lemma none_done:
  assumes "\<forall>j<n. member_ok p f (ws ! j) (rs ! j)" "length ws = n" "\<not> p" "\<not> f"
  shows "num is_done ws = 0"
proof -
  have "\<not> is_done (ws ! j)" if "j < n" for j using assms(1) that assms(3,4) by (cases "ws ! j") auto
  then show ?thesis using assms(2) by (auto simp: num_zero in_set_conv_nth)
qed

lemma mp_inv_caller:
  assumes "mp_inv n s" "mp_caller s = Some s'"
  shows "mp_inv n s'"
proof -
  have inv: "length (mp_w s) = n" "length (mp_pr s) = n" "\<forall>j<n. member_ok (mp_pass s) (mp_fail s) (mp_w s ! j) (mp_pr s ! j)"
    "main_ok (mp_main s) s" using assms(1) by (auto simp: mp_inv_def)
  have ok: "mp_inv n s'" if "mp_w s' = mp_w s" "mp_pr s' = mp_pr s" "mp_pass s \<longrightarrow> mp_pass s'" "mp_fail s \<longrightarrow> mp_fail s'" "main_ok (mp_main s') s'"
  proof -
    have "\<forall>j<n. member_ok (mp_pass s') (mp_fail s') (mp_w s ! j) (mp_pr s ! j)" using inv(3) that(3,4) member_ok_mono by blast
    then show ?thesis using that inv by (simp add: mp_inv_def)
  qed
  show ?thesis
  proof (cases "mp_main s")
    case (MpCollect k)
    show ?thesis
    proof (cases k)
      case 0
      note m = inv(4) [unfolded MpCollect 0] and a = all_sent [OF inv(4) [unfolded MpCollect 0]]
      have "num is_done (mp_w s) = length (mp_resumeErrCh s)" "\<not> mp_pass s" "mp_hasErr s = mp_fail s" "mp_fail s = (mp_errs s \<noteq> [])" using m by auto
      moreover from this have "\<not> mp_fail s \<Longrightarrow> mp_resumeErrCh s = []" using none_done [OF inv(3,1)] by simp
      moreover have "s' = s\<lparr>mp_pass := \<not> mp_fail s, mp_main := MpJoin (length (mp_w s))\<rparr>"
        using assms(2) MpCollect 0 calculation(2,3) by (auto simp: mp_caller_def)
      ultimately show ?thesis using a by (intro ok) simp_all
    next
      case (Suc k')
      then obtain err es where "mp_errCh s = err # es" "s' = mp_collect (s\<lparr>mp_errCh := es, mp_main := MpCollect k'\<rparr>) err"
        using MpCollect assms(2) by (auto simp: mp_caller_def split: list.splits)
      moreover have "main_ok (MpCollect (Suc k')) s" using inv(4) MpCollect Suc by simp
      ultimately show ?thesis by (intro ok; cases err; simp add: mp_collect_def Let_def)
    qed
  next
    case (MpJoin k)
    show ?thesis
    proof (cases k)
      case 0
      then have "\<forall>w\<in>set (mp_w s). is_done w" using MpJoin inv(4) num_le [of is_done "mp_w s"] num_all [of is_done "mp_w s"] by auto
      then show ?thesis using 0 MpJoin assms(2) inv by (intro ok) (auto simp: mp_caller_def split: if_splits)
    next
      case (Suc k')
      then show ?thesis using MpJoin assms(2) inv by (intro ok) (auto simp: mp_caller_def split: list.splits option.splits if_splits)
    qed
  qed (use assms(2) inv in \<open>auto simp: mp_caller_def\<close>)
qed

lemma mp_reach_inv: "mp_reach n s \<Longrightarrow> mp_inv n s"
proof (induction rule: mp_reach.induct)
  case (mp_next s s')
  from mp_next.hyps(2) show ?case
  proof cases
    case (member i c)
    then show ?thesis using mp_inv_member [OF mp_next.IH] mp_next.IH by (simp add: mp_inv_def)
  qed (use mp_inv_caller [OF mp_next.IH] in simp)
qed (simp add: mp_inv_start)

subsection \<open>A pause returns\<close>

fun rank :: "mp_worker \<Rightarrow> nat" where
  "rank MwPausing = 5"
| "rank (MwSend err) = 4"
| "rank (MwSelect err) = 3"
| "rank MwResuming = 2"
| "rank (MwReport err e) = 1"
| "rank (MwDone err) = 0"

fun main_rank :: "nat \<Rightarrow> mp_main \<Rightarrow> nat" where
  "main_rank n (MpCollect k) = k + n + 2"
| "main_rank n (MpJoin k) = k + 1"
| "main_rank n _ = 0"

definition mp_work :: "mp \<Rightarrow> nat" where
  "mp_work s = sum_list (map rank (mp_w s)) + main_rank (length (mp_w s)) (mp_main s)"

lemma rank_update:
  assumes "i < length ws" "rank w < rank (ws ! i)"
  shows "sum_list (map rank (ws[i := w])) < sum_list (map rank ws)"
  using assms by (induction ws arbitrary: i) (auto split: nat.splits)

lemma mp_work_decreases:
  assumes "mp_step s s'"
  shows "mp_work s' < mp_work s"
  using assms
proof cases
  case (member i c)
  from member(2) have "\<exists>w. mp_w s' = (mp_w s)[i := w] \<and> rank w < rank (mp_w s ! i) \<and> mp_main s' = mp_main s"
    by (cases rule: doPause_cases) (auto simp: mp_set_def)
  then show ?thesis using rank_update [OF member(1)] by (auto simp: mp_work_def)
next
  case caller
  then show ?thesis by (auto simp: mp_work_def mp_caller_def mp_collect_def Let_def split: mp_main.splits nat.splits list.splits option.splits if_splits)
qed

lemma mp_progress:
  assumes "mp_inv n s" "\<forall>es. mp_main s \<noteq> MpReturn es"
  shows "\<exists>s'. mp_step s s'"
proof (rule ccontr)
  assume stop: "\<nexists>s'. mp_step s s'"
  have "mp_caller s = None" using stop mp_step.caller by (cases "mp_caller s") auto
  moreover have no: "i < length (mp_w s) \<Longrightarrow> doPause c i s = None" for c i using stop mp_step.member [of i s c] by (cases "doPause c i s") auto
  ultimately consider (collect) k where "mp_main s = MpCollect (Suc k)" "mp_errCh s = []" | (join) k where "mp_main s = MpJoin (Suc k)" "mp_resumeErrCh s = []"
    using assms by (auto simp: mp_caller_def mp_inv_def split: mp_main.splits nat.splits list.splits)
  then show False
  proof cases
    case collect
    then have "num (\<lambda>w. sent w \<noteq> None) (mp_w s) < length (mp_w s)" using assms(1) by (simp add: mp_inv_def)
    then obtain i where i: "i < length (mp_w s)" "sent (mp_w s ! i) = None" by (auto elim: num_lessE)
    then show False using no [OF i(1), of "MpRet None"] no [OF i(1), of MpSend] collect
      by (cases "mp_w s ! i") (auto simp: doPause_def split: if_splits)
  next
    case join
    then have m: "main_ok (MpJoin (Suc k)) s" using assms(1) by (simp add: mp_inv_def)
    then have "num is_done (mp_w s) < length (mp_w s)" using join by simp
    then obtain i where i: "i < length (mp_w s)" "\<not> is_done (mp_w s ! i)" by (auto elim: num_lessE)
    moreover have "sent (mp_w s ! i) \<noteq> None" "mp_pass s \<or> mp_fail s" using m i(1) by auto
    ultimately show False
      using no [OF i(1), of "MpRet None"] no [OF i(1), of MpSend] no [OF i(1), of MpPass] no [OF i(1), of MpFail] join
      by (cases "mp_w s ! i") (auto simp: doPause_def split: if_splits)
  qed
qed

lemma mp_returned:
  assumes "mp_inv n s" "mp_main s = MpReturn es"
  shows "mp_pr s = replicate n (if es = [] then PrPaused else PrRunning)"
proof (rule nth_equalityI)
  show "length (mp_pr s) = length (replicate n (if es = [] then PrPaused else PrRunning))" using assms(1) by (simp add: mp_inv_def)
  fix i assume i: "i < length (mp_pr s)"
  then have "member_ok (mp_pass s) (mp_fail s) (mp_w s ! i) (mp_pr s ! i)" "is_done (mp_w s ! i)" "(es = []) = mp_pass s" "mp_pass s = (\<not> mp_fail s)"
    using assms by (auto simp: mp_inv_def)
  then show "mp_pr s ! i = replicate n (if es = [] then PrPaused else PrRunning) ! i"
    using i assms(1) by (cases "mp_w s ! i") (auto simp: mp_inv_def)
qed

subsection \<open>A resume returns with every member running\<close>

fun mr_err :: "mr_worker \<Rightarrow> bool" where
  "mr_err (MrDone (Some e)) = True"
| "mr_err _ = False"

fun mr_done :: "mr_worker \<Rightarrow> bool" where
  "mr_done (MrDone e) = True"
| "mr_done _ = False"

definition mr_inv :: "nat \<Rightarrow> mr \<Rightarrow> bool" where
  "mr_inv n s \<longleftrightarrow> length (mr_w s) = n \<and> length (mr_pr s) = n
     \<and> (\<forall>i<n. mr_pr s ! i = (if mr_w s ! i = MrResuming then PrResuming else PrRunning))
     \<and> num mr_done (mr_w s) + mr_left s = n \<and> num mr_err (mr_w s) = length (mr_errs s)
     \<and> (\<forall>es. mr_result s = Some es \<longrightarrow> mr_left s = 0 \<and> es = mr_errs s)"

lemma mr_reach_inv: "mr_reach n s \<Longrightarrow> mr_inv n s"
proof (induction rule: mr_reach.induct)
  case mr_init
  show ?case by (simp add: mr_inv_def mr_start_def)
next
  case (mr_next s s')
  from mr_next.hyps(2) show ?case
  proof cases
    case (ret i e)
    then show ?thesis using mr_next.IH num_update [of i "mr_w s" mr_done "MrSend e"] num_update [of i "mr_w s" mr_err "MrSend e"]
      by (auto simp: mr_inv_def nth_list_update)
  next
    case (receive i e k)
    then show ?thesis using mr_next.IH num_update [of i "mr_w s" mr_done "MrDone e"] num_update [of i "mr_w s" mr_err "MrDone e"]
      by (cases e) (auto simp: mr_inv_def nth_list_update)
  next
    case finish
    then show ?thesis using mr_next.IH by (simp add: mr_inv_def)
  qed
qed

lemma mr_returned:
  assumes "mr_inv n s" "mr_result s = Some es"
  shows "mr_pr s = replicate n PrRunning" "es = [] \<longleftrightarrow> (\<forall>w\<in>set (mr_w s). w = MrDone None)"
proof -
  have all: "\<forall>w\<in>set (mr_w s). mr_done w" "length es = num mr_err (mr_w s)" using assms num_all [of mr_done "mr_w s"] by (auto simp: mr_inv_def)
  have "mr_pr s ! i = PrRunning" if "i < n" for i
    using assms(1) all(1) that by (auto simp: mr_inv_def dest!: nth_mem [of i "mr_w s"])
  then show "mr_pr s = replicate n PrRunning" using assms(1) by (auto simp: mr_inv_def intro!: nth_equalityI)
  have "es = [] \<longleftrightarrow> (\<forall>w\<in>set (mr_w s). \<not> mr_err w)" using all(2) num_zero [of mr_err "mr_w s"] by auto
  also have "\<dots> \<longleftrightarrow> (\<forall>w\<in>set (mr_w s). w = MrDone None)"
  proof (intro ball_cong refl)
    fix w assume "w \<in> set (mr_w s)"
    then obtain e where "w = MrDone e" using all(1) by (metis mr_done.elims(2))
    then show "(\<not> mr_err w) = (w = MrDone None)" by (cases e) auto
  qed
  finally show "es = [] \<longleftrightarrow> (\<forall>w\<in>set (mr_w s). w = MrDone None)" .
qed

lemma mr_progress:
  assumes "mr_inv n s" "mr_result s = None"
  shows "\<exists>s'. mr_step s s'"
proof (cases "mr_left s")
  case 0
  then show ?thesis using mr_step.finish assms(2) by blast
next
  case (Suc k)
  then have "num mr_done (mr_w s) < length (mr_w s)" using assms(1) by (simp add: mr_inv_def)
  then obtain i where "i < length (mr_w s)" "\<not> mr_done (mr_w s ! i)" by (rule num_lessE)
  then show ?thesis using mr_step.ret [of i s] mr_step.receive [of i s _ k] Suc by (cases "mr_w s ! i") auto
qed

subsection \<open>The contract of a resumer\<close>

text \<open>
  The contract of \<open>PauseResumer\<close>, with the outcome of a call as a relation between what was before, whether the
  call returned nil, and what is after.  The manager relies on it: \<open>observe\<close> follows a resumer by
  the outcomes alone.
\<close>

locale pause_resumer =
  fixes operating stopped :: "'s \<Rightarrow> bool"
    and pauses resumes :: "'s \<Rightarrow> bool \<Rightarrow> 's \<Rightarrow> bool"
  assumes pauses_nil: "operating x \<Longrightarrow> pauses x True y \<Longrightarrow> stopped y"
    and pauses_err: "operating x \<Longrightarrow> pauses x False y \<Longrightarrow> operating y"
    and resumes_any: "stopped x \<Longrightarrow> resumes x ok y \<Longrightarrow> operating y"
begin

definition agrees :: "'s \<Rightarrow> resumer \<Rightarrow> bool" where
  "agrees x r \<longleftrightarrow> (r = PrRunning \<longrightarrow> operating x) \<and> (r = PrPaused \<longrightarrow> stopped x)"

lemma pauses_observed:
  assumes "agrees x PrRunning" "pauses x (err = None) y"
  shows "\<exists>r. observe (PaCall ch) (PaCalled ch err) (Some PrPausing) = Some r \<and> agrees y r"
  using assms pauses_nil [of x y] pauses_err [of x y] by (cases err) (auto simp: agrees_def observe_def)

lemma resumes_observed:
  assumes "agrees x PrPaused" "resumes x ok y"
  shows "\<exists>r. observe ReResuming (Return err) (Some PrResuming) = Some r \<and> agrees y r"
  using assms resumes_any [of x ok y] by (auto simp: agrees_def observe_def)

end

definition joined_pause :: "resumer list \<Rightarrow> bool \<Rightarrow> resumer list \<Rightarrow> bool" where
  "joined_pause rs ok rs' \<longleftrightarrow> (\<exists>s es. mp_reach (length rs) s \<and> mp_main s = MpReturn es \<and> ok = (es = []) \<and> rs' = mp_pr s)"

definition joined_resume :: "resumer list \<Rightarrow> bool \<Rightarrow> resumer list \<Rightarrow> bool" where
  "joined_resume rs ok rs' \<longleftrightarrow> (\<exists>s es. mr_reach (length rs) s \<and> mr_result s = Some es \<and> ok = (es = []) \<and> rs' = mr_pr s)"

interpretation joined: pause_resumer "\<lambda>rs. \<forall>r\<in>set rs. r = PrRunning" "\<lambda>rs. \<forall>r\<in>set rs. r = PrPaused" joined_pause joined_resume
proof
  show "\<forall>r\<in>set y. r = PrPaused" if "joined_pause x True y" for x y
    using that mp_returned [OF mp_reach_inv] by (auto simp: joined_pause_def)
  show "\<forall>r\<in>set y. r = PrRunning" if "joined_pause x False y" for x y
    using that mp_returned [OF mp_reach_inv] by (auto simp: joined_pause_def)
  show "\<forall>r\<in>set y. r = PrRunning" if "joined_resume x ok y" for x ok y
    using that mr_returned(1) [OF mr_reach_inv] by (auto simp: joined_resume_def)
qed

text \<open>What the manager concludes from the outcome of a joined pause is true of every member.\<close>

lemma joined_observed:
  assumes "joined_pause (replicate n PrRunning) (err = None) rs"
  shows "\<exists>r. observe (PaCall ch) (PaCalled ch err) (Some PrPausing) = Some r \<and> set rs \<subseteq> {r}"
proof -
  obtain r where r: "observe (PaCall ch) (PaCalled ch err) (Some PrPausing) = Some r" "joined.agrees rs r"
    using joined.pauses_observed [of "replicate n PrRunning" err rs ch] assms by (auto simp: joined.agrees_def)
  moreover from r(1) have "r = PrRunning \<or> r = PrPaused" by (cases err) (auto simp: observe_def)
  ultimately show ?thesis by (auto simp: joined.agrees_def)
qed

fun mr_rank :: "mr_worker \<Rightarrow> nat" where
  "mr_rank MrResuming = 2"
| "mr_rank (MrSend e) = 1"
| "mr_rank (MrDone e) = 0"

definition mr_work :: "mr \<Rightarrow> nat" where
  "mr_work s = sum_list (map mr_rank (mr_w s)) + (if mr_result s = None then 1 else 0)"

lemma mr_rank_update:
  assumes "i < length ws" "mr_rank w < mr_rank (ws ! i)"
  shows "sum_list (map mr_rank (ws[i := w])) < sum_list (map mr_rank ws)"
  using assms by (induction ws arbitrary: i) (auto split: nat.splits)

lemma mr_work_decreases:
  assumes "mr_step s s'"
  shows "mr_work s' < mr_work s"
  using assms
proof cases
  case (ret i e)
  then show ?thesis using mr_rank_update [of i "mr_w s" "MrSend e"] by (simp add: mr_work_def)
next
  case (receive i e k)
  then show ?thesis using mr_rank_update [of i "mr_w s" "MrDone e"] by (simp add: mr_work_def)
qed (simp add: mr_work_def)

text \<open>An executable schedule: a move of a member, or one of the caller.\<close>

fun mp_run :: "(mp_choice \<times> nat) option list \<Rightarrow> mp \<Rightarrow> mp option" where
  "mp_run [] s = Some s"
| "mp_run (None # as) s = Option.bind (mp_caller s) (mp_run as)"
| "mp_run (Some (c, i) # as) s = (if i < length (mp_w s) then Option.bind (doPause c i s) (mp_run as) else None)"

lemma mp_run_reach: "mp_run as s = Some s' \<Longrightarrow> mp_reach n s \<Longrightarrow> mp_reach n s'"
proof (induction as s rule: mp_run.induct)
  case (2 as s)
  then obtain t where "mp_caller s = Some t" "mp_run as t = Some s'" by (auto split: bind_splits)
  with 2 show ?case using mp_next [OF _ mp_step.caller] by blast
next
  case (3 c i as s)
  then obtain t where "i < length (mp_w s)" "doPause c i s = Some t" "mp_run as t = Some s'" by (auto split: bind_splits if_splits)
  with 3 show ?case using mp_next [OF _ mp_step.member] by blast
qed simp

text \<open>C29: All members are paused, or none.  In every interleaving of the goroutines of a joined pause, with members
  that keep the contract of \<open>PauseResumer\<close> and return any errors: no channel is closed twice; every step
  brings the call closer to its end, and until it has returned a step can be made, so that it returns once its members
  do; and when it has returned, every member is paused if the result is nil and every member runs if it is an
  error, so that what the manager concludes from the result is true of each of them.  A joined resume returns
  in the same sense, with every member running, and with nil exactly if no member returned an error.\<close>

theorem MultiPauseResume_all_or_none:
  assumes "mp_reach n s" "mr_reach n q"
  shows "mp_main s \<noteq> MpPanic \<and> (\<forall>s'. mp_step s s' \<longrightarrow> mp_work s' < mp_work s)
    \<and> ((\<forall>es. mp_main s \<noteq> MpReturn es) \<longrightarrow> (\<exists>s'. mp_step s s'))
    \<and> (\<forall>es. mp_main s = MpReturn es \<longrightarrow> mp_pr s = replicate n (if es = [] then PrPaused else PrRunning))
    \<and> (\<forall>err rs ch. joined_pause (replicate n PrRunning) (err = None) rs
          \<longrightarrow> (\<exists>r. observe (PaCall ch) (PaCalled ch err) (Some PrPausing) = Some r \<and> set rs \<subseteq> {r}))
    \<and> (\<forall>q'. mr_step q q' \<longrightarrow> mr_work q' < mr_work q) \<and> (mr_result q = None \<longrightarrow> (\<exists>q'. mr_step q q'))
    \<and> (\<forall>es. mr_result q = Some es \<longrightarrow> mr_pr q = replicate n PrRunning \<and> (es = [] \<longleftrightarrow> (\<forall>w\<in>set (mr_w q). w = MrDone None)))"
proof -
  note p = mp_reach_inv [OF assms(1)] and r = mr_reach_inv [OF assms(2)]
  have "mp_main s \<noteq> MpPanic" using p by (auto simp: mp_inv_def)
  then show ?thesis
    using mp_work_decreases mp_progress [OF p] mp_returned [OF p] joined_observed mr_work_decreases mr_progress [OF r] mr_returned [OF r]
    by (intro conjI allI impI) blast+
qed

text \<open>Two members, of which the second cannot be paused.\<close>

definition one_fails :: "(mp_choice \<times> nat) option list" where
  "one_fails = [Some (MpRet None, 0), Some (MpSend, 0), Some (MpRet (Some CtxErr), 1), Some (MpSend, 1), None, None, None,
     Some (MpFail, 0), Some (MpRet None, 0), Some (MpFail, 1), Some (MpSend, 1), Some (MpSend, 0), None, None, None]"

theorem MultiPauseResume_all_or_none_witness:
  "\<exists>s. mp_run one_fails (mp_start 2) = Some s \<and> mp_main s = MpReturn [CtxErr] \<and> mp_pr s = [PrRunning, PrRunning]"
proof -
  obtain s where s: "mp_run one_fails (mp_start 2) = Some s" "mp_main s = MpReturn [CtxErr]"
    by (simp add: one_fails_def mp_start_def doPause_def mp_set_def mp_caller_def mp_collect_def Let_def numeral_2_eq_2)
  have "mp_reach 2 s" by (rule mp_run_reach [OF s(1) mp_init])
  from MultiPauseResume_all_or_none [OF this mr_init] s show ?thesis by (simp add: numeral_2_eq_2)
qed

end
