(* ===== verification/GatewayTarget.thy ===== *)
theory GatewayTarget
  imports Validate
begin

section \<open>Webhook targets at the gateway: notification/webhook/gateway_target.go\<close>

text \<open>
  A webhook whose URL points to the configured gateway carries a token as the last segment of its
  path.  \<open>url.Parse\<close> with \<open>URL.String\<close>, \<open>strings.ToLower\<close> and the UUID parser of google/uuid (with the
  text of the parsed value as its result) are parameters, collected in a record; the methods of a
  parsed URL and base64 are modelled.  A \<open>URL\<close> records only whether it has user information.
\<close>

record URL =
  url_Scheme :: string
  url_Opaque :: string
  url_User :: bool
  url_Host :: string
  url_Path :: string
  url_RawPath :: string
  url_ForceQuery :: bool
  url_RawQuery :: string
  url_Fragment :: string
  url_RawFragment :: string

record lib =
  url_Parse :: "string \<Rightarrow> URL option"
  url_String :: "URL \<Rightarrow> string"
  ToLower :: "string \<Rightarrow> string"
  uuid_Parse :: "string \<Rightarrow> string option"

subsection \<open>Strings and URLs\<close>

definition HasPrefix :: "string \<Rightarrow> string \<Rightarrow> bool" where
  "HasPrefix s p \<longleftrightarrow> take (length p) s = p"

definition HasSuffix :: "string \<Rightarrow> string \<Rightarrow> bool" where
  "HasSuffix s p \<longleftrightarrow> length p \<le> length s \<and> drop (length s - length p) s = p"

definition TrimPrefix :: "string \<Rightarrow> string \<Rightarrow> string" where
  "TrimPrefix s p = (if HasPrefix s p then drop (length p) s else s)"

definition TrimSuffix :: "string \<Rightarrow> string \<Rightarrow> string" where
  "TrimSuffix s p = (if HasSuffix s p then take (length s - length p) s else s)"

text \<open>The host and port of a URL, split at the last colon if digits follow it.\<close>

definition splitHostPort :: "string \<Rightarrow> string \<times> string" where
  "splitHostPort hp =
     (let after = rev (takeWhile (\<lambda>c. c \<noteq> CHR '':'') (rev hp));
          (host, port) = (if CHR '':'' \<in> set hp \<and> list_all is_digit after
                          then (take (length hp - length after - 1) hp, after) else (hp, ''''))
      in (if HasPrefix host ''['' \<and> HasSuffix host '']'' then butlast (tl host) else host, port))"

definition url_Hostname :: "URL \<Rightarrow> string" where "url_Hostname u = fst (splitHostPort (url_Host u))"
definition url_Port :: "URL \<Rightarrow> string" where "url_Port u = snd (splitHostPort (url_Host u))"

text \<open>\<open>EscapedPath\<close> of a URL without a raw path: the bytes that are not allowed are percent-encoded.\<close>

definition path_char :: "char \<Rightarrow> bool" where
  "path_char c \<longleftrightarrow> is_lower c \<or> is_upper c \<or> is_digit c \<or> c \<in> set ''-_.~$&+,/:;=@''"

definition upper_hex :: "nat \<Rightarrow> char" where
  "upper_hex n = ''0123456789ABCDEF'' ! n"

definition url_EscapedPath :: "URL \<Rightarrow> string" where
  "url_EscapedPath u =
     (if url_Path u = ''*'' then ''*''
      else concat (map (\<lambda>c. if path_char c then [c]
                            else [CHR ''%'', upper_hex (of_char c div 16), upper_hex (of_char c mod 16)]) (url_Path u)))"

subsection \<open>Base64\<close>

text \<open>
  \<open>base64.RawURLEncoding\<close>: no padding, and the decoder skips line ends and ignores the bits of the last
  character that belong to no byte.
\<close>

definition b64_alphabet :: string where
  "b64_alphabet = ''ABCDEFGHIJKLMNOPQRSTUVWXYZabcdefghijklmnopqrstuvwxyz0123456789-_''"

fun index_of :: "'a \<Rightarrow> 'a list \<Rightarrow> nat option" where
  "index_of x [] = None"
| "index_of x (y # ys) = (if x = y then Some 0 else map_option Suc (index_of x ys))"

fun b64_bytes :: "nat list \<Rightarrow> nat list option" where
  "b64_bytes [] = Some []"
| "b64_bytes [a] = None"
| "b64_bytes [a, b] = Some [a * 4 + b div 16]"
| "b64_bytes [a, b, c] = Some [a * 4 + b div 16, (b mod 16) * 16 + c div 4]"
| "b64_bytes (a # b # c # d # r) =
     map_option (\<lambda>bs. (a * 4 + b div 16) # ((b mod 16) * 16 + c div 4) # ((c mod 4) * 64 + d) # bs) (b64_bytes r)"

fun b64_digits :: "nat list \<Rightarrow> nat list" where
  "b64_digits [] = []"
| "b64_digits [x] = [x div 4, (x mod 4) * 16]"
| "b64_digits [x, y] = [x div 4, (x mod 4) * 16 + y div 16, (y mod 16) * 4]"
| "b64_digits (x # y # z # r) =
     (x div 4) # ((x mod 4) * 16 + y div 16) # ((y mod 16) * 4 + z div 64) # (z mod 64) # b64_digits r"

definition b64_decode :: "string \<Rightarrow> nat list option" where
  "b64_decode s =
     (let ix = map (\<lambda>c. index_of c b64_alphabet) (filter (\<lambda>c. c \<noteq> CHR 0x0A \<and> c \<noteq> CHR 0x0D) s)
      in if None \<in> set ix then None else b64_bytes (map the ix))"

definition b64_encode :: "nat list \<Rightarrow> string" where
  "b64_encode bs = map (\<lambda>i. b64_alphabet ! i) (b64_digits bs)"

subsection \<open>The matcher\<close>

definition gatewayContactMethodPathPrefix :: string where
  "gatewayContactMethodPathPrefix = ''/v1/goalert/contact-method/''"

definition canonicalHTTPSPort :: "string \<Rightarrow> string option" where
  "canonicalHTTPSPort port =
     (if port = '''' then Some ''443''
      else case ParseInt 64 port of
             None \<Rightarrow> None
           | Some n \<Rightarrow> if n < 1 \<or> 65535 < n \<or> show_int n \<noteq> port then None else Some port)"

record GatewayTargetMatcher =
  gm_hostname :: string
  gm_effectivePort :: string

definition Matcher_valid :: "lib \<Rightarrow> GatewayTargetMatcher option \<Rightarrow> bool" where
  "Matcher_valid L m =
     (case m of
        None \<Rightarrow> False
      | Some m \<Rightarrow> \<not> (gm_hostname m = '''' \<or> gm_hostname m \<noteq> ToLower L (gm_hostname m) \<or> CHR ''*'' \<in> set (gm_hostname m))
                  \<and> canonicalHTTPSPort (gm_effectivePort m) = Some (gm_effectivePort m))"

definition NewGatewayTargetMatcher :: "lib \<Rightarrow> string \<Rightarrow> GatewayTargetMatcher option" where
  "NewGatewayTargetMatcher L origin =
     (case url_Parse L origin of
        None \<Rightarrow> None
      | Some u \<Rightarrow>
          if url_Scheme u \<noteq> ''https'' \<or> url_Opaque u \<noteq> '''' \<or> url_User u \<or> url_Host u = '''' \<or> url_Path u \<noteq> ''''
             \<or> url_RawPath u \<noteq> '''' \<or> url_ForceQuery u \<or> url_RawQuery u \<noteq> '''' \<or> url_Fragment u \<noteq> ''''
             \<or> url_RawFragment u \<noteq> '''' \<or> HasSuffix (url_Host u) '':''
          then None
          else
            (let hostname = url_Hostname u
             in if hostname = '''' \<or> hostname \<noteq> ToLower L hostname \<or> CHR ''*'' \<in> set hostname then None
                else case canonicalHTTPSPort (url_Port u) of
                       None \<Rightarrow> None
                     | Some port \<Rightarrow> Some \<lparr>gm_hostname = hostname, gm_effectivePort = port\<rparr>))"

definition validGatewayToken :: "string \<Rightarrow> bool" where
  "validGatewayToken token =
     (if length token \<noteq> 5 + 43 \<or> \<not> HasPrefix token ''mso1_'' then False
      else
        (let body = TrimPrefix token ''mso1_''
         in case b64_decode body of
              None \<Rightarrow> False
            | Some decoded \<Rightarrow> length decoded = 32 \<and> b64_encode decoded = body))"

definition Match :: "lib \<Rightarrow> GatewayTargetMatcher option \<Rightarrow> URL \<Rightarrow> string option" where
  "Match L m target =
     (if \<not> Matcher_valid L m \<or> url_Scheme target \<noteq> ''https'' \<or> url_Opaque target \<noteq> '''' \<or> url_User target
         \<or> url_ForceQuery target \<or> url_RawQuery target \<noteq> '''' \<or> url_Fragment target \<noteq> '''' \<or> url_RawFragment target \<noteq> ''''
         \<or> url_RawPath target \<noteq> '''' \<or> HasSuffix (url_Host target) '':''
      then None
      else if url_Hostname target \<noteq> gm_hostname (the m) then None
      else case canonicalHTTPSPort (url_Port target) of
             None \<Rightarrow> None
           | Some port \<Rightarrow>
               if port \<noteq> gm_effectivePort (the m) then None
               else if url_EscapedPath target \<noteq> url_Path target
                 \<or> \<not> HasPrefix (url_Path target) gatewayContactMethodPathPrefix then None
               else if \<not> validGatewayToken (TrimPrefix (url_Path target) gatewayContactMethodPathPrefix) then None
               else Some (url_Path target))"

definition parseCanonicalUUID :: "lib \<Rightarrow> string \<Rightarrow> string option" where
  "parseCanonicalUUID L value =
     (case uuid_Parse L value of
        None \<Rightarrow> None
      | Some parsed \<Rightarrow> if parsed \<noteq> value then None else Some parsed)"

definition uuid_Nil :: string where
  "uuid_Nil = ''00000000-0000-0000-0000-000000000000''"

subsection \<open>Facts about tokens\<close>

lemma index_of_Some: "index_of x xs = Some i \<Longrightarrow> i < length xs \<and> xs ! i = x"
  by (induction xs arbitrary: i) (auto split: if_splits)

lemma index_of_nth: "distinct xs \<Longrightarrow> i < length xs \<Longrightarrow> index_of (xs ! i) xs = Some i"
proof (induction xs arbitrary: i)
  case (Cons y ys)
  then show ?case by (cases i) (auto simp: nth_mem)
qed simp

lemma distinct_alphabet: "distinct b64_alphabet" and length_alphabet: "length b64_alphabet = 64"
  by (code_simp, simp add: b64_alphabet_def)

lemma b64_digits_bounds: "list_all (\<lambda>b. b < 256) bs \<Longrightarrow> list_all (\<lambda>d. d < 64) (b64_digits bs)"
proof (induction bs rule: b64_digits.induct)
  case (4 x y z r)
  then have "x div 4 < 64" "(x mod 4) * 16 + y div 16 < 64" "(y mod 16) * 4 + z div 64 < 64" by auto
  with 4 show ?case by auto
qed auto

lemma b64_bytes_bounds: "b64_bytes ds = Some bs \<Longrightarrow> list_all (\<lambda>d. d < 64) ds \<Longrightarrow> list_all (\<lambda>b. b < 256) bs"
proof (induction ds arbitrary: bs rule: b64_bytes.induct)
  case (5 a b c d r)
  then have "a * 4 + b div 16 < 256" "(b mod 16) * 16 + c div 4 < 256" "(c mod 4) * 64 + d < 256" by auto
  with 5 show ?case by (auto simp: map_option_case split: option.splits)
qed auto

lemma b64_bytes_digits: "list_all (\<lambda>b. b < 256) bs \<Longrightarrow> b64_bytes (b64_digits bs) = Some bs"
proof (induction bs rule: b64_digits.induct)
  case (4 x y z r)
  then have "x div 4 * 4 + ((x mod 4) * 16 + y div 16) div 16 = x"
    "((x mod 4) * 16 + y div 16) mod 16 * 16 + ((y mod 16) * 4 + z div 64) div 4 = y"
    "((y mod 16) * 4 + z div 64) mod 4 * 64 + z mod 64 = z" by auto
  with 4 show ?case by simp
qed auto

lemma b64_digits_length: "length (b64_digits bs) = (4 * length bs + 2) div 3"
  by (induction bs rule: b64_digits.induct) auto

lemma b64_decode_encode:
  assumes "list_all (\<lambda>b. b < 256) bs"
  shows "b64_decode (b64_encode bs) = Some bs"
proof -
  let ?ds = "b64_digits bs"
  have ds: "list_all (\<lambda>d. d < 64) ?ds" by (rule b64_digits_bounds [OF assms])
  have "set (b64_encode bs) \<subseteq> set b64_alphabet"
    using ds by (auto simp: b64_encode_def list_all_iff length_alphabet)
  moreover have "CHR 0x0A \<notin> set b64_alphabet" "CHR 0x0D \<notin> set b64_alphabet" by code_simp+
  ultimately have "filter (\<lambda>c. c \<noteq> CHR 0x0A \<and> c \<noteq> CHR 0x0D) (b64_encode bs) = b64_encode bs"
    by (intro filter_True) blast
  moreover have "map (\<lambda>c. index_of c b64_alphabet) (b64_encode bs) = map Some ?ds"
    using ds by (auto simp: b64_encode_def list_all_iff index_of_nth distinct_alphabet length_alphabet)
  ultimately show ?thesis using b64_bytes_digits [OF assms] by (auto simp: b64_decode_def Let_def comp_def)
qed

lemma b64_decode_bytes: "b64_decode s = Some bs \<Longrightarrow> list_all (\<lambda>b. b < 256) bs"
proof -
  assume a: "b64_decode s = Some bs"
  define ix where "ix = map (\<lambda>c. index_of c b64_alphabet) (filter (\<lambda>c. c \<noteq> CHR 0x0A \<and> c \<noteq> CHR 0x0D) s)"
  have "None \<notin> set ix" "b64_bytes (map the ix) = Some bs" using a by (auto simp: b64_decode_def ix_def Let_def split: if_splits)
  moreover have "list_all (\<lambda>d. d < 64) (map the ix)"
    using \<open>None \<notin> set ix\<close> index_of_Some [of _ b64_alphabet] length_alphabet
    by (fastforce simp: list_all_iff ix_def image_iff)
  ultimately show ?thesis using b64_bytes_bounds by blast
qed

lemma TrimPrefix_append [simp]: "TrimPrefix (p @ s) p = s"
  by (simp add: TrimPrefix_def HasPrefix_def)

lemma HasPrefixE: "HasPrefix s p \<Longrightarrow> (\<And>r. s = p @ r \<Longrightarrow> TrimPrefix s p = r \<Longrightarrow> thesis) \<Longrightarrow> thesis"
  by (metis HasPrefix_def TrimPrefix_append append_take_drop_id)

lemma HasSuffixE: "HasSuffix s p \<Longrightarrow> (\<And>r. s = r @ p \<Longrightarrow> TrimSuffix s p = r \<Longrightarrow> thesis) \<Longrightarrow> thesis"
  by (metis HasSuffix_def TrimSuffix_def append_take_drop_id)

text \<open>The valid tokens are the prefix followed by the encoding of 32 bytes, one for each such value.\<close>

theorem validGatewayToken_iff:
  "validGatewayToken t \<longleftrightarrow> (\<exists>!bs. length bs = 32 \<and> list_all (\<lambda>b. b < 256) bs \<and> t = ''mso1_'' @ b64_encode bs)"
proof
  assume v: "validGatewayToken t"
  then have "HasPrefix t ''mso1_''" by (auto simp: validGatewayToken_def split: if_splits)
  then obtain body where t: "t = ''mso1_'' @ body" by (rule HasPrefixE)
  have "TrimPrefix t ''mso1_'' = body" unfolding t by (rule TrimPrefix_append)
  with v obtain bs where bs: "b64_decode body = Some bs" "length bs = 32" "b64_encode bs = body"
    by (auto simp: validGatewayToken_def split: if_splits option.splits)
  with b64_decode_bytes [OF bs(1)] b64_decode_encode t
  show "\<exists>!bs. length bs = 32 \<and> list_all (\<lambda>b. b < 256) bs \<and> t = ''mso1_'' @ b64_encode bs"
    by (intro ex1I [of _ bs]) auto
next
  assume "\<exists>!bs. length bs = 32 \<and> list_all (\<lambda>b. b < 256) bs \<and> t = ''mso1_'' @ b64_encode bs"
  then obtain bs where bs: "length bs = 32" "list_all (\<lambda>b. b < 256) bs" "t = ''mso1_'' @ b64_encode bs" by blast
  have "length (b64_encode bs) = 43" using bs(1) by (simp add: b64_encode_def b64_digits_length)
  then show "validGatewayToken t"
    using bs TrimPrefix_append [of "''mso1_''" "b64_encode bs"] b64_decode_encode [OF bs(2)]
    unfolding validGatewayToken_def by (simp add: HasPrefix_def)
qed

lemma if_None_Some: "(if c then None else x) = Some y \<longleftrightarrow> \<not> c \<and> x = Some y"
  by simp

lemma case_None_Some: "(case z of None \<Rightarrow> None | Some v \<Rightarrow> f v) = Some y \<longleftrightarrow> (\<exists>v. z = Some v \<and> f v = Some y)"
  by (cases z) simp_all

lemma Match_path:
  assumes "Match L m u = Some path"
  obtains token where "path = gatewayContactMethodPathPrefix @ token" "validGatewayToken token" "url_Path u = path"
    "TrimPrefix path gatewayContactMethodPathPrefix = token"
proof -
  from assms [unfolded Match_def if_None_Some case_None_Some] obtain
    "\<not> (url_EscapedPath u \<noteq> url_Path u \<or> \<not> HasPrefix (url_Path u) gatewayContactMethodPathPrefix)"
    "\<not> \<not> validGatewayToken (TrimPrefix (url_Path u) gatewayContactMethodPathPrefix)" "Some (url_Path u) = Some path"
    by (elim conjE exE) (rule that)
  then have *: "path = url_Path u" "HasPrefix path gatewayContactMethodPathPrefix"
    "validGatewayToken (TrimPrefix path gatewayContactMethodPathPrefix)" by simp_all
  from *(2) obtain r where r: "path = gatewayContactMethodPathPrefix @ r" "TrimPrefix path gatewayContactMethodPathPrefix = r"
    by (rule HasPrefixE)
  show thesis by (rule that [OF r(1) _ *(1) [symmetric] r(2)]) (use *(3) in \<open>simp only: r(2)\<close>)
qed

end
