(* ===== verification/GatewayPort.thy ===== *)
theory GatewayPort
  imports GatewayTarget Throttle "HOL-Library.State_Monad"
begin

section \<open>The ports of a token rotation\<close>

text \<open>
  The rotation of a destination's token (\<open>notification/webhook/gateway_token_rotation.go\<close> and
  \<open>gateway_token_cas.go\<close>) talks to the gateway through a participant port, to PostgreSQL through
  \<open>database/sql\<close>, and reads clocks and contexts.  Every such call appends an event, with what it
  returned, to a log: a program is a state transformer of the log, and what a call returns is given by
  an environment as a function of the position in the log.  Nothing is assumed about it here.
\<close>

subsection \<open>Errors and contexts\<close>

text \<open>The static errors of the two files; every other error is \<open>OtherErr\<close>.\<close>

datatype gw_error =
    RotInvalid | RotPermissionDenied | RotConflict | RotUnavailable | RotOutcomeUnknown
  | RotReconciliationRequired | RotCanceled | RotDeadlineExceeded | RotTooEarly
  | SerializationUncertain | QuarantineUnconfirmed
  | CASInvalid | CASPermissionDenied | CASConflict | CASUnavailable | CASOutcomeUnknown
  | CASCanceled | CASDeadlineExceeded
  | OtherErr

datatype ctx_err = Canceled | DeadlineExceeded

text \<open>A context, \<open>None\<close> for nil: whether it carries a system permission, and its deadline.\<close>

record ctx =
  cx_System :: bool
  cx_Deadline :: "instant option"

definition WithDeadline :: "ctx \<Rightarrow> instant \<Rightarrow> ctx" where
  "WithDeadline c d = c\<lparr>cx_Deadline := Some (case cx_Deadline c of None \<Rightarrow> d | Some p \<Rightarrow> min p d)\<rparr>"

definition WithoutCancel :: "ctx \<Rightarrow> ctx" where
  "WithoutCancel c = c\<lparr>cx_Deadline := None\<rparr>"

subsection \<open>Database errors\<close>

text \<open>
  An error of the database driver is the chain that \<open>errors.Unwrap\<close> follows: a PostgreSQL error with its
  code and constraint, the sentinel errors the code compares with, an error that wraps several, a typed
  nil, or anything else.  \<open>pgconn.SafeToRetry\<close> is part of the value.
\<close>

datatype db_node =
    PgError string string
  | ErrBadConn | ErrConnDone | ErrNoRows | ErrUncertain
  | MultiErr | NilErr | OtherNode

record db_error =
  de_chain :: "db_node list"
  de_safeToRetry :: bool

subsection \<open>What the participant returns\<close>

definition gatewayDestinationTokenRotationMaxHandleBytes :: nat where
  "gatewayDestinationTokenRotationMaxHandleBytes = 4096"

abbreviation "gatewayDestinationTokenRotationBeginLimit \<equiv> 5 * Second"
abbreviation "gatewayDestinationTokenRotationCASLimit \<equiv> 5 * Second"
abbreviation "gatewayDestinationTokenRotationDiscardLimit \<equiv> 5 * Second"
abbreviation "gatewayDestinationTokenRotationRecoveryLimit \<equiv> 5 * Second"
abbreviation "gatewayDestinationTokenRotationReleaseLimit \<equiv> 5 * Second"
abbreviation "gatewayDestinationTokenRotationMaxOverlap \<equiv> 24 * Hour"

text \<open>A participant handle is a byte string; the empty one is the zero value.\<close>

definition NewParticipantHandle :: "string \<Rightarrow> gw_error + string" where
  "NewParticipantHandle value =
     (if value = '''' \<or> gatewayDestinationTokenRotationMaxHandleBytes < length value then Inl RotInvalid else Inr value)"

definition handle_valid :: "string \<Rightarrow> bool" where
  "handle_valid value \<longleftrightarrow> 0 < length value \<and> length value \<le> gatewayDestinationTokenRotationMaxHandleBytes"

record ParticipantAttempt =
  pa_handle :: string
  pa_newToken :: string
  pa_activatedAt :: instant
  pa_retirementDeadline :: instant

definition NewParticipantAttempt :: "string \<Rightarrow> string \<Rightarrow> instant \<Rightarrow> instant \<Rightarrow> gw_error + ParticipantAttempt" where
  "NewParticipantAttempt handle newToken activatedAt retirementDeadline =
     (if \<not> handle_valid handle \<or> \<not> validGatewayToken newToken \<or> IsZero activatedAt \<or> IsZero retirementDeadline
         \<or> \<not> activatedAt < retirementDeadline
         \<or> gatewayDestinationTokenRotationMaxOverlap < Sub retirementDeadline activatedAt
      then Inl RotInvalid
      else Inr \<lparr>pa_handle = handle, pa_newToken = newToken, pa_activatedAt = activatedAt, pa_retirementDeadline = retirementDeadline\<rparr>)"

definition NewParticipantReconciliationAttempt :: "string \<Rightarrow> gw_error + ParticipantAttempt" where
  "NewParticipantReconciliationAttempt handle =
     (if \<not> handle_valid handle then Inl RotInvalid
      else Inr \<lparr>pa_handle = handle, pa_newToken = '''', pa_activatedAt = time_zero, pa_retirementDeadline = time_zero\<rparr>)"

definition ValidInterval :: "instant \<Rightarrow> instant \<Rightarrow> bool" where
  "ValidInterval start deadline =
     (if IsZero start \<or> IsZero deadline then False
      else let interval = Sub deadline start in 0 < interval \<and> interval \<le> gatewayDestinationTokenRotationMaxOverlap)"

definition attempt_valid :: "ParticipantAttempt \<Rightarrow> bool" where
  "attempt_valid a \<longleftrightarrow> handle_valid (pa_handle a) \<and> validGatewayToken (pa_newToken a)
     \<and> ValidInterval (pa_activatedAt a) (pa_retirementDeadline a)"

text \<open>The states and identities an observation reports; a value outside the named ones is invalid.\<close>

datatype ParticipantState = ActiveWithRetiring | RolledBackState | CompletedState | InvalidState
datatype TokenIdentity = TokenNew | TokenOld | TokenNeither | InvalidIdentity

record Observation =
  ob_state :: ParticipantState
  ob_identity :: TokenIdentity
  ob_observedAt :: instant
  ob_retirementDeadline :: instant

definition observation_valid :: "Observation \<Rightarrow> bool" where
  "observation_valid ob =
     (if ob_identity ob = InvalidIdentity then False
      else case ob_state ob of
             ActiveWithRetiring \<Rightarrow> \<not> IsZero (ob_observedAt ob) \<and> \<not> IsZero (ob_retirementDeadline ob)
           | RolledBackState \<Rightarrow> IsZero (ob_observedAt ob) \<and> IsZero (ob_retirementDeadline ob)
           | CompletedState \<Rightarrow> IsZero (ob_observedAt ob) \<and> IsZero (ob_retirementDeadline ob)
           | InvalidState \<Rightarrow> False)"

definition NewObservation :: "ParticipantState \<Rightarrow> TokenIdentity \<Rightarrow> instant \<Rightarrow> instant \<Rightarrow> gw_error + Observation" where
  "NewObservation st ident observedAt retirementDeadline =
     (let ob = \<lparr>ob_state = st, ob_identity = ident, ob_observedAt = observedAt, ob_retirementDeadline = retirementDeadline\<rparr>
      in if \<not> observation_valid ob then Inl RotInvalid else Inr ob)"

record BeginRequest =
  br_audience :: string
  br_destination :: string
  br_currentToken :: string

subsection \<open>Events, environments, programs\<close>

text \<open>
  The events: a clock reading, \<open>ctx.Err()\<close>, the four calls of the participant (the rollback with the
  deadline of its context), and the calls of a database connection: acquiring it, opening a transaction,
  the locking read, the conditional update with the number of rows it reports (\<open>None\<close> when that cannot
  be read), commit, rollback, closing the physical connection (whether there was one, whether it
  closed, whether \<open>Raw\<close> returned nothing else), and giving the connection back.
\<close>

datatype event =
    EvNow instant
  | EvCtxErr "ctx_err option"
  | EvBegin BeginRequest "ParticipantAttempt \<times> gw_error option"
  | EvObserve string string "Observation \<times> gw_error option"
  | EvRollback string "instant option" "gw_error option"
  | EvFinalize string "gw_error option"
  | EvAcquire "bool \<times> db_error option"
  | EvBeginTx "bool \<times> db_error option"
  | EvSelect string "db_error + DestV1"
  | EvUpdate string DestV1 DestV1 "db_error + int option"
  | EvCommit "db_error option"
  | EvTxRollback "db_error option"
  | EvRaw "bool \<times> bool \<times> bool"
  | EvClose

record env =
  e_now :: "nat \<Rightarrow> instant"
  e_ctxErr :: "nat \<Rightarrow> ctx_err option"
  e_begin :: "nat \<Rightarrow> ParticipantAttempt \<times> gw_error option"
  e_observe :: "nat \<Rightarrow> Observation \<times> gw_error option"
  e_rollback :: "nat \<Rightarrow> gw_error option"
  e_finalize :: "nat \<Rightarrow> gw_error option"
  e_acquire :: "nat \<Rightarrow> bool \<times> db_error option"
  e_beginTx :: "nat \<Rightarrow> bool \<times> db_error option"
  e_select :: "nat \<Rightarrow> db_error + DestV1"
  e_update :: "nat \<Rightarrow> db_error + int option"
  e_commit :: "nat \<Rightarrow> db_error option"
  e_txRollback :: "nat \<Rightarrow> db_error option"
  e_raw :: "nat \<Rightarrow> bool \<times> bool \<times> bool"

type_synonym 'a prog = "(event list, 'a) State_Monad.state"

definition ask :: "(nat \<Rightarrow> 'r) \<Rightarrow> ('r \<Rightarrow> event) \<Rightarrow> 'r prog" where
  "ask f ev = State (\<lambda>log. let r = f (length log) in (r, log @ [ev r]))"

abbreviation ret :: "'a \<Rightarrow> 'a prog" where
  "ret \<equiv> State_Monad.return"

definition time_Now :: "env \<Rightarrow> instant prog" where "time_Now E = ask (e_now E) EvNow"
definition ctx_Err :: "env \<Rightarrow> ctx \<Rightarrow> ctx_err option prog" where "ctx_Err E c = ask (e_ctxErr E) EvCtxErr"
definition BeginRotation :: "env \<Rightarrow> ctx \<Rightarrow> BeginRequest \<Rightarrow> (ParticipantAttempt \<times> gw_error option) prog" where
  "BeginRotation E c r = ask (e_begin E) (EvBegin r)"
definition ObserveRotation :: "env \<Rightarrow> ctx \<Rightarrow> string \<Rightarrow> string \<Rightarrow> (Observation \<times> gw_error option) prog" where
  "ObserveRotation E c h token = ask (e_observe E) (EvObserve h token)"
definition RollbackRotation :: "env \<Rightarrow> ctx \<Rightarrow> string \<Rightarrow> gw_error option prog" where
  "RollbackRotation E c h = ask (e_rollback E) (EvRollback h (cx_Deadline c))"
definition FinalizeRotation :: "env \<Rightarrow> ctx \<Rightarrow> string \<Rightarrow> gw_error option prog" where
  "FinalizeRotation E c h = ask (e_finalize E) (EvFinalize h)"
definition acquire :: "env \<Rightarrow> ctx \<Rightarrow> (bool \<times> db_error option) prog" where
  "acquire E c = ask (e_acquire E) EvAcquire"
definition conn_BeginTx :: "env \<Rightarrow> ctx \<Rightarrow> (bool \<times> db_error option) prog" where
  "conn_BeginTx E c = ask (e_beginTx E) EvBeginTx"
definition ContactMethodFindOneUpdate :: "env \<Rightarrow> ctx \<Rightarrow> string \<Rightarrow> (db_error + DestV1) prog" where
  "ContactMethodFindOneUpdate E c cm = ask (e_select E) (EvSelect cm)"
definition ContactMethodCompareAndSwapGatewayDest ::
  "env \<Rightarrow> ctx \<Rightarrow> string \<Rightarrow> DestV1 \<Rightarrow> DestV1 \<Rightarrow> (db_error + int option) prog" where
  "ContactMethodCompareAndSwapGatewayDest E c cm replacement expected = ask (e_update E) (EvUpdate cm replacement expected)"
definition tx_Commit :: "env \<Rightarrow> db_error option prog" where "tx_Commit E = ask (e_commit E) EvCommit"
definition tx_Rollback :: "env \<Rightarrow> db_error option prog" where "tx_Rollback E = ask (e_txRollback E) EvTxRollback"
definition conn_Raw_Close :: "env \<Rightarrow> (bool \<times> bool \<times> bool) prog" where "conn_Raw_Close E = ask (e_raw E) EvRaw"
definition conn_Close :: "unit prog" where "conn_Close = ask (\<lambda>_. ()) (\<lambda>_. EvClose)"

end
