(* ===== verification/GatewayStore.thy ===== *)
theory GatewayStore
  imports GatewayPort
begin

section \<open>The compare-and-swap of a destination and the locked read\<close>

text \<open>
  The Core side of a rotation: the preparation of the two destinations of a compare-and-swap and the
  classification of database errors (\<open>gateway_token_cas.go\<close>), and the SQL store with its fenced
  compare-and-swap and its locked read (\<open>gateway_token_rotation.go\<close>).  A program that returns a Go
  error returns an option.  Deferred calls are made where the function returns.
\<close>

subsection \<open>Errors\<close>

definition CASContextError :: "env \<Rightarrow> ctx \<Rightarrow> gw_error option prog" where
  "CASContextError E c = do {
     e \<leftarrow> ctx_Err E c;
     ret (case e of None \<Rightarrow> None | Some Canceled \<Rightarrow> Some CASCanceled | Some DeadlineExceeded \<Rightarrow> Some CASDeadlineExceeded)
   }"

fun SingleCausePostgresError :: "nat \<Rightarrow> db_node list \<Rightarrow> (string \<times> string) option" where
  "SingleCausePostgresError 0 cs = None"
| "SingleCausePostgresError (Suc n) [] = None"
| "SingleCausePostgresError (Suc n) (c # cs) =
     (case c of
        MultiErr \<Rightarrow> None
      | NilErr \<Rightarrow> None
      | PgError code constraint \<Rightarrow> Some (code, constraint)
      | _ \<Rightarrow> SingleCausePostgresError n cs)"

fun SingleCauseMatches :: "nat \<Rightarrow> db_node list \<Rightarrow> db_node \<Rightarrow> bool" where
  "SingleCauseMatches 0 cs target = False"
| "SingleCauseMatches (Suc n) [] target = False"
| "SingleCauseMatches (Suc n) (c # cs) target =
     (if c = MultiErr \<or> c = NilErr then False
      else if c = target then True
      else SingleCauseMatches n cs target)"

fun SingleCauseChain :: "nat \<Rightarrow> db_node list \<Rightarrow> bool" where
  "SingleCauseChain 0 cs = False"
| "SingleCauseChain (Suc n) [] = False"
| "SingleCauseChain (Suc n) (c # cs) =
     (if c = MultiErr \<or> c = NilErr then False
      else if cs = [] then True
      else SingleCauseChain n cs)"

definition classifyExecutionError :: "db_error \<Rightarrow> gw_error" where
  "classifyExecutionError err =
     (if SingleCauseMatches 64 (de_chain err) ErrBadConn \<or> SingleCauseMatches 64 (de_chain err) ErrConnDone
         \<or> SingleCauseChain 64 (de_chain err) \<and> de_safeToRetry err
      then CASUnavailable
      else case SingleCausePostgresError 64 (de_chain err) of
             None \<Rightarrow> CASOutcomeUnknown
           | Some (code, constraint) \<Rightarrow>
               if code = ''23505''
                  \<and> (constraint = ''user_contact_methods_dest_key'' \<or> constraint = ''user_contact_methods_type_value_key'')
               then CASConflict
               else if code = ''40003'' \<or> HasPrefix code ''08'' then CASOutcomeUnknown
               else if code \<in> {''57P01'', ''57P02'', ''57P03'', ''57P04'', ''57P05''} then CASOutcomeUnknown
               else CASUnavailable)"

text \<open>The direct comparison of a database error with \<open>errGatewayDestinationTokenRotationSerializationUncertain\<close>.\<close>

definition is_uncertain :: "db_error option \<Rightarrow> bool" where
  "is_uncertain err = (case err of None \<Rightarrow> False | Some e \<Rightarrow> de_chain e \<noteq> [] \<and> hd (de_chain e) = ErrUncertain)"

subsection \<open>The destinations of a swap\<close>

definition DestTypeWebhook :: string where "DestTypeWebhook = ''builtin-webhook''"
definition FieldWebhookURL :: string where "FieldWebhookURL = ''webhook_url''"

definition NewWebhookDest :: "string \<Rightarrow> DestV1" where
  "NewWebhookDest url = \<lparr>dst_Args = Some [FieldWebhookURL \<mapsto> url], dst_Type = DestTypeWebhook\<rparr>"

definition Dest_Arg :: "DestV1 \<Rightarrow> string \<Rightarrow> string" where
  "Dest_Arg d name = (case dst_Args d of None \<Rightarrow> '''' | Some m \<Rightarrow> (case m name of None \<Rightarrow> '''' | Some v \<Rightarrow> v))"

record CASRequest =
  cr_contactMethodID :: string
  cr_expectedURL :: string
  cr_replacementToken :: string

definition CAS_prepare :: "lib \<Rightarrow> GatewayTargetMatcher option \<Rightarrow> CASRequest \<Rightarrow> (DestV1 \<times> DestV1) option" where
  "CAS_prepare L m r =
     (if cr_contactMethodID r = uuid_Nil \<or> cr_expectedURL r = '''' \<or> cr_replacementToken r = '''' then None
      else case url_Parse L (cr_expectedURL r) of
             None \<Rightarrow> None
           | Some target \<Rightarrow>
               if url_String L target \<noteq> cr_expectedURL r then None
               else case Match L m target of
                      None \<Rightarrow> None
                    | Some canonicalPath \<Rightarrow>
                        (let oldToken = TrimPrefix canonicalPath gatewayContactMethodPathPrefix
                         in if \<not> validGatewayToken (cr_replacementToken r) \<or> cr_replacementToken r = oldToken
                               \<or> \<not> HasSuffix (cr_expectedURL r) oldToken then None
                            else
                              (let replacementURL = TrimSuffix (cr_expectedURL r) oldToken @ cr_replacementToken r
                               in case url_Parse L replacementURL of
                                    None \<Rightarrow> None
                                  | Some replacementTarget \<Rightarrow>
                                      if url_String L replacementTarget \<noteq> replacementURL then None
                                      else if Match L m replacementTarget
                                                \<noteq> Some (gatewayContactMethodPathPrefix @ cr_replacementToken r) then None
                                      else Some (NewWebhookDest (cr_expectedURL r), NewWebhookDest replacementURL))))"

subsection \<open>Bounded contexts\<close>

definition EarliestDeadline :: "instant \<Rightarrow> instant \<Rightarrow> instant" where
  "EarliestDeadline a b = (if b < a then b else a)"

definition BoundedContext :: "env \<Rightarrow> ctx option \<Rightarrow> instant \<Rightarrow> ctx option prog" where
  "BoundedContext E c deadline =
     (case c of
        None \<Rightarrow> ret None
      | Some c \<Rightarrow>
          if IsZero deadline then ret None
          else do {
            err \<leftarrow> ctx_Err E c;
            if err \<noteq> None then ret None
            else do {
              now \<leftarrow> time_Now E;
              if \<not> now < deadline then ret None
              else do {
                err \<leftarrow> ctx_Err E (WithDeadline c deadline);
                ret (if err \<noteq> None then None else Some (WithDeadline c deadline))
              }
            }
          })"

definition OperationContext :: "env \<Rightarrow> ctx option \<Rightarrow> (ctx \<times> instant) option prog" where
  "OperationContext E c =
     (case c of
        None \<Rightarrow> ret None
      | Some c \<Rightarrow> do {
          err \<leftarrow> ctx_Err E c;
          if err \<noteq> None then ret None
          else do {
            now \<leftarrow> time_Now E;
            let deadline = (case cx_Deadline c of
                              None \<Rightarrow> now + gatewayDestinationTokenRotationRecoveryLimit
                            | Some d \<Rightarrow> EarliestDeadline (now + gatewayDestinationTokenRotationRecoveryLimit) d);
            b \<leftarrow> BoundedContext E (Some c) deadline;
            ret (map_option (\<lambda>b. (b, deadline)) b)
          }
        })"

definition RotContextError :: "env \<Rightarrow> ctx \<Rightarrow> gw_error option prog" where
  "RotContextError E c = do {
     e \<leftarrow> ctx_Err E c;
     ret (case e of None \<Rightarrow> None | Some Canceled \<Rightarrow> Some RotCanceled | Some DeadlineExceeded \<Rightarrow> Some RotDeadlineExceeded)
   }"

subsection \<open>The SQL store\<close>

definition DiscardBefore :: "env \<Rightarrow> instant \<Rightarrow> bool prog" where
  "DiscardBefore E notAfter =
     (if IsZero notAfter then ret False
      else do {
        now \<leftarrow> time_Now E;
        if \<not> now < notAfter then ret False
        else do {
          (found, closed, rawOK) \<leftarrow> conn_Raw_Close E;
          if \<not> (found \<and> closed \<and> rawOK) then ret False
          else do {
            now \<leftarrow> time_Now E;
            ret (\<not> notAfter < now)
          }
        }
      })"

text \<open>
  The locked read runs \<open>inspect\<close> at most once, on the destination of the locked row.  It returns the
  error of the store and what \<open>inspect\<close> computed, \<open>None\<close> if it did not run.
\<close>

definition locked_tx ::
  "env \<Rightarrow> ctx \<Rightarrow> instant \<Rightarrow> string \<Rightarrow> (ctx \<Rightarrow> DestV1 \<Rightarrow> 'r prog) \<Rightarrow> (gw_error option \<times> 'r option) prog" where
  "locked_tx E operationCtx txDeadline cm inspect = do {
     row \<leftarrow> ContactMethodFindOneUpdate E operationCtx cm;
     case row of
       Inl _ \<Rightarrow> do {
         err \<leftarrow> tx_Rollback E;
         ctxErr \<leftarrow> (if err \<noteq> None then ret None else RotContextError E operationCtx);
         if err \<noteq> None \<or> ctxErr \<noteq> None
         then do { _ \<leftarrow> DiscardBefore E txDeadline; ret (Some RotReconciliationRequired, None) }
         else ret (Some RotReconciliationRequired, None)
       }
     | Inr dest \<Rightarrow> do {
         r \<leftarrow> inspect operationCtx dest;
         err \<leftarrow> tx_Rollback E;
         if err \<noteq> None
         then do { _ \<leftarrow> DiscardBefore E txDeadline; ret (Some RotReconciliationRequired, Some r) }
         else do {
           ctxErr \<leftarrow> RotContextError E operationCtx;
           if ctxErr \<noteq> None
           then do { _ \<leftarrow> DiscardBefore E txDeadline; ret (Some RotReconciliationRequired, Some r) }
           else ret (None, Some r)
         }
       }
   }"

definition WithLockedGatewayDestination ::
  "env \<Rightarrow> ctx option \<Rightarrow> string \<Rightarrow> (ctx \<Rightarrow> DestV1 \<Rightarrow> 'r prog) \<Rightarrow> (gw_error option \<times> 'r option) prog" where
  "WithLockedGatewayDestination E c cm inspect =
     (if c = None \<or> cm = uuid_Nil then ret (Some RotReconciliationRequired, None)
      else if \<not> cx_System (the c) then ret (Some RotReconciliationRequired, None)
      else do {
        op \<leftarrow> OperationContext E c;
        case op of
          None \<Rightarrow> ret (Some RotReconciliationRequired, None)
        | Some (operationCtx, operationDeadline) \<Rightarrow> do {
            let txDeadline = operationDeadline + gatewayDestinationTokenRotationReleaseLimit;
            (conn, err) \<leftarrow> acquire E operationCtx;
            if err \<noteq> None \<or> \<not> conn
            then if conn then do {
                   _ \<leftarrow> DiscardBefore E txDeadline;
                   conn_Close;
                   ret (Some RotReconciliationRequired, None)
                 }
                 else ret (Some RotReconciliationRequired, None)
            else do {
              (tx, err) \<leftarrow> conn_BeginTx E (WithDeadline (WithoutCancel operationCtx) txDeadline);
              if err \<noteq> None \<or> \<not> tx
              then do {
                _ \<leftarrow> DiscardBefore E txDeadline;
                conn_Close;
                ret (Some RotReconciliationRequired, None)
              }
              else do {
                r \<leftarrow> locked_tx E operationCtx txDeadline cm inspect;
                conn_Close;
                ret r
              }
            }
          }
      })"

subsection \<open>The fenced compare-and-swap\<close>

definition quarantineUnknown :: "env \<Rightarrow> instant \<Rightarrow> gw_error option prog" where
  "quarantineUnknown E discardDeadline = do {
     discarded \<leftarrow> DiscardBefore E discardDeadline;
     ret (Some (if discarded then CASOutcomeUnknown else QuarantineUnconfirmed))
   }"

definition rollback :: "env \<Rightarrow> ctx \<Rightarrow> instant \<Rightarrow> gw_error \<Rightarrow> gw_error option prog" where
  "rollback E c discardDeadline safeErr = do {
     err \<leftarrow> tx_Rollback E;
     if err \<noteq> None then quarantineUnknown E discardDeadline
     else do {
       ctxErr \<leftarrow> CASContextError E c;
       if ctxErr \<noteq> None then quarantineUnknown E discardDeadline else ret (Some safeErr)
     }
   }"

definition rollbackUncertainTopology :: "env \<Rightarrow> instant \<Rightarrow> gw_error option prog" where
  "rollbackUncertainTopology E discardDeadline = do {
     _ \<leftarrow> tx_Rollback E;
     _ \<leftarrow> DiscardBefore E discardDeadline;
     ret (Some QuarantineUnconfirmed)
   }"

text \<open>The part after the conditional update has reported one row: the only commit.\<close>

definition fenced_commit :: "env \<Rightarrow> ctx \<Rightarrow> instant \<Rightarrow> gw_error option prog" where
  "fenced_commit E c discardDeadline = do {
     err \<leftarrow> tx_Commit E;
     if err \<noteq> None then quarantineUnknown E discardDeadline
     else do {
       ctxErr \<leftarrow> CASContextError E c;
       if ctxErr \<noteq> None then quarantineUnknown E discardDeadline else ret None
     }
   }"

definition fenced_update :: "env \<Rightarrow> ctx \<Rightarrow> instant \<Rightarrow> string \<Rightarrow> DestV1 \<Rightarrow> DestV1 \<Rightarrow> gw_error option prog" where
  "fenced_update E c discardDeadline cm expected replacement = do {
     result \<leftarrow> ContactMethodCompareAndSwapGatewayDest E c cm replacement expected;
     case result of
       Inl err \<Rightarrow>
         if is_uncertain (Some err) then rollbackUncertainTopology E discardDeadline
         else do {
           ctxErr \<leftarrow> CASContextError E c;
           rollback E c discardDeadline
             (case ctxErr of
                Some e \<Rightarrow> e
              | None \<Rightarrow> if classifyExecutionError err = CASOutcomeUnknown then CASUnavailable
                        else classifyExecutionError err)
         }
     | Inr None \<Rightarrow> rollback E c discardDeadline CASUnavailable
     | Inr (Some rowsAffected) \<Rightarrow>
         if rowsAffected = 0 then rollback E c discardDeadline CASConflict
         else if rowsAffected = 1 then fenced_commit E c discardDeadline
         else rollback E c discardDeadline CASUnavailable
   }"

definition fenced_tx :: "env \<Rightarrow> ctx \<Rightarrow> instant \<Rightarrow> string \<Rightarrow> DestV1 \<Rightarrow> DestV1 \<Rightarrow> gw_error option prog" where
  "fenced_tx E c discardDeadline cm expected replacement = do {
     row \<leftarrow> ContactMethodFindOneUpdate E c cm;
     case row of
       Inl err \<Rightarrow>
         if SingleCauseMatches 64 (de_chain err) ErrNoRows then rollback E c discardDeadline CASConflict
         else if is_uncertain (Some err) then rollbackUncertainTopology E discardDeadline
         else do {
           ctxErr \<leftarrow> CASContextError E c;
           rollback E c discardDeadline (case ctxErr of Some e \<Rightarrow> e | None \<Rightarrow> CASUnavailable)
         }
     | Inr _ \<Rightarrow> fenced_update E c discardDeadline cm expected replacement
   }"

text \<open>The error of a connection or transaction that could not be had.\<close>

definition unavailable_error :: "env \<Rightarrow> ctx \<Rightarrow> db_error option \<Rightarrow> gw_error option prog" where
  "unavailable_error E c err = do {
     ctxErr \<leftarrow> CASContextError E c;
     ret (Some (case ctxErr of
                  Some e \<Rightarrow> e
                | None \<Rightarrow> if is_uncertain err then QuarantineUnconfirmed else CASUnavailable))
   }"

definition compareAndSwapWithFence ::
  "env \<Rightarrow> ctx \<Rightarrow> string \<Rightarrow> DestV1 \<Rightarrow> DestV1 \<Rightarrow> gw_error option prog" where
  "compareAndSwapWithFence E c cm expected replacement =
     (if cm = uuid_Nil then ret (Some CASInvalid)
      else if \<not> cx_System c then ret (Some CASPermissionDenied)
      else do {
        ctxErr \<leftarrow> CASContextError E c;
        if ctxErr \<noteq> None then ret ctxErr
        else case cx_Deadline c of
               None \<Rightarrow> ret (Some CASDeadlineExceeded)
             | Some casDeadline \<Rightarrow> do {
                 now \<leftarrow> time_Now E;
                 if \<not> now < casDeadline then ret (Some CASDeadlineExceeded)
                 else do {
                   let discardDeadline = casDeadline + gatewayDestinationTokenRotationDiscardLimit;
                   (conn, err) \<leftarrow> acquire E c;
                   if err \<noteq> None \<or> \<not> conn
                   then if conn then do {
                          discarded \<leftarrow> DiscardBefore E discardDeadline;
                          conn_Close;
                          if \<not> discarded then ret (Some QuarantineUnconfirmed) else unavailable_error E c err
                        }
                        else unavailable_error E c err
                   else do {
                     (tx, err) \<leftarrow> conn_BeginTx E c;
                     r \<leftarrow> (if err \<noteq> None \<or> \<not> tx
                           then do {
                             discarded \<leftarrow> DiscardBefore E discardDeadline;
                             if \<not> discarded then ret (Some QuarantineUnconfirmed) else unavailable_error E c err
                           }
                           else fenced_tx E c discardDeadline cm expected replacement);
                     conn_Close;
                     ret r
                   }
                 }
               }
      })"

text \<open>\<open>CompareAndSwap\<close> of the fenced implementation that the coordinator is constructed with.\<close>

definition FencedCAS_CompareAndSwap ::
  "lib \<Rightarrow> GatewayTargetMatcher option \<Rightarrow> env \<Rightarrow> ctx \<Rightarrow> CASRequest \<Rightarrow> gw_error option prog" where
  "FencedCAS_CompareAndSwap L m E c request =
     (if \<not> cx_System c then ret (Some CASPermissionDenied)
      else do {
        ctxErr \<leftarrow> CASContextError E c;
        if ctxErr \<noteq> None then ret ctxErr
        else case CAS_prepare L m request of
               None \<Rightarrow> ret (Some CASInvalid)
             | Some (expected, replacement) \<Rightarrow> do {
                 err \<leftarrow> compareAndSwapWithFence E c (cr_contactMethodID request) expected replacement;
                 ret (if err \<in> {None, Some CASConflict, Some CASUnavailable, Some CASOutcomeUnknown, Some CASCanceled,
                               Some CASDeadlineExceeded, Some QuarantineUnconfirmed}
                      then err else Some QuarantineUnconfirmed)
               }
      })"

subsection \<open>The compare-and-swap outside a transaction\<close>

text \<open>
  \<open>GatewayDestinationTokenURLCAS\<close> with its SQL repository, the service without a rotation: one conditional
  update on a connection of its own.  The repository returns the number of rows and an error.
\<close>

definition discardConnection :: "env \<Rightarrow> unit prog" where
  "discardConnection E = do { _ \<leftarrow> conn_Raw_Close E; ret () }"

definition CompareAndSwapGatewayDestination ::
  "env \<Rightarrow> ctx option \<Rightarrow> string \<Rightarrow> DestV1 \<Rightarrow> DestV1 \<Rightarrow> (int \<times> gw_error option) prog" where
  "CompareAndSwapGatewayDestination E c cm expected replacement =
     (case c of
        None \<Rightarrow> ret (0, Some CASUnavailable)
      | Some c \<Rightarrow> do {
          err \<leftarrow> CASContextError E c;
          if err \<noteq> None then ret (0, err)
          else do {
            (conn, err) \<leftarrow> acquire E c;
            if err \<noteq> None then do {
              contextErr \<leftarrow> CASContextError E c;
              ret (0, Some (case contextErr of Some e \<Rightarrow> e | None \<Rightarrow> CASUnavailable))
            }
            else if \<not> conn then ret (0, Some CASUnavailable)
            else do {
              r \<leftarrow> do {
                err \<leftarrow> CASContextError E c;
                if err \<noteq> None then ret (0, err)
                else do {
                  result \<leftarrow> ContactMethodCompareAndSwapGatewayDest E c cm replacement expected;
                  case result of
                    Inl err \<Rightarrow>
                      if classifyExecutionError err = CASOutcomeUnknown
                      then do { discardConnection E; ret (0, Some CASOutcomeUnknown) }
                      else ret (0, Some (classifyExecutionError err))
                  | Inr None \<Rightarrow> do { discardConnection E; ret (0, Some CASOutcomeUnknown) }
                  | Inr (Some rowsAffected) \<Rightarrow> ret (rowsAffected, None)
                }
              };
              conn_Close;
              ret r
            }
          }
        })"

definition URLCAS_CompareAndSwap ::
  "lib \<Rightarrow> GatewayTargetMatcher option \<Rightarrow> env \<Rightarrow> ctx option \<Rightarrow> CASRequest \<Rightarrow> gw_error option prog" where
  "URLCAS_CompareAndSwap L m E c request =
     (if \<not> Matcher_valid L m \<or> c = None then ret (Some CASInvalid)
      else if \<not> cx_System (the c) then ret (Some CASPermissionDenied)
      else do {
        err \<leftarrow> CASContextError E (the c);
        if err \<noteq> None then ret err
        else case CAS_prepare L m request of
               None \<Rightarrow> ret (Some CASInvalid)
             | Some (expected, replacement) \<Rightarrow> do {
                 (rowsAffected, err) \<leftarrow> CompareAndSwapGatewayDestination E c (cr_contactMethodID request) expected replacement;
                 case err of
                   Some e \<Rightarrow>
                     ret (Some (if e \<in> {CASConflict, CASUnavailable, CASOutcomeUnknown, CASCanceled, CASDeadlineExceeded}
                                then e else CASOutcomeUnknown))
                 | None \<Rightarrow>
                     ret (if rowsAffected = 0 then Some CASConflict
                          else if rowsAffected = 1 then None
                          else Some CASUnavailable)
               }
      })"

end
