(* ===== verification/GatewayRotation.thy ===== *)
theory GatewayRotation
  imports GatewayStore
begin

section \<open>The coordinator of a token rotation: gateway_token_rotation.go\<close>

text \<open>
  A rotation asks the gateway to activate a new token beside the old one, swaps the token in the
  destination stored by Core, and later has the gateway drop the old one.  Each step may fail with an
  outcome that is not known.  \<open>time.Now\<close> and the clock of the coordinator, which is \<open>time.Now\<close> in
  production, are one clock.  A result with an error is a pair, as in the code.
\<close>

subsection \<open>Data\<close>

record StartRequest =
  sr_contactMethodID :: string
  sr_expectedURL :: string
  sr_audience :: string
  sr_destination :: string

datatype Status = NoStatus | PendingFinalization | RolledBack | Completed | NeedsReconciliation

record RotationHandle =
  rh_contactMethodID :: string
  rh_participant :: string

definition Handle_valid :: "RotationHandle \<Rightarrow> bool" where
  "Handle_valid h \<longleftrightarrow> rh_contactMethodID h \<noteq> uuid_Nil \<and> handle_valid (rh_participant h)"

record Result =
  rs_status :: Status
  rs_handle :: RotationHandle

definition zero_result :: Result where
  "zero_result = \<lparr>rs_status = NoStatus, rs_handle = \<lparr>rh_contactMethodID = uuid_Nil, rh_participant = ''''\<rparr>\<rparr>"

definition RotationResult :: "Status \<Rightarrow> RotationHandle \<Rightarrow> Result" where
  "RotationResult st h = \<lparr>rs_status = st, rs_handle = h\<rparr>"

definition ReconciliationResult :: "RotationHandle \<Rightarrow> Result \<times> gw_error option" where
  "ReconciliationResult h = (RotationResult NeedsReconciliation h, Some RotReconciliationRequired)"

text \<open>The coordinator: its matcher, and whether its other dependencies are set.\<close>

record Coordinator =
  co_matcher :: "GatewayTargetMatcher option"
  co_cas :: bool
  co_store :: bool
  co_participant :: bool
  co_monotonicNow :: bool

definition newCoordinator ::
  "lib \<Rightarrow> GatewayTargetMatcher option \<Rightarrow> bool \<Rightarrow> bool \<Rightarrow> bool \<Rightarrow> bool \<Rightarrow> gw_error + Coordinator" where
  "newCoordinator L matcher cas store participant now =
     (if \<not> Matcher_valid L matcher \<or> \<not> cas \<or> \<not> store \<or> \<not> participant \<or> \<not> now then Inl RotInvalid
      else Inr \<lparr>co_matcher = matcher, co_cas = cas, co_store = store, co_participant = participant, co_monotonicNow = now\<rparr>)"

definition operationContext :: "lib \<Rightarrow> env \<Rightarrow> Coordinator \<Rightarrow> ctx option \<Rightarrow> gw_error option prog" where
  "operationContext L E co c =
     (case c of
        None \<Rightarrow> ret (Some RotInvalid)
      | Some c \<Rightarrow>
          if \<not> cx_System c then ret (Some RotPermissionDenied)
          else if \<not> Matcher_valid L (co_matcher co) \<or> \<not> co_cas co \<or> \<not> co_store co \<or> \<not> co_participant co \<or> \<not> co_monotonicNow co
          then ret (Some RotInvalid)
          else RotContextError E c)"

subsection \<open>Requests and deadlines\<close>

definition NewGatewayID :: "lib \<Rightarrow> string \<Rightarrow> string option" where
  "NewGatewayID L value =
     (case parseCanonicalUUID L value of
        None \<Rightarrow> None
      | Some parsed \<Rightarrow> if parsed = uuid_Nil then None else Some value)"

definition prepareStart :: "lib \<Rightarrow> GatewayTargetMatcher option \<Rightarrow> StartRequest \<Rightarrow> (string \<times> string \<times> string) option" where
  "prepareStart L m r =
     (if sr_contactMethodID r = uuid_Nil \<or> sr_expectedURL r = '''' \<or> sr_audience r = '''' \<or> sr_destination r = '''' then None
      else case url_Parse L (sr_expectedURL r) of
             None \<Rightarrow> None
           | Some target \<Rightarrow>
               if url_String L target \<noteq> sr_expectedURL r then None
               else case Match L m target of
                      None \<Rightarrow> None
                    | Some path \<Rightarrow>
                        (let oldToken = TrimPrefix path gatewayContactMethodPathPrefix
                         in if \<not> validGatewayToken oldToken \<or> \<not> HasSuffix (sr_expectedURL r) oldToken then None
                            else case NewGatewayID L (sr_audience r) of
                                   None \<Rightarrow> None
                                 | Some audience \<Rightarrow>
                                     (case NewGatewayID L (sr_destination r) of
                                        None \<Rightarrow> None
                                      | Some destination \<Rightarrow> Some (audience, destination, oldToken))))"

definition LocalDeadline :: "instant \<Rightarrow> instant \<Rightarrow> instant \<Rightarrow> instant option" where
  "LocalDeadline anchor start deadline =
     (if IsZero anchor \<or> \<not> ValidInterval start deadline then None else Some (anchor + Sub deadline start))"

definition tokenFromAuthoritativeDestination :: "lib \<Rightarrow> GatewayTargetMatcher option \<Rightarrow> DestV1 \<Rightarrow> string option" where
  "tokenFromAuthoritativeDestination L m d =
     (if dst_Type d \<noteq> DestTypeWebhook \<or> (case dst_Args d of None \<Rightarrow> 0 | Some args \<Rightarrow> card (dom args)) \<noteq> 1 then None
      else case url_Parse L (Dest_Arg d FieldWebhookURL) of
             None \<Rightarrow> None
           | Some target \<Rightarrow>
               if url_String L target \<noteq> Dest_Arg d FieldWebhookURL then None
               else case Match L m target of
                      None \<Rightarrow> None
                    | Some path \<Rightarrow>
                        (let token = TrimPrefix path gatewayContactMethodPathPrefix
                         in if validGatewayToken token then Some token else None))"

subsection \<open>Rolling back\<close>

definition rollbackBeforeLocalDeadline :: "env \<Rightarrow> ctx \<Rightarrow> string \<Rightarrow> instant \<Rightarrow> gw_error option prog" where
  "rollbackBeforeLocalDeadline E c handle localDeadline = do {
     now \<leftarrow> time_Now E;
     if IsZero now \<or> IsZero localDeadline \<or> \<not> now < localDeadline then ret (Some RotReconciliationRequired)
     else do {
       b \<leftarrow> BoundedContext E (Some c)
              (EarliestDeadline (now + gatewayDestinationTokenRotationRecoveryLimit) localDeadline);
       case b of
         None \<Rightarrow> ret (Some RotReconciliationRequired)
       | Some recoveryCtx \<Rightarrow> do {
           err \<leftarrow> RollbackRotation E recoveryCtx handle;
           if err \<noteq> None then ret (Some RotReconciliationRequired)
           else do {
             e \<leftarrow> ctx_Err E recoveryCtx;
             ret (if e \<noteq> None then Some RotReconciliationRequired else None)
           }
         }
     }
   }"

definition detachedRecoveryContext :: "env \<Rightarrow> ctx \<Rightarrow> instant \<Rightarrow> ctx option prog" where
  "detachedRecoveryContext E c localDeadline = do {
     now \<leftarrow> time_Now E;
     if IsZero now \<or> IsZero localDeadline \<or> \<not> now < localDeadline then ret None
     else BoundedContext E (Some (WithoutCancel c))
            (EarliestDeadline (now + gatewayDestinationTokenRotationRecoveryLimit) localDeadline)
   }"

subsection \<open>Inspecting under the row lock\<close>

datatype purpose = InspectUnknownCAS | InspectReconcile | InspectFinalize

definition observationLocalDeadline :: "Observation \<Rightarrow> purpose \<Rightarrow> instant \<Rightarrow> instant \<Rightarrow> instant \<Rightarrow> instant option" where
  "observationLocalDeadline ob purpose observeAnchor unknownLocalDeadline expectedGatewayDeadline =
     (if ob_state ob \<noteq> ActiveWithRetiring then Some time_zero
      else
        (let remaining = Sub (ob_retirementDeadline ob) (ob_observedAt ob)
         in if IsZero observeAnchor \<or> gatewayDestinationTokenRotationMaxOverlap < remaining then None
            else if purpose = InspectUnknownCAS
            then if IsZero unknownLocalDeadline \<or> IsZero expectedGatewayDeadline
                    \<or> ob_retirementDeadline ob \<noteq> expectedGatewayDeadline then None
                 else Some unknownLocalDeadline
            else Some (observeAnchor + remaining)))"

definition ValidLockContext :: "env \<Rightarrow> ctx \<Rightarrow> bool prog" where
  "ValidLockContext E c = do {
     err \<leftarrow> ctx_Err E c;
     if err \<noteq> None \<or> \<not> cx_System c then ret False
     else case cx_Deadline c of
            None \<Rightarrow> ret False
          | Some deadline \<Rightarrow> do {
              now \<leftarrow> time_Now E;
              let remaining = Sub deadline now;
              ret (0 < remaining \<and> remaining \<le> gatewayDestinationTokenRotationRecoveryLimit)
            }
   }"

definition reconcileLocked ::
  "env \<Rightarrow> ctx \<Rightarrow> RotationHandle \<Rightarrow> Observation \<Rightarrow> purpose \<Rightarrow> instant \<Rightarrow> (Result \<times> gw_error option) prog" where
  "reconcileLocked E c handle ob purpose localDeadline =
     (case ob_state ob of
        ActiveWithRetiring \<Rightarrow>
          if IsZero localDeadline then ret (zero_result, Some RotReconciliationRequired)
          else (case ob_identity ob of
                  TokenNew \<Rightarrow> ret (RotationResult PendingFinalization handle, None)
                | TokenOld \<Rightarrow> do {
                    err \<leftarrow> rollbackBeforeLocalDeadline E c (rh_participant handle) localDeadline;
                    ret (if err \<noteq> None then (zero_result, Some RotReconciliationRequired)
                         else if purpose = InspectUnknownCAS then (zero_result, Some RotUnavailable)
                         else (RotationResult RolledBack handle, None))
                  }
                | _ \<Rightarrow> ret (zero_result, Some RotReconciliationRequired))
      | RolledBackState \<Rightarrow>
          ret (if ob_identity ob = TokenOld \<and> purpose = InspectReconcile then (RotationResult RolledBack handle, None)
               else (zero_result, Some RotReconciliationRequired))
      | CompletedState \<Rightarrow>
          ret (if ob_identity ob = TokenNew \<and> purpose = InspectReconcile then (RotationResult Completed handle, None)
               else (zero_result, Some RotReconciliationRequired))
      | InvalidState \<Rightarrow> ret (zero_result, Some RotReconciliationRequired))"

definition finalizeLocked ::
  "env \<Rightarrow> ctx \<Rightarrow> RotationHandle \<Rightarrow> Observation \<Rightarrow> instant \<Rightarrow> (Result \<times> gw_error option) prog" where
  "finalizeLocked E c handle ob localDeadline =
     (if ob_state ob \<noteq> ActiveWithRetiring \<or> ob_identity ob \<noteq> TokenNew then ret (zero_result, Some RotReconciliationRequired)
      else do {
        now \<leftarrow> time_Now E;
        if IsZero now \<or> IsZero localDeadline then ret (zero_result, Some RotReconciliationRequired)
        else if now < localDeadline then ret (zero_result, Some RotTooEarly)
        else do {
          err \<leftarrow> RotContextError E c;
          if err \<noteq> None then ret (zero_result, err)
          else do {
            err \<leftarrow> FinalizeRotation E c (rh_participant handle);
            ret (case err of
                   None \<Rightarrow> (RotationResult Completed handle, None)
                 | Some e \<Rightarrow> (zero_result, Some (if e \<in> {RotCanceled, RotDeadlineExceeded, RotUnavailable} then e
                                                else RotReconciliationRequired)))
          }
        }
      })"

text \<open>The callback of \<open>inspectLocked\<close>: what it leaves in \<open>result\<close> and \<open>operationErr\<close>.\<close>

definition inspect_row ::
  "lib \<Rightarrow> env \<Rightarrow> Coordinator \<Rightarrow> RotationHandle \<Rightarrow> purpose \<Rightarrow> instant \<Rightarrow> instant \<Rightarrow> ctx \<Rightarrow> DestV1
     \<Rightarrow> (Result \<times> gw_error option) prog" where
  "inspect_row L E co handle purpose unknownLocalDeadline expectedGatewayDeadline lockCtx authoritative = do {
     ok \<leftarrow> ValidLockContext E lockCtx;
     if \<not> ok then ret (zero_result, Some RotReconciliationRequired)
     else case tokenFromAuthoritativeDestination L (co_matcher co) authoritative of
            None \<Rightarrow> ret (zero_result, Some RotReconciliationRequired)
          | Some token \<Rightarrow> do {
              observeAnchor \<leftarrow> time_Now E;
              (ob, err) \<leftarrow> ObserveRotation E lockCtx (rh_participant handle) token;
              if err \<noteq> None \<or> \<not> observation_valid ob then ret (zero_result, Some RotReconciliationRequired)
              else case observationLocalDeadline ob purpose observeAnchor unknownLocalDeadline expectedGatewayDeadline of
                     None \<Rightarrow> ret (zero_result, Some RotReconciliationRequired)
                   | Some localDeadline \<Rightarrow>
                       (case purpose of
                          InspectFinalize \<Rightarrow> finalizeLocked E lockCtx handle ob localDeadline
                        | _ \<Rightarrow> reconcileLocked E lockCtx handle ob purpose localDeadline)
            }
   }"

definition inspectLocked ::
  "lib \<Rightarrow> env \<Rightarrow> Coordinator \<Rightarrow> ctx \<Rightarrow> RotationHandle \<Rightarrow> purpose \<Rightarrow> instant \<Rightarrow> instant
     \<Rightarrow> (Result \<times> gw_error option) prog" where
  "inspectLocked L E co c handle purpose unknownLocalDeadline expectedGatewayDeadline = do {
     (storeErr, r) \<leftarrow> WithLockedGatewayDestination E (Some c) (rh_contactMethodID handle)
                        (inspect_row L E co handle purpose unknownLocalDeadline expectedGatewayDeadline);
     ret (case r of
            None \<Rightarrow> ReconciliationResult handle
          | Some (result, operationErr) \<Rightarrow>
              if storeErr \<noteq> None then ReconciliationResult handle
              else (case operationErr of
                      None \<Rightarrow> (result, None)
                    | Some e \<Rightarrow> if e = RotReconciliationRequired then ReconciliationResult handle
                                else (zero_result, Some e)))
   }"

definition Reconcile :: "lib \<Rightarrow> env \<Rightarrow> Coordinator \<Rightarrow> ctx option \<Rightarrow> RotationHandle \<Rightarrow> (Result \<times> gw_error option) prog" where
  "Reconcile L E co c handle = do {
     err \<leftarrow> operationContext L E co c;
     if err \<noteq> None then ret (zero_result, err)
     else if \<not> Handle_valid handle then ret (zero_result, Some RotInvalid)
     else inspectLocked L E co (the c) handle InspectReconcile time_zero time_zero
   }"

definition Finalize :: "lib \<Rightarrow> env \<Rightarrow> Coordinator \<Rightarrow> ctx option \<Rightarrow> RotationHandle \<Rightarrow> (Result \<times> gw_error option) prog" where
  "Finalize L E co c handle = do {
     err \<leftarrow> operationContext L E co c;
     if err \<noteq> None then ret (zero_result, err)
     else if \<not> Handle_valid handle then ret (zero_result, Some RotInvalid)
     else inspectLocked L E co (the c) handle InspectFinalize time_zero time_zero
   }"

subsection \<open>Starting a rotation\<close>

definition recoverUnknownCAS ::
  "lib \<Rightarrow> env \<Rightarrow> Coordinator \<Rightarrow> ctx \<Rightarrow> RotationHandle \<Rightarrow> instant \<Rightarrow> instant \<Rightarrow> (Result \<times> gw_error option) prog" where
  "recoverUnknownCAS L E co c handle localDeadline expectedGatewayDeadline = do {
     b \<leftarrow> detachedRecoveryContext E c localDeadline;
     case b of
       None \<Rightarrow> ret (ReconciliationResult handle)
     | Some recoveryCtx \<Rightarrow> inspectLocked L E co recoveryCtx handle InspectUnknownCAS localDeadline expectedGatewayDeadline
   }"

definition BeginError :: "gw_error \<Rightarrow> gw_error" where
  "BeginError e =
     (if e \<in> {RotInvalid, RotPermissionDenied, RotConflict, RotUnavailable, RotCanceled, RotDeadlineExceeded} then e
      else RotReconciliationRequired)"

fun SafeCASError :: "gw_error \<Rightarrow> gw_error option" where
  "SafeCASError CASInvalid = Some RotInvalid"
| "SafeCASError CASPermissionDenied = Some RotPermissionDenied"
| "SafeCASError CASConflict = Some RotConflict"
| "SafeCASError CASUnavailable = Some RotUnavailable"
| "SafeCASError CASCanceled = Some RotCanceled"
| "SafeCASError CASDeadlineExceeded = Some RotDeadlineExceeded"
| "SafeCASError _ = None"

text \<open>Rolls the gateway back and returns the error \<open>e\<close>; if that fails, reconciliation is required.\<close>

definition abort :: "env \<Rightarrow> ctx \<Rightarrow> RotationHandle \<Rightarrow> instant \<Rightarrow> gw_error \<Rightarrow> (Result \<times> gw_error option) prog" where
  "abort E c handle localDeadline e = do {
     err \<leftarrow> rollbackBeforeLocalDeadline E (WithoutCancel c) (rh_participant handle) localDeadline;
     ret (if err = None then (zero_result, Some e) else ReconciliationResult handle)
   }"

definition start_swap ::
  "lib \<Rightarrow> env \<Rightarrow> Coordinator \<Rightarrow> ctx \<Rightarrow> ctx \<Rightarrow> StartRequest \<Rightarrow> RotationHandle \<Rightarrow> ParticipantAttempt \<Rightarrow> instant
     \<Rightarrow> (Result \<times> gw_error option) prog" where
  "start_swap L E co c casCtx request handle attempt localDeadline = do {
     casErr \<leftarrow> FencedCAS_CompareAndSwap L (co_matcher co) E casCtx
                 \<lparr>cr_contactMethodID = sr_contactMethodID request, cr_expectedURL = sr_expectedURL request,
                  cr_replacementToken = pa_newToken attempt\<rparr>;
     casContextErr \<leftarrow> RotContextError E casCtx;
     case casErr of
       None \<Rightarrow>
         ret (if casContextErr = None then (RotationResult PendingFinalization handle, None) else ReconciliationResult handle)
     | Some e \<Rightarrow>
         (case SafeCASError e of
            Some safeErr \<Rightarrow> abort E c handle localDeadline safeErr
          | None \<Rightarrow>
              if e = CASOutcomeUnknown
              then recoverUnknownCAS L E co c handle localDeadline (pa_retirementDeadline attempt)
              else ret (ReconciliationResult handle))
   }"

definition start_activated ::
  "lib \<Rightarrow> env \<Rightarrow> Coordinator \<Rightarrow> ctx \<Rightarrow> StartRequest \<Rightarrow> RotationHandle \<Rightarrow> ParticipantAttempt \<Rightarrow> instant \<Rightarrow> gw_error option
     \<Rightarrow> (Result \<times> gw_error option) prog" where
  "start_activated L E co c request handle attempt beginAnchor beginContextErr =
     (case LocalDeadline beginAnchor (pa_activatedAt attempt) (pa_retirementDeadline attempt) of
        None \<Rightarrow> ret (ReconciliationResult handle)
      | Some localDeadline \<Rightarrow> do {
          callerErr \<leftarrow> (if beginContextErr \<noteq> None then ret beginContextErr else RotContextError E c);
          case callerErr of
            Some e \<Rightarrow> abort E c handle localDeadline e
          | None \<Rightarrow> do {
              now \<leftarrow> time_Now E;
              if IsZero now
                 \<or> Sub localDeadline now \<le> gatewayDestinationTokenRotationCASLimit
                     + gatewayDestinationTokenRotationDiscardLimit + gatewayDestinationTokenRotationRecoveryLimit
              then abort E c handle localDeadline RotUnavailable
              else do {
                let casDeadline = EarliestDeadline (now + gatewayDestinationTokenRotationCASLimit)
                      (localDeadline - gatewayDestinationTokenRotationDiscardLimit - gatewayDestinationTokenRotationRecoveryLimit);
                let casDeadline = (case cx_Deadline c of None \<Rightarrow> casDeadline | Some d \<Rightarrow> EarliestDeadline casDeadline d);
                b \<leftarrow> BoundedContext E (Some c) casDeadline;
                case b of
                  None \<Rightarrow> do {
                    err \<leftarrow> rollbackBeforeLocalDeadline E (WithoutCancel c) (rh_participant handle) localDeadline;
                    if err = None
                    then do {
                      callerErr \<leftarrow> RotContextError E c;
                      ret (zero_result, Some (case callerErr of Some e \<Rightarrow> e | None \<Rightarrow> RotUnavailable))
                    }
                    else ret (ReconciliationResult handle)
                  }
                | Some casCtx \<Rightarrow> start_swap L E co c casCtx request handle attempt localDeadline
              }
            }
        })"

definition start_begin ::
  "lib \<Rightarrow> env \<Rightarrow> Coordinator \<Rightarrow> ctx \<Rightarrow> StartRequest \<Rightarrow> string \<times> string \<times> string \<Rightarrow> (Result \<times> gw_error option) prog" where
  "start_begin L E co c request prep =
     (case prep of (audience, destination, oldToken) \<Rightarrow> do {
        beginAnchor \<leftarrow> time_Now E;
        if IsZero beginAnchor then ret (zero_result, Some RotInvalid)
        else do {
          b \<leftarrow> BoundedContext E (Some c) (beginAnchor + gatewayDestinationTokenRotationBeginLimit);
          case b of
            None \<Rightarrow> do {
              callerErr \<leftarrow> RotContextError E c;
              ret (zero_result, Some (case callerErr of Some e \<Rightarrow> e | None \<Rightarrow> RotUnavailable))
            }
          | Some beginCtx \<Rightarrow> do {
              (attempt, err) \<leftarrow> BeginRotation E beginCtx
                \<lparr>br_audience = audience, br_destination = destination, br_currentToken = oldToken\<rparr>;
              beginContextErr \<leftarrow> RotContextError E beginCtx;
              let handle = \<lparr>rh_contactMethodID = sr_contactMethodID request, rh_participant = pa_handle attempt\<rparr>;
              case err of
                Some e \<Rightarrow>
                  ret (if handle_valid (pa_handle attempt) then ReconciliationResult handle
                       else (zero_result, Some (BeginError e)))
              | None \<Rightarrow>
                  if \<not> attempt_valid attempt \<or> pa_newToken attempt = oldToken
                  then ret (if handle_valid (pa_handle attempt) then ReconciliationResult handle
                            else (zero_result, Some RotReconciliationRequired))
                  else start_activated L E co c request handle attempt beginAnchor beginContextErr
            }
        }
      })"

definition Start :: "lib \<Rightarrow> env \<Rightarrow> Coordinator \<Rightarrow> ctx option \<Rightarrow> StartRequest \<Rightarrow> (Result \<times> gw_error option) prog" where
  "Start L E co c request = do {
     err \<leftarrow> operationContext L E co c;
     if err \<noteq> None then ret (zero_result, err)
     else case prepareStart L (co_matcher co) request of
            None \<Rightarrow> ret (zero_result, Some RotInvalid)
          | Some prep \<Rightarrow> start_begin L E co (the c) request prep
   }"

end
