(* ===== verification/GatewayWorld.thy ===== *)
theory GatewayWorld
  imports GatewayRotation
begin

section \<open>What the calls of a rotation mean\<close>

text \<open>
  The environment of a rotation as its documentation describes it: the row of the contact method in
  PostgreSQL, the attempt at the gateway, and the clocks.  \<open>explains w es w'\<close> says that the events \<open>es\<close>,
  with what they returned, can be observed when the world goes from \<open>w\<close> to \<open>w'\<close>; in between other
  actors make their own steps.  An error that leaves open whether a call had its effect allows both.

  \<^item> A row lock is granted only when no other transaction on the row is open; a transaction whose
    end is not known keeps the row until it is resolved either way.
  \<^item> Other actors write the destination while it is not locked, but neither token of the attempt.
    Once they know the handle they may roll back or finalize the attempt, under the same row lock.
  \<^item> \<open>BeginRotation\<close> returns no error only after the attempt is activated; a new token is one that no
    destination holds.  A fixed error without a handle means that nothing was activated.
  \<^item> The clock of the gateway differs from the local one by a constant.
\<close>

subsection \<open>Worlds\<close>

datatype gw_state = GwIdle | GwActive | GwRolledBack | GwCompleted

text \<open>
  \<open>w_pend\<close> is the update of our open transaction, \<open>w_limbo\<close> the update of one whose end is not known.
  \<open>w_shared\<close>: others know the handle.  \<open>w_swaps\<close> counts conditional updates, and \<open>w_late\<close> records whether
  a rollback was ever requested with a deadline after the retirement of the old token.
\<close>

record gw_world =
  w_row :: "DestV1 option"
  w_lock :: bool
  w_pend :: "DestV1 option"
  w_limbo :: "DestV1 option"
  w_gw :: gw_state
  w_old :: string
  w_new :: string
  w_retire :: instant
  w_clock :: instant
  w_skew :: int
  w_shared :: bool
  w_swaps :: nat
  w_late :: bool

text \<open>The token in the row, with \<open>tk\<close> for the token of a destination.\<close>

definition row_token :: "(DestV1 \<Rightarrow> string option) \<Rightarrow> gw_world \<Rightarrow> string option" where
  "row_token tk w = (case w_row w of None \<Rightarrow> None | Some d \<Rightarrow> tk d)"

text \<open>The row is at the disposal of others.\<close>

definition row_free :: "gw_world \<Rightarrow> bool" where
  "row_free w \<longleftrightarrow> \<not> w_lock w \<and> w_pend w = None \<and> w_limbo w = None"

inductive other_step :: "(DestV1 \<Rightarrow> string option) \<Rightarrow> gw_world \<Rightarrow> gw_world \<Rightarrow> bool" for tk where
  tick: "w_clock w \<le> t \<Longrightarrow> other_step tk w (w\<lparr>w_clock := t\<rparr>)"
| foreign_write: "row_free w \<Longrightarrow> (case d of None \<Rightarrow> True | Some d \<Rightarrow> w_gw w = GwIdle \<or> tk d \<notin> {Some (w_old w), Some (w_new w)})
    \<Longrightarrow> other_step tk w (w\<lparr>w_row := d\<rparr>)"
| late_commit: "w_limbo w = Some d \<Longrightarrow> other_step tk w (w\<lparr>w_row := Some d, w_limbo := None\<rparr>)"
| late_abort: "w_limbo w = Some d \<Longrightarrow> other_step tk w (w\<lparr>w_limbo := None\<rparr>)"
| other_rollback: "row_free w \<Longrightarrow> w_shared w \<Longrightarrow> w_gw w = GwActive \<Longrightarrow> row_token tk w = Some (w_old w)
    \<Longrightarrow> other_step tk w (w\<lparr>w_gw := GwRolledBack\<rparr>)"
| other_finalize: "row_free w \<Longrightarrow> w_shared w \<Longrightarrow> w_gw w = GwActive \<Longrightarrow> row_token tk w = Some (w_new w)
    \<Longrightarrow> other_step tk w (w\<lparr>w_gw := GwCompleted\<rparr>)"

abbreviation others :: "(DestV1 \<Rightarrow> string option) \<Rightarrow> gw_world \<Rightarrow> gw_world \<Rightarrow> bool" where
  "others tk \<equiv> (other_step tk)\<^sup>*\<^sup>*"

subsection \<open>Events\<close>

text \<open>Time passes during a call, up to \<open>t\<close>.\<close>

definition tick_to :: "instant \<Rightarrow> gw_world \<Rightarrow> gw_world \<Rightarrow> bool" where
  "tick_to t w w' \<longleftrightarrow> w_clock w \<le> t \<and> w' = w\<lparr>w_clock := t\<rparr>"

definition activate :: "(DestV1 \<Rightarrow> string option) \<Rightarrow> string \<Rightarrow> string \<Rightarrow> instant \<Rightarrow> gw_world \<Rightarrow> gw_world \<Rightarrow> bool" where
  "activate tk old new retire w w' \<longleftrightarrow> w_gw w = GwIdle \<and> new \<noteq> old \<and> row_token tk w \<noteq> Some new
     \<and> w' = w\<lparr>w_gw := GwActive, w_old := old, w_new := new, w_retire := retire\<rparr>"

definition observed_state :: "gw_state \<Rightarrow> ParticipantState" where
  "observed_state g = (case g of GwIdle \<Rightarrow> InvalidState | GwActive \<Rightarrow> ActiveWithRetiring
     | GwRolledBack \<Rightarrow> RolledBackState | GwCompleted \<Rightarrow> CompletedState)"

definition identify :: "gw_world \<Rightarrow> string \<Rightarrow> TokenIdentity" where
  "identify w token = (if token = w_new w then TokenNew else if token = w_old w then TokenOld else TokenNeither)"

fun fixed_error :: "gw_error \<Rightarrow> bool" where
  "fixed_error e \<longleftrightarrow> e \<in> {RotInvalid, RotPermissionDenied, RotConflict, RotUnavailable, RotCanceled, RotDeadlineExceeded}"

definition local_retirement :: "gw_world \<Rightarrow> instant" where
  "local_retirement w = w_retire w - w_skew w"

text \<open>A transaction whose end is not known.\<close>

definition abandon :: "gw_world \<Rightarrow> gw_world" where
  "abandon w = w\<lparr>w_lock := False, w_pend := None, w_limbo := (if w_pend w = None then w_limbo w else w_pend w)\<rparr>"

fun act :: "(DestV1 \<Rightarrow> string option) \<Rightarrow> gw_world \<Rightarrow> event \<Rightarrow> gw_world \<Rightarrow> bool" where
  "act tk w (EvNow t) w' \<longleftrightarrow> tick_to t w w'"
| "act tk w (EvCtxErr e) w' \<longleftrightarrow> w' = w"
| "act tk w (EvBegin r (a, None)) w' \<longleftrightarrow>
     (\<exists>t t' w1. w_clock w \<le> t \<and> t \<le> t' \<and> pa_activatedAt a = t + w_skew w
        \<and> activate tk (br_currentToken r) (pa_newToken a) (pa_retirementDeadline a) w w1 \<and> tick_to t' w1 w')"
| "act tk w (EvBegin r (a, Some e)) w' \<longleftrightarrow>
     w' = w \<or> (handle_valid (pa_handle a) \<or> \<not> fixed_error e) \<and> (\<exists>new retire. activate tk (br_currentToken r) new retire w w')"
| "act tk w (EvObserve h token (ob, None)) w' \<longleftrightarrow>
     (\<exists>t t'. w_clock w \<le> t \<and> t \<le> t' \<and> tick_to t' w w' \<and> ob_state ob = observed_state (w_gw w)
        \<and> ob_identity ob = identify w token
        \<and> (w_gw w = GwActive \<longrightarrow> ob_retirementDeadline ob = w_retire w \<and> ob_observedAt ob = t + w_skew w))"
| "act tk w (EvObserve h token (ob, Some e)) w' \<longleftrightarrow> w' = w"
| "act tk w (EvRollback h d e) w' \<longleftrightarrow>
     (let w1 = w\<lparr>w_late := w_late w \<or> (case d of None \<Rightarrow> True | Some d \<Rightarrow> local_retirement w < d)\<rparr>
      in e = None \<and> w_gw w \<in> {GwActive, GwRolledBack} \<and> w' = w1\<lparr>w_gw := GwRolledBack\<rparr>
         \<or> e \<noteq> None \<and> (w' = w1 \<or> w_gw w = GwActive \<and> w' = w1\<lparr>w_gw := GwRolledBack\<rparr>))"
| "act tk w (EvFinalize h e) w' \<longleftrightarrow>
     e = None \<and> w_gw w \<in> {GwActive, GwCompleted} \<and> w' = w\<lparr>w_gw := GwCompleted\<rparr>
     \<or> e \<noteq> None \<and> (w' = w \<or> w_gw w = GwActive \<and> w' = w\<lparr>w_gw := GwCompleted\<rparr>)"
| "act tk w (EvAcquire r) w' \<longleftrightarrow> w' = w"
| "act tk w (EvBeginTx r) w' \<longleftrightarrow> w' = w"
| "act tk w (EvSelect cm (Inl e)) w' \<longleftrightarrow> w' = w"
| "act tk w (EvSelect cm (Inr d)) w' \<longleftrightarrow> row_free w \<and> w_row w = Some d \<and> w' = w\<lparr>w_lock := True\<rparr>"
| "act tk w (EvUpdate cm new expected r) w' \<longleftrightarrow>
     (let w1 = w\<lparr>w_swaps := w_swaps w + 1\<rparr>
      in r \<noteq> Inr (Some 1) \<and> w' = w1
         \<or> r \<noteq> Inr (Some 0) \<and> w_lock w \<and> w_row w = Some expected \<and> w' = w1\<lparr>w_pend := Some new\<rparr>)"
| "act tk w (EvCommit None) w' \<longleftrightarrow>
     w' = (case w_pend w of None \<Rightarrow> w\<lparr>w_lock := False\<rparr>
                          | Some d \<Rightarrow> w\<lparr>w_lock := False, w_pend := None, w_row := Some d\<rparr>)"
| "act tk w (EvCommit (Some e)) w' \<longleftrightarrow> w' = abandon w"
| "act tk w (EvTxRollback None) w' \<longleftrightarrow> w' = w\<lparr>w_lock := False, w_pend := None\<rparr>"
| "act tk w (EvTxRollback (Some e)) w' \<longleftrightarrow> w' = abandon w"
| "act tk w (EvRaw r) w' \<longleftrightarrow> w' = w"
| "act tk w EvClose w' \<longleftrightarrow> w' = w"

fun explains :: "(DestV1 \<Rightarrow> string option) \<Rightarrow> gw_world \<Rightarrow> event list \<Rightarrow> gw_world \<Rightarrow> bool" where
  "explains tk w [] w' = others tk w w'"
| "explains tk w (e # es) w' = (\<exists>w1 w2. others tk w w1 \<and> act tk w1 e w2 \<and> explains tk w2 es w')"

text \<open>
  A world is safe when the row holds a token of the attempt only while the gateway knows it: the new
  one after activation and until a rollback, the old one until completion; and when a swap that is not
  settled can only bring the new token, of an active attempt.
\<close>

definition safe :: "(DestV1 \<Rightarrow> string option) \<Rightarrow> gw_world \<Rightarrow> bool" where
  "safe tk w \<longleftrightarrow>
     (w_gw w \<noteq> GwIdle \<longrightarrow> w_old w \<noteq> w_new w)
     \<and> (w_gw w = GwRolledBack \<longrightarrow> row_token tk w \<noteq> Some (w_new w))
     \<and> (w_gw w = GwCompleted \<longrightarrow> row_token tk w \<noteq> Some (w_old w))
     \<and> (\<forall>d. w_pend w = Some d \<or> w_limbo w = Some d \<longrightarrow> w_gw w = GwActive \<and> tk d = Some (w_new w))"

subsection \<open>A program logic\<close>

definition undisturbed :: "(DestV1 \<Rightarrow> string option) \<Rightarrow> (gw_world \<Rightarrow> bool) \<Rightarrow> bool" where
  "undisturbed tk P \<longleftrightarrow> (\<forall>w w'. P w \<longrightarrow> other_step tk w w' \<longrightarrow> P w') \<and> (\<forall>w. P w \<longrightarrow> safe tk w)"

text \<open>
  \<open>spec tk P m Q\<close>: from a world with \<open>P\<close>, whatever the events of \<open>m\<close> do to the world, it is safe
  throughout and has \<open>Q\<close> for the result in the end.
\<close>

definition spec :: "(DestV1 \<Rightarrow> string option) \<Rightarrow> (gw_world \<Rightarrow> bool) \<Rightarrow> 'a prog \<Rightarrow> ('a \<Rightarrow> gw_world \<Rightarrow> bool) \<Rightarrow> bool" where
  "spec tk P m Q \<longleftrightarrow> (\<forall>log a log'. run_state m log = (a, log') \<longrightarrow>
     (\<exists>es. log' = log @ es
        \<and> (\<forall>w. P w \<longrightarrow> (\<forall>es1 es2 w'. es = es1 @ es2 \<longrightarrow> explains tk w es1 w' \<longrightarrow> safe tk w')
             \<and> (\<forall>w'. explains tk w es w' \<longrightarrow> Q a w'))))"

text \<open>Programs only append to the log.\<close>

definition appends :: "'a prog \<Rightarrow> bool" where
  "appends m \<longleftrightarrow> (\<forall>log. \<exists>es. snd (run_state m log) = log @ es)"

lemma appends_ret [intro]: "appends (ret a)"
  by (simp add: appends_def)

lemma appends_ask [intro]: "appends (ask f ev)"
  by (simp add: appends_def ask_def Let_def)

lemma appends_bind [intro]:
  assumes "appends m" "\<And>a. appends (f a)"
  shows "appends (m \<bind> f)"
  unfolding appends_def
proof
  fix log
  obtain a log1 where r: "run_state m log = (a, log1)" by fastforce
  with assms(1) obtain es where "log1 = log @ es" unfolding appends_def by (metis snd_conv)
  moreover obtain es' where "snd (run_state (f a) log1) = log1 @ es'" using assms(2) unfolding appends_def by blast
  ultimately show "\<exists>es. snd (run_state (m \<bind> f) log) = log @ es" using r by simp
qed

lemma undisturbed_others: "others tk w w' \<Longrightarrow> undisturbed tk P \<Longrightarrow> P w \<Longrightarrow> P w'"
  by (induction rule: rtranclp_induct) (auto simp: undisturbed_def)

lemma undisturbed_safe: "undisturbed tk P \<Longrightarrow> P w \<Longrightarrow> safe tk w"
  by (simp add: undisturbed_def)

lemma explains_append:
  "explains tk w (es1 @ es2) w' \<longleftrightarrow> (\<exists>w1. explains tk w es1 w1 \<and> explains tk w1 es2 w')"
proof (induction es1 arbitrary: w)
  case Nil
  show ?case
  proof (cases es2)
    case (Cons e es)
    then show ?thesis by (auto intro: rtranclp_trans)
  qed (auto intro: rtranclp_trans)
next
  case (Cons e es1)
  then show ?case by (simp, blast)
qed

lemma spec_ret: "undisturbed tk P \<Longrightarrow> (\<And>w. P w \<Longrightarrow> Q a w) \<Longrightarrow> spec tk P (ret a) Q"
  unfolding spec_def using undisturbed_others [of tk _ _ P] undisturbed_safe [of tk P] by auto

lemma spec_ask:
  assumes "undisturbed tk P" "\<And>r. undisturbed tk (Q r)"
    and "\<And>r w w'. P w \<Longrightarrow> act tk w (ev r) w' \<Longrightarrow> Q r w'"
  shows "spec tk P (ask f ev) Q"
  unfolding spec_def
proof (intro allI impI)
  fix log a log' assume "run_state (ask f ev) log = (a, log')"
  then have log': "log' = log @ [ev a]" by (auto simp: ask_def Let_def)
  have Q: "Q a w'" if "P w" "explains tk w [ev a] w'" for w w'
    using that assms undisturbed_others [OF _ assms(1)] undisturbed_others [OF _ assms(2)] by (simp, blast)
  have "safe tk w'" if "P w" "[ev a] = es1 @ es2" "explains tk w es1 w'" for w es1 es2 w'
  proof (cases es1)
    case Nil
    with that show ?thesis using undisturbed_safe [OF assms(1)] undisturbed_others [OF _ assms(1)] by auto
  next
    case (Cons e es)
    with that have "es1 = [ev a]" by simp
    with that Q undisturbed_safe [OF assms(2)] show ?thesis by blast
  qed
  with Q log' show "\<exists>es. log' = log @ es
      \<and> (\<forall>w. P w \<longrightarrow> (\<forall>es1 es2 w'. es = es1 @ es2 \<longrightarrow> explains tk w es1 w' \<longrightarrow> safe tk w')
           \<and> (\<forall>w'. explains tk w es w' \<longrightarrow> Q a w'))" by blast
qed

lemma spec_bind [intro]:
  assumes "spec tk P m Q" "\<And>a. spec tk (Q a) (f a) R"
  shows "spec tk P (m \<bind> f) R"
  unfolding spec_def
proof (intro allI impI)
  fix log b log2 assume "run_state (m \<bind> f) log = (b, log2)"
  then obtain a log1 where r: "run_state m log = (a, log1)" "run_state (f a) log1 = (b, log2)"
    by (auto split: prod.splits)
  from assms(1) r(1) obtain es where es: "log1 = log @ es"
    "\<And>w es1 es2 w'. P w \<Longrightarrow> es = es1 @ es2 \<Longrightarrow> explains tk w es1 w' \<Longrightarrow> safe tk w'"
    "\<And>w w'. P w \<Longrightarrow> explains tk w es w' \<Longrightarrow> Q a w'" unfolding spec_def by blast
  from assms(2) r(2) obtain es' where es': "log2 = log1 @ es'"
    "\<And>w es1 es2 w'. Q a w \<Longrightarrow> es' = es1 @ es2 \<Longrightarrow> explains tk w es1 w' \<Longrightarrow> safe tk w'"
    "\<And>w w'. Q a w \<Longrightarrow> explains tk w es' w' \<Longrightarrow> R b w'" unfolding spec_def by blast
  have "safe tk w'" if "P w" "es @ es' = es1 @ es2" "explains tk w es1 w'" for w es1 es2 w'
  proof -
    from that(2) obtain us where "es = es1 @ us \<or> es1 = es @ us \<and> es' = us @ es2"
      by (auto simp: append_eq_append_conv2)
    then show ?thesis
    proof
      assume "es = es1 @ us" with that es(2) show ?thesis by blast
    next
      assume u: "es1 = es @ us \<and> es' = us @ es2"
      with that(3) obtain w1 where "explains tk w es w1" "explains tk w1 us w'" by (auto simp: explains_append)
      with es(3) es'(2) u that(1) show ?thesis by blast
    qed
  qed
  moreover have "R b w'" if "P w" "explains tk w (es @ es') w'" for w w'
    using that es(3) es'(3) by (auto simp: explains_append)
  ultimately show "\<exists>es. log2 = log @ es
      \<and> (\<forall>w. P w \<longrightarrow> (\<forall>es1 es2 w'. es = es1 @ es2 \<longrightarrow> explains tk w es1 w' \<longrightarrow> safe tk w')
           \<and> (\<forall>w'. explains tk w es w' \<longrightarrow> R b w'))"
    using es(1) es'(1) by (intro exI [of _ "es @ es'"]) auto
qed

lemma spec_conseq: "spec tk P' m Q' \<Longrightarrow> (\<And>w. P w \<Longrightarrow> P' w) \<Longrightarrow> (\<And>a w. Q' a w \<Longrightarrow> Q a w) \<Longrightarrow> spec tk P m Q"
  unfolding spec_def by meson

lemma spec_result:
  assumes "spec tk P m Q" "\<And>log. R (fst (run_state m log))"
  shows "spec tk P m (\<lambda>a w. Q a w \<and> R a)"
  unfolding spec_def
proof (intro allI impI)
  fix log a log' assume r: "run_state m log = (a, log')"
  have "R a" using assms(2) [of log] r by simp
  with assms(1) [unfolded spec_def] r show "\<exists>es. log' = log @ es
      \<and> (\<forall>w. P w \<longrightarrow> (\<forall>es1 es2 w'. es = es1 @ es2 \<longrightarrow> explains tk w es1 w' \<longrightarrow> safe tk w')
           \<and> (\<forall>w'. explains tk w es w' \<longrightarrow> Q a w' \<and> R a))" by meson
qed

lemma spec_False: "appends m \<Longrightarrow> spec tk (\<lambda>_. False) m Q"
  unfolding spec_def appends_def by (metis snd_conv)

lemma spec_pure: "appends m \<Longrightarrow> (c \<Longrightarrow> spec tk P m Q) \<Longrightarrow> spec tk (\<lambda>w. P w \<and> c) m Q"
  by (cases c) (simp_all add: spec_False)

end
