(* ===== verification/GatewayLogic.thy ===== *)
theory GatewayLogic
  imports GatewayWorld
begin

section \<open>Assertions about a rotation\<close>

text \<open>
  The rules of the program logic for the programs of \<open>GatewayStore\<close> and \<open>GatewayRotation\<close>: programs that
  only read, the states of an attempt as assertions that no other actor disturbs, and a rollback.
\<close>

subsection \<open>Programs that only read\<close>

named_theorems quiet_rules \<open>programs that only read\<close>

fun quiet_event :: "event \<Rightarrow> bool" where
  "quiet_event (EvNow t) = True"
| "quiet_event (EvCtxErr e) = True"
| "quiet_event (EvAcquire r) = True"
| "quiet_event (EvBeginTx r) = True"
| "quiet_event (EvRaw r) = True"
| "quiet_event EvClose = True"
| "quiet_event _ = False"

definition quiet :: "'a prog \<Rightarrow> bool" where
  "quiet m \<longleftrightarrow> (\<forall>log. \<exists>es. snd (run_state m log) = log @ es \<and> list_all quiet_event es)"

lemma quiet_ret [quiet_rules]: "quiet (ret a)"
  by (simp add: quiet_def)

lemma quiet_ask: "(\<And>r. quiet_event (ev r)) \<Longrightarrow> quiet (ask f ev)"
  by (simp add: quiet_def ask_def Let_def)

lemma quiet_bind [quiet_rules]:
  assumes "quiet m" "\<And>a. quiet (f a)"
  shows "quiet (m \<bind> f)"
  unfolding quiet_def
proof
  fix log
  obtain a log1 where r: "run_state m log = (a, log1)" by fastforce
  with assms(1) obtain es where "log1 = log @ es" "list_all quiet_event es" unfolding quiet_def by (metis snd_conv)
  moreover obtain es' where "snd (run_state (f a) log1) = log1 @ es'" "list_all quiet_event es'"
    using assms(2) unfolding quiet_def by blast
  ultimately show "\<exists>es. snd (run_state (m \<bind> f) log) = log @ es \<and> list_all quiet_event es"
    using r by (intro exI [of _ "es @ es'"]) simp
qed

lemma quiet_appends: "quiet m \<Longrightarrow> appends m"
  unfolding quiet_def appends_def by blast

lemma act_quiet: "act tk w e w' \<Longrightarrow> quiet_event e \<Longrightarrow> undisturbed tk P \<Longrightarrow> P w \<Longrightarrow> P w'"
  by (cases e) (auto simp: tick_to_def undisturbed_def intro: other_step.tick)

lemma explains_quiet:
  "explains tk w es w' \<Longrightarrow> list_all quiet_event es \<Longrightarrow> undisturbed tk P \<Longrightarrow> P w \<Longrightarrow> P w'"
  by (induction es arbitrary: w) (auto dest: undisturbed_others act_quiet)

lemma spec_quiet:
  assumes "quiet m" "undisturbed tk P"
  shows "spec tk P m (\<lambda>_. P)"
  unfolding spec_def
proof (intro allI impI)
  fix log a log' assume "run_state m log = (a, log')"
  with assms(1) obtain es where es: "log' = log @ es" "list_all quiet_event es" unfolding quiet_def by (metis snd_conv)
  have "safe tk w'" if "P w" "es = es1 @ es2" "explains tk w es1 w'" for w es1 es2 w'
    using explains_quiet [OF that(3) _ assms(2) that(1)] undisturbed_safe [OF assms(2)] es(2) that(2) by simp
  with es explains_quiet [OF _ es(2) assms(2)] show "\<exists>es. log' = log @ es
      \<and> (\<forall>w. P w \<longrightarrow> (\<forall>es1 es2 w'. es = es1 @ es2 \<longrightarrow> explains tk w es1 w' \<longrightarrow> safe tk w')
           \<and> (\<forall>w'. explains tk w es w' \<longrightarrow> P w'))" by blast
qed

lemmas read_defs = time_Now_def ctx_Err_def acquire_def conn_BeginTx_def conn_Raw_Close_def conn_Close_def

lemma quiet_reads [quiet_rules]: "quiet (time_Now E)" "quiet (ctx_Err E c)" "quiet (acquire E c)" "quiet (conn_BeginTx E c)"
  "quiet (conn_Raw_Close E)" "quiet conn_Close"
  unfolding read_defs by (rule quiet_ask, simp)+

lemma quiet_if [quiet_rules]: "(b \<Longrightarrow> quiet m) \<Longrightarrow> (\<not> b \<Longrightarrow> quiet n) \<Longrightarrow> quiet (if b then m else n)"
  by simp

lemma quiet_option [quiet_rules]: "quiet m \<Longrightarrow> (\<And>x. quiet (f x)) \<Longrightarrow> quiet (case z of None \<Rightarrow> m | Some x \<Rightarrow> f x)"
  by (cases z) simp_all

lemma quiet_prod [quiet_rules]: "(\<And>x y. quiet (f x y)) \<Longrightarrow> quiet (case z of (x, y) \<Rightarrow> f x y)"
  by (cases z) simp

lemma quiet_context_errors [quiet_rules]: "quiet (CASContextError E c)" "quiet (RotContextError E c)"
  unfolding CASContextError_def RotContextError_def by (intro quiet_rules)+

lemma quiet_BoundedContext [quiet_rules]: "quiet (BoundedContext E c d)"
  unfolding BoundedContext_def by (intro quiet_rules)

lemma quiet_OperationContext [quiet_rules]: "quiet (OperationContext E c)"
  unfolding OperationContext_def Let_def by (intro quiet_rules)

lemma quiet_DiscardBefore [quiet_rules]: "quiet (DiscardBefore E d)"
  unfolding DiscardBefore_def by (intro quiet_rules)

lemma quiet_quarantine [quiet_rules]: "quiet (quarantineUnknown E d)"
  unfolding quarantineUnknown_def by (intro quiet_rules)

lemma quiet_unavailable [quiet_rules]: "quiet (unavailable_error E c err)"
  unfolding unavailable_error_def by (intro quiet_rules)

lemma quiet_ValidLockContext [quiet_rules]: "quiet (ValidLockContext E c)"
  unfolding ValidLockContext_def Let_def by (intro quiet_rules)

lemma quiet_detached [quiet_rules]: "quiet (detachedRecoveryContext E c d)"
  unfolding detachedRecoveryContext_def by (intro quiet_rules)

lemma quiet_operationContext [quiet_rules]: "quiet (operationContext L E co c)"
  unfolding operationContext_def by (intro quiet_rules)

subsection \<open>What the reading programs return\<close>

text \<open>\<open>returns m R\<close>: every result of \<open>m\<close> has \<open>R\<close>.\<close>

definition returns :: "'a prog \<Rightarrow> ('a \<Rightarrow> bool) \<Rightarrow> bool" where
  "returns m R \<longleftrightarrow> (\<forall>log. R (fst (run_state m log)))"

lemma returns_ret: "R a \<Longrightarrow> returns (ret a) R"
  by (simp add: returns_def)

lemma returns_bind: "(\<And>a. returns (f a) R) \<Longrightarrow> returns (m \<bind> f) R"
  by (simp add: returns_def split: prod.split)

lemma spec_returns: "quiet m \<Longrightarrow> undisturbed tk P \<Longrightarrow> returns m R \<Longrightarrow> spec tk P m (\<lambda>a w. P w \<and> R a)"
  by (rule spec_result) (auto simp: returns_def intro: spec_quiet)

lemma BoundedContext_returns:
  "returns (BoundedContext E c d) (\<lambda>b. \<forall>b'. b = Some b' \<longrightarrow> c \<noteq> None \<and> cx_System b' = cx_System (the c) \<and> (\<exists>d' \<le> d. cx_Deadline b' = Some d'))"
  unfolding BoundedContext_def
  by (auto simp: returns_def WithDeadline_def split: option.split prod.split)

lemma detached_returns:
  "returns (detachedRecoveryContext E c d) (\<lambda>b. \<forall>b'. b = Some b' \<longrightarrow> cx_System b' = cx_System c)"
proof -
  have "returns (BoundedContext E (Some (WithoutCancel c)) d') (\<lambda>b. \<forall>b'. b = Some b' \<longrightarrow> cx_System b' = cx_System c)" for d'
    using BoundedContext_returns [of E "Some (WithoutCancel c)" d'] by (auto simp: returns_def WithoutCancel_def)
  then show ?thesis unfolding detachedRecoveryContext_def by (auto intro!: returns_bind returns_ret)
qed

lemma CASContextError_returns: "returns (CASContextError E c) (\<lambda>e. \<forall>e'. e = Some e' \<longrightarrow> SafeCASError e' \<noteq> None)"
  unfolding CASContextError_def
  by (intro returns_bind returns_ret) (auto split: option.split ctx_err.split)

lemma RotContextError_returns: "returns (RotContextError E c) (\<lambda>e. e \<in> {None, Some RotCanceled, Some RotDeadlineExceeded})"
  unfolding RotContextError_def
  by (intro returns_bind returns_ret) (auto split: option.split ctx_err.split)

lemma quarantine_returns: "returns (quarantineUnknown E d) (\<lambda>e. e \<in> {Some CASOutcomeUnknown, Some QuarantineUnconfirmed})"
  unfolding quarantineUnknown_def by (intro returns_bind returns_ret) simp

lemma unavailable_returns:
  "returns (unavailable_error E c err) (\<lambda>e. e \<noteq> None)"
  unfolding unavailable_error_def by (intro returns_bind returns_ret) simp

lemma operationContext_returns:
  "returns (operationContext L E co c) (\<lambda>e. (e = None \<longrightarrow> c \<noteq> None) \<and> e \<noteq> Some RotReconciliationRequired)"
proof (cases c)
  case (Some c')
  have "fst (run_state (RotContextError E c') log) \<noteq> Some RotReconciliationRequired" for log
    using RotContextError_returns [of E c'] unfolding returns_def by (auto dest: spec [where x = log])
  with Some show ?thesis by (simp add: operationContext_def returns_def)
qed (simp add: operationContext_def returns_def)

subsection \<open>The states of an attempt\<close>

text \<open>
  Assertions that other actors do not disturb: no attempt yet; an attempt of our own that is active while
  the row does not hold its token, with \<open>n\<close> its new token, \<open>r\<close> the local time of the old token's retirement and
  at most \<open>k\<close> swaps so far, in a transaction or not; one whose swap is committed; one whose swap is not
  settled; one that is rolled back.
\<close>

definition idle :: "(DestV1 \<Rightarrow> string option) \<Rightarrow> gw_world \<Rightarrow> bool" where
  "idle tk w \<longleftrightarrow> w_gw w = GwIdle \<and> row_free w \<and> \<not> w_shared w \<and> \<not> w_late w \<and> w_swaps w = 0"

definition ours :: "(DestV1 \<Rightarrow> string option) \<Rightarrow> string \<Rightarrow> instant \<Rightarrow> nat \<Rightarrow> gw_world \<Rightarrow> bool" where
  "ours tk n r k w \<longleftrightarrow> safe tk w \<and> w_gw w = GwActive \<and> \<not> w_shared w \<and> \<not> w_late w \<and> w_new w = n
     \<and> local_retirement w = r \<and> w_swaps w \<le> k"

definition in_tx :: "(DestV1 \<Rightarrow> string option) \<Rightarrow> string \<Rightarrow> instant \<Rightarrow> nat \<Rightarrow> gw_world \<Rightarrow> bool" where
  "in_tx tk n r k w \<longleftrightarrow> ours tk n r k w \<and> w_limbo w = None \<and> (w_pend w \<noteq> None \<longrightarrow> w_lock w) \<and> row_token tk w \<noteq> Some n"

definition activated :: "(DestV1 \<Rightarrow> string option) \<Rightarrow> string \<Rightarrow> instant \<Rightarrow> nat \<Rightarrow> gw_world \<Rightarrow> bool" where
  "activated tk n r k w \<longleftrightarrow> ours tk n r k w \<and> row_free w \<and> row_token tk w \<noteq> Some n"

definition swapped :: "(DestV1 \<Rightarrow> string option) \<Rightarrow> string \<Rightarrow> instant \<Rightarrow> nat \<Rightarrow> gw_world \<Rightarrow> bool" where
  "swapped tk n r k w \<longleftrightarrow> ours tk n r k w \<and> row_free w \<and> row_token tk w \<noteq> Some (w_old w)"

definition unsettled :: "(DestV1 \<Rightarrow> string option) \<Rightarrow> string \<Rightarrow> instant \<Rightarrow> nat \<Rightarrow> gw_world \<Rightarrow> bool" where
  "unsettled tk n r k w \<longleftrightarrow> ours tk n r k w \<and> \<not> w_lock w \<and> w_pend w = None"

definition undone :: "(DestV1 \<Rightarrow> string option) \<Rightarrow> nat \<Rightarrow> gw_world \<Rightarrow> bool" where
  "undone tk k w \<longleftrightarrow> safe tk w \<and> w_gw w = GwRolledBack \<and> row_free w \<and> \<not> w_late w \<and> w_swaps w \<le> k"

text \<open>Any attempt outside a transaction, and one whose row, with the destination \<open>d\<close>, we hold.\<close>

definition begun :: "(DestV1 \<Rightarrow> string option) \<Rightarrow> instant \<Rightarrow> nat \<Rightarrow> gw_world \<Rightarrow> bool" where
  "begun tk r k w \<longleftrightarrow> safe tk w \<and> w_gw w \<noteq> GwIdle \<and> \<not> w_lock w \<and> w_pend w = None \<and> \<not> w_late w
     \<and> local_retirement w = r \<and> w_swaps w \<le> k"

definition held :: "(DestV1 \<Rightarrow> string option) \<Rightarrow> instant \<Rightarrow> nat \<Rightarrow> DestV1 \<Rightarrow> gw_world \<Rightarrow> bool" where
  "held tk r k d w \<longleftrightarrow> safe tk w \<and> w_gw w \<noteq> GwIdle \<and> w_lock w \<and> w_pend w = None \<and> w_limbo w = None \<and> w_row w = Some d
     \<and> \<not> w_late w \<and> local_retirement w = r \<and> w_swaps w \<le> k"

lemmas assertion_defs = idle_def ours_def in_tx_def activated_def swapped_def unsettled_def undone_def begun_def held_def

text \<open>What the step of another actor leaves as it is.\<close>

lemma other_step_frame:
  assumes "other_step tk w w'"
  shows "w_shared w' = w_shared w" "w_late w' = w_late w" "w_old w' = w_old w" "w_new w' = w_new w"
    "local_retirement w' = local_retirement w" "w_swaps w' = w_swaps w" "w_lock w' = w_lock w" "w_pend w' = w_pend w"
    "w_clock w \<le> w_clock w'" "w_limbo w = None \<Longrightarrow> w_limbo w' = None"
    "w_gw w = GwIdle \<longleftrightarrow> w_gw w' = GwIdle" "w_gw w \<noteq> GwActive \<Longrightarrow> w_gw w' = w_gw w" "\<not> w_shared w \<Longrightarrow> w_gw w' = w_gw w"
    "w_lock w \<Longrightarrow> w_limbo w = None \<Longrightarrow> w_row w' = w_row w \<and> w_gw w' = w_gw w"
  using assms by (cases; simp add: local_retirement_def row_free_def)+

lemma other_step_token:
  assumes "other_step tk w w'" "w_limbo w = None" "w_gw w \<noteq> GwIdle"
  shows "row_token tk w' = row_token tk w \<or> row_token tk w' \<notin> {Some (w_old w), Some (w_new w)}"
  using assms by (cases) (auto simp: row_token_def split: option.splits)

lemma other_step_safe:
  assumes "other_step tk w w'" "safe tk w"
  shows "safe tk w'"
  using assms(1)
proof cases
  case (foreign_write d)
  with assms(2) show ?thesis by (auto simp: safe_def row_token_def row_free_def split: option.splits)
next
  case (late_commit d)
  with assms(2) show ?thesis by (simp add: safe_def row_token_def)
next
  case other_rollback
  with assms(2) show ?thesis by (simp add: safe_def row_token_def row_free_def)
next
  case other_finalize
  with assms(2) show ?thesis by (simp add: safe_def row_token_def row_free_def)
qed (use assms(2) in \<open>auto simp: safe_def row_token_def\<close>)

lemma undisturbedI:
  assumes "\<And>w w'. P w \<Longrightarrow> other_step tk w w' \<Longrightarrow> safe tk w' \<Longrightarrow> P w'" "\<And>w. P w \<Longrightarrow> safe tk w"
  shows "undisturbed tk P"
  unfolding undisturbed_def using assms other_step_safe by blast

lemma undisturbed_idle: "undisturbed tk (idle tk)"
  by (rule undisturbedI) (auto simp: idle_def row_free_def safe_def dest: other_step_frame)

lemma ours_step: "ours tk n r k w \<Longrightarrow> other_step tk w w' \<Longrightarrow> ours tk n r k w'"
  unfolding ours_def using other_step_frame other_step_safe by metis

lemma row_free_step: "row_free w \<Longrightarrow> other_step tk w w' \<Longrightarrow> row_free w'"
  unfolding row_free_def using other_step_frame by metis

lemma undisturbed_in_tx: "undisturbed tk (in_tx tk n r k)"
proof (rule undisturbedI)
  fix w w' assume a: "in_tx tk n r k w" "other_step tk w w'"
  then have "ours tk n r k w'" using ours_step unfolding in_tx_def by blast
  moreover have "w_limbo w' = None" "w_pend w' \<noteq> None \<longrightarrow> w_lock w'"
    using a other_step_frame(7,8,10) [OF a(2)] by (auto simp: in_tx_def)
  moreover have "row_token tk w' \<noteq> Some n" using a other_step_token [OF a(2)] by (auto simp: in_tx_def ours_def)
  ultimately show "in_tx tk n r k w'" unfolding in_tx_def by blast
qed (simp add: in_tx_def ours_def)

lemma undisturbed_activated: "undisturbed tk (activated tk n r k)"
proof (rule undisturbedI)
  fix w w' assume a: "activated tk n r k w" "other_step tk w w'"
  then have "ours tk n r k w'" "row_free w'" using ours_step row_free_step unfolding activated_def by blast+
  moreover have "row_token tk w' \<noteq> Some n"
    using a other_step_token [OF a(2)] by (auto simp: activated_def ours_def row_free_def)
  ultimately show "activated tk n r k w'" unfolding activated_def by blast
qed (simp add: activated_def ours_def)

lemma undisturbed_swapped: "undisturbed tk (swapped tk n r k)"
proof (rule undisturbedI)
  fix w w' assume a: "swapped tk n r k w" "other_step tk w w'"
  then have "ours tk n r k w'" "row_free w'" using ours_step row_free_step unfolding swapped_def by blast+
  moreover have "row_token tk w' \<noteq> Some (w_old w')"
    using a other_step_token [OF a(2)] other_step_frame(3) [OF a(2)] by (auto simp: swapped_def ours_def row_free_def)
  ultimately show "swapped tk n r k w'" unfolding swapped_def by blast
qed (simp add: swapped_def ours_def)

lemma undisturbed_unsettled: "undisturbed tk (unsettled tk n r k)"
proof (rule undisturbedI)
  fix w w' assume a: "unsettled tk n r k w" "other_step tk w w'"
  then show "unsettled tk n r k w'" using ours_step other_step_frame(7,8) [OF a(2)] by (auto simp: unsettled_def)
qed (simp add: unsettled_def ours_def)

lemma undisturbed_undone: "undisturbed tk (undone tk k)"
proof (rule undisturbedI)
  fix w w' assume a: "undone tk k w" "other_step tk w w'" "safe tk w'"
  then show "undone tk k w'" using row_free_step other_step_frame(2,6,12) [OF a(2)] by (auto simp: undone_def)
qed (simp add: undone_def)

lemma undisturbed_begun: "undisturbed tk (begun tk r k)"
proof (rule undisturbedI)
  fix w w' assume a: "begun tk r k w" "other_step tk w w'" "safe tk w'"
  then show "begun tk r k w'" using other_step_frame(2,5,6,7,8,11) [OF a(2)] by (auto simp: begun_def)
qed (simp add: begun_def)

lemma undisturbed_held: "undisturbed tk (held tk r k d)"
proof (rule undisturbedI)
  fix w w' assume a: "held tk r k d w" "other_step tk w w'" "safe tk w'"
  then show "held tk r k d w'" using other_step_frame(2,5,6,7,8,10,14) [OF a(2)] by (auto simp: held_def)
qed (simp add: held_def)

lemma undisturbed_disj: "undisturbed tk P \<Longrightarrow> undisturbed tk Q \<Longrightarrow> undisturbed tk (\<lambda>w. P w \<or> Q w)"
  unfolding undisturbed_def by blast

lemma undisturbed_pure: "undisturbed tk P \<Longrightarrow> undisturbed tk (\<lambda>w. P w \<and> c)"
  unfolding undisturbed_def by blast

lemma undisturbed_clock: "undisturbed tk P \<Longrightarrow> undisturbed tk (\<lambda>w. P w \<and> t \<le> w_clock w)"
  unfolding undisturbed_def using other_step_frame(9) order_trans by blast

lemmas undisturbed_rules = undisturbed_idle undisturbed_in_tx undisturbed_activated undisturbed_swapped undisturbed_unsettled
  undisturbed_undone undisturbed_begun undisturbed_held undisturbed_disj undisturbed_pure undisturbed_clock

subsection \<open>Rolling back\<close>

named_theorems appends_rules \<open>programs append to the log\<close>

declare appends_ret [appends_rules] appends_bind [appends_rules]

lemma appends_ports [appends_rules]:
  "appends (time_Now E)" "appends (ctx_Err E c)" "appends (BeginRotation E c req)" "appends (ObserveRotation E c h t)"
  "appends (RollbackRotation E c h)" "appends (FinalizeRotation E c h)" "appends (ContactMethodFindOneUpdate E c cm)"
  "appends (ContactMethodCompareAndSwapGatewayDest E c cm x y)" "appends (tx_Commit E)" "appends (tx_Rollback E)"
  unfolding time_Now_def ctx_Err_def BeginRotation_def ObserveRotation_def RollbackRotation_def FinalizeRotation_def
    ContactMethodFindOneUpdate_def ContactMethodCompareAndSwapGatewayDest_def tx_Commit_def tx_Rollback_def
  by (rule appends_ask)+

lemma appends_if [appends_rules]: "appends m \<Longrightarrow> appends n \<Longrightarrow> appends (if b then m else n)"
  by simp

lemma appends_option [appends_rules]: "appends m \<Longrightarrow> (\<And>x. appends (f x)) \<Longrightarrow> appends (case z of None \<Rightarrow> m | Some x \<Rightarrow> f x)"
  by (cases z) simp_all

lemma appends_sum [appends_rules]: "(\<And>x. appends (f x)) \<Longrightarrow> (\<And>x. appends (g x)) \<Longrightarrow> appends (case z of Inl x \<Rightarrow> f x | Inr x \<Rightarrow> g x)"
  by (cases z) simp_all

lemma appends_prod [appends_rules]: "(\<And>x y. appends (f x y)) \<Longrightarrow> appends (case z of (x, y) \<Rightarrow> f x y)"
  by (cases z) simp

lemma spec_if: "(b \<Longrightarrow> spec tk P m Q) \<Longrightarrow> (\<not> b \<Longrightarrow> spec tk P n Q) \<Longrightarrow> spec tk P (if b then m else n) Q"
  by simp

text \<open>A reading program in front.\<close>

lemma spec_quiet_bind: "quiet m \<Longrightarrow> undisturbed tk P \<Longrightarrow> (\<And>a. spec tk P (f a) R) \<Longrightarrow> spec tk P (m \<bind> f) R"
  by (rule spec_bind [OF spec_quiet])

lemma spec_returns_bind:
  assumes "quiet m" "undisturbed tk P" "returns m R" "\<And>a. appends (f a)" "\<And>a. R a \<Longrightarrow> spec tk P (f a) Q"
  shows "spec tk P (m \<bind> f) Q"
  by (rule spec_bind [OF spec_returns [OF assms(1,2,3)]]) (rule spec_pure [OF assms(4,5)])

lemma spec_disj:
  assumes "spec tk P m Q" "spec tk P' m Q"
  shows "spec tk (\<lambda>w. P w \<or> P' w) m Q"
  unfolding spec_def
proof (intro allI impI)
  fix log a log' assume r: "run_state m log = (a, log')"
  from assms(1) [unfolded spec_def, rule_format, OF r] obtain es where es: "log' = log @ es"
    "\<forall>w. P w \<longrightarrow> (\<forall>es1 es2 w'. es = es1 @ es2 \<longrightarrow> explains tk w es1 w' \<longrightarrow> safe tk w') \<and> (\<forall>w'. explains tk w es w' \<longrightarrow> Q a w')"
    by blast
  from assms(2) [unfolded spec_def, rule_format, OF r] obtain es' where es': "log' = log @ es'"
    "\<forall>w. P' w \<longrightarrow> (\<forall>es1 es2 w'. es' = es1 @ es2 \<longrightarrow> explains tk w es1 w' \<longrightarrow> safe tk w') \<and> (\<forall>w'. explains tk w es' w' \<longrightarrow> Q a w')"
    by blast
  have "es' = es" using es(1) es'(1) by simp
  with es es' show "\<exists>es. log' = log @ es \<and> (\<forall>w. P w \<or> P' w \<longrightarrow> (\<forall>es1 es2 w'. es = es1 @ es2 \<longrightarrow> explains tk w es1 w' \<longrightarrow> safe tk w')
      \<and> (\<forall>w'. explains tk w es w' \<longrightarrow> Q a w'))" by blast
qed

lemma spec_quiet_ret:
  assumes "quiet m" "undisturbed tk P" "\<And>a w. P w \<Longrightarrow> Q a w"
  shows "spec tk P m Q"
  by (rule spec_conseq [OF spec_quiet [OF assms(1,2)]]) (use assms(3) in auto)

lemma spec_rollback:
  assumes P: "undisturbed tk P" and R: "undisturbed tk R"
    and ready: "\<And>w. P w \<Longrightarrow> w_gw w = GwActive \<and> \<not> w_late w \<and> ld \<le> local_retirement w"
    and effect: "\<And>w. P w \<Longrightarrow> R (w\<lparr>w_gw := GwRolledBack\<rparr>)"
  shows "spec tk P (rollbackBeforeLocalDeadline E c h ld) (\<lambda>e w. if e = None then R w else P w \<or> R w)"
proof -
  have call: "spec tk P (RollbackRotation E b h) (\<lambda>e w. if e = None then R w else P w \<or> R w)"
    if b: "cx_Deadline b = Some d" "d \<le> ld" for b d
    unfolding RollbackRotation_def
  proof (rule spec_ask [OF P])
    show "undisturbed tk (\<lambda>w. if e = None then R w else P w \<or> R w)" for e :: "gw_error option"
      using P R by (cases e) (simp_all add: undisturbed_disj)
    fix e w w' assume w: "P w" "act tk w (EvRollback h (cx_Deadline b) e) w'"
    have same: "w\<lparr>w_late := False\<rparr> = w" using ready [OF w(1)] by (cases w) simp
    have "(case cx_Deadline b of None \<Rightarrow> True | Some d \<Rightarrow> local_retirement w < d) = False"
      using b ready [OF w(1)] by simp
    with w(2) same ready [OF w(1)] have "e = None \<and> w' = w\<lparr>w_gw := GwRolledBack\<rparr> \<or> e \<noteq> None \<and> (w' = w \<or> w' = w\<lparr>w_gw := GwRolledBack\<rparr>)"
      by (simp add: Let_def)
    then show "if e = None then R w' else P w' \<or> R w'" using effect [OF w(1)] w(1) by auto
  qed
  have after: "spec tk (\<lambda>w. if e = None then R w else P w \<or> R w)
      (if e \<noteq> None then ret (Some RotReconciliationRequired)
       else do { x \<leftarrow> ctx_Err E b; ret (if x \<noteq> None then Some RotReconciliationRequired else None) })
      (\<lambda>e w. if e = None then R w else P w \<or> R w)" for e :: "gw_error option" and b
  proof (cases e)
    case None
    have "spec tk R (do { x \<leftarrow> ctx_Err E b; ret (if x \<noteq> None then Some RotReconciliationRequired else None) })
      (\<lambda>e w. if e = None then R w else P w \<or> R w)"
      by (rule spec_quiet_ret [OF _ R]) (auto intro: quiet_rules)
    with None show ?thesis by simp
  next
    case (Some e')
    then show ?thesis by (auto intro!: spec_ret undisturbed_disj P R)
  qed
  show ?thesis
    unfolding rollbackBeforeLocalDeadline_def
  proof (rule spec_quiet_bind [OF _ P], rule quiet_rules, rule spec_if)
    fix now
    show "spec tk P (ret (Some RotReconciliationRequired)) (\<lambda>e w. if e = None then R w else P w \<or> R w)"
      by (rule spec_ret [OF P]) simp
    show "spec tk P (BoundedContext E (Some c) (EarliestDeadline (now + gatewayDestinationTokenRotationRecoveryLimit) ld) \<bind>
        (\<lambda>b. case b of None \<Rightarrow> ret (Some RotReconciliationRequired)
         | Some recoveryCtx \<Rightarrow> RollbackRotation E recoveryCtx h \<bind>
             (\<lambda>err. if err \<noteq> None then ret (Some RotReconciliationRequired)
              else ctx_Err E recoveryCtx \<bind> (\<lambda>e. ret (if e \<noteq> None then Some RotReconciliationRequired else None)))))
        (\<lambda>e w. if e = None then R w else P w \<or> R w)"
    proof (rule spec_returns_bind [OF quiet_BoundedContext P BoundedContext_returns])
      fix b :: "ctx option"
      assume b: "\<forall>b'. b = Some b' \<longrightarrow> Some c \<noteq> None \<and> cx_System b' = cx_System (the (Some c))
        \<and> (\<exists>d' \<le> EarliestDeadline (now + gatewayDestinationTokenRotationRecoveryLimit) ld. cx_Deadline b' = Some d')"
      have le: "EarliestDeadline x ld \<le> ld" for x by (simp add: EarliestDeadline_def)
      show "spec tk P (case b of None \<Rightarrow> ret (Some RotReconciliationRequired)
         | Some recoveryCtx \<Rightarrow> RollbackRotation E recoveryCtx h \<bind>
             (\<lambda>err. if err \<noteq> None then ret (Some RotReconciliationRequired)
              else ctx_Err E recoveryCtx \<bind> (\<lambda>e. ret (if e \<noteq> None then Some RotReconciliationRequired else None))))
        (\<lambda>e w. if e = None then R w else P w \<or> R w)"
      proof (cases b)
        case None
        then show ?thesis by (auto intro!: spec_ret P)
      next
        case (Some b')
        with b obtain d where "cx_Deadline b' = Some d" "d \<le> ld" using le order_trans by blast
        from spec_bind [OF call [OF this] after] Some show ?thesis by simp
      qed
    qed (intro appends_rules)
  qed
qed

end
