(* ===== verification/GatewaySwap.thy ===== *)
theory GatewaySwap
  imports GatewayLogic
begin

section \<open>The swap keeps a rotation safe\<close>

text \<open>
  The fenced compare-and-swap, from an activated attempt: without an error the row no longer holds the
  old token, after a safe error it does not hold the new one, and after any other error either may be.
\<close>

subsection \<open>The fenced compare-and-swap\<close>

text \<open>
  What the result of the swap says: without an error it is committed, after a safe error nothing was
  changed, and after any other error it is not settled.
\<close>

definition cas_post :: "(DestV1 \<Rightarrow> string option) \<Rightarrow> string \<Rightarrow> instant \<Rightarrow> gw_error option \<Rightarrow> gw_world \<Rightarrow> bool" where
  "cas_post tk n r e w = (case e of
     None \<Rightarrow> swapped tk n r 1 w
   | Some e \<Rightarrow> if SafeCASError e \<noteq> None then activated tk n r 1 w else unsettled tk n r 1 w)"

lemma cas_post_simps [simp]:
  "cas_post tk n r None w = swapped tk n r 1 w"
  "SafeCASError e \<noteq> None \<Longrightarrow> cas_post tk n r (Some e) w = activated tk n r 1 w"
  "SafeCASError e = None \<Longrightarrow> cas_post tk n r (Some e) w = unsettled tk n r 1 w"
  by (auto simp: cas_post_def)

lemma activated_mono: "activated tk n r 0 w \<Longrightarrow> activated tk n r 1 w"
  by (simp add: activated_def ours_def)

lemma activated_in_tx: "activated tk n r k w \<Longrightarrow> in_tx tk n r k w"
  by (simp add: activated_def in_tx_def row_free_def)

lemma activated_unsettled: "activated tk n r k w \<Longrightarrow> unsettled tk n r k w"
  by (simp add: activated_def unsettled_def row_free_def)

lemma swapped_unsettled: "swapped tk n r k w \<Longrightarrow> unsettled tk n r k w"
  by (simp add: swapped_def unsettled_def row_free_def)

lemma spec_tx_Rollback:
  "spec tk (in_tx tk n r k) (tx_Rollback E) (\<lambda>e w. if e = None then activated tk n r k w else unsettled tk n r k w)"
  unfolding tx_Rollback_def
proof (rule spec_ask [OF undisturbed_in_tx])
  show "undisturbed tk (\<lambda>w. if e = None then activated tk n r k w else unsettled tk n r k w)" for e :: "db_error option"
    by (cases e) (simp_all add: undisturbed_activated undisturbed_unsettled)
  fix e w w' assume "in_tx tk n r k w" "act tk w (EvTxRollback e) w'"
  then show "if e = None then activated tk n r k w' else unsettled tk n r k w'"
    by (cases e) (auto simp: abandon_def in_tx_def activated_def unsettled_def ours_def safe_def row_free_def row_token_def local_retirement_def)
qed

lemma spec_quarantine:
  assumes "undisturbed tk P" "\<And>w. P w \<Longrightarrow> unsettled tk n r 1 w"
  shows "spec tk P (quarantineUnknown E d) (cas_post tk n r)"
  by (rule spec_conseq [OF spec_returns [OF quiet_quarantine assms(1) quarantine_returns]]) (use assms(2) in auto)

lemma spec_cas_rollback:
  assumes "SafeCASError e \<noteq> None"
  shows "spec tk (in_tx tk n r 1) (rollback E c d e) (cas_post tk n r)"
  unfolding rollback_def
proof (rule spec_bind [OF spec_tx_Rollback], rule spec_if)
  fix err :: "db_error option" assume "err \<noteq> None"
  then show "spec tk (\<lambda>w. if err = None then activated tk n r 1 w else unsettled tk n r 1 w) (quarantineUnknown E d) (cas_post tk n r)"
    using spec_quarantine [OF undisturbed_unsettled] by auto
next
  fix err :: "db_error option" assume err: "\<not> err \<noteq> None"
  have "spec tk (activated tk n r 1)
      (do { ctxErr \<leftarrow> CASContextError E c; if ctxErr \<noteq> None then quarantineUnknown E d else ret (Some e) }) (cas_post tk n r)"
    by (intro spec_quiet_bind quiet_rules undisturbed_activated spec_if spec_quarantine spec_ret)
      (simp_all add: activated_unsettled [simplified] assms)
  with err show "spec tk (\<lambda>w. if err = None then activated tk n r 1 w else unsettled tk n r 1 w)
      (do { ctxErr \<leftarrow> CASContextError E c; if ctxErr \<noteq> None then quarantineUnknown E d else ret (Some e) }) (cas_post tk n r)"
    by simp
qed

lemma spec_uncertain: "spec tk (in_tx tk n r 1) (rollbackUncertainTopology E d) (cas_post tk n r)"
  unfolding rollbackUncertainTopology_def
proof (rule spec_bind [OF spec_tx_Rollback])
  fix err :: "db_error option"
  have "spec tk (unsettled tk n r 1) (do { _ \<leftarrow> DiscardBefore E d; ret (Some QuarantineUnconfirmed) }) (cas_post tk n r)"
    by (intro spec_quiet_bind quiet_rules undisturbed_unsettled spec_ret) simp
  then show "spec tk (\<lambda>w. if err = None then activated tk n r 1 w else unsettled tk n r 1 w)
      (do { _ \<leftarrow> DiscardBefore E d; ret (Some QuarantineUnconfirmed) }) (cas_post tk n r)"
    by (rule spec_conseq) (auto simp: activated_unsettled split: if_splits)
qed

lemma undisturbed_pending: "undisturbed tk (\<lambda>w. in_tx tk n r k w \<and> w_pend w \<noteq> None)"
  using undisturbed_in_tx [of tk n r k] other_step_frame(8) unfolding undisturbed_def by metis

lemma spec_commit: "spec tk (\<lambda>w. in_tx tk n r 1 w \<and> w_pend w \<noteq> None) (fenced_commit E c d) (cas_post tk n r)"
proof -
  have commit: "spec tk (\<lambda>w. in_tx tk n r 1 w \<and> w_pend w \<noteq> None) (tx_Commit E)
      (\<lambda>e w. if e = None then swapped tk n r 1 w else unsettled tk n r 1 w)"
    unfolding tx_Commit_def
  proof (rule spec_ask [OF undisturbed_pending])
    show "undisturbed tk (\<lambda>w. if e = None then swapped tk n r 1 w else unsettled tk n r 1 w)" for e :: "db_error option"
      by (cases e) (simp_all add: undisturbed_swapped undisturbed_unsettled)
    fix e w w' assume w: "in_tx tk n r 1 w \<and> w_pend w \<noteq> None" "act tk w (EvCommit e) w'"
    then obtain x where "w_pend w = Some x" by auto
    with w show "if e = None then swapped tk n r 1 w' else unsettled tk n r 1 w'"
      by (cases e) (auto simp: abandon_def in_tx_def swapped_def unsettled_def ours_def safe_def row_free_def row_token_def local_retirement_def)
  qed
  have ok: "spec tk (swapped tk n r 1)
      (do { ctxErr \<leftarrow> CASContextError E c; if ctxErr \<noteq> None then quarantineUnknown E d else ret None }) (cas_post tk n r)"
    by (intro spec_quiet_bind quiet_rules undisturbed_swapped spec_if spec_quarantine spec_ret)
      (simp_all add: swapped_unsettled [simplified])
  have no: "spec tk (unsettled tk n r 1) (quarantineUnknown E d) (cas_post tk n r)"
    by (rule spec_quarantine [OF undisturbed_unsettled])
  show ?thesis unfolding fenced_commit_def
  proof (rule spec_bind [OF commit])
    fix err :: "db_error option"
    show "spec tk (\<lambda>w. if err = None then swapped tk n r 1 w else unsettled tk n r 1 w)
      (if err \<noteq> None then quarantineUnknown E d
       else do { ctxErr \<leftarrow> CASContextError E c; if ctxErr \<noteq> None then quarantineUnknown E d else ret None }) (cas_post tk n r)"
      using ok no by (cases err) simp_all
  qed
qed

lemma appends_quiet [appends_rules]:
  "appends (quarantineUnknown E d)" "appends (CASContextError E c)" "appends (RotContextError E c)" "appends (DiscardBefore E d)"
  "appends (unavailable_error E c err)" "appends (BoundedContext E c' d)" "appends conn_Close" "appends (acquire E c)"
  "appends (conn_BeginTx E c)" "appends (OperationContext E c')" "appends (ValidLockContext E c)" "appends (detachedRecoveryContext E c d)"
  by (intro quiet_appends quiet_rules)+

lemma appends_cas [appends_rules]:
  "appends (rollback E c d e)" "appends (rollbackUncertainTopology E d)" "appends (fenced_commit E c d)"
  unfolding rollback_def rollbackUncertainTopology_def fenced_commit_def by (intro appends_rules)+

lemma appends_fenced_update [appends_rules]: "appends (fenced_update E c d cm x y)"
  unfolding fenced_update_def by (intro appends_rules)

lemma appends_fenced_tx [appends_rules]: "appends (fenced_tx E c d cm x y)"
  unfolding fenced_tx_def by (intro appends_rules)

lemma classify_safe:
  "SafeCASError (if classifyExecutionError err = CASOutcomeUnknown then CASUnavailable else classifyExecutionError err) \<noteq> None"
  by (auto simp: classifyExecutionError_def split: option.split prod.split)

text \<open>The error of the context if there is one, and else \<open>e\<close>: both are safe.\<close>

lemma spec_ctx_rollback:
  assumes "SafeCASError e \<noteq> None"
  shows "spec tk (in_tx tk n r 1) (do { x \<leftarrow> CASContextError E c; rollback E c d (case x of Some x \<Rightarrow> x | None \<Rightarrow> e) }) (cas_post tk n r)"
proof (rule spec_returns_bind [OF quiet_context_errors(1) undisturbed_in_tx CASContextError_returns appends_cas(1)])
  fix x :: "gw_error option" assume "\<forall>e'. x = Some e' \<longrightarrow> SafeCASError e' \<noteq> None"
  with assms have "SafeCASError (case x of Some x \<Rightarrow> x | None \<Rightarrow> e) \<noteq> None" by (cases x) simp_all
  then show "spec tk (in_tx tk n r 1) (rollback E c d (case x of None \<Rightarrow> e | Some x \<Rightarrow> x)) (cas_post tk n r)"
    by (rule spec_cas_rollback)
qed

lemma spec_fenced_update:
  assumes "tk new = Some n"
  shows "spec tk (in_tx tk n r 0) (fenced_update E c d cm expected new) (cas_post tk n r)"
proof -
  have call: "spec tk (in_tx tk n r 0) (ContactMethodCompareAndSwapGatewayDest E c cm new expected)
      (\<lambda>x w. in_tx tk n r 1 w \<and> (x = Inr (Some 1) \<longrightarrow> w_pend w \<noteq> None))"
    unfolding ContactMethodCompareAndSwapGatewayDest_def
  proof (rule spec_ask [OF undisturbed_in_tx])
    show "undisturbed tk (\<lambda>w. in_tx tk n r 1 w \<and> (x = Inr (Some 1) \<longrightarrow> w_pend w \<noteq> None))" for x :: "db_error + int option"
      using undisturbed_pending [of tk n r 1] undisturbed_in_tx [of tk n r 1] by (cases "x = Inr (Some 1)") simp_all
    fix x w w' assume "in_tx tk n r 0 w" "act tk w (EvUpdate cm new expected x) w'"
    then have w: "in_tx tk n r 0 w" "x \<noteq> Inr (Some 1) \<and> w' = w\<lparr>w_swaps := w_swaps w + 1\<rparr>
      \<or> w_lock w \<and> w' = w\<lparr>w_swaps := w_swaps w + 1, w_pend := Some new\<rparr>" by (auto simp: Let_def)
    from w(2) show "in_tx tk n r 1 w' \<and> (x = Inr (Some 1) \<longrightarrow> w_pend w' \<noteq> None)"
    proof
      assume "x \<noteq> Inr (Some 1) \<and> w' = w\<lparr>w_swaps := w_swaps w + 1\<rparr>"
      with w(1) show ?thesis by (auto simp: in_tx_def ours_def safe_def row_token_def local_retirement_def)
    next
      assume "w_lock w \<and> w' = w\<lparr>w_swaps := w_swaps w + 1, w_pend := Some new\<rparr>"
      with w(1) assms show ?thesis by (auto simp: in_tx_def ours_def safe_def row_token_def local_retirement_def)
    qed
  qed
  have plain: "spec tk (\<lambda>w. in_tx tk n r 1 w \<and> (x = Inr (Some 1) \<longrightarrow> w_pend w \<noteq> None)) m (cas_post tk n r)"
    if "spec tk (in_tx tk n r 1) m (cas_post tk n r)" for m and x :: "db_error + int option"
    by (rule spec_conseq [OF that]) auto
  show ?thesis unfolding fenced_update_def
  proof (rule spec_bind [OF call])
    fix x :: "db_error + int option"
    consider err where "x = Inl err" | "x = Inr None" | i where "x = Inr (Some i)" by (metis option.exhaust sum.exhaust)
    then show "spec tk (\<lambda>w. in_tx tk n r 1 w \<and> (x = Inr (Some 1) \<longrightarrow> w_pend w \<noteq> None))
        (case x of
           Inl err \<Rightarrow> if is_uncertain (Some err) then rollbackUncertainTopology E d
             else do { ctxErr \<leftarrow> CASContextError E c;
               rollback E c d (case ctxErr of Some e \<Rightarrow> e | None \<Rightarrow> if classifyExecutionError err = CASOutcomeUnknown then CASUnavailable
                  else classifyExecutionError err) }
         | Inr None \<Rightarrow> rollback E c d CASUnavailable
         | Inr (Some i) \<Rightarrow> if i = 0 then rollback E c d CASConflict else if i = 1 then fenced_commit E c d
             else rollback E c d CASUnavailable) (cas_post tk n r)"
    proof cases
      case (1 err)
      show ?thesis unfolding 1 sum.case
        by (rule plain) (intro spec_if spec_uncertain spec_ctx_rollback classify_safe)
    next
      case 2
      show ?thesis unfolding 2 sum.case option.case by (rule plain, rule spec_cas_rollback) simp
    next
      case (3 i)
      have "spec tk (in_tx tk n r 1) (rollback E c d CASConflict) (cas_post tk n r)"
        "spec tk (in_tx tk n r 1) (rollback E c d CASUnavailable) (cas_post tk n r)" by (rule spec_cas_rollback, simp)+
      with plain [of _ x] spec_commit [of tk n r E c d] show ?thesis unfolding 3 by (cases "i = 1") simp_all
    qed
  qed
qed

lemma in_tx_mono: "in_tx tk n r 0 w \<Longrightarrow> in_tx tk n r 1 w"
  by (simp add: in_tx_def ours_def)

lemma spec_fenced_tx:
  assumes "tk new = Some n"
  shows "spec tk (activated tk n r 0) (fenced_tx E c d cm expected new) (cas_post tk n r)"
proof -
  have call: "spec tk (activated tk n r 0) (ContactMethodFindOneUpdate E c cm) (\<lambda>_. in_tx tk n r 0)"
    unfolding ContactMethodFindOneUpdate_def
  proof (rule spec_ask [OF undisturbed_activated undisturbed_in_tx])
    fix x w w' assume "activated tk n r 0 w" "act tk w (EvSelect cm x) w'"
    then show "in_tx tk n r 0 w'"
      by (cases x) (auto simp: in_tx_def activated_def row_free_def ours_def safe_def row_token_def local_retirement_def)
  qed
  have up: "spec tk (in_tx tk n r 0) m (cas_post tk n r)" if "spec tk (in_tx tk n r 1) m (cas_post tk n r)" for m
    by (rule spec_conseq [OF that in_tx_mono])
  show ?thesis unfolding fenced_tx_def
  proof (rule spec_bind [OF call])
    fix x :: "db_error + DestV1"
    show "spec tk (in_tx tk n r 0)
        (case x of
           Inl err \<Rightarrow> if SingleCauseMatches 64 (de_chain err) ErrNoRows then rollback E c d CASConflict
             else if is_uncertain (Some err) then rollbackUncertainTopology E d
             else do { ctxErr \<leftarrow> CASContextError E c; rollback E c d (case ctxErr of Some e \<Rightarrow> e | None \<Rightarrow> CASUnavailable) }
         | Inr _ \<Rightarrow> fenced_update E c d cm expected new) (cas_post tk n r)"
    proof (cases x)
      case (Inl err)
      have "spec tk (in_tx tk n r 1)
        (if SingleCauseMatches 64 (de_chain err) ErrNoRows then rollback E c d CASConflict
         else if is_uncertain (Some err) then rollbackUncertainTopology E d
         else do { ctxErr \<leftarrow> CASContextError E c; rollback E c d (case ctxErr of Some e \<Rightarrow> e | None \<Rightarrow> CASUnavailable) }) (cas_post tk n r)"
        by (intro spec_if spec_uncertain spec_ctx_rollback spec_cas_rollback) simp_all
      from up [OF this] Inl show ?thesis by simp
    next
      case (Inr y)
      with spec_fenced_update [where tk = tk and new = new and n = n, OF assms] show ?thesis by simp
    qed
  qed
qed

lemma spec_unavailable:
  "spec tk (activated tk n r 0) (unavailable_error E c err) (cas_post tk n r)"
  unfolding unavailable_error_def
proof (rule spec_returns_bind [OF quiet_context_errors(1) undisturbed_activated CASContextError_returns appends_ret])
  fix x :: "gw_error option" assume "\<forall>e'. x = Some e' \<longrightarrow> SafeCASError e' \<noteq> None"
  then show "spec tk (activated tk n r 0)
      (ret (Some (case x of None \<Rightarrow> if is_uncertain err then QuarantineUnconfirmed else CASUnavailable | Some e \<Rightarrow> e))) (cas_post tk n r)"
    using activated_mono [of tk n r] activated_unsettled [of tk n r 1]
    by (intro spec_ret undisturbed_activated) (auto split: option.split)
qed

lemma undisturbed_cas_post: "undisturbed tk (cas_post tk n r e)"
proof (cases e)
  case None
  then have "cas_post tk n r e = swapped tk n r 1" by (simp add: cas_post_def fun_eq_iff)
  then show ?thesis by (simp only: undisturbed_swapped)
next
  case (Some e')
  then have "cas_post tk n r e = (if SafeCASError e' \<noteq> None then activated tk n r 1 else unsettled tk n r 1)"
    by (simp add: cas_post_def fun_eq_iff)
  then show ?thesis using undisturbed_activated undisturbed_unsettled by (simp split: if_split)
qed

lemma spec_prod: "(\<And>x y. spec tk P (f x y) Q) \<Longrightarrow> spec tk P (case z of (x, y) \<Rightarrow> f x y) Q"
  by (cases z) simp

lemma spec_option: "(z = None \<Longrightarrow> spec tk P m Q) \<Longrightarrow> (\<And>x. z = Some x \<Longrightarrow> spec tk P (f x) Q) \<Longrightarrow> spec tk P (case z of None \<Rightarrow> m | Some x \<Rightarrow> f x) Q"
  by (cases z) simp_all

lemma spec_cas_error:
  assumes "\<forall>e'. e = Some e' \<longrightarrow> SafeCASError e' \<noteq> None" "e \<noteq> None"
  shows "spec tk (activated tk n r 0) (ret e) (cas_post tk n r)"
  using assms activated_mono [of tk n r] by (intro spec_ret undisturbed_activated) (auto simp: cas_post_def split: option.split)

lemma spec_cas_quarantined: "spec tk (activated tk n r 0) (ret (Some QuarantineUnconfirmed)) (cas_post tk n r)"
  using activated_mono [of tk n r] activated_unsettled [of tk n r 1] by (intro spec_ret undisturbed_activated) auto

lemma spec_close: "spec tk (cas_post tk n r e) (do { conn_Close; ret e }) (cas_post tk n r)"
  by (intro spec_quiet_bind quiet_rules undisturbed_cas_post spec_ret) simp

lemma spec_compareAndSwapWithFence:
  assumes "tk new = Some n"
  shows "spec tk (activated tk n r 0) (compareAndSwapWithFence E c cm expected new) (cas_post tk n r)"
proof -
  note simple = spec_if spec_option spec_prod spec_quiet_bind quiet_rules undisturbed_activated spec_unavailable spec_cas_quarantined
  have no_conn: "spec tk (activated tk n r 0)
      (if conn then do { x \<leftarrow> DiscardBefore E d; conn_Close; if \<not> x then ret (Some QuarantineUnconfirmed) else unavailable_error E c err }
       else unavailable_error E c err) (cas_post tk n r)" for conn d err
    by (intro simple)
  have tx: "spec tk (activated tk n r 0)
      (if err \<noteq> None \<or> \<not> tx
       then do { x \<leftarrow> DiscardBefore E d; if \<not> x then ret (Some QuarantineUnconfirmed) else unavailable_error E c err }
       else fenced_tx E c d cm expected new) (cas_post tk n r)" for err tx d
    by (intro simple spec_fenced_tx [where tk = tk and new = new and n = n, OF assms])
  have conn: "spec tk (activated tk n r 0)
      (do { (tx, err) \<leftarrow> conn_BeginTx E c;
            x \<leftarrow> (if err \<noteq> None \<or> \<not> tx
               then do { x \<leftarrow> DiscardBefore E d; if \<not> x then ret (Some QuarantineUnconfirmed) else unavailable_error E c err }
               else fenced_tx E c d cm expected new);
            conn_Close; ret x }) (cas_post tk n r)" for d
    by (rule spec_quiet_bind [OF quiet_reads(4) undisturbed_activated], rule spec_prod, rule spec_bind [OF tx spec_close])
  have late: "spec tk (activated tk n r 0) (ret (Some CASDeadlineExceeded)) (cas_post tk n r)" by (rule spec_cas_error) auto
  have guarded: "spec tk (activated tk n r 0)
      (case cx_Deadline c of
         None \<Rightarrow> ret (Some CASDeadlineExceeded)
       | Some casDeadline \<Rightarrow> do {
           now \<leftarrow> time_Now E;
           if \<not> now < casDeadline then ret (Some CASDeadlineExceeded)
           else do {
             let discardDeadline = casDeadline + gatewayDestinationTokenRotationDiscardLimit;
             (conn, err) \<leftarrow> acquire E c;
             if err \<noteq> None \<or> \<not> conn
             then if conn then do { x \<leftarrow> DiscardBefore E discardDeadline; conn_Close;
                      if \<not> x then ret (Some QuarantineUnconfirmed) else unavailable_error E c err }
                  else unavailable_error E c err
             else do { (tx, err) \<leftarrow> conn_BeginTx E c;
                 x \<leftarrow> (if err \<noteq> None \<or> \<not> tx
                    then do { x \<leftarrow> DiscardBefore E discardDeadline;
                      if \<not> x then ret (Some QuarantineUnconfirmed) else unavailable_error E c err }
                    else fenced_tx E c discardDeadline cm expected new);
                 conn_Close; ret x } } }) (cas_post tk n r)"
    unfolding Let_def
    by (rule spec_option [OF late], rule spec_quiet_bind [OF quiet_reads(1) undisturbed_activated], rule spec_if [OF late],
      rule spec_quiet_bind [OF quiet_reads(3) undisturbed_activated], rule spec_prod, rule spec_if [OF no_conn conn])
  have errs: "spec tk (activated tk n r 0) (ret (Some CASInvalid)) (cas_post tk n r)"
    "spec tk (activated tk n r 0) (ret (Some CASPermissionDenied)) (cas_post tk n r)" by (rule spec_cas_error; simp)+
  show ?thesis unfolding compareAndSwapWithFence_def
  proof (rule spec_if [OF errs(1)], rule spec_if [OF errs(2)],
      rule spec_returns_bind [OF quiet_context_errors(1) undisturbed_activated CASContextError_returns], goal_cases)
    case (2 x)
    show ?case by (rule spec_if [OF spec_cas_error [OF 2(3)] guarded])
  qed (unfold Let_def, intro appends_rules)
qed

subsection \<open>The tokens of the two destinations\<close>

lemma token_of_webhook:
  assumes "url_Parse L u = Some t" "url_String L t = u" "Match L m t = Some (gatewayContactMethodPathPrefix @ token)"
  shows "tokenFromAuthoritativeDestination L m (NewWebhookDest u) = Some token"
proof -
  from assms(3) obtain x where "gatewayContactMethodPathPrefix @ token = gatewayContactMethodPathPrefix @ x" "validGatewayToken x"
    by (rule Match_path)
  then have "validGatewayToken token" by simp
  with assms show ?thesis
    by (simp add: tokenFromAuthoritativeDestination_def NewWebhookDest_def Dest_Arg_def Let_def)
qed

lemma prepare_tokens:
  assumes "CAS_prepare L m req = Some (expected, new)"
  shows "tokenFromAuthoritativeDestination L m new = Some (cr_replacementToken req)"
proof -
  from assms [unfolded CAS_prepare_def Let_def if_None_Some case_None_Some] obtain u t where
    "url_Parse L u = Some t" "\<not> url_String L t \<noteq> u" "\<not> Match L m t \<noteq> Some (gatewayContactMethodPathPrefix @ cr_replacementToken req)"
    "Some (NewWebhookDest (cr_expectedURL req), NewWebhookDest u) = Some (expected, new)"
    by (elim conjE exE) (rule that)
  then show ?thesis using token_of_webhook by auto
qed

lemma spec_CompareAndSwap:
  fixes L m
  defines "tk \<equiv> tokenFromAuthoritativeDestination L m"
  assumes "cr_replacementToken req = n"
  shows "spec tk (activated tk n r 0) (FencedCAS_CompareAndSwap L m E c req) (cas_post tk n r)"
proof -
  have errs: "spec tk (activated tk n r 0) (ret (Some CASPermissionDenied)) (cas_post tk n r)"
    "spec tk (activated tk n r 0) (ret (Some CASInvalid)) (cas_post tk n r)" by (rule spec_cas_error; simp)+
  have swap: "spec tk (activated tk n r 0)
      (do { err \<leftarrow> compareAndSwapWithFence E c (cr_contactMethodID req) x y;
            ret (if err \<in> {None, Some CASConflict, Some CASUnavailable, Some CASOutcomeUnknown, Some CASCanceled,
                         Some CASDeadlineExceeded, Some QuarantineUnconfirmed} then err else Some QuarantineUnconfirmed) })
      (cas_post tk n r)" if "CAS_prepare L m req = Some (x, y)" for x y
  proof (rule spec_bind)
    show "spec tk (activated tk n r 0) (compareAndSwapWithFence E c (cr_contactMethodID req) x y) (cas_post tk n r)"
      by (rule spec_compareAndSwapWithFence) (use prepare_tokens [OF that] assms(2) in \<open>simp add: tk_def\<close>)
    fix err
    have "cas_post tk n r err w \<Longrightarrow> SafeCASError e \<noteq> None \<Longrightarrow> err = Some e \<Longrightarrow> unsettled tk n r 1 w" for w e
      using activated_unsettled by auto
    then show "spec tk (cas_post tk n r err)
        (ret (if err \<in> {None, Some CASConflict, Some CASUnavailable, Some CASOutcomeUnknown, Some CASCanceled,
                     Some CASDeadlineExceeded, Some QuarantineUnconfirmed} then err else Some QuarantineUnconfirmed)) (cas_post tk n r)"
      by (intro spec_ret undisturbed_cas_post) (auto simp: cas_post_def split: option.splits if_splits)
  qed
  show ?thesis unfolding FencedCAS_CompareAndSwap_def
  proof (rule spec_if [OF errs(1)],
      rule spec_returns_bind [OF quiet_context_errors(1) undisturbed_activated CASContextError_returns], goal_cases)
    case (2 x)
    show ?case
    proof (rule spec_if)
      show "spec tk (activated tk n r 0) (ret x) (cas_post tk n r)" if "x \<noteq> None"
        using 2(2) that by (rule spec_cas_error)
      show "spec tk (activated tk n r 0)
        (case CAS_prepare L m req of
           None \<Rightarrow> ret (Some CASInvalid)
         | Some (expected, replacement) \<Rightarrow> do {
             err \<leftarrow> compareAndSwapWithFence E c (cr_contactMethodID req) expected replacement;
             ret (if err \<in> {None, Some CASConflict, Some CASUnavailable, Some CASOutcomeUnknown, Some CASCanceled,
                         Some CASDeadlineExceeded, Some QuarantineUnconfirmed} then err else Some QuarantineUnconfirmed) })
        (cas_post tk n r)"
      proof (cases "CAS_prepare L m req")
        case None
        with errs(2) show ?thesis by simp
      next
        case (Some p)
        with swap show ?thesis by (cases p) simp
      qed
    qed
  qed (intro appends_rules, unfold compareAndSwapWithFence_def Let_def, intro appends_rules)
qed

end
