(* ===== verification/GatewayInspect.thy ===== *)
theory GatewayInspect
  imports GatewaySwap
begin

section \<open>Inspecting under the row lock is safe and truthful\<close>

text \<open>What \<open>inspectLocked\<close> reports of an attempt is so, for each of its purposes.\<close>

subsection \<open>Inspecting under the lock\<close>

text \<open>
  What the result of an inspection says about the attempt.  Others who know the handle may have completed
  a rotation since it was found pending.
\<close>

fun verdict :: "(DestV1 \<Rightarrow> string option) \<Rightarrow> RotationHandle \<Rightarrow> purpose \<Rightarrow> Result \<times> gw_error option \<Rightarrow> gw_world \<Rightarrow> bool" where
  "verdict tk h p (x, None) w \<longleftrightarrow> rs_handle x = h \<and>
     (case rs_status x of
        PendingFinalization \<Rightarrow> p \<noteq> InspectFinalize \<and> (w_gw w = GwActive \<or> w_shared w \<and> w_gw w = GwCompleted)
          \<and> row_token tk w \<noteq> Some (w_old w) \<and> w_limbo w = None
      | RolledBack \<Rightarrow> p = InspectReconcile \<and> w_gw w = GwRolledBack
      | Completed \<Rightarrow> p \<noteq> InspectUnknownCAS \<and> w_gw w = GwCompleted
      | _ \<Rightarrow> False)"
| "verdict tk h p (x, Some e) w \<longleftrightarrow> (p = InspectUnknownCAS \<and> e \<noteq> RotReconciliationRequired \<longrightarrow> w_gw w = GwRolledBack)"

lemma verdict_step:
  assumes v: "verdict tk h p x w" and s: "other_step tk w w'" and "w_gw w \<noteq> GwIdle" "safe tk w"
  shows "verdict tk h p x w'"
proof (cases x)
  case (Pair y e)
  have final: "w_gw w = GwRolledBack \<Longrightarrow> w_gw w' = GwRolledBack" "w_gw w = GwCompleted \<Longrightarrow> w_gw w' = GwCompleted"
    using other_step_frame(12) [OF s] by auto
  show ?thesis
  proof (cases e)
    case (Some e')
    with v Pair final(1) show ?thesis by auto
  next
    case None
    show ?thesis
    proof (cases "rs_status y")
      case PendingFinalization
      with v Pair None have p: "rs_handle y = h" "p \<noteq> InspectFinalize" "w_gw w = GwActive \<or> w_shared w \<and> w_gw w = GwCompleted"
        "row_token tk w \<noteq> Some (w_old w)" "w_limbo w = None" by auto
      have "w_gw w' = GwActive \<or> w_shared w' \<and> w_gw w' = GwCompleted" using s p(3,4) by cases auto
      moreover have "row_token tk w' \<noteq> Some (w_old w')"
        using other_step_token [OF s p(5) assms(3)] p(4) other_step_frame(3) [OF s] by auto
      ultimately show ?thesis using PendingFinalization Pair None p(1,2) other_step_frame(10) [OF s p(5)] by simp
    qed (use v Pair None final in auto)
  qed
qed

lemma undisturbed_verdict: "undisturbed tk (\<lambda>w. begun tk r k w \<and> verdict tk h p x w)"
  using undisturbed_begun [of tk r k] verdict_step [of tk h p x] unfolding undisturbed_def begun_def by blast

lemma undisturbed_held_verdict: "undisturbed tk (\<lambda>w. held tk r k d w \<and> verdict tk h p x w)"
  using undisturbed_held [of tk r k d] verdict_step [of tk h p x] unfolding undisturbed_def held_def by blast

text \<open>An observation of a row that is locked stays true.\<close>

definition seen :: "(DestV1 \<Rightarrow> string option) \<Rightarrow> instant \<Rightarrow> nat \<Rightarrow> DestV1 \<Rightarrow> instant \<Rightarrow> string \<Rightarrow> Observation \<Rightarrow> gw_world \<Rightarrow> bool" where
  "seen tk r k d a token ob w \<longleftrightarrow> held tk r k d w \<and> a \<le> w_clock w \<and> ob_state ob = observed_state (w_gw w)
     \<and> ob_identity ob = identify w token
     \<and> (w_gw w = GwActive \<longrightarrow> a + (ob_retirementDeadline ob - ob_observedAt ob) \<le> r)"

lemma undisturbed_seen: "undisturbed tk (seen tk r k d a token ob)"
proof (rule undisturbedI)
  fix w w' assume w: "seen tk r k d a token ob w" "other_step tk w w'"
  then have h: "held tk r k d w" by (simp add: seen_def)
  with w(2) have "held tk r k d w'" using undisturbed_held unfolding undisturbed_def by blast
  moreover have "w_gw w' = w_gw w" "w_clock w \<le> w_clock w'" "identify w' = identify w"
    using h other_step_frame [OF w(2)] by (auto simp: held_def identify_def fun_eq_iff)
  ultimately show "seen tk r k d a token ob w'" using w(1) by (auto simp: seen_def)
qed (simp add: seen_def held_def)

lemma spec_observe:
  "spec tk (\<lambda>w. held tk r k d w \<and> a \<le> w_clock w) (ObserveRotation E c h token)
     (\<lambda>(ob, e) w. if e = None then seen tk r k d a token ob w else held tk r k d w)"
  unfolding ObserveRotation_def
proof (rule spec_ask)
  show "undisturbed tk (\<lambda>w. held tk r k d w \<and> a \<le> w_clock w)" by (intro undisturbed_clock undisturbed_held)
  show "undisturbed tk ((\<lambda>(ob, e) w. if e = None then seen tk r k d a token ob w else held tk r k d w) x)" for x :: "Observation \<times> gw_error option"
    by (cases x; cases "snd x") (simp_all add: undisturbed_held undisturbed_seen)
  fix x w w' assume w: "held tk r k d w \<and> a \<le> w_clock w" "act tk w (EvObserve h token x) w'"
  obtain ob e where x: "x = (ob, e)" by fastforce
  show "(\<lambda>(ob, e) w. if e = None then seen tk r k d a token ob w else held tk r k d w) x w'"
  proof (cases e)
    case None
    with w(2) x obtain t t' where t: "w_clock w \<le> t" "t \<le> t'" "w' = w\<lparr>w_clock := t'\<rparr>" "ob_state ob = observed_state (w_gw w)"
      "ob_identity ob = identify w token" "w_gw w = GwActive \<longrightarrow> ob_retirementDeadline ob = w_retire w \<and> ob_observedAt ob = t + w_skew w"
      by (auto simp: tick_to_def)
    moreover have "held tk r k d w'" using w(1) t(3) by (auto simp: held_def safe_def row_token_def local_retirement_def)
    moreover have "local_retirement w = r" using w(1) by (simp add: held_def)
    ultimately show ?thesis using w(1) x None by (auto simp: seen_def identify_def local_retirement_def)
  next
    case (Some e')
    with w x show ?thesis by simp
  qed
qed

lemma spec_Now: "undisturbed tk P \<Longrightarrow> spec tk P (time_Now E) (\<lambda>t w. P w \<and> t \<le> w_clock w)"
  unfolding time_Now_def
proof (rule spec_ask)
  fix t w w' assume "undisturbed tk P" "P w" "act tk w (EvNow t) w'"
  then show "P w' \<and> t \<le> w_clock w'" using other_step.tick unfolding undisturbed_def tick_to_def act.simps by fastforce
qed (simp_all add: undisturbed_clock)

text \<open>A deadline that has passed: nothing is requested.\<close>

lemma spec_rollback_passed:
  assumes "undisturbed tk P" "\<And>w. P w \<Longrightarrow> ld \<le> w_clock w"
  shows "spec tk P (rollbackBeforeLocalDeadline E c h ld) (\<lambda>e w. e \<noteq> None \<and> P w)"
proof -
  have "spec tk P (time_Now E) (\<lambda>t w. P w \<and> ld \<le> t)"
    unfolding time_Now_def
  proof (rule spec_ask [OF assms(1) undisturbed_pure [OF assms(1)]])
    fix t w w' assume w: "P w" "act tk w (EvNow t) w'"
    then show "P w' \<and> ld \<le> t" using other_step.tick assms(1) assms(2) [OF w(1)] unfolding undisturbed_def tick_to_def act.simps by fastforce
  qed
  then show ?thesis
    unfolding rollbackBeforeLocalDeadline_def
  proof (rule spec_bind)
    fix now
    show "spec tk (\<lambda>w. P w \<and> ld \<le> now)
       (if IsZero now \<or> IsZero ld \<or> \<not> now < ld then ret (Some RotReconciliationRequired)
        else do {
          b \<leftarrow> BoundedContext E (Some c) (EarliestDeadline (now + gatewayDestinationTokenRotationRecoveryLimit) ld);
          case b of None \<Rightarrow> ret (Some RotReconciliationRequired)
          | Some recoveryCtx \<Rightarrow> do {
              err \<leftarrow> RollbackRotation E recoveryCtx h;
              if err \<noteq> None then ret (Some RotReconciliationRequired)
              else do { e \<leftarrow> ctx_Err E recoveryCtx; ret (if e \<noteq> None then Some RotReconciliationRequired else None) } } })
       (\<lambda>e w. e \<noteq> None \<and> P w)"
    proof (rule spec_pure)
      show "spec tk P
       (if IsZero now \<or> IsZero ld \<or> \<not> now < ld then ret (Some RotReconciliationRequired)
        else do {
          b \<leftarrow> BoundedContext E (Some c) (EarliestDeadline (now + gatewayDestinationTokenRotationRecoveryLimit) ld);
          case b of None \<Rightarrow> ret (Some RotReconciliationRequired)
          | Some recoveryCtx \<Rightarrow> do {
              err \<leftarrow> RollbackRotation E recoveryCtx h;
              if err \<noteq> None then ret (Some RotReconciliationRequired)
              else do { e \<leftarrow> ctx_Err E recoveryCtx; ret (if e \<noteq> None then Some RotReconciliationRequired else None) } } })
       (\<lambda>e w. e \<noteq> None \<and> P w)" if "ld \<le> now" using that by (auto intro!: spec_ret assms(1))
    qed (intro appends_rules)
  qed
qed

text \<open>The rollback of an attempt whose old token the locked row holds.\<close>

lemma observed_state_iff:
  "observed_state g = ActiveWithRetiring \<longleftrightarrow> g = GwActive" "observed_state g = RolledBackState \<longleftrightarrow> g = GwRolledBack"
  "observed_state g = CompletedState \<longleftrightarrow> g = GwCompleted"
  by (cases g; simp add: observed_state_def)+

lemma identify_iff: "identify w t = TokenNew \<longleftrightarrow> t = w_new w" "identify w t = TokenOld \<longleftrightarrow> t = w_old w \<and> t \<noteq> w_new w"
  by (auto simp: identify_def)

lemma undisturbed_held_gw: "undisturbed tk (\<lambda>w. held tk r k d w \<and> w_gw w = g)"
proof (rule undisturbedI)
  fix w w' assume w: "held tk r k d w \<and> w_gw w = g" "other_step tk w w'"
  then have "held tk r k d w'" using undisturbed_held [of tk r k d] unfolding undisturbed_def by blast
  moreover have "w_gw w' = g" using w other_step_frame(14) [OF w(2)] by (simp add: held_def)
  ultimately show "held tk r k d w' \<and> w_gw w' = g" ..
qed (simp add: held_def)

lemma spec_held_rollback:
  assumes old: "ob_state ob = ActiveWithRetiring" "ob_identity ob = TokenOld" and d: "tk d = Some token"
    and ld: "ld \<le> r \<or> ld \<le> a"
  shows "spec tk (seen tk r k d a token ob) (rollbackBeforeLocalDeadline E c h ld)
    (\<lambda>e w. held tk r k d w \<and> (e = None \<longrightarrow> w_gw w = GwRolledBack))"
proof (cases "ld \<le> r")
  case True
  have "spec tk (seen tk r k d a token ob) (rollbackBeforeLocalDeadline E c h ld)
      (\<lambda>e w. if e = None then held tk r k d w \<and> w_gw w = GwRolledBack
             else seen tk r k d a token ob w \<or> held tk r k d w \<and> w_gw w = GwRolledBack)"
  proof (rule spec_rollback [OF undisturbed_seen undisturbed_held_gw])
    fix w assume w: "seen tk r k d a token ob w"
    then have "observed_state (w_gw w) = ActiveWithRetiring" "identify w token = TokenOld" "held tk r k d w"
      using old by (simp_all add: seen_def)
    then have g: "w_gw w = GwActive" "token = w_old w" "w_old w \<noteq> w_new w" by (auto simp: observed_state_iff identify_iff)
    show "w_gw w = GwActive \<and> \<not> w_late w \<and> ld \<le> local_retirement w" using w g True by (simp add: seen_def held_def)
    show "held tk r k d (w\<lparr>w_gw := GwRolledBack\<rparr>) \<and> w_gw (w\<lparr>w_gw := GwRolledBack\<rparr>) = GwRolledBack"
      using \<open>held tk r k d w\<close> g d by (simp add: held_def safe_def row_token_def local_retirement_def)
  qed
  then show ?thesis by (rule spec_conseq) (auto simp: seen_def split: if_splits)
next
  case False
  with ld have "ld \<le> a" by simp
  then have "spec tk (seen tk r k d a token ob) (rollbackBeforeLocalDeadline E c h ld) (\<lambda>e w. e \<noteq> None \<and> seen tk r k d a token ob w)"
    by (intro spec_rollback_passed undisturbed_seen) (simp add: seen_def)
  then show ?thesis by (rule spec_conseq) (auto simp: seen_def)
qed

lemma spec_reconcileLocked:
  assumes d: "tk d = Some token" and p: "p \<noteq> InspectFinalize"
    and ld: "ob_state ob = ActiveWithRetiring \<Longrightarrow> ld \<le> r \<or> ld \<le> a"
  shows "spec tk (seen tk r k d a token ob) (reconcileLocked E c h ob p ld) (\<lambda>x w. held tk r k d w \<and> verdict tk h p x w)"
proof -
  let ?Q = "\<lambda>x w. held tk r k d w \<and> verdict tk h p x w"
  have fail: "spec tk (seen tk r k d a token ob) (ret (zero_result, Some RotReconciliationRequired)) ?Q"
    by (rule spec_ret [OF undisturbed_seen]) (simp add: seen_def)
  have facts: "held tk r k d w" "ob_state ob = observed_state (w_gw w)" "ob_identity ob = identify w token" "row_token tk w = Some token"
    "w_old w \<noteq> w_new w" "w_limbo w = None" if "seen tk r k d a token ob w" for w
    using that d by (auto simp: seen_def held_def safe_def row_token_def)
  have ok: "spec tk (seen tk r k d a token ob) (ret (RotationResult st h, None)) ?Q"
    if "ob_state ob = ActiveWithRetiring \<and> ob_identity ob = TokenNew \<and> st = PendingFinalization
      \<or> ob_state ob = RolledBackState \<and> p = InspectReconcile \<and> st = RolledBack
      \<or> ob_state ob = CompletedState \<and> p = InspectReconcile \<and> st = Completed" for st
  proof (rule spec_ret [OF undisturbed_seen])
    fix w assume "seen tk r k d a token ob w"
    note f = facts [OF this]
    from that f(2,3) have "st = PendingFinalization \<and> w_gw w = GwActive \<and> token = w_new w
      \<or> st = RolledBack \<and> p = InspectReconcile \<and> w_gw w = GwRolledBack \<or> st = Completed \<and> p = InspectReconcile \<and> w_gw w = GwCompleted"
      using observed_state_iff [of "w_gw w"] identify_iff [of w token] by auto
    with f p show "held tk r k d w \<and> verdict tk h p (RotationResult st h, None) w"
      by (auto simp: RotationResult_def)
  qed
  have undo: "spec tk (seen tk r k d a token ob)
      (do { err \<leftarrow> rollbackBeforeLocalDeadline E c (rh_participant h) ld;
            ret (if err \<noteq> None then (zero_result, Some RotReconciliationRequired)
                 else if p = InspectUnknownCAS then (zero_result, Some RotUnavailable)
                 else (RotationResult RolledBack h, None)) }) ?Q"
    if st: "ob_state ob = ActiveWithRetiring" "ob_identity ob = TokenOld"
  proof (rule spec_bind [OF spec_held_rollback [where tk = tk and d = d and token = token, OF st d ld [OF st(1)]]])
    fix err :: "gw_error option"
    have u: "undisturbed tk (\<lambda>w. held tk r k d w \<and> (err = None \<longrightarrow> w_gw w = GwRolledBack))"
      by (cases err) (simp_all add: undisturbed_held undisturbed_held_gw)
    show "spec tk (\<lambda>w. held tk r k d w \<and> (err = None \<longrightarrow> w_gw w = GwRolledBack))
      (ret (if err \<noteq> None then (zero_result, Some RotReconciliationRequired)
            else if p = InspectUnknownCAS then (zero_result, Some RotUnavailable)
            else (RotationResult RolledBack h, None))) ?Q"
      by (rule spec_ret [OF u]) (use p in \<open>auto simp: RotationResult_def intro: purpose.exhaust\<close>)
  qed
  show ?thesis
  proof (cases "ob_state ob")
    case ActiveWithRetiring
    show ?thesis unfolding reconcileLocked_def ActiveWithRetiring ParticipantState.case
      by (rule spec_if [OF fail], cases "ob_identity ob")
        (simp_all only: TokenIdentity.case fail ok undo ActiveWithRetiring simp_thms)
  qed (use fail ok in \<open>auto simp: reconcileLocked_def\<close>)
qed

lemma spec_finalizeLocked:
  assumes d: "tk d = Some token"
  shows "spec tk (seen tk r k d a token ob) (finalizeLocked E c h ob ld) (\<lambda>x w. held tk r k d w \<and> verdict tk h InspectFinalize x w)"
proof -
  let ?Q = "\<lambda>x w. held tk r k d w \<and> verdict tk h InspectFinalize x w"
  have fail: "spec tk (seen tk r k d a token ob) (ret (zero_result, Some e)) ?Q" for e
    by (rule spec_ret [OF undisturbed_seen]) (simp add: seen_def)
  have call: "spec tk (seen tk r k d a token ob) (FinalizeRotation E c (rh_participant h))
      (\<lambda>e w. held tk r k d w \<and> (e = None \<longrightarrow> w_gw w = GwCompleted))"
    if ob: "ob_identity ob = TokenNew" unfolding FinalizeRotation_def
  proof (rule spec_ask [OF undisturbed_seen])
    show "undisturbed tk (\<lambda>w. held tk r k d w \<and> (e = None \<longrightarrow> w_gw w = GwCompleted))" for e :: "gw_error option"
      by (cases e) (simp_all add: undisturbed_held undisturbed_held_gw)
    fix e w w' assume w: "seen tk r k d a token ob w" "act tk w (EvFinalize (rh_participant h) e) w'"
    from w(1) ob have s: "held tk r k d w" "token = w_new w" by (auto simp: seen_def identify_def split: if_splits)
    then have "held tk r k d (w\<lparr>w_gw := GwCompleted\<rparr>)" using d by (auto simp: held_def safe_def row_token_def local_retirement_def)
    with s w(2) show "held tk r k d w' \<and> (e = None \<longrightarrow> w_gw w' = GwCompleted)" by auto
  qed
  have fin: "spec tk (seen tk r k d a token ob)
      (do { err \<leftarrow> FinalizeRotation E c (rh_participant h);
            ret (case err of
                   None \<Rightarrow> (RotationResult Completed h, None)
                 | Some e \<Rightarrow> (zero_result, Some (if e \<in> {RotCanceled, RotDeadlineExceeded, RotUnavailable} then e
                                                else RotReconciliationRequired))) }) ?Q"
    if "ob_identity ob = TokenNew"
  proof (rule spec_bind [OF call [OF that]])
    fix err :: "gw_error option"
    have u: "undisturbed tk (\<lambda>w. held tk r k d w \<and> (err = None \<longrightarrow> w_gw w = GwCompleted))"
      by (cases err) (simp_all add: undisturbed_held undisturbed_held_gw)
    show "spec tk (\<lambda>w. held tk r k d w \<and> (err = None \<longrightarrow> w_gw w = GwCompleted))
      (ret (case err of
              None \<Rightarrow> (RotationResult Completed h, None)
            | Some e \<Rightarrow> (zero_result, Some (if e \<in> {RotCanceled, RotDeadlineExceeded, RotUnavailable} then e
                                            else RotReconciliationRequired)))) ?Q"
      by (rule spec_ret [OF u]) (auto simp: RotationResult_def split: option.split)
  qed
  have err: "spec tk (seen tk r k d a token ob) (ret (zero_result, x)) ?Q" if "x \<noteq> None" for x using fail that by auto
  show ?thesis
    unfolding finalizeLocked_def
    by (intro spec_if fail spec_quiet_bind quiet_rules undisturbed_seen err fin) auto
qed

lemma observationLocalDeadline_bound:
  assumes "observationLocalDeadline ob p a uld eg = Some ld" "ob_state ob = ActiveWithRetiring"
    and "p = InspectUnknownCAS \<Longrightarrow> uld \<le> r" "a + (ob_retirementDeadline ob - ob_observedAt ob) \<le> r"
  shows "ld \<le> r \<or> ld \<le> a"
proof (cases "p = InspectUnknownCAS")
  case True
  with assms show ?thesis by (auto simp: observationLocalDeadline_def Let_def split: if_splits)
next
  case False
  define x where "x = ob_retirementDeadline ob - ob_observedAt ob"
  have "ld = a + Sub (ob_retirementDeadline ob) (ob_observedAt ob)" "Sub (ob_retirementDeadline ob) (ob_observedAt ob) \<le> 24 * Hour"
    using assms(1,2) False by (auto simp: observationLocalDeadline_def Let_def split: if_splits)
  then have "ld = a + max (- (2 ^ 63)) (min (2 ^ 63 - 1) x)" "max (- (2 ^ 63)) (min (2 ^ 63 - 1) x) \<le> 24 * Hour"
    by (simp_all add: Sub_def x_def)
  with assms(4) show ?thesis unfolding x_def [symmetric] by (auto simp: max_def min_def split: if_splits)
qed

lemma spec_inspect_row:
  fixes L co
  defines "tk \<equiv> tokenFromAuthoritativeDestination L (co_matcher co)"
  assumes uld: "p = InspectUnknownCAS \<Longrightarrow> uld \<le> r"
  shows "spec tk (held tk r k d) (inspect_row L E co h p uld eg c d) (\<lambda>x w. held tk r k d w \<and> verdict tk h p x w)"
proof -
  let ?Q = "\<lambda>x w. held tk r k d w \<and> verdict tk h p x w"
  have fail: "spec tk P (ret (zero_result, Some RotReconciliationRequired)) ?Q"
    if "undisturbed tk P" "\<And>w. P w \<Longrightarrow> held tk r k d w" for P by (rule spec_ret) (use that in simp_all)
  have judge: "spec tk (seen tk r k d a token ob)
      (case observationLocalDeadline ob p a uld eg of
         None \<Rightarrow> ret (zero_result, Some RotReconciliationRequired)
       | Some ld \<Rightarrow> (case p of InspectFinalize \<Rightarrow> finalizeLocked E c h ob ld | _ \<Rightarrow> reconcileLocked E c h ob p ld)) ?Q"
    if d: "tk d = Some token" for token a ob
  proof (rule spec_option [OF fail [OF undisturbed_seen]])
    fix ld assume ld: "observationLocalDeadline ob p a uld eg = Some ld"
    let ?c = "ob_state ob = ActiveWithRetiring \<longrightarrow> a + (ob_retirementDeadline ob - ob_observedAt ob) \<le> r"
    have "appends (rollbackBeforeLocalDeadline E c x ld)" for x
      unfolding rollbackBeforeLocalDeadline_def by (intro appends_rules)
    then have app: "appends (case p of InspectFinalize \<Rightarrow> finalizeLocked E c h ob ld | _ \<Rightarrow> reconcileLocked E c h ob p ld)"
      unfolding finalizeLocked_def reconcileLocked_def
      by (auto intro!: appends_rules split: purpose.split ParticipantState.split TokenIdentity.split)
    have "spec tk (\<lambda>w. seen tk r k d a token ob w \<and> ?c)
        (case p of InspectFinalize \<Rightarrow> finalizeLocked E c h ob ld | _ \<Rightarrow> reconcileLocked E c h ob p ld) ?Q"
    proof (rule spec_pure [OF app])
      assume c: ?c
      have "ld \<le> r \<or> ld \<le> a" if "ob_state ob = ActiveWithRetiring"
        using observationLocalDeadline_bound [OF ld that uld] c that by simp
      then show "spec tk (seen tk r k d a token ob) (case p of InspectFinalize \<Rightarrow> finalizeLocked E c h ob ld | _ \<Rightarrow> reconcileLocked E c h ob p ld) ?Q"
        using spec_finalizeLocked [where tk = tk and d = d and token = token and h = h, OF d]
          spec_reconcileLocked [where tk = tk and d = d and token = token and h = h and p = p, OF d] by (cases p) simp_all
    qed
    then show "spec tk (seen tk r k d a token ob) (case p of InspectFinalize \<Rightarrow> finalizeLocked E c h ob ld | _ \<Rightarrow> reconcileLocked E c h ob p ld) ?Q"
      by (rule spec_conseq) (auto simp: seen_def observed_state_iff)
  qed (simp add: seen_def)
  have look: "spec tk (held tk r k d)
      (do { a \<leftarrow> time_Now E;
            (ob, err) \<leftarrow> ObserveRotation E c (rh_participant h) token;
            if err \<noteq> None \<or> \<not> observation_valid ob then ret (zero_result, Some RotReconciliationRequired)
            else case observationLocalDeadline ob p a uld eg of
                   None \<Rightarrow> ret (zero_result, Some RotReconciliationRequired)
                 | Some ld \<Rightarrow> (case p of InspectFinalize \<Rightarrow> finalizeLocked E c h ob ld | _ \<Rightarrow> reconcileLocked E c h ob p ld) }) ?Q"
    if d: "tk d = Some token" for token
  proof (rule spec_bind [OF spec_Now [OF undisturbed_held] spec_bind [OF spec_observe]])
    fix a and x :: "Observation \<times> gw_error option"
    obtain ob err where x: "x = (ob, err)" by fastforce
    show "spec tk ((\<lambda>(ob, e) w. if e = None then seen tk r k d a token ob w else held tk r k d w) x)
      (case x of (ob, err) \<Rightarrow> if err \<noteq> None \<or> \<not> observation_valid ob then ret (zero_result, Some RotReconciliationRequired)
            else case observationLocalDeadline ob p a uld eg of
                   None \<Rightarrow> ret (zero_result, Some RotReconciliationRequired)
                 | Some ld \<Rightarrow> (case p of InspectFinalize \<Rightarrow> finalizeLocked E c h ob ld | _ \<Rightarrow> reconcileLocked E c h ob p ld)) ?Q"
    proof (cases err)
      case None
      have "spec tk (seen tk r k d a token ob)
        (if \<not> observation_valid ob then ret (zero_result, Some RotReconciliationRequired)
         else case observationLocalDeadline ob p a uld eg of
                None \<Rightarrow> ret (zero_result, Some RotReconciliationRequired)
              | Some ld \<Rightarrow> (case p of InspectFinalize \<Rightarrow> finalizeLocked E c h ob ld | _ \<Rightarrow> reconcileLocked E c h ob p ld)) ?Q"
        by (rule spec_if [OF fail [OF undisturbed_seen] judge [OF d]]) (simp add: seen_def)
      with x None show ?thesis by simp
    next
      case (Some e)
      with x fail [OF undisturbed_held] show ?thesis by simp
    qed
  qed
  have failed: "spec tk (held tk r k d) (ret (zero_result, Some RotReconciliationRequired)) ?Q"
    by (rule fail [OF undisturbed_held])
  show ?thesis
    unfolding inspect_row_def
  proof (rule spec_quiet_bind [OF quiet_ValidLockContext undisturbed_held], rule spec_if [OF failed])
    show "spec tk (held tk r k d)
      (case tokenFromAuthoritativeDestination L (co_matcher co) d of
         None \<Rightarrow> ret (zero_result, Some RotReconciliationRequired)
       | Some token \<Rightarrow> do {
            a \<leftarrow> time_Now E;
            (ob, err) \<leftarrow> ObserveRotation E c (rh_participant h) token;
            if err \<noteq> None \<or> \<not> observation_valid ob then ret (zero_result, Some RotReconciliationRequired)
            else case observationLocalDeadline ob p a uld eg of
                   None \<Rightarrow> ret (zero_result, Some RotReconciliationRequired)
                 | Some ld \<Rightarrow> (case p of InspectFinalize \<Rightarrow> finalizeLocked E c h ob ld | _ \<Rightarrow> reconcileLocked E c h ob p ld) }) ?Q"
      by (rule spec_option [OF failed look]) (simp add: tk_def)
  qed
qed

lemma spec_select:
  "spec tk (begun tk r k) (ContactMethodFindOneUpdate E c cm)
     (\<lambda>x w. case x of Inl _ \<Rightarrow> begun tk r k w | Inr d \<Rightarrow> held tk r k d w)"
  unfolding ContactMethodFindOneUpdate_def
proof (rule spec_ask [OF undisturbed_begun])
  show "undisturbed tk (\<lambda>w. case x of Inl _ \<Rightarrow> begun tk r k w | Inr d \<Rightarrow> held tk r k d w)" for x :: "db_error + DestV1"
    by (cases x) (simp_all add: undisturbed_begun undisturbed_held)
  fix x w w' assume "begun tk r k w" "act tk w (EvSelect cm x) w'"
  then show "case x of Inl _ \<Rightarrow> begun tk r k w' | Inr d \<Rightarrow> held tk r k d w'"
    by (cases x) (auto simp: begun_def held_def row_free_def safe_def row_token_def local_retirement_def)
qed

lemma spec_release: "spec tk (begun tk r k) (tx_Rollback E) (\<lambda>_. begun tk r k)"
  unfolding tx_Rollback_def
proof (rule spec_ask [OF undisturbed_begun undisturbed_begun])
  fix x w w' assume w: "begun tk r k w" "act tk w (EvTxRollback x) w'"
  then have "w' = w" by (cases x) (auto simp: begun_def abandon_def)
  with w show "begun tk r k w'" by simp
qed

lemma verdict_cong:
  "w_gw w' = w_gw w \<Longrightarrow> w_shared w' = w_shared w \<Longrightarrow> w_row w' = w_row w \<Longrightarrow> w_old w' = w_old w \<Longrightarrow> w_limbo w' = w_limbo w
     \<Longrightarrow> verdict tk h p x w' = verdict tk h p x w"
  by (cases "(tk, h, p, x, w)" rule: verdict.cases) (auto simp: row_token_def split: Status.split)

lemma spec_release_held:
  "spec tk (\<lambda>w. held tk r k d w \<and> verdict tk h p x w) (tx_Rollback E) (\<lambda>_ w. begun tk r k w \<and> verdict tk h p x w)"
  unfolding tx_Rollback_def
proof (rule spec_ask [OF undisturbed_held_verdict undisturbed_verdict])
  fix e w w' assume w: "held tk r k d w \<and> verdict tk h p x w" "act tk w (EvTxRollback e) w'"
  then have w': "w' = w\<lparr>w_lock := False\<rparr>" by (cases e) (auto simp: held_def abandon_def)
  have "begun tk r k w'" using w(1) w' by (auto simp: begun_def held_def safe_def row_token_def local_retirement_def)
  moreover have "verdict tk h p x w' = verdict tk h p x w" by (rule verdict_cong) (simp_all add: w')
  ultimately show "begun tk r k w' \<and> verdict tk h p x w'" using w(1) by simp
qed

lemma spec_locked_tx:
  assumes inspect: "\<And>c d. spec tk (held tk r k d) (inspect c d) (\<lambda>x w. held tk r k d w \<and> verdict tk h p x w)"
  shows "spec tk (begun tk r k) (locked_tx E c dl cm inspect)
    (\<lambda>(e, x) w. begun tk r k w \<and> (case x of None \<Rightarrow> True | Some x \<Rightarrow> verdict tk h p x w))"
proof -
  let ?Q = "\<lambda>(e, x) w. begun tk r k w \<and> (case x of None \<Rightarrow> True | Some x \<Rightarrow> verdict tk h p x w)"
  have fin: "spec tk (\<lambda>w. begun tk r k w \<and> verdict tk h p x w) (ret (e, Some x)) ?Q" for e :: "gw_error option" and x
    by (rule spec_ret [OF undisturbed_verdict]) simp
  have discard: "spec tk (\<lambda>w. begun tk r k w \<and> verdict tk h p x w)
      (do { _ \<leftarrow> DiscardBefore E dl; ret (Some RotReconciliationRequired, Some x) }) ?Q" for x
    by (rule spec_quiet_bind [OF quiet_DiscardBefore undisturbed_verdict fin])
  have none: "spec tk (begun tk r k) (ret (Some RotReconciliationRequired, None)) ?Q"
    by (rule spec_ret [OF undisturbed_begun]) simp
  have failed: "spec tk (begun tk r k)
      (do { err \<leftarrow> tx_Rollback E;
            ctxErr \<leftarrow> (if err \<noteq> None then ret None else RotContextError E c);
            if err \<noteq> None \<or> ctxErr \<noteq> None
            then do { _ \<leftarrow> DiscardBefore E dl; ret (Some RotReconciliationRequired, None) }
            else ret (Some RotReconciliationRequired, None) }) ?Q"
    by (rule spec_bind [OF spec_release], intro spec_quiet_bind spec_if none quiet_rules undisturbed_begun)
  have row: "spec tk (held tk r k d)
      (do { x \<leftarrow> inspect c d;
            err \<leftarrow> tx_Rollback E;
            if err \<noteq> None then do { _ \<leftarrow> DiscardBefore E dl; ret (Some RotReconciliationRequired, Some x) }
            else do {
              ctxErr \<leftarrow> RotContextError E c;
              if ctxErr \<noteq> None then do { _ \<leftarrow> DiscardBefore E dl; ret (Some RotReconciliationRequired, Some x) }
              else ret (None, Some x) } }) ?Q" for d
    by (rule spec_bind [OF inspect], rule spec_bind [OF spec_release_held], rule spec_if [OF discard],
      rule spec_quiet_bind [OF quiet_context_errors(2) undisturbed_verdict], rule spec_if [OF discard fin])
  show ?thesis unfolding locked_tx_def
  proof (rule spec_bind [OF spec_select])
    fix x :: "db_error + DestV1"
    show "spec tk (\<lambda>w. case x of Inl _ \<Rightarrow> begun tk r k w | Inr d \<Rightarrow> held tk r k d w)
      (case x of
         Inl _ \<Rightarrow> do { err \<leftarrow> tx_Rollback E;
            ctxErr \<leftarrow> (if err \<noteq> None then ret None else RotContextError E c);
            if err \<noteq> None \<or> ctxErr \<noteq> None
            then do { _ \<leftarrow> DiscardBefore E dl; ret (Some RotReconciliationRequired, None) }
            else ret (Some RotReconciliationRequired, None) }
       | Inr d \<Rightarrow> do { x \<leftarrow> inspect c d;
            err \<leftarrow> tx_Rollback E;
            if err \<noteq> None then do { _ \<leftarrow> DiscardBefore E dl; ret (Some RotReconciliationRequired, Some x) }
            else do {
              ctxErr \<leftarrow> RotContextError E c;
              if ctxErr \<noteq> None then do { _ \<leftarrow> DiscardBefore E dl; ret (Some RotReconciliationRequired, Some x) }
              else ret (None, Some x) } }) ?Q"
      by (cases x) (simp_all only: sum.case failed row)
  qed
qed

lemma spec_WithLocked:
  assumes inspect: "\<And>c d. spec tk (held tk r k d) (inspect c d) (\<lambda>x w. held tk r k d w \<and> verdict tk h p x w)"
  shows "spec tk (begun tk r k) (WithLockedGatewayDestination E c cm inspect)
    (\<lambda>(e, x) w. begun tk r k w \<and> (case x of None \<Rightarrow> True | Some x \<Rightarrow> verdict tk h p x w))"
proof -
  let ?Q = "\<lambda>(e, x) w. begun tk r k w \<and> (case x of None \<Rightarrow> True | Some x \<Rightarrow> verdict tk h p x w)"
  have none: "spec tk (begun tk r k) (ret (Some RotReconciliationRequired, None)) ?Q"
    by (rule spec_ret [OF undisturbed_begun]) simp
  have u: "undisturbed tk (?Q z)" for z :: "gw_error option \<times> (Result \<times> gw_error option) option"
    by (cases z; cases "snd z") (simp_all add: undisturbed_begun undisturbed_verdict)
  have close: "spec tk (?Q z) (do { conn_Close; ret z }) ?Q" for z :: "gw_error option \<times> (Result \<times> gw_error option) option"
    by (rule spec_quiet_bind [OF quiet_reads(6) u], rule spec_ret [OF u])
  have tx: "spec tk (begun tk r k) (do { z \<leftarrow> locked_tx E oc dl cm inspect; conn_Close; ret z }) ?Q" for oc dl
    by (rule spec_bind [OF spec_locked_tx [OF inspect] close])
  have drop: "spec tk (begun tk r k) (do { _ \<leftarrow> DiscardBefore E dl; conn_Close; ret (Some RotReconciliationRequired, None) }) ?Q" for dl
    by (intro spec_quiet_bind quiet_rules undisturbed_begun none)
  show ?thesis
    unfolding WithLockedGatewayDestination_def Let_def
    by (intro spec_if none spec_option spec_prod drop tx
      spec_quiet_bind [OF quiet_OperationContext undisturbed_begun] spec_quiet_bind [OF quiet_reads(3) undisturbed_begun]
      spec_quiet_bind [OF quiet_reads(4) undisturbed_begun])
qed

lemma spec_inspectLocked:
  fixes L co
  defines "tk \<equiv> tokenFromAuthoritativeDestination L (co_matcher co)"
  assumes "p = InspectUnknownCAS \<Longrightarrow> uld \<le> r"
  shows "spec tk (begun tk r k) (inspectLocked L E co c h p uld eg) (\<lambda>x w. begun tk r k w \<and> verdict tk h p x w)"
proof -
  have i: "spec tk (held tk r k d) (inspect_row L E co h p uld eg c d) (\<lambda>x w. held tk r k d w \<and> verdict tk h p x w)" for c d
    unfolding tk_def by (rule spec_inspect_row [OF assms(2)])
  let ?Q = "\<lambda>(e, x) w. begun tk r k w \<and> (case x of None \<Rightarrow> True | Some x \<Rightarrow> verdict tk h p x w)"
  have u: "undisturbed tk (?Q z)" for z :: "gw_error option \<times> (Result \<times> gw_error option) option"
    by (cases z; cases "snd z") (simp_all add: undisturbed_begun undisturbed_verdict)
  show ?thesis
    unfolding inspectLocked_def
  proof (rule spec_bind [OF spec_WithLocked [OF i]])
    fix z :: "gw_error option \<times> (Result \<times> gw_error option) option"
    show "spec tk (?Q z)
      (case z of (storeErr, r) \<Rightarrow>
        ret (case r of
            None \<Rightarrow> ReconciliationResult h
          | Some (result, operationErr) \<Rightarrow>
              if storeErr \<noteq> None then ReconciliationResult h
              else (case operationErr of
                      None \<Rightarrow> (result, None)
                    | Some e \<Rightarrow> if e = RotReconciliationRequired then ReconciliationResult h
                                else (zero_result, Some e)))) (\<lambda>x w. begun tk r k w \<and> verdict tk h p x w)"
      using u [of z] by (cases z)
        (auto intro!: spec_ret simp: ReconciliationResult_def split: option.split prod.split)
  qed
qed

end
