(* ===== verification/GatewayStart.thy ===== *)
theory GatewayStart
  imports GatewayInspect
begin

section \<open>Starting a rotation is safe\<close>

text \<open>The parts of \<open>Start\<close>, from the last to the first, and the common part of \<open>Reconcile\<close> and \<open>Finalize\<close>.\<close>

subsection \<open>Starting a rotation\<close>

lemma act_shared: "act tk w e w' \<Longrightarrow> w_shared w' = w_shared w"
  by (cases "(tk, w, e, w')" rule: act.cases)
    (auto simp: tick_to_def activate_def abandon_def Let_def split: option.splits)

lemma explains_shared: "explains tk w es w' \<Longrightarrow> w_shared w' = w_shared w"
proof (induction es arbitrary: w)
  case Nil
  then have "others tk w w'" by simp
  then show ?case by (induction rule: rtranclp_induct) (auto dest: other_step_frame(1))
next
  case (Cons e es)
  then obtain w1 w2 where w: "others tk w w1" "act tk w1 e w2" "explains tk w2 es w'" by auto
  from w(1) have "w_shared w1 = w_shared w" by (induction rule: rtranclp_induct) (auto dest: other_step_frame(1))
  with Cons.IH [OF w(3)] act_shared [OF w(2)] show ?case by simp
qed

lemma spec_unshared: "spec tk P m Q \<Longrightarrow> spec tk (\<lambda>w. P w \<and> \<not> w_shared w) m (\<lambda>a w. Q a w \<and> \<not> w_shared w)"
  unfolding spec_def using explains_shared by meson

lemma undisturbed_ex: "(\<And>x. undisturbed tk (P x)) \<Longrightarrow> undisturbed tk (\<lambda>w. \<exists>x. P x w)"
  unfolding undisturbed_def by blast

lemma spec_ex:
  assumes "\<And>x. spec tk (P x) m Q"
  shows "spec tk (\<lambda>w. \<exists>x. P x w) m Q"
  unfolding spec_def
proof (intro allI impI)
  fix log a log' assume r: "run_state m log = (a, log')"
  have "\<exists>es. log' = log @ es \<and> (\<forall>w. P x w \<longrightarrow> (\<forall>es1 es2 w'. es = es1 @ es2 \<longrightarrow> explains tk w es1 w' \<longrightarrow> safe tk w')
      \<and> (\<forall>w'. explains tk w es w' \<longrightarrow> Q a w'))" for x
    using assms [of x, unfolded spec_def, rule_format, OF r] .
  then show "\<exists>es. log' = log @ es \<and> (\<forall>w. (\<exists>x. P x w) \<longrightarrow> (\<forall>es1 es2 w'. es = es1 @ es2 \<longrightarrow> explains tk w es1 w' \<longrightarrow> safe tk w')
      \<and> (\<forall>w'. explains tk w es w' \<longrightarrow> Q a w'))" by (metis same_append_eq)
qed

text \<open>What the result of \<open>Start\<close> says.\<close>

definition start_post :: "(DestV1 \<Rightarrow> string option) \<Rightarrow> Result \<times> gw_error option \<Rightarrow> gw_world \<Rightarrow> bool" where
  "start_post tk x w \<longleftrightarrow> safe tk w \<and> \<not> w_late w \<and> w_swaps w \<le> 1 \<and>
     (case snd x of
        None \<Rightarrow> rs_status (fst x) = PendingFinalization \<and> w_gw w = GwActive \<and> row_free w \<and> row_token tk w \<noteq> Some (w_old w)
      | Some e \<Rightarrow> e = RotReconciliationRequired \<or> w_gw w \<in> {GwIdle, GwRolledBack} \<and> row_free w)"

lemma start_post_reconcile: "safe tk w \<Longrightarrow> \<not> w_late w \<Longrightarrow> w_swaps w \<le> 1 \<Longrightarrow> start_post tk (ReconciliationResult h) w"
  by (simp add: start_post_def ReconciliationResult_def)

lemma spec_give_up:
  assumes "undisturbed tk P" "\<And>w. P w \<Longrightarrow> safe tk w \<and> \<not> w_late w \<and> w_swaps w \<le> 1"
  shows "spec tk P (ret (ReconciliationResult h)) (start_post tk)"
  by (rule spec_ret [OF assms(1)]) (use assms(2) start_post_reconcile in blast)

lemma spec_activated_rollback:
  assumes "ld \<le> r"
  shows "spec tk (activated tk n r k) (rollbackBeforeLocalDeadline E c h ld)
    (\<lambda>e w. if e = None then undone tk k w else activated tk n r k w \<or> undone tk k w)"
proof (rule spec_rollback [OF undisturbed_activated undisturbed_undone])
  fix w assume w: "activated tk n r k w"
  then show "w_gw w = GwActive \<and> \<not> w_late w \<and> ld \<le> local_retirement w" using assms by (simp add: activated_def ours_def)
  show "undone tk k (w\<lparr>w_gw := GwRolledBack\<rparr>)"
    using w by (auto simp: activated_def ours_def undone_def safe_def row_free_def row_token_def)
qed

text \<open>After a rollback that was confirmed the error \<open>e\<close> is reported, otherwise reconciliation.\<close>

lemma spec_after_rollback:
  assumes "k \<le> 1" "e \<noteq> RotReconciliationRequired"
  shows "spec tk (\<lambda>w. if err = None then undone tk k w else activated tk n r k w \<or> undone tk k w)
    (ret (if err = None then (zero_result, Some e) else ReconciliationResult h)) (start_post tk)"
proof (cases err)
  case None
  have "spec tk (undone tk k) (ret (zero_result, Some e)) (start_post tk)"
    by (rule spec_ret [OF undisturbed_undone]) (use assms in \<open>auto simp: start_post_def undone_def\<close>)
  with None show ?thesis by simp
next
  case (Some e')
  have "spec tk (\<lambda>w. activated tk n r k w \<or> undone tk k w) (ret (ReconciliationResult h)) (start_post tk)"
    by (rule spec_give_up [OF undisturbed_disj [OF undisturbed_activated undisturbed_undone]])
      (use assms(1) in \<open>auto simp: activated_def ours_def undone_def\<close>)
  with Some show ?thesis by simp
qed

lemma spec_abort:
  assumes "ld \<le> r" "k \<le> 1" "e \<noteq> RotReconciliationRequired"
  shows "spec tk (activated tk n r k) (abort E c h ld e) (start_post tk)"
  unfolding abort_def
  by (rule spec_bind [OF spec_activated_rollback [OF assms(1)] spec_after_rollback [OF assms(2,3)]])

lemma appends_rotation [appends_rules]:
  "appends (rollbackBeforeLocalDeadline E c h' ld)"
  unfolding rollbackBeforeLocalDeadline_def by (intro appends_rules)

lemma appends_abort [appends_rules]: "appends (abort E c h ld e)"
  unfolding abort_def by (intro appends_rules)

lemma appends_inspect_row [appends_rules]: "appends (inspect_row L E co h p x y c d)"
  unfolding inspect_row_def finalizeLocked_def reconcileLocked_def
  by (auto intro!: appends_rules split: purpose.split ParticipantState.split TokenIdentity.split)

lemma appends_WithLocked: "(\<And>c d. appends (inspect c d)) \<Longrightarrow> appends (WithLockedGatewayDestination E c cm inspect)"
  unfolding WithLockedGatewayDestination_def locked_tx_def Let_def by (intro appends_rules)

lemma appends_inspectLocked [appends_rules]: "appends (inspectLocked L E co c h p x y)"
  unfolding inspectLocked_def by (intro appends_rules appends_WithLocked)

lemma appends_recover [appends_rules]: "appends (recoverUnknownCAS L E co c h x y)"
  unfolding recoverUnknownCAS_def by (intro appends_rules)

lemma unsettled_begun: "unsettled tk n r k w \<Longrightarrow> begun tk r k w \<and> \<not> w_shared w"
  by (auto simp: unsettled_def ours_def begun_def)

lemma verdict_start:
  assumes "begun tk r 1 w" "verdict tk h InspectUnknownCAS x w" "\<not> w_shared w"
  shows "start_post tk x w"
proof -
  have b: "safe tk w" "\<not> w_late w" "w_swaps w \<le> 1" "\<not> w_lock w" "w_pend w = None" using assms(1) by (auto simp: begun_def)
  have lim: "w_limbo w = None" if "w_gw w = GwRolledBack" using b(1) that by (cases "w_limbo w") (auto simp: safe_def)
  obtain y e where x: "x = (y, e)" by fastforce
  show ?thesis
  proof (cases e)
    case None
    then show ?thesis using assms(2,3) b x by (auto simp: start_post_def row_free_def split: Status.splits)
  next
    case (Some e')
    then show ?thesis using assms(2) b lim x by (auto simp: start_post_def row_free_def)
  qed
qed

lemma spec_recover:
  fixes L co
  defines "tk \<equiv> tokenFromAuthoritativeDestination L (co_matcher co)"
  assumes "ld \<le> r"
  shows "spec tk (unsettled tk n r 1) (recoverUnknownCAS L E co c h ld eg) (start_post tk)"
proof -
  have give_up: "spec tk (unsettled tk n r 1) (ret (ReconciliationResult h)) (start_post tk)"
    by (rule spec_give_up [OF undisturbed_unsettled]) (simp add: unsettled_def ours_def)
  have inspect: "spec tk (unsettled tk n r 1) (inspectLocked L E co b h InspectUnknownCAS ld eg) (start_post tk)" for b
  proof -
    have "spec tk (begun tk r 1) (inspectLocked L E co b h InspectUnknownCAS ld eg)
        (\<lambda>x w. begun tk r 1 w \<and> verdict tk h InspectUnknownCAS x w)"
      unfolding tk_def by (rule spec_inspectLocked) (use assms(2) in simp)
    from spec_unshared [OF this] show ?thesis
    proof (rule spec_conseq)
      fix w assume "unsettled tk n r 1 w" then show "begun tk r 1 w \<and> \<not> w_shared w" by (rule unsettled_begun)
    next
      fix a w assume "(begun tk r 1 w \<and> verdict tk h InspectUnknownCAS a w) \<and> \<not> w_shared w"
      then show "start_post tk a w" using verdict_start by blast
    qed
  qed
  show ?thesis unfolding recoverUnknownCAS_def
    by (rule spec_quiet_bind [OF quiet_detached undisturbed_unsettled], rule spec_option [OF give_up inspect])
qed

lemma SafeCASError_range: "SafeCASError e = Some e' \<Longrightarrow> e' \<noteq> RotReconciliationRequired"
  by (cases e) auto

lemma start_post_swapped: "swapped tk n r 1 w \<Longrightarrow> start_post tk (RotationResult PendingFinalization h, None) w"
  by (auto simp: swapped_def ours_def start_post_def RotationResult_def)

lemma spec_start_swap:
  fixes L co
  defines "tk \<equiv> tokenFromAuthoritativeDestination L (co_matcher co)"
  assumes "ld \<le> r" "pa_newToken attempt = n"
  shows "spec tk (activated tk n r 0) (start_swap L E co c cc req h attempt ld) (start_post tk)"
proof -
  let ?f = "\<lambda>casErr casContextErr.
     (case casErr of
       None \<Rightarrow>
         ret (if casContextErr = None then (RotationResult PendingFinalization h, None) else ReconciliationResult h)
     | Some e \<Rightarrow>
         (case SafeCASError e of
            Some safeErr \<Rightarrow> abort E c h ld safeErr
          | None \<Rightarrow>
              if e = CASOutcomeUnknown
              then recoverUnknownCAS L E co c h ld (pa_retirementDeadline attempt)
              else ret (ReconciliationResult h)))"
  have done_: "spec tk (swapped tk n r 1)
      (ret (if x = None then (RotationResult PendingFinalization h, None) else ReconciliationResult h)) (start_post tk)"
    for x :: "gw_error option"
    using start_post_swapped [of tk n r] start_post_reconcile [of tk]
    by (intro spec_ret undisturbed_swapped) (auto simp: swapped_def ours_def)
  have give_up: "spec tk (unsettled tk n r 1) (ret (ReconciliationResult h)) (start_post tk)"
    by (rule spec_give_up [OF undisturbed_unsettled]) (simp add: unsettled_def ours_def)
  have recover: "spec tk (unsettled tk n r 1) (recoverUnknownCAS L E co c h ld eg) (start_post tk)" for eg
    unfolding tk_def by (rule spec_recover [OF assms(2)])
  have f: "spec tk (cas_post tk n r err) (?f err x) (start_post tk)" for err and x :: "gw_error option"
  proof (cases err)
    case None
    have "cas_post tk n r None = swapped tk n r 1" by (simp add: fun_eq_iff)
    with done_ [of x] None show ?thesis by (simp only: option.case)
  next
    case (Some e)
    show ?thesis
    proof (cases "SafeCASError e")
      case None
      then have "cas_post tk n r (Some e) = unsettled tk n r 1" by (simp add: fun_eq_iff)
      with Some None give_up recover [of "pa_retirementDeadline attempt"] show ?thesis by (simp only: option.case simp_thms split: if_split)
    next
      case (Some e')
      have "spec tk (activated tk n r 1) (abort E c h ld e') (start_post tk)"
        by (rule spec_abort [OF assms(2) order_refl SafeCASError_range [OF Some]])
      moreover have "cas_post tk n r (Some e) = activated tk n r 1" using Some by (simp add: fun_eq_iff)
      ultimately show ?thesis using Some \<open>err = Some e\<close> by (simp only: option.case)
    qed
  qed
  show ?thesis unfolding start_swap_def
  proof (rule spec_bind)
    show "spec tk (activated tk n r 0) (FencedCAS_CompareAndSwap L (co_matcher co) E cc
        \<lparr>cr_contactMethodID = sr_contactMethodID req, cr_expectedURL = sr_expectedURL req, cr_replacementToken = pa_newToken attempt\<rparr>)
        (cas_post tk n r)"
      unfolding tk_def by (rule spec_CompareAndSwap) (use assms(3) in simp)
    show "spec tk (cas_post tk n r err) (RotContextError E cc \<bind> ?f err) (start_post tk)" for err
      by (rule spec_quiet_bind [OF quiet_context_errors(2) undisturbed_cas_post f])
  qed
qed

text \<open>A valid interval is measured exactly.\<close>

lemma LocalDeadline_exact:
  assumes "LocalDeadline a s d = Some ld"
  shows "ld = a + (d - s)"
proof -
  have "0 < Sub d s" "Sub d s \<le> 24 * Hour" using assms by (auto simp: LocalDeadline_def ValidInterval_def Let_def split: if_splits)
  then have "Sub d s = d - s" by (auto simp: Sub_def min_def max_def split: if_splits)
  with assms show ?thesis by (auto simp: LocalDeadline_def split: if_splits)
qed

lemma appends_start_swap [appends_rules]: "appends (start_swap L E co c cc req h attempt ld)"
  unfolding start_swap_def FencedCAS_CompareAndSwap_def compareAndSwapWithFence_def Let_def by (intro appends_rules)

lemma spec_start_activated:
  fixes L co
  defines "tk \<equiv> tokenFromAuthoritativeDestination L (co_matcher co)"
  assumes "a + (pa_retirementDeadline attempt - pa_activatedAt attempt) \<le> r" "pa_newToken attempt = n"
    and "ce \<in> {None, Some RotCanceled, Some RotDeadlineExceeded}"
  shows "spec tk (activated tk n r 0) (start_activated L E co c req h attempt a ce) (start_post tk)"
proof -
  note A = undisturbed_activated [of tk n r 0]
  have give_up: "spec tk (activated tk n r 0) (ret (ReconciliationResult h)) (start_post tk)"
    by (rule spec_give_up [OF A]) (simp add: activated_def ours_def)
  have abrt: "spec tk (activated tk n r 0) (abort E c h ld e) (start_post tk)" if "ld \<le> r" "e \<noteq> RotReconciliationRequired" for ld e
    by (rule spec_abort [OF that(1) _ that(2)]) simp
  have swap: "spec tk (activated tk n r 0) (start_swap L E co c cc req h attempt ld) (start_post tk)" if "ld \<le> r" for cc ld
    unfolding tk_def by (rule spec_start_swap [OF that assms(3)])
  have fail: "spec tk (activated tk n r 0) (do {
      err \<leftarrow> rollbackBeforeLocalDeadline E (WithoutCancel c) (rh_participant h) ld;
      if err = None
      then do {
        callerErr \<leftarrow> RotContextError E c;
        ret (zero_result, Some (case callerErr of Some e \<Rightarrow> e | None \<Rightarrow> RotUnavailable))
      }
      else ret (ReconciliationResult h) }) (start_post tk)" if "ld \<le> r" for ld
  proof (rule spec_bind [OF spec_activated_rollback [OF that]])
    fix err :: "gw_error option"
    let ?P = "\<lambda>w. if err = None then undone tk 0 w else activated tk n r 0 w \<or> undone tk 0 w"
    show "spec tk ?P (if err = None then do {
        callerErr \<leftarrow> RotContextError E c;
        ret (zero_result, Some (case callerErr of Some e \<Rightarrow> e | None \<Rightarrow> RotUnavailable))
      } else ret (ReconciliationResult h)) (start_post tk)"
    proof (cases err)
      case None
      have "spec tk (undone tk 0) (do { callerErr \<leftarrow> RotContextError E c;
          ret (zero_result, Some (case callerErr of Some e \<Rightarrow> e | None \<Rightarrow> RotUnavailable)) }) (start_post tk)"
        by (rule spec_quiet_bind [OF quiet_context_errors(2) undisturbed_undone], rule spec_ret [OF undisturbed_undone])
          (auto simp: start_post_def undone_def split: option.split)
      with None show ?thesis by simp
    next
      case (Some e)
      then show ?thesis using spec_after_rollback [of 0 RotUnavailable tk err n r h] by simp
    qed
  qed
  have go: "spec tk (activated tk n r 0) (do {
       callerErr \<leftarrow> (if ce \<noteq> None then ret ce else RotContextError E c);
       f callerErr }) (start_post tk)"
    if "\<And>x. appends (f x)" "\<And>x. x \<in> {None, Some RotCanceled, Some RotDeadlineExceeded} \<Longrightarrow> spec tk (activated tk n r 0) (f x) (start_post tk)" for f
    by (rule spec_returns_bind [where R = "\<lambda>x. x \<in> {None, Some RotCanceled, Some RotDeadlineExceeded}", OF _ A _ that])
      (use assms(4) RotContextError_returns in \<open>auto intro!: quiet_rules returns_ret\<close>)
  show ?thesis unfolding start_activated_def
  proof (rule spec_option [OF give_up], rule go)
    fix ld x assume "LocalDeadline a (pa_activatedAt attempt) (pa_retirementDeadline attempt) = Some ld"
    then have ld: "ld \<le> r" using LocalDeadline_exact assms(2) by simp
    assume "x \<in> {None, Some RotCanceled, Some RotDeadlineExceeded}"
    then show "spec tk (activated tk n r 0) (case x of
        None \<Rightarrow> do {
              now \<leftarrow> time_Now E;
              if IsZero now
                 \<or> Sub ld now \<le> gatewayDestinationTokenRotationCASLimit
                     + gatewayDestinationTokenRotationDiscardLimit + gatewayDestinationTokenRotationRecoveryLimit
              then abort E c h ld RotUnavailable
              else do {
                let casDeadline = EarliestDeadline (now + gatewayDestinationTokenRotationCASLimit)
                      (ld - gatewayDestinationTokenRotationDiscardLimit - gatewayDestinationTokenRotationRecoveryLimit);
                let casDeadline = (case cx_Deadline c of None \<Rightarrow> casDeadline | Some d \<Rightarrow> EarliestDeadline casDeadline d);
                b \<leftarrow> BoundedContext E (Some c) casDeadline;
                case b of
                  None \<Rightarrow> do {
                    err \<leftarrow> rollbackBeforeLocalDeadline E (WithoutCancel c) (rh_participant h) ld;
                    if err = None
                    then do {
                      callerErr \<leftarrow> RotContextError E c;
                      ret (zero_result, Some (case callerErr of Some e \<Rightarrow> e | None \<Rightarrow> RotUnavailable))
                    }
                    else ret (ReconciliationResult h)
                  }
                | Some casCtx \<Rightarrow> start_swap L E co c casCtx req h attempt ld
              }
            }
      | Some e \<Rightarrow> abort E c h ld e) (start_post tk)"
      unfolding Let_def
      by (intro spec_option spec_quiet_bind [OF quiet_reads(1) A] spec_if spec_quiet_bind [OF quiet_BoundedContext A]
            abrt [OF ld] fail [OF ld] swap [OF ld]) auto
  qed (auto simp: Let_def intro!: appends_rules)
qed

text \<open>What the call that begins an attempt leaves.\<close>

definition begin_post :: "(DestV1 \<Rightarrow> string option) \<Rightarrow> instant \<Rightarrow> ParticipantAttempt \<times> gw_error option \<Rightarrow> gw_world \<Rightarrow> bool" where
  "begin_post tk a x w = (case x of
     (attempt, None) \<Rightarrow> \<exists>r. activated tk (pa_newToken attempt) r 0 w
        \<and> a + (pa_retirementDeadline attempt - pa_activatedAt attempt) \<le> r
   | (attempt, Some e) \<Rightarrow> idle tk w \<or> (\<exists>n r. activated tk n r 0 w) \<and> (handle_valid (pa_handle attempt) \<or> \<not> fixed_error e))"

lemma undisturbed_begin_post: "undisturbed tk (begin_post tk a x)"
proof -
  obtain att e where x: "x = (att, e)" by fastforce
  show ?thesis
  proof (cases e)
    case None
    then show ?thesis unfolding x begin_post_def prod.case
      by (simp only: option.case) (intro undisturbed_ex undisturbed_pure undisturbed_activated)
  next
    case (Some e')
    then show ?thesis unfolding x begin_post_def prod.case
      by (simp only: option.case) (intro undisturbed_disj undisturbed_idle undisturbed_ex undisturbed_pure undisturbed_activated)
  qed
qed

lemma activate_activated:
  "idle tk w \<Longrightarrow> activate tk old new retire w w' \<Longrightarrow> activated tk new (retire - w_skew w) 0 w'"
  by (auto simp: idle_def activate_def activated_def ours_def safe_def row_free_def row_token_def local_retirement_def)

lemma activated_tick: "activated tk n r k w \<Longrightarrow> tick_to t w w' \<Longrightarrow> activated tk n r k w'"
  using undisturbed_activated [of tk n r k] other_step.tick [of w t tk] unfolding undisturbed_def tick_to_def by blast

lemma spec_BeginRotation:
  "spec tk (\<lambda>w. idle tk w \<and> a \<le> w_clock w) (BeginRotation E c rq) (begin_post tk a)"
  unfolding BeginRotation_def
proof (rule spec_ask [OF undisturbed_clock [OF undisturbed_idle] undisturbed_begin_post])
  fix x w w' assume w: "idle tk w \<and> a \<le> w_clock w" and act: "act tk w (EvBegin rq x) w'"
  obtain att e where x: "x = (att, e)" by fastforce
  show "begin_post tk a x w'"
  proof (cases e)
    case None
    with act x obtain t t' w1 where t: "w_clock w \<le> t" "pa_activatedAt att = t + w_skew w" "tick_to t' w1 w'"
      "activate tk (br_currentToken rq) (pa_newToken att) (pa_retirementDeadline att) w w1" by auto
    with w have "activated tk (pa_newToken att) (pa_retirementDeadline att - w_skew w) 0 w'"
      using activate_activated activated_tick by blast
    with t w x None show ?thesis by (auto simp: begin_post_def intro!: exI [of _ "pa_retirementDeadline att - w_skew w"])
  next
    case (Some e')
    with act x consider "w' = w" | new retire where "handle_valid (pa_handle att) \<or> \<not> fixed_error e'"
      "activate tk (br_currentToken rq) new retire w w'" by auto
    then show ?thesis
    proof cases
      case 1
      then show ?thesis using w x Some by (simp add: begin_post_def)
    next
      case 2
      then show ?thesis using w x Some activate_activated [OF _ 2(2)] unfolding begin_post_def by auto
    qed
  qed
qed

lemma begin_post_error:
  assumes "begin_post tk a (attempt, Some e) w"
  shows "start_post tk (if handle_valid (pa_handle attempt) then ReconciliationResult h else (zero_result, Some (BeginError e))) w"
proof -
  have "\<not> fixed_error e \<Longrightarrow> BeginError e = RotReconciliationRequired" by (auto simp: BeginError_def)
  moreover have "idle tk w \<Longrightarrow> safe tk w" by (rule undisturbed_safe [OF undisturbed_idle])
  ultimately show ?thesis using assms
    by (auto simp: begin_post_def start_post_def ReconciliationResult_def idle_def activated_def ours_def)
qed

lemma spec_idle_error:
  "spec tk (idle tk) (ret (zero_result, Some e)) (start_post tk)"
  by (rule spec_ret [OF undisturbed_idle]) (use undisturbed_safe [OF undisturbed_idle] in \<open>auto simp: start_post_def idle_def\<close>)

lemma appends_start_activated [appends_rules]: "appends (start_activated L E co c req h attempt a ce)"
  unfolding start_activated_def Let_def by (intro appends_rules)

text \<open>After that call: an error, an attempt that is not usable, or one that is.\<close>

lemma spec_begin_error:
  "spec tk (begin_post tk a (attempt, Some e))
     (ret (if handle_valid (pa_handle attempt) then ReconciliationResult h else (zero_result, Some (BeginError e)))) (start_post tk)"
proof (rule spec_ret [OF undisturbed_begin_post])
  fix w assume "begin_post tk a (attempt, Some e) w"
  then show "start_post tk (if handle_valid (pa_handle attempt) then ReconciliationResult h else (zero_result, Some (BeginError e))) w"
    by (rule begin_post_error)
qed

lemma spec_begin_invalid:
  "spec tk (begin_post tk a (attempt, None))
     (ret (if b then ReconciliationResult h else (zero_result, Some RotReconciliationRequired))) (start_post tk)"
  by (rule spec_ret [OF undisturbed_begin_post])
    (auto simp: begin_post_def start_post_def ReconciliationResult_def activated_def ours_def)

lemma spec_begin_active:
  fixes L co
  defines "tk \<equiv> tokenFromAuthoritativeDestination L (co_matcher co)"
  assumes "ce \<in> {None, Some RotCanceled, Some RotDeadlineExceeded}"
  shows "spec tk (begin_post tk a (attempt, None)) (start_activated L E co c req h attempt a ce) (start_post tk)"
proof -
  let ?P = "\<lambda>r w. activated tk (pa_newToken attempt) r 0 w \<and> a + (pa_retirementDeadline attempt - pa_activatedAt attempt) \<le> r"
  have "spec tk (?P r) (start_activated L E co c req h attempt a ce) (start_post tk)" for r
    unfolding tk_def by (rule spec_pure [OF appends_start_activated spec_start_activated [OF _ refl assms(2)]])
  then have "spec tk (\<lambda>w. \<exists>r. ?P r w) (start_activated L E co c req h attempt a ce) (start_post tk)" by (rule spec_ex)
  moreover have "begin_post tk a (attempt, None) = (\<lambda>w. \<exists>r. ?P r w)" by (simp add: begin_post_def fun_eq_iff)
  ultimately show ?thesis by (simp only:)
qed

lemma spec_start_begin:
  fixes L co
  defines "tk \<equiv> tokenFromAuthoritativeDestination L (co_matcher co)"
  shows "spec tk (idle tk) (start_begin L E co c req prep) (start_post tk)"
proof -
  obtain audience destination oldToken where prep: "prep = (audience, destination, oldToken)" by (cases prep)
  let ?h = "\<lambda>attempt. \<lparr>rh_contactMethodID = sr_contactMethodID req, rh_participant = pa_handle attempt\<rparr>"
  let ?I = "\<lambda>a w. idle tk w \<and> a \<le> w_clock w"
  let ?g = "\<lambda>a attempt err ce. case err of
        Some e \<Rightarrow> ret (if handle_valid (pa_handle attempt) then ReconciliationResult (?h attempt) else (zero_result, Some (BeginError e)))
      | None \<Rightarrow>
          if \<not> attempt_valid attempt \<or> pa_newToken attempt = oldToken
          then ret (if handle_valid (pa_handle attempt) then ReconciliationResult (?h attempt)
                    else (zero_result, Some RotReconciliationRequired))
          else start_activated L E co c req (?h attempt) attempt a ce"
  have idleI: "undisturbed tk (?I a)" for a by (rule undisturbed_clock [OF undisturbed_idle])
  have fail: "spec tk (?I a) (ret (zero_result, Some e)) (start_post tk)" for a e
    by (rule spec_conseq [OF spec_idle_error]) auto
  have g: "spec tk (begin_post tk a (attempt, err)) (?g a attempt err ce) (start_post tk)"
    if "ce \<in> {None, Some RotCanceled, Some RotDeadlineExceeded}" for a attempt err ce
    by (cases err)
      (simp_all only: option.case tk_def spec_begin_error spec_if [OF spec_begin_invalid spec_begin_active [OF that]])
  have rest: "spec tk (begin_post tk a (attempt, err)) (RotContextError E bc \<bind> ?g a attempt err) (start_post tk)" for a attempt err bc
    by (rule spec_returns_bind [OF quiet_context_errors(2) undisturbed_begin_post RotContextError_returns _ g])
      (intro appends_rules)
  show ?thesis unfolding start_begin_def prep prod.case Let_def
  proof (rule spec_bind [OF spec_Now [OF undisturbed_idle]], rule spec_if [OF fail],
      rule spec_quiet_bind [OF quiet_BoundedContext idleI], rule spec_option,
      rule spec_quiet_bind [OF quiet_context_errors(2) idleI fail], rule spec_bind [OF spec_BeginRotation])
    fix a bc and x :: "ParticipantAttempt \<times> gw_error option"
    show "spec tk (begin_post tk a x) (case x of (attempt, err) \<Rightarrow> RotContextError E bc \<bind> ?g a attempt err) (start_post tk)"
      by (cases x) (simp only: prod.case rest)
  qed
qed

lemma spec_Start:
  fixes L co
  defines "tk \<equiv> tokenFromAuthoritativeDestination L (co_matcher co)"
  shows "spec tk (idle tk) (Start L E co c req) (start_post tk)"
  unfolding Start_def
proof (rule spec_quiet_bind [OF quiet_operationContext undisturbed_idle], rule spec_if)
  show "spec tk (idle tk) (ret (zero_result, err)) (start_post tk)" if "err \<noteq> None" for err
    using that spec_idle_error by auto
  show "spec tk (idle tk) (case prepareStart L (co_matcher co) req of None \<Rightarrow> ret (zero_result, Some RotInvalid)
      | Some prep \<Rightarrow> start_begin L E co (the c) req prep) (start_post tk)"
    unfolding tk_def by (rule spec_option [OF spec_idle_error spec_start_begin])
qed

lemma spec_inspect_operation:
  fixes L co
  defines "tk \<equiv> tokenFromAuthoritativeDestination L (co_matcher co)"
  assumes "p \<noteq> InspectUnknownCAS"
  shows "spec tk (begun tk r k) (do {
     err \<leftarrow> operationContext L E co c;
     if err \<noteq> None then ret (zero_result, err)
     else if \<not> Handle_valid h then ret (zero_result, Some RotInvalid)
     else inspectLocked L E co (the c) h p time_zero time_zero }) (\<lambda>x w. begun tk r k w \<and> verdict tk h p x w)"
proof -
  have inspect: "spec tk (begun tk r k) (inspectLocked L E co (the c) h p time_zero time_zero) (\<lambda>x w. begun tk r k w \<and> verdict tk h p x w)"
    unfolding tk_def by (rule spec_inspectLocked) (use assms(2) in simp)
  have fail: "spec tk (begun tk r k) (ret (zero_result, err)) (\<lambda>x w. begun tk r k w \<and> verdict tk h p x w)" if "err \<noteq> None" for err
    by (rule spec_ret [OF undisturbed_begun]) (use that assms(2) in auto)
  show ?thesis
    by (rule spec_quiet_bind [OF quiet_operationContext undisturbed_begun]) (intro spec_if fail inspect; simp)
qed

end
