(* ===== verification/GatewayCAS.thy ===== *)
theory GatewayCAS
  imports GatewaySwap
begin

section \<open>The result of a compare-and-swap\<close>

text \<open>
  What the unfenced \<open>CompareAndSwap\<close> reports about its conditional update, for every behaviour of the
  database: the updates of a run are the events \<open>EvUpdate\<close> of its log.
\<close>

definition updates :: "event list \<Rightarrow> event list" where
  "updates es = filter (\<lambda>e. case e of EvUpdate _ _ _ _ \<Rightarrow> True | _ \<Rightarrow> False) es"

lemma updates_simps [simp]:
  "updates [] = []" "updates (es @ es') = updates es @ updates es'"
  "updates (EvCtxErr x # es) = updates es" "updates (EvAcquire y # es) = updates es" "updates (EvRaw z # es) = updates es"
  "updates (EvClose # es) = updates es" "updates (EvUpdate cm d d' r # es) = EvUpdate cm d d' r # updates es"
  by (simp_all add: updates_def)

text \<open>What one update with the result \<open>r\<close> is reported as.\<close>

definition update_report :: "db_error + int option \<Rightarrow> gw_error option" where
  "update_report r = (case r of
     Inl e \<Rightarrow> Some (classifyExecutionError e)
   | Inr None \<Rightarrow> Some CASOutcomeUnknown
   | Inr (Some n) \<Rightarrow> if n = 0 then Some CASConflict else if n = 1 then None else Some CASUnavailable)"

lemma update_report_simps [simp]:
  "update_report (Inl e) = Some (classifyExecutionError e)" "update_report (Inr None) = Some CASOutcomeUnknown"
  "update_report (Inr (Some n)) = (if n = 0 then Some CASConflict else if n = 1 then None else Some CASUnavailable)"
  by (simp_all add: update_report_def)

lemma classify_range: "classifyExecutionError e \<in> {CASUnavailable, CASOutcomeUnknown, CASConflict}"
  by (auto simp: classifyExecutionError_def split: option.split prod.split)

lemma run_asks [simp]: "run_state (ask f ev) l = (f (length l), l @ [ev (f (length l))])"
  by (simp add: ask_def Let_def)

lemmas cas_ports = CASContextError_def ctx_Err_def acquire_def ContactMethodCompareAndSwapGatewayDest_def conn_Close_def
  discardConnection_def conn_Raw_Close_def

lemma prepare_expected: "CAS_prepare L m req = Some (expected, new) \<Longrightarrow> expected = NewWebhookDest (cr_expectedURL req)"
  by (auto simp: CAS_prepare_def Let_def split: if_splits option.splits)

lemma run_repository:
  assumes "run_state (CompareAndSwapGatewayDestination E (Some c) cm expected replacement) l = ((n, err), l')"
  shows "\<exists>es. l' = l @ es \<and>
    (updates es = [] \<and> err \<in> {Some CASUnavailable, Some CASCanceled, Some CASDeadlineExceeded}
     \<or> (\<exists>r. updates es = [EvUpdate cm replacement expected r]
          \<and> (case err of None \<Rightarrow> r = Inr (Some n) | Some e \<Rightarrow> update_report r = Some e \<and> (\<forall>k. r \<noteq> Inr (Some k)))))"
  using assms unfolding CompareAndSwapGatewayDestination_def cas_ports
  by (auto split: prod.splits option.splits sum.splits if_splits ctx_err.splits)

end
