(* ===== verification/GatewayResult.thy ===== *)
theory GatewayResult
  imports GatewayStart GatewayCAS
begin

section \<open>Rotations are safe\<close>

text \<open>
  The theorems on \<open>Start\<close>, \<open>Reconcile\<close>, \<open>Finalize\<close> and the unfenced \<open>CompareAndSwap\<close>, and one environment in which a rotation is
  started, reconciled and finalized without a failure.
\<close>

text \<open>What a specification says of a run from the empty log.\<close>

lemma spec_run:
  assumes "spec tk P m Q" "run_state m [] = (x, es)" "P w"
  shows "\<forall>es1 es2 v. es = es1 @ es2 \<longrightarrow> explains tk w es1 v \<longrightarrow> safe tk v" "explains tk w es w' \<Longrightarrow> Q x w'"
proof -
  from assms(1) [unfolded spec_def, rule_format, OF assms(2)] obtain es' where "es = [] @ es'"
    "\<forall>w. P w \<longrightarrow> (\<forall>es1 es2 w'. es' = es1 @ es2 \<longrightarrow> explains tk w es1 w' \<longrightarrow> safe tk w')
       \<and> (\<forall>w'. explains tk w es' w' \<longrightarrow> Q x w')" by blast
  with assms(3) show "\<forall>es1 es2 v. es = es1 @ es2 \<longrightarrow> explains tk w es1 v \<longrightarrow> safe tk v"
    "explains tk w es w' \<Longrightarrow> Q x w'" by simp_all
qed

subsection \<open>A rotation that succeeds\<close>

definition wit_lib :: lib where
  "wit_lib = \<lparr>url_Parse = (\<lambda>s. Some \<lparr>url_Scheme = ''https'', url_Opaque = '''', url_User = False, url_Host = ''gw'',
       url_Path = drop 10 s, url_RawPath = '''', url_ForceQuery = False, url_RawQuery = '''', url_Fragment = '''', url_RawFragment = ''''\<rparr>),
     url_String = (\<lambda>u. ''https://gw'' @ url_Path u), ToLower = (\<lambda>s. s), uuid_Parse = Some\<rparr>"

definition wit_old :: string where "wit_old = ''mso1_AAAAAAAAAAAAAAAAAAAAAAAAAAAAAAAAAAAAAAAAAAA''"
definition wit_new :: string where "wit_new = ''mso1_BAAAAAAAAAAAAAAAAAAAAAAAAAAAAAAAAAAAAAAAAAA''"
definition wit_url :: "string \<Rightarrow> string" where "wit_url token = ''https://gw/v1/goalert/contact-method/'' @ token"
definition wit_cm :: string where "wit_cm = ''00000000-0000-0000-0000-000000000001''"

definition wit_matcher :: GatewayTargetMatcher where
  "wit_matcher = \<lparr>gm_hostname = ''gw'', gm_effectivePort = ''443''\<rparr>"

definition wit_co :: Coordinator where
  "wit_co = \<lparr>co_matcher = Some wit_matcher, co_cas = True, co_store = True, co_participant = True, co_monotonicNow = True\<rparr>"

definition wit_ctx :: ctx where "wit_ctx = \<lparr>cx_System = True, cx_Deadline = None\<rparr>"

definition wit_req :: StartRequest where
  "wit_req = \<lparr>sr_contactMethodID = wit_cm, sr_expectedURL = wit_url wit_old, sr_audience = wit_cm, sr_destination = wit_cm\<rparr>"

definition wit_attempt :: ParticipantAttempt where
  "wit_attempt = \<lparr>pa_handle = ''h'', pa_newToken = wit_new, pa_activatedAt = 1000, pa_retirementDeadline = 1000 + Hour\<rparr>"

text \<open>The environment: the clock starts at \<open>t\<close>, the row holds the destination \<open>d\<close>.\<close>

definition wit_env :: "instant \<Rightarrow> DestV1 \<Rightarrow> env" where
  "wit_env t d = \<lparr>e_now = (\<lambda>_. t), e_ctxErr = (\<lambda>_. None), e_begin = (\<lambda>_. (wit_attempt, None)),
     e_observe = (\<lambda>_. (\<lparr>ob_state = ActiveWithRetiring, ob_identity = TokenNew, ob_observedAt = t, ob_retirementDeadline = 1000 + Hour\<rparr>, None)),
     e_rollback = (\<lambda>_. None), e_finalize = (\<lambda>_. None), e_acquire = (\<lambda>_. (True, None)), e_beginTx = (\<lambda>_. (True, None)),
     e_select = (\<lambda>_. Inr d), e_update = (\<lambda>_. Inr (Some 1)), e_commit = (\<lambda>_. None), e_txRollback = (\<lambda>_. None),
     e_raw = (\<lambda>_. (True, True, True))\<rparr>"

definition wit_handle :: RotationHandle where "wit_handle = \<lparr>rh_contactMethodID = wit_cm, rh_participant = ''h''\<rparr>"

definition wit_idle :: gw_world where
  "wit_idle = \<lparr>w_row = Some (NewWebhookDest (wit_url wit_old)), w_lock = False, w_pend = None, w_limbo = None, w_gw = GwIdle,
     w_old = '''', w_new = '''', w_retire = 0, w_clock = 1000, w_skew = 0, w_shared = False, w_swaps = 0, w_late = False\<rparr>"

definition wit_active :: "instant \<Rightarrow> gw_world" where
  "wit_active t = \<lparr>w_row = Some (NewWebhookDest (wit_url wit_new)), w_lock = False, w_pend = None, w_limbo = None, w_gw = GwActive,
     w_old = wit_old, w_new = wit_new, w_retire = 1000 + Hour, w_clock = t, w_skew = 0, w_shared = False, w_swaps = 1, w_late = False\<rparr>"

abbreviation "wit_tk \<equiv> tokenFromAuthoritativeDestination wit_lib (Some wit_matcher)"

lemmas wit_defs = wit_lib_def wit_url_def wit_cm_def wit_matcher_def wit_co_def wit_ctx_def wit_req_def wit_attempt_def wit_env_def
  wit_handle_def wit_idle_def wit_active_def

lemma wit_tokens: "validGatewayToken wit_old" "validGatewayToken wit_new" "wit_old \<noteq> wit_new"
  by code_simp+

definition wit_target :: "string \<Rightarrow> URL" where
  "wit_target token = \<lparr>url_Scheme = ''https'', url_Opaque = '''', url_User = False, url_Host = ''gw'',
     url_Path = gatewayContactMethodPathPrefix @ token, url_RawPath = '''', url_ForceQuery = False, url_RawQuery = '''',
     url_Fragment = '''', url_RawFragment = ''''\<rparr>"

lemma wit_parse [simp]:
  "url_Parse wit_lib (wit_url token) = Some (wit_target token)" "url_String wit_lib (wit_target token) = wit_url token"
  by (simp_all add: wit_lib_def wit_url_def wit_target_def gatewayContactMethodPathPrefix_def)

lemma wit_Match:
  "Match wit_lib (Some wit_matcher) (wit_target wit_old) = Some (gatewayContactMethodPathPrefix @ wit_old)"
  "Match wit_lib (Some wit_matcher) (wit_target wit_new) = Some (gatewayContactMethodPathPrefix @ wit_new)"
  by code_simp+

lemma wit_prepareStart: "prepareStart wit_lib (Some wit_matcher) wit_req = Some (wit_cm, wit_cm, wit_old)"
  by code_simp

lemma wit_valid: "Matcher_valid wit_lib (Some wit_matcher)" "attempt_valid wit_attempt" "wit_cm \<noteq> uuid_Nil" "Handle_valid wit_handle"
  by code_simp+

lemma wit_token:
  "wit_tk (NewWebhookDest (wit_url wit_old)) = Some wit_old" "wit_tk (NewWebhookDest (wit_url wit_new)) = Some wit_new"
  by (simp_all add: tokenFromAuthoritativeDestination_def NewWebhookDest_def Dest_Arg_def wit_Match wit_tokens)

lemma wit_prepare:
  "CAS_prepare wit_lib (Some wit_matcher)
     \<lparr>cr_contactMethodID = wit_cm, cr_expectedURL = wit_url wit_old, cr_replacementToken = wit_new\<rparr>
   = Some (NewWebhookDest (wit_url wit_old), NewWebhookDest (wit_url wit_new))"
proof -
  have "wit_url wit_old \<noteq> ''''" "wit_new \<noteq> ''''" "HasSuffix (wit_url wit_old) wit_old"
    "TrimSuffix (wit_url wit_old) wit_old @ wit_new = wit_url wit_new" by code_simp+
  then show ?thesis using wit_tokens by (simp add: CAS_prepare_def wit_Match wit_valid)
qed

lemmas port_defs = time_Now_def ctx_Err_def BeginRotation_def ObserveRotation_def RollbackRotation_def FinalizeRotation_def
  acquire_def conn_BeginTx_def ContactMethodFindOneUpdate_def ContactMethodCompareAndSwapGatewayDest_def tx_Commit_def
  tx_Rollback_def conn_Raw_Close_def conn_Close_def

lemmas small_defs = RotContextError_def CASContextError_def BoundedContext_def IsZero_def time_zero_def WithDeadline_def
  WithoutCancel_def EarliestDeadline_def Let_def

lemma wit_env_simps [simp]:
  "e_now (wit_env t d) i = t" "e_ctxErr (wit_env t d) i = None" "e_begin (wit_env t d) i = (wit_attempt, None)"
  "e_observe (wit_env t d) i = (\<lparr>ob_state = ActiveWithRetiring, ob_identity = TokenNew, ob_observedAt = t, ob_retirementDeadline = 1000 + Hour\<rparr>, None)"
  "e_finalize (wit_env t d) i = None" "e_acquire (wit_env t d) i = (True, None)" "e_beginTx (wit_env t d) i = (True, None)"
  "e_select (wit_env t d) i = Inr d" "e_update (wit_env t d) i = Inr (Some 1)" "e_commit (wit_env t d) i = None"
  "e_txRollback (wit_env t d) i = None"
  by (simp_all add: wit_env_def)

lemma wit_run_cas:
  assumes "1000 < dl"
  shows "run_state (FencedCAS_CompareAndSwap wit_lib (Some wit_matcher) (wit_env 1000 d) \<lparr>cx_System = True, cx_Deadline = Some dl\<rparr>
     \<lparr>cr_contactMethodID = wit_cm, cr_expectedURL = wit_url wit_old, cr_replacementToken = wit_new\<rparr>) l
   = (None, l @ [EvCtxErr None, EvCtxErr None, EvNow 1000, EvAcquire (True, None), EvBeginTx (True, None), EvSelect wit_cm (Inr d),
        EvUpdate wit_cm (NewWebhookDest (wit_url wit_new)) (NewWebhookDest (wit_url wit_old)) (Inr (Some 1)),
        EvCommit None, EvCtxErr None, EvClose])"
  using assms by (simp add: FencedCAS_CompareAndSwap_def compareAndSwapWithFence_def fenced_tx_def fenced_update_def fenced_commit_def
    port_defs small_defs wit_prepare wit_valid)

abbreviation "wit_dest token \<equiv> NewWebhookDest (wit_url token)"

lemma wit_run_start:
  "run_state (Start wit_lib (wit_env 1000 (wit_dest wit_old)) wit_co (Some wit_ctx) wit_req) []
   = ((RotationResult PendingFinalization wit_handle, None),
      [EvCtxErr None, EvNow 1000, EvCtxErr None, EvNow 1000, EvCtxErr None,
       EvBegin \<lparr>br_audience = wit_cm, br_destination = wit_cm, br_currentToken = wit_old\<rparr> (wit_attempt, None),
       EvCtxErr None, EvCtxErr None, EvNow 1000, EvCtxErr None, EvNow 1000, EvCtxErr None,
       EvCtxErr None, EvCtxErr None, EvNow 1000, EvAcquire (True, None), EvBeginTx (True, None), EvSelect wit_cm (Inr (wit_dest wit_old)),
       EvUpdate wit_cm (wit_dest wit_new) (wit_dest wit_old) (Inr (Some 1)),
       EvCommit None, EvCtxErr None, EvClose, EvCtxErr None])"
proof -
  have "wit_new \<noteq> wit_old" using wit_tokens by simp
  moreover have "sr_contactMethodID wit_req = wit_cm" "sr_expectedURL wit_req = wit_url wit_old" by (simp_all add: wit_req_def)
  moreover have "pa_newToken wit_attempt = wit_new" "pa_handle wit_attempt = ''h''" "pa_activatedAt wit_attempt = 1000"
    "pa_retirementDeadline wit_attempt = 1000 + Hour" by (simp_all add: wit_attempt_def)
  moreover have "LocalDeadline 1000 1000 (1000 + Hour) = Some (1000 + Hour)" by code_simp
  ultimately show ?thesis
    by (simp add: Start_def operationContext_def start_begin_def start_activated_def start_swap_def port_defs small_defs
      wit_prepareStart wit_valid wit_co_def wit_ctx_def wit_run_cas wit_handle_def Sub_def)
qed

subsection \<open>Events without interference\<close>

lemma explains_actI: "act tk w e w1 \<Longrightarrow> explains tk w1 es w' \<Longrightarrow> explains tk w (e # es) w'"
  by auto

lemma explains_quietsI: "list_all (\<lambda>e. act tk w e w) es \<Longrightarrow> explains tk w es' w' \<Longrightarrow> explains tk w (es @ es') w'"
  by (induction es) auto

lemma tick_to_same: "w_clock w = t \<Longrightarrow> tick_to t w w"
  by (simp add: tick_to_def)

lemma wit_explains_start:
  assumes "run_state (Start wit_lib (wit_env 1000 (wit_dest wit_old)) wit_co (Some wit_ctx) wit_req) [] = (x, es)"
  shows "explains wit_tk wit_idle es (wit_active 1000)"
proof -
  let ?tk = wit_tk and ?rq = "\<lparr>br_audience = wit_cm, br_destination = wit_cm, br_currentToken = wit_old\<rparr>"
  let ?w1 = "wit_idle\<lparr>w_gw := GwActive, w_old := wit_old, w_new := wit_new, w_retire := 1000 + Hour\<rparr>"
  let ?w3 = "?w1\<lparr>w_lock := True, w_swaps := 1, w_pend := Some (wit_dest wit_new)\<rparr>"
  have fields: "w_row wit_idle = Some (wit_dest wit_old)" "w_clock wit_idle = 1000" "w_skew wit_idle = 0" "row_free wit_idle"
    "w_gw wit_idle = GwIdle" "w_swaps wit_idle = 0"
    by (simp_all add: wit_idle_def row_free_def)
  have activate: "activate ?tk wit_old wit_new (1000 + Hour) wit_idle ?w1"
    using wit_tokens wit_token by (simp add: activate_def row_token_def fields)
  have b: "act ?tk wit_idle (EvBegin ?rq (wit_attempt, None)) ?w1"
    unfolding act.simps
  proof (intro exI conjI)
    show "activate ?tk (br_currentToken ?rq) (pa_newToken wit_attempt) (pa_retirementDeadline wit_attempt) wit_idle ?w1"
      using activate by (simp add: wit_attempt_def)
    show "tick_to 1000 ?w1 ?w1" by (simp add: tick_to_def fields)
    show "w_clock wit_idle \<le> 1000" "(1000 :: int) \<le> 1000" "pa_activatedAt wit_attempt = 1000 + w_skew wit_idle"
      by (simp_all add: fields wit_attempt_def)
  qed
  have s: "act ?tk ?w1 (EvSelect wit_cm (Inr (wit_dest wit_old))) (?w1\<lparr>w_lock := True\<rparr>)" using fields by (simp add: row_free_def)
  have u: "act ?tk (?w1\<lparr>w_lock := True\<rparr>) (EvUpdate wit_cm (wit_dest wit_new) (wit_dest wit_old) (Inr (Some 1))) ?w3"
    by (simp add: fields Let_def)
  have c: "act ?tk ?w3 (EvCommit None) (wit_active 1000)" by (simp add: wit_idle_def wit_active_def)
  have "explains ?tk wit_idle ([EvCtxErr None, EvNow 1000, EvCtxErr None, EvNow 1000, EvCtxErr None] @
       EvBegin ?rq (wit_attempt, None) # [EvCtxErr None, EvCtxErr None, EvNow 1000, EvCtxErr None, EvNow 1000, EvCtxErr None,
       EvCtxErr None, EvCtxErr None, EvNow 1000, EvAcquire (True, None), EvBeginTx (True, None)] @
       EvSelect wit_cm (Inr (wit_dest wit_old)) # EvUpdate wit_cm (wit_dest wit_new) (wit_dest wit_old) (Inr (Some 1)) #
       EvCommit None # [EvCtxErr None, EvClose, EvCtxErr None] @ []) (wit_active 1000)"
    by (intro explains_quietsI explains_actI [OF b] explains_actI [OF s] explains_actI [OF u] explains_actI [OF c])
      (simp_all add: tick_to_same fields)
  with assms show ?thesis unfolding wit_run_start by simp
qed

lemma wit_tk_co: "wit_tk = tokenFromAuthoritativeDestination wit_lib (co_matcher wit_co)"
  by (simp add: wit_co_def)

text \<open>C20: \<open>Start\<close> is safe whatever fails on the way.  In every run from a world without an attempt, however
  its calls are explained and whatever others do in between: at every moment the row holds a token of the
  attempt only while the gateway knows that token; the row is updated at most once; no rollback is
  requested with a deadline after the retirement of the old token.  Without an error the result is
  pending finalization, the attempt is active, and the row is settled and does not hold the old token.
  With any error but \<open>RotReconciliationRequired\<close> there is no attempt or it is rolled back, and the row is settled.\<close>

theorem Start_correct:
  assumes "run_state (Start L E co c request) [] = ((res, err), es)"
    and "tk = tokenFromAuthoritativeDestination L (co_matcher co)"
    and "idle tk w" "explains tk w es w'"
  shows "(\<forall>es1 es2 v. es = es1 @ es2 \<longrightarrow> explains tk w es1 v \<longrightarrow> safe tk v)
    \<and> \<not> w_late w' \<and> w_swaps w' \<le> 1
    \<and> (err = None \<longrightarrow> rs_status res = PendingFinalization \<and> w_gw w' = GwActive \<and> row_free w' \<and> row_token tk w' \<noteq> Some (w_old w'))
    \<and> (\<forall>e. err = Some e \<longrightarrow> e \<noteq> RotReconciliationRequired \<longrightarrow> w_gw w' \<in> {GwIdle, GwRolledBack} \<and> row_free w')"
proof -
  have s: "spec tk (idle tk) (Start L E co c request) (start_post tk)" unfolding assms(2) by (rule spec_Start)
  from spec_run(2) [OF s assms(1,3,4)] spec_run(1) [OF s assms(1,3)] show ?thesis
    by (auto simp: start_post_def split: option.splits)
qed

theorem Start_correct_witness:
  "w_gw (wit_active 1000) = GwActive \<and> row_token wit_tk (wit_active 1000) \<noteq> Some (w_old (wit_active 1000))
   \<and> w_swaps (wit_active 1000) \<le> 1"
proof -
  have "idle wit_tk wit_idle" by (simp add: idle_def wit_idle_def row_free_def)
  from Start_correct [OF wit_run_start wit_tk_co this wit_explains_start [OF wit_run_start], THEN conjunct2] show ?thesis by simp
qed

lemma wit_run_inspect:
  "run_state (WithLockedGatewayDestination (wit_env t d) (Some wit_ctx) wit_cm f) l =
    (case run_state (f \<lparr>cx_System = True, cx_Deadline = Some (t + 5 * Second)\<rparr> d)
        (l @ [EvCtxErr None, EvNow t, EvCtxErr None, EvNow t, EvCtxErr None, EvAcquire (True, None), EvBeginTx (True, None),
         EvSelect wit_cm (Inr d)])
     of (x, l') \<Rightarrow> ((None, Some x), l' @ [EvTxRollback None, EvCtxErr None, EvClose]))"
  if "t + 5 * Second \<noteq> time_zero"
  using that by (simp add: WithLockedGatewayDestination_def locked_tx_def OperationContext_def port_defs small_defs wit_valid wit_ctx_def
      split: prod.split)

definition wit_row_events :: "instant \<Rightarrow> event list" where
  "wit_row_events t = [EvCtxErr None, EvNow t, EvNow t, EvObserve ''h'' wit_new
     (\<lparr>ob_state = ActiveWithRetiring, ob_identity = TokenNew, ob_observedAt = t, ob_retirementDeadline = 1000 + Hour\<rparr>, None)]"

lemma wit_run_row:
  assumes "t \<in> {2000, 1000 + Hour}"
  shows "run_state (inspect_row wit_lib (wit_env t (wit_dest wit_new)) wit_co wit_handle InspectReconcile time_zero time_zero
      \<lparr>cx_System = True, cx_Deadline = Some (t + 5 * Second)\<rparr> (wit_dest wit_new)) l
    = ((RotationResult PendingFinalization wit_handle, None), l @ wit_row_events t)"
    and "t = 1000 + Hour \<Longrightarrow> run_state (inspect_row wit_lib (wit_env t (wit_dest wit_new)) wit_co wit_handle InspectFinalize time_zero time_zero
      \<lparr>cx_System = True, cx_Deadline = Some (t + 5 * Second)\<rparr> (wit_dest wit_new)) l
    = ((RotationResult Completed wit_handle, None), l @ wit_row_events t @ [EvNow t, EvCtxErr None, EvFinalize ''h'' None])"
  using assms by (auto simp: inspect_row_def ValidLockContext_def observation_valid_def observationLocalDeadline_def reconcileLocked_def
     finalizeLocked_def port_defs small_defs wit_valid wit_co_def wit_token Sub_def wit_row_events_def wit_handle_def)

definition wit_lock_events :: "instant \<Rightarrow> event list" where
  "wit_lock_events t = [EvCtxErr None, EvCtxErr None, EvNow t, EvCtxErr None, EvNow t, EvCtxErr None, EvAcquire (True, None), EvBeginTx (True, None)]"

lemma wit_operation: "run_state (operationContext wit_lib (wit_env t d) wit_co (Some wit_ctx)) l = (None, l @ [EvCtxErr None])"
  by (simp add: operationContext_def RotContextError_def ctx_Err_def wit_co_def wit_ctx_def wit_valid)

lemma wit_handle_cm: "rh_contactMethodID wit_handle = wit_cm"
  by (simp add: wit_handle_def)

lemma wit_run_reconcile:
  "run_state (Reconcile wit_lib (wit_env 2000 (wit_dest wit_new)) wit_co (Some wit_ctx) wit_handle) []
   = ((RotationResult PendingFinalization wit_handle, None),
      wit_lock_events 2000 @ EvSelect wit_cm (Inr (wit_dest wit_new)) # wit_row_events 2000 @ EvTxRollback None # [EvCtxErr None, EvClose] @ [])"
  using wit_run_row(1) [of 2000]
  by (simp add: Reconcile_def inspectLocked_def wit_run_inspect wit_valid wit_handle_cm wit_operation wit_lock_events_def time_zero_def)

lemma wit_run_finalize:
  "run_state (Finalize wit_lib (wit_env (1000 + Hour) (wit_dest wit_new)) wit_co (Some wit_ctx) wit_handle) []
   = ((RotationResult Completed wit_handle, None),
      wit_lock_events (1000 + Hour) @ EvSelect wit_cm (Inr (wit_dest wit_new)) # (wit_row_events (1000 + Hour) @ [EvNow (1000 + Hour), EvCtxErr None])
      @ EvFinalize ''h'' None # EvTxRollback None # [EvCtxErr None, EvClose] @ [])"
  using wit_run_row(2) [of "1000 + Hour"]
  by (simp add: Finalize_def inspectLocked_def wit_run_inspect wit_valid wit_handle_cm wit_operation wit_lock_events_def time_zero_def)

lemma wit_begun: "begun wit_tk (1000 + Hour) 1 (wit_active t)"
  using wit_tokens wit_token by (simp add: begun_def wit_active_def safe_def row_token_def local_retirement_def)

lemma wit_locked:
  "list_all (\<lambda>e. act wit_tk (wit_active t) e (wit_active t)) (wit_lock_events t)"
  "act wit_tk (wit_active t) (EvSelect wit_cm (Inr (wit_dest wit_new))) ((wit_active t)\<lparr>w_lock := True\<rparr>)"
  "list_all (\<lambda>e. act wit_tk ((wit_active t)\<lparr>w_lock := True\<rparr>) e ((wit_active t)\<lparr>w_lock := True\<rparr>)) (wit_row_events t)"
  by (auto simp: wit_lock_events_def wit_row_events_def wit_active_def row_free_def tick_to_def observed_state_def identify_def)

text \<open>C21: \<open>Reconcile\<close> of an attempt is safe at every moment and updates nothing in the row.  Without an error its
  status is true: pending finalization only if the attempt is active (or completed by another actor that
  knows the handle) and the row, settled, does not hold the old token; rolled back or completed only if
  the gateway has done that.\<close>

theorem Reconcile_correct:
  assumes "run_state (Reconcile L E co c h) [] = ((res, err), es)"
    and "tk = tokenFromAuthoritativeDestination L (co_matcher co)"
    and "begun tk r k w" "explains tk w es w'"
  shows "(\<forall>es1 es2 v. es = es1 @ es2 \<longrightarrow> explains tk w es1 v \<longrightarrow> safe tk v)
    \<and> begun tk r k w'
    \<and> (err = None \<longrightarrow> rs_handle res = h \<and>
         (case rs_status res of
            PendingFinalization \<Rightarrow> (w_gw w' = GwActive \<or> w_shared w' \<and> w_gw w' = GwCompleted)
              \<and> row_token tk w' \<noteq> Some (w_old w') \<and> row_free w'
          | RolledBack \<Rightarrow> w_gw w' = GwRolledBack
          | Completed \<Rightarrow> w_gw w' = GwCompleted
          | _ \<Rightarrow> False))"
proof -
  have s: "spec tk (begun tk r k) (Reconcile L E co c h) (\<lambda>x w. begun tk r k w \<and> verdict tk h InspectReconcile x w)"
    unfolding assms(2) Reconcile_def by (rule spec_inspect_operation) simp
  from spec_run(2) [OF s assms(1,3,4)] spec_run(1) [OF s assms(1,3)] show ?thesis
    by (cases err) (auto simp: row_free_def begun_def split: Status.splits)
qed

theorem Reconcile_correct_witness:
  "w_gw (wit_active 2000) = GwActive \<and> row_token wit_tk (wit_active 2000) \<noteq> Some (w_old (wit_active 2000))"
proof -
  have u: "act wit_tk ((wit_active 2000)\<lparr>w_lock := True\<rparr>) (EvTxRollback None) (wit_active 2000)" by (simp add: wit_active_def)
  have "explains wit_tk (wit_active 2000)
      (wit_lock_events 2000 @ EvSelect wit_cm (Inr (wit_dest wit_new)) # wit_row_events 2000 @ EvTxRollback None # [EvCtxErr None, EvClose] @ [])
      (wit_active 2000)"
    by (intro explains_quietsI explains_actI [OF wit_locked(2)] explains_actI [OF u] wit_locked) simp_all
  from Reconcile_correct [OF wit_run_reconcile wit_tk_co wit_begun this, THEN conjunct2]
  have "(w_gw (wit_active 2000) = GwActive \<or> w_shared (wit_active 2000) \<and> w_gw (wit_active 2000) = GwCompleted)
      \<and> row_token wit_tk (wit_active 2000) \<noteq> Some (w_old (wit_active 2000))" by (simp add: RotationResult_def)
  then show ?thesis by (simp add: wit_active_def)
qed

text \<open>C22: \<open>Finalize\<close> of an attempt is safe at every moment, and without an error the gateway has completed the
  attempt while the row does not hold the old token.\<close>

theorem Finalize_correct:
  assumes "run_state (Finalize L E co c h) [] = ((res, err), es)"
    and "tk = tokenFromAuthoritativeDestination L (co_matcher co)"
    and "begun tk r k w" "explains tk w es w'"
  shows "(\<forall>es1 es2 v. es = es1 @ es2 \<longrightarrow> explains tk w es1 v \<longrightarrow> safe tk v)
    \<and> begun tk r k w'
    \<and> (err = None \<longrightarrow> res = RotationResult Completed h \<and> w_gw w' = GwCompleted \<and> row_token tk w' \<noteq> Some (w_old w'))"
proof -
  have s: "spec tk (begun tk r k) (Finalize L E co c h) (\<lambda>x w. begun tk r k w \<and> verdict tk h InspectFinalize x w)"
    unfolding assms(2) Finalize_def by (rule spec_inspect_operation) simp
  from spec_run(2) [OF s assms(1,3,4)] spec_run(1) [OF s assms(1,3)] show ?thesis
    by (cases err) (auto simp: RotationResult_def begun_def safe_def split: Status.splits)
qed

theorem Finalize_correct_witness:
  "row_token wit_tk ((wit_active (1000 + Hour))\<lparr>w_gw := GwCompleted\<rparr>) \<noteq> Some (w_old (wit_active (1000 + Hour)))"
proof -
  let ?w = "wit_active (1000 + Hour)"
  have f: "act wit_tk (?w\<lparr>w_lock := True\<rparr>) (EvFinalize ''h'' None) (?w\<lparr>w_lock := True, w_gw := GwCompleted\<rparr>)" by (simp add: wit_active_def)
  have u: "act wit_tk (?w\<lparr>w_lock := True, w_gw := GwCompleted\<rparr>) (EvTxRollback None) (?w\<lparr>w_gw := GwCompleted\<rparr>)" by (simp add: wit_active_def)
  have n: "list_all (\<lambda>e. act wit_tk (?w\<lparr>w_lock := True\<rparr>) e (?w\<lparr>w_lock := True\<rparr>)) [EvNow (1000 + Hour), EvCtxErr None]"
    by (simp add: wit_active_def tick_to_def)
  have "explains wit_tk ?w
      (wit_lock_events (1000 + Hour) @ EvSelect wit_cm (Inr (wit_dest wit_new)) # (wit_row_events (1000 + Hour) @ [EvNow (1000 + Hour), EvCtxErr None])
      @ EvFinalize ''h'' None # EvTxRollback None # [EvCtxErr None, EvClose] @ []) (?w\<lparr>w_gw := GwCompleted\<rparr>)"
    by (intro explains_quietsI explains_actI [OF wit_locked(2)] explains_actI [OF f] explains_actI [OF u] wit_locked)
      (use wit_locked n in simp_all)
  from Finalize_correct [OF wit_run_finalize wit_tk_co wit_begun this, THEN conjunct2] show ?thesis by simp
qed


lemma wit_run_unfenced:
  "run_state (URLCAS_CompareAndSwap wit_lib (Some wit_matcher) (wit_env 1000 d) (Some wit_ctx)
     \<lparr>cr_contactMethodID = wit_cm, cr_expectedURL = wit_url wit_old, cr_replacementToken = wit_new\<rparr>) []
   = (None, [EvCtxErr None, EvCtxErr None, EvAcquire (True, None), EvCtxErr None,
        EvUpdate wit_cm (wit_dest wit_new) (wit_dest wit_old) (Inr (Some 1)), EvClose])"
  by (simp add: URLCAS_CompareAndSwap_def CompareAndSwapGatewayDestination_def cas_ports wit_prepare wit_valid wit_ctx_def)


end
