(* ===== verification/Spec2Isabelle.thy ===== *)
theory Spec2Isabelle
  imports IsoDuration RotationManager OnCallRules ScheduleManager OnCallResult MessageDB CtxLock LifecycleLive LifecycleMulti GatewayResult
begin

section \<open>The on-call server\<close>

text \<open>
  The program is an on-call scheduling and notification server written in Go.  Schedules name who is
  on call: by rules over weekdays and clock times, whose target is a user or a rotation of users, by
  temporary schedules that replace the rules for a time, and by overrides that add, remove or replace
  a user.  An engine runs in cycles: it advances rotations, records who is on call now, and sends
  the messages that result, within rate limits.  A calculation of past and future shifts answers the
  queries of the user interface.

  \<^bold>\<open>How the parts interact.\<close>  All time arithmetic is that of \<open>util/timeutil\<close> on Go's \<open>time\<close>.
  \<open>schedule/rule\<close> and \<open>schedule/rotation\<close> compute the shifts of one rule and one rotation with it.
  \<open>engine/rotationmanager\<close> calls the rotation to find how often it has to advance, and
  \<open>engine/schedulemanager\<close> calls the rules and the temporary schedules of package \<open>schedule\<close> to
  compare who should be on call with who is recorded.  Package \<open>oncall\<close> calls the same rules,
  rotations and temporary schedules through its calculators, under one time iterator.
  \<open>engine/message\<close> loads the pending messages, drops and bundles repeated ones, and hands them out
  through a queue that asks two throttles.  \<open>ctxlock\<close> limits the goroutines that work for one ID.
  \<open>app/lifecycle\<close> starts, runs, pauses and shuts down the whole, engine and HTTP server included.
  A webhook destination at the gateway holds a token in its URL; \<open>notification/webhook\<close> rotates it
  in step with the gateway, across two systems that can each fail in the middle.

  \<^bold>\<open>Shared theories.\<close>
  \<^item> \<open>Prelude\<close>: outcomes of Go calls (a value, a returned error, a panic), sorting and binary search;
    the locale \<open>less_fun\<close> is the contract of a comparison passed to package \<open>sort\<close>.
  \<^item> \<open>GoTime\<close>: instants as nanoseconds since the epoch, locations as lists of transitions between
    offsets (so that clock changes are arbitrary), dates, truncation.

  \<^bold>\<open>Components.\<close>  Each theory holds the records, datatypes and operations of the named files, in their
  order, and then its lemmas.
  \<^item> \<open>Clock\<close> (\<open>util/timeutil/clock.go\<close>, \<open>math.go\<close>, \<open>weekday.go\<close>): \<open>FirstOfDay\<close> and \<open>LastOfDay\<close> return
    the first and last instant of a day at a clock time, on days with a clock change too.
  \<^item> \<open>WeekdayFilter\<close> (\<open>util/timeutil/weekdayfilter.go\<close>): the filter with its encodings.
  \<^item> \<open>IsoDuration\<close> (\<open>util/timeutil/isoduration.go\<close>, \<open>isorinterval.go\<close>): ISO 8601 durations and recurring
    intervals; their text forms read back, and the parser of intervals panics on empty parts.
  \<^item> \<open>Assignment\<close> (\<open>assignment\<close>) and \<open>Validate\<close> (\<open>validation\<close>, \<open>validation/validate\<close>): targets; field
    errors, their combination, and the validators; sanitized text passes its validator.
  \<^item> \<open>Rule\<close> (\<open>schedule/rule/rule.go\<close>): a rule is active exactly when the wall clock says so where the
    offset is fixed, its start and end bound one shift, and its database row reads back.
  \<^item> \<open>Rotation\<close> (\<open>schedule/rotation/rotation.go\<close>): the shift that contains an instant, for the
    clock-based and the monthly types, and where the code leaves its documented behaviour.
  \<^item> \<open>RotationManager\<close> (\<open>engine/rotationmanager/advance.go\<close>, \<open>update.go\<close>): the number of handoffs, the
    agreement of the two calculations, and what the job commits.
  \<^item> \<open>TempSchedule\<close> (\<open>schedule/temporaryschedule.go\<close>, \<open>fixedshift.go\<close> and the functions of the store
    on values): setting, deleting and merging refine one view of the data, who is on call at an
    instant.  The locale \<open>span_merge\<close> carries the merging of sorted spans for shifts and schedules.
  \<^item> \<open>OnCallRules\<close> (\<open>schedule/oncallnotificationrule.go\<close>, \<open>storeoncallnotifications.go\<close>): the
    identifiers given to notification rules, and the input on which the code panics.
  \<^item> \<open>ScheduleManager\<close> (\<open>engine/schedulemanager\<close>): what an update writes turns the recorded users into
    those on call, is idempotent, respects the staffing filter, and when notifications are due.
  \<^item> \<open>TimeIter\<close> (\<open>oncall/timeiterator.go\<close>): the iterator over the interface of its sub-iterators; the
    locale \<open>sub_iterator\<close> is their contract, under which a run visits every timestamp that is due.
  \<^item> \<open>OnCall\<close> (the calculators of package \<open>oncall\<close> and \<open>state.go\<close>): the calculators as objects in a
    heap, and \<open>CalculateShifts\<close>.  \<open>OnCallShifts\<close> interprets the contract of the iterator for them and
    gives the value of each calculator at a visited timestamp; \<open>OnCallSetup\<close> follows the
    constructors; \<open>ShiftRuns\<close> turns users at timestamps into shifts; \<open>OnCallResult\<close> composes them.
  \<^item> \<open>Throttle\<close>, \<open>MessageQueue\<close>, \<open>MessageDedup\<close>, \<open>MessageDB\<close> (\<open>engine/message\<close>): rate limits with the
    builder that configures them, the queue under its mutex, the removal of duplicates, and the
    loading of a cycle's queue.  The locales \<open>throttle_config\<close> and \<open>keep_best\<close> are the contracts of a
    configuration and of the loops that keep one message per key.
  \<^item> \<open>CtxLock\<close> (\<open>ctxlock\<close>): the goroutines that lock and unlock as a step relation with contexts
    that may end at any time; the limits and the absence of lost wake-ups are invariants.
  \<^item> \<open>Lifecycle\<close> (\<open>app/lifecycle/manager.go\<close>): the manager as steps of any number of goroutines.
    \<open>LifecycleInv\<close> relates the manager to the goroutines that start, stop, pause and resume the
    application and proves one step lemma for each program point; \<open>LifecycleSafe\<close> lifts them to all
    goroutines; \<open>LifecycleLive\<close> has the theorems on exclusion, on the absence of deadlocks, and on the
    races of pauses that overlap during the start-up.  \<open>LifecycleMulti\<close> (\<open>app/lifecycle/pauseresumer.go\<close>)
    joins resumers; the locale \<open>pause_resumer\<close> is the contract that the manager relies on and that the
    joined resumer is shown to keep.
  \<^item> \<open>GatewayTarget\<close>, \<open>GatewayPort\<close>, \<open>GatewayStore\<close>, \<open>GatewayRotation\<close> (\<open>notification/webhook/gateway_target.go\<close>,
    \<open>gateway_token_cas.go\<close>, \<open>gateway_token_rotation.go\<close>): the matcher of gateway URLs and tokens; the calls
    a rotation makes, as events of a log; the two compare-and-swaps and the locked read; the coordinator.
    \<open>GatewayWorld\<close> says what the calls mean for the row in PostgreSQL and the attempt at the gateway,
    with other actors in between, and holds a program logic for it.  \<open>GatewayLogic\<close>, \<open>GatewaySwap\<close>,
    \<open>GatewayInspect\<close> and \<open>GatewayStart\<close> prove the coordinator in that logic from the inside out;
    \<open>GatewayCAS\<close> is the unfenced swap, and \<open>GatewayResult\<close> has the theorems with one run that succeeds.

  \<^bold>\<open>Modelling.\<close>  Pointers that the code shares are addresses in explicit stores (throttle builders,
  calculators, rotations); values that are copied or used once are passed as values.  Integers are
  unbounded where the code cannot come near their width; \<open>int\<close> division and remainder are Go's.
  What the code takes from outside \<open>src/\<close> or leaves open is an argument: the clock, UUID parsing
  and printing, hashing, JSON, \<open>float64\<close> seconds and the text of times, queries, the order of map iteration, \<open>rand.Shuffle\<close>.  What PostgreSQL
  and the gateway do in a rotation is the relation \<open>explains\<close>, a hypothesis of its theorems: any outcome
  of a call that the code has to expect is allowed by it, errors after the effect included.

  \<^bold>\<open>Bounds and fuel.\<close>  The loops of the code that carry a limit (10000 rotation advances, 100000
  spans of a rule) keep it as their recursion argument, and reaching it is the panic of the code.
  Loops without a limit are \<open>partial_function (option)\<close>, where \<open>None\<close> is a loop that does not end
  (the version 1 calculation of a rotation, the search of \<open>ResolvedRotation.UserID\<close>), or take fuel:
  the sending loop has more fuel than messages, and \<open>CalculateShifts\<close> needs more fuel than seconds up
  to the end of the period; with it the theorems state that a result is returned.

  \<^bold>\<open>Not modelled.\<close>  SQL statements and the stores around them (only their effect on the modelled data
  is described), the HTTP, GraphQL, SMTP and chat interfaces, authentication, configuration, logging,
  generated code, the switch-over of databases, and the other managers of the engine, whose decisions
  are SQL.  Cancellation of contexts is modelled where the code branches on it.
\<close>

end
